(* ===== verification/Prelude.thy ===== *)
theory Prelude
  imports Main "HOL-Library.Word" "HOL-Library.Multiset" "HOL-Library.Signed_Division"
begin

text \<open>
  Shared material of the development: the machine types of the C++ sources, the part of
  \<^verbatim>\<open>std::string\<close> and of the C scanning and printing functions the sources call,
  the element swap of \<^verbatim>\<open>std::swap\<close>, and the generic lemmas on lists, maps and
  numbers that the component theories use.

  Positions and lengths of strings are \<^typ>\<open>nat\<close> below \<open>2 ^ 64\<close>; where the code relies on
  the wrap-around of \<^verbatim>\<open>size_t\<close> (\<^verbatim>\<open>npos + 1 == 0\<close>) the sum is
  \<open>size_add\<close> and the difference \<open>size_sub\<close>, both modulo \<open>2 ^ 64\<close>.
\<close>

named_theorems cpp_str \<open>evaluation of the string library on concrete shapes\<close>
named_theorems frame_simps \<open>fields an operation does not touch\<close>

section \<open>Machine types\<close>

type_synonym u8 = "8 word"
type_synonym u16 = "16 word"
type_synonym u32 = "32 word"
type_synonym u64 = "64 word"
type_synonym i64 = "64 word"

definition size_max :: nat where
  "size_max = 18446744073709551616"

definition npos :: nat where
  "npos = 18446744073709551615"

definition size_add :: "nat \<Rightarrow> nat \<Rightarrow> nat" where
  "size_add a b = (a + b) mod size_max"

definition size_sub :: "nat \<Rightarrow> nat \<Rightarrow> nat" where
  "size_sub a b = (a + (size_max - b)) mod size_max"

lemma size_add_small [simp]: "a + b < size_max \<Longrightarrow> size_add a b = a + b"
  by (simp add: size_add_def)

lemma size_sub_small [simp]: "b \<le> a \<Longrightarrow> a < size_max \<Longrightarrow> size_sub a b = a - b"
  by (simp add: size_sub_def mod_if)

lemma size_add_npos_1 [simp]: "size_add npos 1 = 0" "size_add npos (Suc 0) = 0"
  by (simp_all add: size_add_def npos_def size_max_def)

lemma npos_less_size_max: "npos < size_max" "npos = size_max - 1"
  by (simp_all add: npos_def size_max_def)

section \<open>Lists\<close>

definition swap_at :: "'a list \<Rightarrow> nat \<Rightarrow> nat \<Rightarrow> 'a list" where
  "swap_at xs i j = xs[i := xs ! j, j := xs ! i]"

lemma length_swap_at [simp]: "length (swap_at xs i j) = length xs"
  by (simp add: swap_at_def)

lemma mset_swap_at [simp]:
  "i < length xs \<Longrightarrow> j < length xs \<Longrightarrow> mset (swap_at xs i j) = mset xs"
  unfolding swap_at_def by (rule mset_swap)

lemma nth_swap_at:
  "i < length xs \<Longrightarrow> j < length xs \<Longrightarrow> k < length xs \<Longrightarrow>
   swap_at xs i j ! k = (if k = j then xs ! i else if k = i then xs ! j else xs ! k)"
  by (simp add: swap_at_def nth_list_update)

lemma find_upt_Some:
  "find P [a..<b] = Some i \<longleftrightarrow> a \<le> i \<and> i < b \<and> P i \<and> (\<forall>j. a \<le> j \<longrightarrow> j < i \<longrightarrow> \<not> P j)"
proof
  assume "find P [a..<b] = Some i"
  then obtain k where k: "k < b - a" "P (a + k)" "i = a + k" "\<forall>j<k. \<not> P (a + j)"
    by (auto simp: find_Some_iff)
  have "\<not> P j" if "a \<le> j" "j < i" for j
    using k(3,4) that by (metis add_diff_inverse_nat nat_add_left_cancel_less not_less)
  then show "a \<le> i \<and> i < b \<and> P i \<and> (\<forall>j. a \<le> j \<longrightarrow> j < i \<longrightarrow> \<not> P j)"
    using k by auto
next
  assume h: "a \<le> i \<and> i < b \<and> P i \<and> (\<forall>j. a \<le> j \<longrightarrow> j < i \<longrightarrow> \<not> P j)"
  then have "i - a < length [a..<b]" "P ([a..<b] ! (i - a))" "i = [a..<b] ! (i - a)"
    "\<forall>j < i - a. \<not> P ([a..<b] ! j)"
    by auto
  then show "find P [a..<b] = Some i"
    unfolding find_Some_iff by blast
qed

lemma find_upt_None:
  "find P [a..<b] = None \<longleftrightarrow> (\<forall>j. a \<le> j \<longrightarrow> j < b \<longrightarrow> \<not> P j)"
  by (auto simp: find_None_iff)

section \<open>The part of std::string the sources use\<close>

definition find_first_of :: "string \<Rightarrow> string \<Rightarrow> nat \<Rightarrow> nat" where
  "find_first_of s cs pos =
     (case find (\<lambda>i. s ! i \<in> set cs) [pos..<length s] of None \<Rightarrow> npos | Some i \<Rightarrow> i)"

definition find_last_of :: "string \<Rightarrow> string \<Rightarrow> nat" where
  "find_last_of s cs =
     (case find (\<lambda>i. s ! i \<in> set cs) (rev [0..<length s]) of None \<Rightarrow> npos | Some i \<Rightarrow> i)"

definition str_find :: "string \<Rightarrow> string \<Rightarrow> nat \<Rightarrow> nat" where
  "str_find s pat pos =
     (case find (\<lambda>i. i + length pat \<le> length s \<and> take (length pat) (drop i s) = pat)
             [pos..<Suc (length s)] of None \<Rightarrow> npos | Some i \<Rightarrow> i)"

text \<open>\<^verbatim>\<open>substr\<close> throws \<^verbatim>\<open>std::out_of_range\<close> past the end: \<open>None\<close>.\<close>

definition substr :: "string \<Rightarrow> nat \<Rightarrow> nat \<Rightarrow> string option" where
  "substr s pos n = (if length s < pos then None else Some (take n (drop pos s)))"

definition is_space :: "char \<Rightarrow> bool" where
  "is_space c = (c = CHR '' '' \<or> (9 \<le> (of_char c :: nat) \<and> (of_char c :: nat) \<le> 13))"

definition is_digit :: "char \<Rightarrow> bool" where
  "is_digit c = (48 \<le> (of_char c :: nat) \<and> (of_char c :: nat) \<le> 57)"

definition c_toupper :: "char \<Rightarrow> char" where
  "c_toupper c = (if 97 \<le> (of_char c :: nat) \<and> (of_char c :: nat) \<le> 122
                  then char_of ((of_char c :: nat) - 32) else c)"

definition c_tolower :: "char \<Rightarrow> char" where
  "c_tolower c = (if 65 \<le> (of_char c :: nat) \<and> (of_char c :: nat) \<le> 90
                  then char_of ((of_char c :: nat) + 32) else c)"

definition std_ltrim :: "string \<Rightarrow> string" where
  "std_ltrim s = dropWhile is_space s"

definition std_rtrim :: "string \<Rightarrow> string" where
  "std_rtrim s = rev (dropWhile is_space (rev s))"

lemma find_first_of_bounds:
  assumes "find_first_of s cs pos \<noteq> npos"
  shows "pos \<le> find_first_of s cs pos" "find_first_of s cs pos < length s"
    "s ! find_first_of s cs pos \<in> set cs"
    "\<And>j. pos \<le> j \<Longrightarrow> j < find_first_of s cs pos \<Longrightarrow> s ! j \<notin> set cs"
proof -
  obtain i where i: "find (\<lambda>i. s ! i \<in> set cs) [pos..<length s] = Some i"
    and eq: "find_first_of s cs pos = i"
    using assms by (auto simp: find_first_of_def split: option.splits)
  show "pos \<le> find_first_of s cs pos" "find_first_of s cs pos < length s"
    "s ! find_first_of s cs pos \<in> set cs"
    "\<And>j. pos \<le> j \<Longrightarrow> j < find_first_of s cs pos \<Longrightarrow> s ! j \<notin> set cs"
    using i unfolding eq find_upt_Some by auto
qed

lemma find_first_of_npos:
  assumes "length s < npos"
  shows "find_first_of s cs pos = npos \<longleftrightarrow> (\<forall>j. pos \<le> j \<longrightarrow> j < length s \<longrightarrow> s ! j \<notin> set cs)"
  using assms
  by (auto simp: find_first_of_def find_upt_Some find_upt_None split: option.splits)

lemma find_last_of_bounds:
  assumes "find_last_of s cs \<noteq> npos"
  shows "find_last_of s cs < length s" "s ! find_last_of s cs \<in> set cs"
    "\<And>j. find_last_of s cs < j \<Longrightarrow> j < length s \<Longrightarrow> s ! j \<notin> set cs"
proof -
  obtain i where i: "find (\<lambda>i. s ! i \<in> set cs) (rev [0..<length s]) = Some i"
    and eq: "find_last_of s cs = i"
    using assms by (auto simp: find_last_of_def split: option.splits)
  then obtain k where k: "k < length s" "s ! (rev [0..<length s] ! k) \<in> set cs"
    "i = rev [0..<length s] ! k" "\<forall>j<k. s ! (rev [0..<length s] ! j) \<notin> set cs"
    by (auto simp: find_Some_iff)
  have ik: "i = length s - Suc k" using k by (simp add: rev_nth)
  show "find_last_of s cs < length s" "s ! find_last_of s cs \<in> set cs"
    using k eq ik by (auto simp: rev_nth)
  fix j assume "find_last_of s cs < j" "j < length s"
  then have "length s - Suc j < k" using eq ik k(1) by linarith
  then have "s ! (rev [0..<length s] ! (length s - Suc j)) \<notin> set cs" using k(4) by blast
  then show "s ! j \<notin> set cs" using \<open>j < length s\<close> by (simp add: rev_nth)
qed

section \<open>Decimal printing and scanning\<close>

definition digit_char :: "nat \<Rightarrow> char" where
  "digit_char d = char_of (48 + d)"

definition digit_val :: "char \<Rightarrow> nat" where
  "digit_val c = of_char c - 48"

fun show_nat :: "nat \<Rightarrow> string" where
  "show_nat n = (if n < 10 then [digit_char n] else show_nat (n div 10) @ [digit_char (n mod 10)])"

declare show_nat.simps [simp del]

definition show_int :: "int \<Rightarrow> string" where
  "show_int i = (if i < 0 then CHR ''-'' # show_nat (nat (- i)) else show_nat (nat i))"

definition digits_val :: "string \<Rightarrow> nat" where
  "digits_val ds = foldl (\<lambda>a c. a * 10 + digit_val c) 0 ds"

text \<open>
  The \<^verbatim>\<open>%d\<close> conversion: skip white space, an optional sign, then at least one digit.
  \<open>None\<close> is a failed conversion; otherwise the value and the rest of the input. A value
  outside \<^verbatim>\<open>int\<close> is undefined in C and is the mathematical integer here.
\<close>

definition scan_int :: "string \<Rightarrow> (int \<times> string) option" where
  "scan_int s =
     (let t = dropWhile is_space s;
          neg = (t \<noteq> [] \<and> hd t = CHR ''-'');
          u = (if t \<noteq> [] \<and> (hd t = CHR ''-'' \<or> hd t = CHR ''+'') then tl t else t);
          ds = takeWhile is_digit u
      in if ds = [] then None
         else Some (if neg then - int (digits_val ds) else int (digits_val ds), dropWhile is_digit u))"

definition c_atoi :: "string \<Rightarrow> int" where
  "c_atoi s = (case scan_int s of None \<Rightarrow> 0 | Some (v, _) \<Rightarrow> v)"

lemma of_char_digit_char [simp]: "d < 10 \<Longrightarrow> (of_char (digit_char d) :: nat) = 48 + d"
  by (simp add: digit_char_def)

lemma digit_val_digit_char [simp]: "d < 10 \<Longrightarrow> digit_val (digit_char d) = d"
  by (simp add: digit_val_def)

lemma is_digit_digit_char [simp]: "d < 10 \<Longrightarrow> is_digit (digit_char d)"
  by (simp add: is_digit_def)

lemma show_nat_nonempty [simp]: "show_nat n \<noteq> []"
  by (subst show_nat.simps) simp

lemma show_nat_digits: "\<forall>c \<in> set (show_nat n). is_digit c"
proof (induction n rule: show_nat.induct)
  case (1 n)
  then show ?case by (subst show_nat.simps) auto
qed

lemma digits_val_snoc [simp]: "digits_val (ds @ [c]) = digits_val ds * 10 + digit_val c"
  by (simp add: digits_val_def)

lemma digits_val_show_nat [simp]: "digits_val (show_nat n) = n"
proof (induction n rule: show_nat.induct)
  case (1 n)
  show ?case
  proof (cases "n < 10")
    case True
    then show ?thesis by (subst show_nat.simps) (simp add: digits_val_def)
  next
    case False
    then show ?thesis using 1 by (subst show_nat.simps) simp
  qed
qed

lemma digit_not_space: "is_digit c \<Longrightarrow> \<not> is_space c"
  by (auto simp: is_digit_def is_space_def)

lemma digit_not_sign: "is_digit c \<Longrightarrow> c \<noteq> CHR ''-'' \<and> c \<noteq> CHR ''+''"
  by (auto simp: is_digit_def)

lemma show_nat_hd: "is_digit (hd (show_nat n))"
  using show_nat_digits[of n] hd_in_set[OF show_nat_nonempty] by blast

text \<open>What is printed is scanned back, up to the first character that is no digit.\<close>

lemma takeWhile_digits_show_nat:
  "rest = [] \<or> \<not> is_digit (hd rest) \<Longrightarrow> takeWhile is_digit (show_nat n @ rest) = show_nat n"
  using show_nat_digits[of n] by (cases rest) (auto simp: takeWhile_append)

lemma dropWhile_digits_show_nat:
  "rest = [] \<or> \<not> is_digit (hd rest) \<Longrightarrow> dropWhile is_digit (show_nat n @ rest) = rest"
  using show_nat_digits[of n] by (cases rest) (auto simp: dropWhile_append)

lemma scan_int_show_nat:
  assumes "rest = [] \<or> \<not> is_digit (hd rest)"
  shows "scan_int (show_nat n @ rest) = Some (int n, rest)"
proof -
  have h: "is_digit (hd (show_nat n @ rest))" using show_nat_hd by simp
  then have dw: "dropWhile is_space (show_nat n @ rest) = show_nat n @ rest"
    by (cases "show_nat n @ rest") (auto dest: digit_not_space)
  show ?thesis
    using digit_not_sign[OF h] takeWhile_digits_show_nat[OF assms, of n]
      dropWhile_digits_show_nat[OF assms, of n]
    by (simp add: scan_int_def dw Let_def)
qed

lemma scan_int_show_int:
  assumes "rest = [] \<or> \<not> is_digit (hd rest)"
  shows "scan_int (show_int i @ rest) = Some (i, rest)"
proof (cases "i < 0")
  case True
  have "\<not> is_space (CHR ''-'')" by (simp add: is_space_def)
  then show ?thesis
    using True takeWhile_digits_show_nat[OF assms, of "nat (- i)"]
      dropWhile_digits_show_nat[OF assms, of "nat (- i)"]
    by (simp add: show_int_def scan_int_def Let_def)
next
  case False
  then show ?thesis using scan_int_show_nat[OF assms, of "nat i"] by (simp add: show_int_def)
qed

lemma atoi_show_int: "c_atoi (show_int i) = i"
  using scan_int_show_int[of "[]" i] by (simp add: c_atoi_def)

end
