(* ===== verification/TopK.thy ===== *)
theory TopK
  imports Prelude
begin

text \<open>
  The sorting and top-k tools of \<^verbatim>\<open>src/topk\<close>: the sift-down routine of
  \<^verbatim>\<open>heapsort.cpp\<close> (\<open>adjust\<close>) and of \<^verbatim>\<open>main.cpp\<close> (\<open>adjustDown\<close>), the build
  and extraction loops, the heap sort program, the data generator and the top-k program,
  which reads its file with \<^verbatim>\<open>fscanf\<close> and \<^verbatim>\<open>feof\<close>. The locale \<open>sift_down\<close>
  is the contract the loops rely on; both routines interpret it.
\<close>

section \<open>The programs\<close>

text \<open>\<^verbatim>\<open>int* arr\<close> is a list; every access of the routines is below \<open>top_size\<close>.\<close>

function adjust :: "int list \<Rightarrow> nat \<Rightarrow> nat \<Rightarrow> int list" where
  "adjust arr top_size parent =
     (let child = parent * 2 + 1 in
      if child < top_size then
        (let child = (if child + 1 < top_size \<and> arr ! (child + 1) < arr ! child
                      then child + 1 else child) in
         if arr ! child < arr ! parent
         then adjust (swap_at arr child parent) top_size child
         else arr)
      else arr)"
  by pat_completeness auto
termination
  by (relation "measure (\<lambda>(arr, n, p). n - p)") (auto simp: Let_def split: if_splits)

function adjustDown :: "int list \<Rightarrow> nat \<Rightarrow> nat \<Rightarrow> int list" where
  "adjustDown arr top_size parent =
     (let child = parent * 2 + 1 in
      if child < top_size then
        (let child = (if child + 1 < top_size \<and> arr ! (child + 1) < arr ! child
                      then child + 1 else child) in
         if arr ! child < arr ! parent
         then adjustDown (swap_at arr parent child) top_size child
         else arr)
      else arr)"
  by pat_completeness auto
termination
  by (relation "measure (\<lambda>(arr, n, p). n - p)") (auto simp: Let_def split: if_splits)

declare adjust.simps [simp del] adjustDown.simps [simp del]

text \<open>\<^verbatim>\<open>for (int i = k; i >= 0; --i) sift(arr, size, i);\<close>\<close>

primrec build_loop :: "(int list \<Rightarrow> nat \<Rightarrow> nat \<Rightarrow> int list) \<Rightarrow> nat \<Rightarrow> nat \<Rightarrow> int list \<Rightarrow> int list" where
  "build_loop sift n 0 arr = sift arr n 0"
| "build_loop sift n (Suc i) arr = build_loop sift n i (sift arr n (Suc i))"

text \<open>\<^verbatim>\<open>for (int i = k; i > 0; --i) { std::swap(arr[0], arr[i]); sift(arr, i, 0); }\<close>\<close>

primrec extract_loop :: "(int list \<Rightarrow> nat \<Rightarrow> nat \<Rightarrow> int list) \<Rightarrow> nat \<Rightarrow> int list \<Rightarrow> int list" where
  "extract_loop sift 0 arr = arr"
| "extract_loop sift (Suc i) arr = extract_loop sift i (sift (swap_at arr 0 (Suc i)) (Suc i) 0)"

definition dump :: "int list \<Rightarrow> string" where
  "dump arr = concat (map (\<lambda>x. show_int x @ '' '') arr) @ [char_of (10::nat)]"

text \<open>The two lines \<^verbatim>\<open>heapsort\<close>'s \<open>main\<close> prints, and the array it leaves, for any array.\<close>

definition heapsort_run :: "int list \<Rightarrow> string \<times> int list" where
  "heapsort_run arr =
     (let size = length arr;
          h = build_loop adjust size ((size - 1) div 2) arr;
          s = extract_loop adjust (size - 1) h
      in (dump h @ dump s, s))"

definition heapsort_main :: "string" where
  "heapsort_main = fst (heapsort_run [10, 20, 5, 6, 8, 22, 15, 66, 42, 23])"

definition TOP_NUM :: nat where
  "TOP_NUM = 100"

text \<open>
  An open input file is what is left of its bytes and its end-of-file indicator, which a
  read sets when it needs a byte past the end. \<open>fscanf_d\<close> is \<^verbatim>\<open>fscanf(f, "%d", p)\<close>:
  \<open>None\<close> leaves the target as it was.
\<close>

type_synonym infile = "string \<times> bool"

definition fscanf_d :: "infile \<Rightarrow> int option \<times> infile" where
  "fscanf_d f =
     (case scan_int (fst f) of
        Some (v, rest) \<Rightarrow> (Some v, rest, snd f \<or> rest = [])
      | None \<Rightarrow>
          (let t = dropWhile is_space (fst f);
               u = (if t \<noteq> [] \<and> (hd t = CHR ''-'' \<or> hd t = CHR ''+'') then tl t else t)
           in (None, u, snd f \<or> u = [])))"

text \<open>\<^verbatim>\<open>for (int i = 0; i < TOP_NUM; ++i) fscanf(fout, "%d", &heap[i]);\<close>\<close>

function fill_loop :: "nat \<Rightarrow> nat \<Rightarrow> infile \<Rightarrow> int list \<Rightarrow> infile \<times> int list" where
  "fill_loop i n f heap =
     (if i < n
      then (case fscanf_d f of
              (Some v, f') \<Rightarrow> fill_loop (Suc i) n f' (heap[i := v])
            | (None, f') \<Rightarrow> fill_loop (Suc i) n f' heap)
      else (f, heap))"
  by pat_completeness auto
termination
  by (relation "measure (\<lambda>(i, n, f, heap). n - i)") auto

declare fill_loop.simps [simp del]

text \<open>
  \<^verbatim>\<open>while (!feof(fout)) { fscanf(fout, "%d", &val); if (val > heap[0]) ... }\<close>. A byte
  that is no number stops the scan without reaching the end, so the loop may not return.
\<close>

partial_function (option) read_loop :: "nat \<Rightarrow> infile \<Rightarrow> int \<Rightarrow> int list \<Rightarrow> int list option" where
  "read_loop n f val heap =
     (if snd f then Some heap
      else
        (let r = fscanf_d f;
             val = (case fst r of Some v \<Rightarrow> v | None \<Rightarrow> val);
             heap = (if val > heap ! 0 then adjustDown (heap[0 := val]) n 0 else heap)
         in read_loop n (snd r) val heap))"

text \<open>
  The \<open>main\<close> of the top-k tool: \<open>file\<close> is \<open>None\<close> when \<^verbatim>\<open>fopen\<close> fails (the exit code
  -1), \<open>heap0\<close> is the indeterminate content of \<^verbatim>\<open>new int[TOP_NUM]\<close>, the result is what
  is printed.
\<close>

definition topk_run :: "nat \<Rightarrow> string option \<Rightarrow> int list \<Rightarrow> (int + string) option" where
  "topk_run n file heap0 =
     (case file of
        None \<Rightarrow> Some (Inl (- 1))
      | Some s \<Rightarrow>
          (let (f, heap) = fill_loop 0 n (s, False) heap0;
               heap = build_loop adjustDown n ((n - 2) div 2) heap
           in map_option (\<lambda>h. Inr (dump (extract_loop adjustDown (n - 1) h)))
                (read_loop n f 0 heap)))"

definition topk_main :: "string option \<Rightarrow> int list \<Rightarrow> (int + string) option" where
  "topk_main file heap0 = topk_run TOP_NUM file heap0"

text \<open>\<^verbatim>\<open>CreateNData\<close>: the file it writes, given the values \<^verbatim>\<open>rand()\<close> returns.\<close>

definition CreateNData :: "(nat \<Rightarrow> int) \<Rightarrow> string" where
  "CreateNData rand =
     concat (map (\<lambda>i. show_int (rand i smod 100000) @ [char_of (10::nat)]) [0..<1000])"

section \<open>Heaps\<close>

text \<open>The heap order below every parent from \<open>k\<close> on, for the first \<open>n\<close> elements.\<close>

definition heap_above :: "nat \<Rightarrow> nat \<Rightarrow> int list \<Rightarrow> bool" where
  "heap_above k n a \<longleftrightarrow> (\<forall>i<n. 0 < i \<and> k \<le> (i - 1) div 2 \<longrightarrow> a ! ((i - 1) div 2) \<le> a ! i)"

text \<open>
  The same but for the children of \<open>p\<close>, which are bounded by the parent of \<open>p\<close> only: what
  the sift-down loop keeps.
\<close>

definition sift_pre :: "nat \<Rightarrow> nat \<Rightarrow> nat \<Rightarrow> int list \<Rightarrow> bool" where
  "sift_pre k n p a \<longleftrightarrow>
     (\<forall>i<n. 0 < i \<and> k \<le> (i - 1) div 2 \<and> (i - 1) div 2 \<noteq> p \<longrightarrow> a ! ((i - 1) div 2) \<le> a ! i) \<and>
     (\<forall>i<n. 0 < i \<and> (i - 1) div 2 = p \<and> 0 < p \<and> k \<le> (p - 1) div 2 \<longrightarrow> a ! ((p - 1) div 2) \<le> a ! i)"

lemma sift_pre_of_heap: "heap_above (Suc p) n a \<Longrightarrow> sift_pre p n p a"
  unfolding heap_above_def sift_pre_def by (auto intro: le_neq_implies_less Suc_leI)

lemma heap_above_all: "n \<le> 2 * k + 1 \<Longrightarrow> heap_above k n a"
  unfolding heap_above_def by auto

lemma children_of: "(i - 1) div 2 = p \<Longrightarrow> 0 < i \<Longrightarrow> i = 2 * p + 1 \<or> i = 2 * p + 2" for i p :: nat
  by arith

lemma heap_root_min:
  assumes "heap_above 0 n a" "i < n"
  shows "a ! 0 \<le> a ! i"
  using assms(2)
proof (induction i rule: less_induct)
  case (less i)
  show ?case
  proof (cases "i = 0")
    case False
    then have "(i - 1) div 2 < i" by arith
    then have "a ! 0 \<le> a ! ((i - 1) div 2)" using less by simp
    also have "\<dots> \<le> a ! i" using assms(1) less(2) False by (simp add: heap_above_def)
    finally show ?thesis .
  qed simp
qed

section \<open>The contract of the sift-down routine\<close>

locale sift_down =
  fixes sift :: "int list \<Rightarrow> nat \<Rightarrow> nat \<Rightarrow> int list"
  assumes length_sift: "length (sift a n p) = length a"
    and mset_sift: "n \<le> length a \<Longrightarrow> mset (sift a n p) = mset a"
    and drop_sift: "drop n (sift a n p) = drop n a"
    and heap_sift: "n \<le> length a \<Longrightarrow> k \<le> p \<Longrightarrow> sift_pre k n p a \<Longrightarrow> heap_above k n (sift a n p)"
begin

lemma build_loop_keeps:
  assumes "n \<le> length a"
  shows "length (build_loop sift n i a) = length a \<and> mset (build_loop sift n i a) = mset a"
  using assms by (induction i arbitrary: a) (simp_all add: length_sift mset_sift)

lemma build_loop_heap:
  assumes "n \<le> length a" "heap_above (Suc i) n a"
  shows "heap_above 0 n (build_loop sift n i a)"
  using assms
proof (induction i arbitrary: a)
  case 0
  then show ?case by (simp add: heap_sift sift_pre_of_heap)
next
  case (Suc i)
  then have "heap_above (Suc i) n (sift a n (Suc i))"
    by (intro heap_sift) (simp_all add: sift_pre_of_heap)
  with Suc show ?case by (simp add: length_sift)
qed

lemma set_take_sift:
  assumes "n \<le> length a" shows "mset (take n (sift a n p)) = mset (take n a)"
proof -
  have "mset (take n (sift a n p)) + mset (drop n (sift a n p)) = mset (take n a) + mset (drop n a)"
    using mset_sift[OF assms] by (metis append_take_drop_id mset_append)
  then show ?thesis by (simp add: drop_sift)
qed

text \<open>Replacing the root of a heap and sifting gives a heap again.\<close>

lemma sift_root_heap:
  assumes "n \<le> length a" "heap_above 0 n b" "\<And>i. 0 < i \<Longrightarrow> i < n \<Longrightarrow> a ! i = b ! i"
  shows "heap_above 0 n (sift a n 0)"
proof (rule heap_sift[OF assms(1)])
  show "sift_pre 0 n 0 a"
    using assms(2,3) by (auto simp: sift_pre_def heap_above_def)
qed simp

text \<open>
  The extraction loop: the part behind \<open>i\<close> is in descending order and no larger than the
  heap before it.
\<close>

lemma extract_loop_sorts:
  assumes "i < length a" "heap_above 0 (Suc i) a"
    and "\<forall>x y. i < x \<longrightarrow> x < y \<longrightarrow> y < length a \<longrightarrow> a ! y \<le> a ! x"
    and "\<forall>x y. x \<le> i \<longrightarrow> i < y \<longrightarrow> y < length a \<longrightarrow> a ! y \<le> a ! x"
  shows "mset (extract_loop sift i a) = mset a \<and> sorted_wrt (\<ge>) (extract_loop sift i a)"
  using assms
proof (induction i arbitrary: a)
  case 0
  then show ?case by (auto simp: sorted_wrt_iff_nth_less) (metis gr0I)
next
  case (Suc i)
  have pos: "0 < length a" using Suc.prems(1) by linarith
  define b where "b = swap_at a 0 (Suc i)"
  define c where "c = sift b (Suc i) 0"
  have lb [simp]: "length b = length a" and lc [simp]: "length c = length a"
    by (simp_all add: b_def c_def length_sift)
  have b_nth: "b ! k = (if k = Suc i then a ! 0 else if k = 0 then a ! Suc i else a ! k)"
    if "k < length a" for k
    using nth_swap_at[OF pos Suc.prems(1) that] by (simp add: b_def)
  have heap_a: "heap_above 0 (Suc i) a"
    using Suc.prems(2) by (simp add: heap_above_def)
  have heap_c: "heap_above 0 (Suc i) c"
    unfolding c_def
    by (rule sift_root_heap[of _ _ a]) (use Suc.prems(1) heap_a b_nth in auto)
  have tail: "c ! y = b ! y" if "i < y" "y < length a" for y
  proof -
    have "drop (Suc i) c ! (y - Suc i) = drop (Suc i) b ! (y - Suc i)"
      by (simp add: c_def drop_sift)
    then show ?thesis using that Suc.prems(1) by simp
  qed
  have head: "\<exists>z\<le>i. c ! x = b ! z" if "x \<le> i" for x
  proof -
    have "c ! x \<in> set (take (Suc i) c)"
      using that Suc.prems(1) by (auto simp: in_set_conv_nth intro!: exI[of _ x])
    also have "set (take (Suc i) c) = set (take (Suc i) b)"
      using set_take_sift[of "Suc i" b 0] Suc.prems(1)
      by (metis c_def lb less_imp_le_nat set_mset_mset)
    finally show ?thesis using Suc.prems(1) by (auto simp: in_set_conv_nth less_Suc_eq_le)
  qed
  have root: "a ! 0 \<le> a ! z" if "z \<le> Suc i" for z
    using heap_root_min[OF Suc.prems(2)] that by simp
  have desc: "\<forall>x y. i < x \<longrightarrow> x < y \<longrightarrow> y < length c \<longrightarrow> c ! y \<le> c ! x"
    using tail b_nth Suc.prems(3,4) by (auto simp: less_Suc_eq_le Suc_le_eq)
  have bound: "\<forall>x y. x \<le> i \<longrightarrow> i < y \<longrightarrow> y < length c \<longrightarrow> c ! y \<le> c ! x"
  proof (intro allI impI)
    fix x y assume xy: "x \<le> i" "i < y" "y < length c"
    then obtain z where z: "z \<le> i" "c ! x = b ! z" using head by blast
    let ?w = "if z = 0 then Suc i else z"
    have bz: "b ! z = a ! ?w" using z(1) Suc.prems(1) b_nth[of z] by simp
    have w: "?w \<le> Suc i" using z(1) by simp
    show "c ! y \<le> c ! x"
    proof (cases "y = Suc i")
      case True
      then show ?thesis using xy tail[of y] b_nth[of y] bz z(2) root[OF w] by simp
    next
      case False
      then have "a ! y \<le> a ! ?w" using Suc.prems(4) xy w by simp
      then show ?thesis using xy False tail[of y] b_nth[of y] bz z(2) by simp
    qed
  qed
  have "mset c = mset a"
    using Suc.prems(1) mset_swap_at[OF pos Suc.prems(1)] by (simp add: c_def mset_sift b_def)
  moreover have "i < length c" using Suc.prems(1) by simp
  ultimately show ?case
    using Suc.IH[OF _ heap_c desc bound] by (simp add: b_def c_def)
qed

lemma extract_heap:
  assumes "heap_above 0 (length a) a" "a \<noteq> []"
  shows "mset (extract_loop sift (length a - 1) a) = mset a"
    "sorted_wrt (\<ge>) (extract_loop sift (length a - 1) a)"
proof -
  obtain m where m: "length a = Suc m" using assms(2) by (cases a) auto
  have "mset (extract_loop sift m a) = mset a \<and> sorted_wrt (\<ge>) (extract_loop sift m a)"
    by (rule extract_loop_sorts) (use m assms(1) in auto)
  then show "mset (extract_loop sift (length a - 1) a) = mset a"
    "sorted_wrt (\<ge>) (extract_loop sift (length a - 1) a)"
    using m by simp_all
qed

end

section \<open>Both routines meet the contract\<close>

text \<open>The two routines differ in the order of the arguments of \<^verbatim>\<open>std::swap\<close> only.\<close>

lemma swap_at_commute: "i \<noteq> j \<Longrightarrow> swap_at xs i j = swap_at xs j i"
  by (simp add: swap_at_def list_update_swap)

lemma adjustDown_eq_adjust: "adjustDown a n p = adjust a n p"
proof (induction a n p rule: adjust.induct)
  case (1 a n p)
  show ?case
    using 1 by (subst adjust.simps, subst adjustDown.simps)
      (auto simp: Let_def swap_at_commute[of p])
qed

lemma adjust_length: "length (adjust a n p) = length a"
proof (induction a n p rule: adjust.induct)
  case (1 a n p)
  then show ?case by (subst adjust.simps) (auto simp: Let_def)
qed

lemma adjust_mset: "n \<le> length a \<Longrightarrow> mset (adjust a n p) = mset a"
proof (induction a n p rule: adjust.induct)
  case (1 a n p)
  then show ?case by (subst adjust.simps) (auto simp: Let_def)
qed

lemma adjust_drop: "drop n (adjust a n p) = drop n a"
proof (induction a n p rule: adjust.induct)
  case (1 a n p)
  then show ?case by (subst adjust.simps) (auto simp: Let_def swap_at_def)
qed

lemma sift_pre_swap:
  assumes "n \<le> length a" "k \<le> p" "sift_pre k n p a"
    and c: "c = 2 * p + 1 \<or> c = 2 * p + 2" "c < n" "a ! c < a ! p"
    and least: "\<And>d. d < n \<Longrightarrow> 0 < d \<Longrightarrow> (d - 1) div 2 = p \<Longrightarrow> a ! c \<le> a ! d"
  shows "sift_pre k n c (swap_at a c p)"
proof -
  have pc: "(c - 1) div 2 = p" "0 < c" "p < c" using c(1) by auto
  have nth: "swap_at a c p ! x = (if x = p then a ! c else if x = c then a ! p else a ! x)"
    if "x < n" for x
    using nth_swap_at[of c a p x] assms(1) c(2) pc(3) that by simp
  have par: "(x - 1) div 2 < x" if "0 < x" for x :: nat using that by arith
  have old: "a ! ((x - 1) div 2) \<le> a ! x"
    if "x < n" "0 < x" "k \<le> (x - 1) div 2" "(x - 1) div 2 \<noteq> p" for x
    using assms(3) that unfolding sift_pre_def by blast
  have up: "a ! ((p - 1) div 2) \<le> a ! x"
    if "x < n" "0 < x" "(x - 1) div 2 = p" "0 < p" "k \<le> (p - 1) div 2" for x
    using assms(3) that unfolding sift_pre_def by blast
  show ?thesis
    unfolding sift_pre_def
  proof (intro conjI allI impI)
    fix x assume x: "x < n" "0 < x \<and> k \<le> (x - 1) div 2 \<and> (x - 1) div 2 \<noteq> c"
    then have q: "(x - 1) div 2 < n" using par[of x] by simp
    show "swap_at a c p ! ((x - 1) div 2) \<le> swap_at a c p ! x"
      unfolding nth[OF x(1)] nth[OF q]
      using x old[of x] least[of x] up[of c] c pc par[of p] by (auto split: if_splits)
  next
    fix x assume x: "x < n" "0 < x \<and> (x - 1) div 2 = c \<and> 0 < c \<and> k \<le> (c - 1) div 2"
    then show "swap_at a c p ! ((c - 1) div 2) \<le> swap_at a c p ! x"
      using nth[of x] nth[of p] pc c(2) old[of x] par[of x] assms(2) by auto
  qed
qed

lemma sift_pre_done:
  assumes "sift_pre k n p a"
    and "\<And>d. d < n \<Longrightarrow> 0 < d \<Longrightarrow> (d - 1) div 2 = p \<Longrightarrow> a ! p \<le> a ! d"
  shows "heap_above k n a"
  using assms unfolding sift_pre_def heap_above_def by metis

lemma adjust_heap:
  "n \<le> length a \<Longrightarrow> k \<le> p \<Longrightarrow> sift_pre k n p a \<Longrightarrow> heap_above k n (adjust a n p)"
proof (induction a n p rule: adjust.induct)
  case (1 a n p)
  let ?l = "p * 2 + 1"
  let ?c = "if ?l + 1 < n \<and> a ! (?l + 1) < a ! ?l then ?l + 1 else ?l"
  have least: "a ! ?c \<le> a ! d" if "d < n" "0 < d" "(d - 1) div 2 = p" for d
    using children_of[OF that(3,2)] that(1) by (auto simp: mult.commute split: if_splits)
  show ?case
  proof (cases "?l < n")
    case False
    then have "\<And>d. d < n \<Longrightarrow> 0 < d \<Longrightarrow> (d - 1) div 2 = p \<Longrightarrow> a ! p \<le> a ! d"
      using children_of by force
    then show ?thesis
      using False 1(4) sift_pre_done[of k n p a] by (subst adjust.simps) simp
  next
    case l: True
    then have c: "?c < n" "?c = 2 * p + 1 \<or> ?c = 2 * p + 2" by auto
    show ?thesis
    proof (cases "a ! ?c < a ! p")
      case True
      have "sift_pre k n ?c (swap_at a ?c p)"
        by (rule sift_pre_swap[OF 1(2,3,4) c(2,1) True least])
      moreover have "k \<le> ?c" "n \<le> length (swap_at a ?c p)" using 1(2,3) by auto
      ultimately have "heap_above k n (adjust (swap_at a ?c p) n ?c)"
        using 1(1)[OF refl l refl True] by blast
      then show ?thesis using l True by (subst adjust.simps) (simp only: Let_def if_True)
    next
      case False
      then have "\<And>d. d < n \<Longrightarrow> 0 < d \<Longrightarrow> (d - 1) div 2 = p \<Longrightarrow> a ! p \<le> a ! d"
        using least by force
      then have "heap_above k n a" using sift_pre_done 1(4) by blast
      then show ?thesis using l False by (subst adjust.simps) (simp only: Let_def if_True if_False)
    qed
  qed
qed

interpretation hs: sift_down adjust
  by unfold_locales (simp_all add: adjust_length adjust_mset adjust_drop adjust_heap)

interpretation tk: sift_down adjustDown
  by unfold_locales
    (simp_all add: adjustDown_eq_adjust adjust_length adjust_mset adjust_drop adjust_heap)

section \<open>Selecting the largest values\<close>

text \<open>\<open>h\<close> holds as many of the largest elements of \<open>xs\<close> as it has elements.\<close>

definition is_top :: "int list \<Rightarrow> int list \<Rightarrow> bool" where
  "is_top h xs \<longleftrightarrow> (\<exists>rest. mset xs = mset h + mset rest \<and> (\<forall>x \<in> set h. \<forall>y \<in> set rest. y \<le> x))"

lemma is_top_refl: "mset h = mset xs \<Longrightarrow> is_top h xs"
  unfolding is_top_def by (intro exI[of _ "[]"]) simp

lemma is_top_mset: "is_top h xs \<Longrightarrow> mset g = mset h \<Longrightarrow> is_top g xs"
  unfolding is_top_def by (metis set_mset_mset)

lemma is_top_sorted:
  assumes "is_top h xs" "sorted_wrt (\<ge>) h"
  shows "h = take (length h) (rev (sort xs))"
proof -
  obtain rest where r: "mset xs = mset h + mset rest" "\<forall>x \<in> set h. \<forall>y \<in> set rest. y \<le> x"
    using assms(1) by (auto simp: is_top_def)
  have "sorted (rev h)" using assms(2) by (simp add: sorted_wrt_rev)
  then have "sorted (sort rest @ rev h)" using r(2) by (auto simp: sorted_append)
  moreover have "mset (sort rest @ rev h) = mset xs" using r(1) by simp
  ultimately have "sort xs = sort rest @ rev h" using properties_for_sort by metis
  then show ?thesis by simp
qed

text \<open>One value of the file: the loop body of the reading loop.\<close>

definition offer :: "nat \<Rightarrow> int \<Rightarrow> int list \<Rightarrow> int list" where
  "offer n v h = (if v > h ! 0 then adjustDown (h[0 := v]) n 0 else h)"

lemma offer_top:
  assumes "length h = n" "0 < n" "heap_above 0 n h" "is_top h xs"
  shows "length (offer n v h) = n \<and> heap_above 0 n (offer n v h) \<and> is_top (offer n v h) (xs @ [v])"
proof -
  obtain x hs where h: "h = x # hs" using assms(1,2) by (cases h) auto
  obtain rest where r: "mset xs = mset h + mset rest" "\<forall>x \<in> set h. \<forall>y \<in> set rest. y \<le> x"
    using assms(4) by (auto simp: is_top_def)
  have min: "\<forall>y \<in> set h. x \<le> y"
    using heap_root_min[OF assms(3)] h assms(1) by (fastforce simp: in_set_conv_nth)
  show ?thesis
  proof (cases "v > x")
    case True
    have "heap_above 0 n (adjustDown (h[0 := v]) n 0)"
      by (rule tk.sift_root_heap[OF _ assms(3)]) (use assms(1) in auto)
    moreover have m: "mset (offer n v h) = mset (v # hs)"
      using True h assms(1) by (simp add: offer_def tk.mset_sift)
    moreover have "is_top (v # hs) (xs @ [v])"
      unfolding is_top_def using r h min True by (intro exI[of _ "x # rest"]) force
    moreover have "length (offer n v h) = n" using assms(1) by (simp add: offer_def tk.length_sift)
    ultimately show ?thesis using True h is_top_mset[of "v # hs" "xs @ [v]" "offer n v h"]
      by (simp add: offer_def)
  next
    case False
    have "is_top h (xs @ [v])"
      unfolding is_top_def using r h min False by (intro exI[of _ "v # rest"]) force
    then show ?thesis using False h assms by (simp add: offer_def)
  qed
qed

lemma offers_top:
  assumes "length h = n" "0 < n" "heap_above 0 n h" "is_top h xs"
  shows "length (fold (offer n) vs h) = n \<and> heap_above 0 n (fold (offer n) vs h) \<and>
    is_top (fold (offer n) vs h) (xs @ vs)"
  using assms
proof (induction vs arbitrary: h xs)
  case (Cons v vs)
  have o: "length (offer n v h) = n" "heap_above 0 n (offer n v h)" "is_top (offer n v h) (xs @ [v])"
    using offer_top[OF Cons.prems] by auto
  show ?case using Cons.IH[OF o(1) Cons.prems(2) o(2,3)] by simp
qed simp

section \<open>Reading the file\<close>

definition nl :: char where
  "nl = char_of (10::nat)"

definition file_lines :: "int list \<Rightarrow> string" where
  "file_lines xs = concat (map (\<lambda>x. show_int x @ [nl]) xs)"

lemma nl_space [simp]: "is_space nl" "\<not> is_digit nl"
  by (simp_all add: nl_def is_space_def is_digit_def)

lemma scan_int_space: "is_space c \<Longrightarrow> scan_int (c # s) = scan_int s"
  by (simp add: scan_int_def)

text \<open>A file position between two numbers: at the start, or at the newline after a number.\<close>

definition at_numbers :: "int list \<Rightarrow> string \<Rightarrow> bool" where
  "at_numbers xs s \<longleftrightarrow> s = file_lines xs \<or> s = nl # file_lines xs"

lemma at_numbers_start: "at_numbers xs (file_lines xs)"
  by (simp add: at_numbers_def)

lemma fscanf_number:
  assumes "at_numbers (x # xs) s"
  shows "\<exists>s'. fscanf_d (s, False) = (Some x, s', False) \<and> at_numbers xs s'"
proof -
  have "scan_int (file_lines (x # xs)) = Some (x, nl # file_lines xs)"
    using scan_int_show_int[of "nl # file_lines xs" x] by (simp add: file_lines_def)
  then have "scan_int s = Some (x, nl # file_lines xs)"
    using assms by (auto simp: at_numbers_def scan_int_space)
  then show ?thesis by (simp add: fscanf_d_def at_numbers_def)
qed

lemma fscanf_end:
  assumes "at_numbers [] s"
  shows "fst (fscanf_d (s, False)) = None \<and> snd (snd (fscanf_d (s, False)))"
  using assms by (auto simp: at_numbers_def file_lines_def fscanf_d_def scan_int_def)

lemma fill_loop_reads:
  assumes "at_numbers (xs @ ys) s" "i + length xs = n" "n \<le> length h"
  shows "\<exists>s'. fill_loop i n (s, False) h = ((s', False), take i h @ xs @ drop n h) \<and> at_numbers ys s'"
  using assms
proof (induction xs arbitrary: i s h)
  case Nil
  then show ?case by (subst fill_loop.simps) simp
next
  case (Cons x xs)
  obtain s' where s': "fscanf_d (s, False) = (Some x, s', False)" "at_numbers (xs @ ys) s'"
    using fscanf_number[of x "xs @ ys" s] Cons.prems(1) by auto
  have step: "fill_loop i n (s, False) h = fill_loop (Suc i) n (s', False) (h[i := x])"
    using Cons.prems(2) s'(1) by (subst fill_loop.simps) simp
  obtain s'' where s'': "at_numbers ys s''"
    "fill_loop (Suc i) n (s', False) (h[i := x]) =
       ((s'', False), take (Suc i) (h[i := x]) @ xs @ drop n (h[i := x]))"
    using Cons.IH[OF s'(2), of "Suc i" "h[i := x]"] Cons.prems(2,3) by auto
  have "take (Suc i) (h[i := x]) = take i h @ [x]"
    using Cons.prems(2,3) by (simp add: take_Suc_conv_app_nth)
  then show ?case using step s'' Cons.prems(2) by simp
qed

text \<open>
  The reading loop offers every number of the file to the heap and then, because the
  end-of-file indicator is only set by a failing read, its variable once more.
\<close>

lemma read_loop_offers:
  assumes "at_numbers xs s"
  shows "read_loop n (s, False) val h = Some (fold (offer n) (xs @ [last (val # xs)]) h)"
  using assms
proof (induction xs arbitrary: s val h)
  case Nil
  obtain s' where "fscanf_d (s, False) = (None, s', True)"
    using fscanf_end[OF Nil] by (metis prod.collapse)
  then show ?case
    by (simp add: read_loop.simps[of n "(s, False)"] read_loop.simps[of n "(s', True)"] offer_def)
next
  case (Cons x xs)
  obtain s' where s': "fscanf_d (s, False) = (Some x, s', False)" "at_numbers xs s'"
    using fscanf_number[OF Cons.prems] by blast
  have "read_loop n (s, False) val h = read_loop n (s', False) x (offer n x h)"
    using s'(1) by (subst read_loop.simps) (simp add: Let_def offer_def)
  then show ?case using Cons.IH[OF s'(2)] by simp
qed

text \<open>The whole program on the numbers of a file of lines, for any size \<open>n\<close> of the heap.\<close>

lemma topk_run_lines:
  assumes n: "2 \<le> n" "n \<le> length xs" and h: "length h0 = n"
  shows "topk_run n (Some (file_lines xs)) h0 =
    Some (Inr (dump (take n (rev (sort (xs @ [last (0 # drop n xs)]))))))"
proof -
  let ?ys = "drop n xs"
  obtain s where s: "fill_loop 0 n (file_lines xs, False) h0 = ((s, False), take n xs)"
    and at: "at_numbers ?ys s"
    using fill_loop_reads[of "take n xs" ?ys "file_lines xs" 0 n h0] n(2) h at_numbers_start[of xs]
    by auto
  define h1 where "h1 = build_loop adjustDown n ((n - 2) div 2) (take n xs)"
  have h1: "length h1 = n" "mset h1 = mset (take n xs)"
    using tk.build_loop_keeps[of n "take n xs"] n(2) by (simp_all add: h1_def)
  have "heap_above (Suc ((n - 2) div 2)) n (take n xs)"
    by (rule heap_above_all) (use n(1) in arith)
  then have heap: "heap_above 0 n h1"
    unfolding h1_def by (intro tk.build_loop_heap) (use n(2) in auto)
  define h2 where "h2 = fold (offer n) (?ys @ [last (0 # ?ys)]) h1"
  have "length h2 = n \<and> heap_above 0 n h2 \<and> is_top h2 (take n xs @ ?ys @ [last (0 # ?ys)])"
    unfolding h2_def by (rule offers_top) (use h1 heap n(1) is_top_refl in auto)
  then have h2: "length h2 = n" "heap_above 0 n h2" "is_top h2 (xs @ [last (0 # ?ys)])"
    by (simp_all del: last.simps flip: append_assoc)
  have ne: "h2 \<noteq> []" using h2(1) n(1) by auto
  define h3 where "h3 = extract_loop adjustDown (n - 1) h2"
  have h3: "mset h3 = mset h2" "sorted_wrt (\<ge>) h3"
    using tk.extract_heap[of h2] h2(1,2) ne by (simp_all add: h3_def)
  have "length h3 = n" using h3(1) h2(1) by (metis size_mset)
  then have "h3 = take n (rev (sort (xs @ [last (0 # ?ys)])))"
    using is_top_sorted[OF is_top_mset[OF h2(3) h3(1)] h3(2)] by simp
  then show ?thesis
    using s read_loop_offers[OF at, of n 0 h1]
    by (simp add: topk_run_def h1_def h2_def h3_def del: last.simps)
qed

section \<open>Properties\<close>

text \<open>
  C39. The heap sort program leaves a permutation of its array in descending order, for every
  array.
\<close>

theorem heapsort_sorts:
  "mset (snd (heapsort_run arr)) = mset arr \<and> sorted_wrt (\<ge>) (snd (heapsort_run arr))"
proof (cases "arr = []")
  case True
  then show ?thesis by (simp add: heapsort_run_def adjust.simps)
next
  case False
  let ?n = "length arr"
  define h where "h = build_loop adjust ?n ((?n - 1) div 2) arr"
  have h: "length h = ?n" "mset h = mset arr"
    using hs.build_loop_keeps[of ?n arr] by (simp_all add: h_def)
  have "heap_above (Suc ((?n - 1) div 2)) ?n arr"
    by (rule heap_above_all) arith
  then have heap: "heap_above 0 (length h) h"
    unfolding h(1) unfolding h_def by (intro hs.build_loop_heap) auto
  have "h \<noteq> []" using h(1) False by auto
  then show ?thesis
    using hs.extract_heap[OF heap] h by (simp add: heapsort_run_def h_def Let_def)
qed

text \<open>
  The top-k program on the file the data generator writes returns, and prints in
  descending order the 100 largest of the 1000 generated numbers with the last one counted
  twice: the loop offers its variable once more after the read that meets the end of the file.
\<close>

theorem topk_of_generated_file:
  assumes "length heap0 = 100"
  shows "topk_main (Some (CreateNData rand)) heap0 =
    Some (Inr (dump (take 100 (rev (sort
      (map (\<lambda>i. rand i smod 100000) [0..<1000] @ [rand 999 smod 100000]))))))"
proof -
  let ?xs = "map (\<lambda>i. rand i smod 100000) [0..<1000]"
  have gen: "CreateNData rand = file_lines ?xs"
    by (simp add: CreateNData_def file_lines_def nl_def comp_def)
  have "drop 100 ?xs \<noteq> []" by simp
  then have "last (0 # drop 100 ?xs) = last ?xs" by (simp add: last_drop)
  also have "last ?xs = rand 999 smod 100000" by (simp add: last_map)
  finally show ?thesis
    using topk_run_lines[of 100 ?xs heap0] assms unfolding gen topk_main_def TOP_NUM_def by simp
qed

theorem topk_of_generated_file_witness:
  "length (replicate 100 (0::int)) = 100 \<and>
   topk_main (Some (CreateNData (\<lambda>i. int i))) (replicate 100 0) =
    Some (Inr (dump (take 100 (rev (sort
      (map (\<lambda>i. int i smod 100000) [0..<1000] @ [int 999 smod 100000]))))))"
  using topk_of_generated_file[of "replicate 100 0" "\<lambda>i. int i"] by simp

text \<open>
  So the program does not always print the 100 largest numbers of its file: on a hundred
  zeros and a final one it prints the one twice.
\<close>

theorem topk_counts_last_twice:
  "\<exists>xs heap0. length xs = 101 \<and> length heap0 = 100 \<and>
     topk_main (Some (file_lines xs)) heap0 \<noteq> Some (Inr (dump (take 100 (rev (sort xs)))))"
proof -
  let ?xs = "replicate 100 (0::int) @ [1]"
  have "sort (?xs @ [1]) = ?xs @ [1]" "sort ?xs = ?xs"
    by (rule sorted_sort_id; simp add: sorted_append)+
  then have run: "topk_main (Some (file_lines ?xs)) (replicate 100 0) =
      Some (Inr (dump (1 # 1 # replicate 98 0)))"
    and want: "take 100 (rev (sort ?xs)) = 1 # 0 # replicate 98 0"
    using topk_run_lines[of 100 ?xs "replicate 100 0"]
    by (simp_all add: topk_main_def TOP_NUM_def numeral_eq_Suc)
  have "dump (1 # 1 # replicate 98 0) \<noteq> dump (1 # 0 # replicate 98 0)"
    by (simp add: dump_def show_int_def show_nat.simps digit_char_def)
  then show ?thesis using run want
    by (intro exI[of _ ?xs] exI[of _ "replicate 100 0"]) simp
qed

end
