(* ===== verification/TimerSlots.thy ===== *)
theory TimerSlots
  imports Prelude
begin

text \<open>
  The event and slot objects of \<^verbatim>\<open>src/mybase/src/timer-wheel.h\<close> at the level of their
  pointers: an event has its tick, the slot it is in and its two links; a slot has the head
  of its list. \<open>relink\<close>, \<open>cancel\<close> and \<open>pop_event\<close> are the pointer code of the source;
  the lemmas show that they refine insertion at the head, removal and removal of the head of
  one list per slot (\<open>slots_are\<close>), with every event in at most one slot.

  The fields \<^verbatim>\<open>scheduled_at_\<close>, \<^verbatim>\<open>slot_\<close>, \<^verbatim>\<open>next_\<close>, \<^verbatim>\<open>prev_\<close> and
  \<^verbatim>\<open>events_\<close> are \<open>sched_at\<close>, \<open>in_slot\<close>, \<open>next_ev\<close>, \<open>prev_ev\<close> and \<open>events_head\<close>.
  An event is its address (a number), a slot its level and index in
  \<^verbatim>\<open>slots_[NUM_LEVELS][NUM_SLOTS]\<close>; \<^verbatim>\<open>NULL\<close> is \<open>None\<close>.
\<close>

section \<open>Objects and pointer code\<close>

type_synonym event = nat
type_synonym slot = "nat \<times> nat"

record event_obj =
  sched_at :: nat
  in_slot :: "slot option"
  next_ev :: "event option"
  prev_ev :: "event option"

record store =
  ev :: "event \<Rightarrow> event_obj"
  events_head :: "slot \<Rightarrow> event option"

definition upd :: "event \<Rightarrow> (event_obj \<Rightarrow> event_obj) \<Rightarrow> store \<Rightarrow> store" where
  "upd e f st = st\<lparr>ev := (ev st)(e := f (ev st e))\<rparr>"

definition new_store :: store where
  "new_store = \<lparr>ev = (\<lambda>_. \<lparr>sched_at = 0, in_slot = None, next_ev = None, prev_ev = None\<rparr>),
                events_head = (\<lambda>_. None)\<rparr>"

definition active :: "event \<Rightarrow> store \<Rightarrow> bool" where
  "active e st \<longleftrightarrow> in_slot (ev st e) \<noteq> None"

definition scheduled_at :: "event \<Rightarrow> store \<Rightarrow> nat" where
  "scheduled_at e st = sched_at (ev st e)"

definition set_scheduled_at :: "event \<Rightarrow> nat \<Rightarrow> store \<Rightarrow> store" where
  "set_scheduled_at e ts = upd e (sched_at_update (\<lambda>_. ts))"

definition unlink_old :: "event \<Rightarrow> store \<Rightarrow> store" where
  "unlink_old e st =
     (case in_slot (ev st e) of
        None \<Rightarrow> st
      | Some s \<Rightarrow>
          (let prev = prev_ev (ev st e); next = next_ev (ev st e);
               st1 = (case next of None \<Rightarrow> st | Some n \<Rightarrow> upd n (prev_ev_update (\<lambda>_. prev)) st)
           in case prev of
                Some p \<Rightarrow> upd p (next_ev_update (\<lambda>_. next)) st1
              | None \<Rightarrow> st1\<lparr>events_head := (events_head st1)(s := next)\<rparr>))"

definition link_new :: "event \<Rightarrow> slot option \<Rightarrow> store \<Rightarrow> store" where
  "link_new e new_slot st =
     upd e (prev_ev_update (\<lambda>_. None))
       (case new_slot of
          Some s \<Rightarrow>
            (let old = events_head st s;
                 st1 = upd e (next_ev_update (\<lambda>_. old)) st;
                 st2 = (case old of None \<Rightarrow> st1 | Some h \<Rightarrow> upd h (prev_ev_update (\<lambda>_. Some e)) st1)
             in st2\<lparr>events_head := (events_head st2)(s := Some e)\<rparr>)
        | None \<Rightarrow> upd e (next_ev_update (\<lambda>_. None)) st)"

definition relink :: "event \<Rightarrow> slot option \<Rightarrow> store \<Rightarrow> store" where
  "relink e new_slot st =
     (if new_slot = in_slot (ev st e) then st
      else upd e (in_slot_update (\<lambda>_. new_slot)) (link_new e new_slot (unlink_old e st)))"

definition cancel :: "event \<Rightarrow> store \<Rightarrow> store" where
  "cancel e st = (if in_slot (ev st e) = None then st else relink e None st)"

text \<open>\<^verbatim>\<open>pop_event\<close> is called on slots that are not empty; \<open>None\<close> is its null dereference.\<close>

definition pop_event :: "slot \<Rightarrow> store \<Rightarrow> (event \<times> store) option" where
  "pop_event s st =
     (case events_head st s of
        None \<Rightarrow> None
      | Some e \<Rightarrow>
          (let next = next_ev (ev st e);
               st1 = st\<lparr>events_head := (events_head st)(s := next)\<rparr>;
               st2 = (case next of None \<Rightarrow> st1 | Some n \<Rightarrow> upd n (prev_ev_update (\<lambda>_. None)) st1);
               st3 = upd e (next_ev_update (\<lambda>_. None)) st2;
               st4 = upd e (in_slot_update (\<lambda>_. None)) st3
           in Some (e, st4)))"

section \<open>Doubly linked segments\<close>

primrec seg :: "store \<Rightarrow> event option \<Rightarrow> event option \<Rightarrow> event list \<Rightarrow> event option \<Rightarrow> bool" where
  "seg st p c [] q \<longleftrightarrow> c = q"
| "seg st p c (x # xs) q \<longleftrightarrow> c = Some x \<and> prev_ev (ev st x) = p \<and> seg st (Some x) (next_ev (ev st x)) xs q"

primrec last_opt :: "event option \<Rightarrow> event list \<Rightarrow> event option" where
  "last_opt p [] = p"
| "last_opt p (x # xs) = last_opt (Some x) xs"

lemma seg_append:
  "seg st p c (xs @ ys) q \<longleftrightarrow> (\<exists>r. seg st p c xs r \<and> seg st (last_opt p xs) r ys q)"
  by (induction xs arbitrary: p c) auto

lemma last_opt_snoc [simp]: "last_opt p (xs @ [x]) = Some x"
  by (induction xs arbitrary: p) auto

lemma last_opt_cases: "last_opt p xs = (if xs = [] then p else Some (last xs))"
  by (induction xs arbitrary: p) auto

lemma ev_upd: "ev (upd e f st) x = (if x = e then f (ev st e) else ev st x)"
  by (simp add: upd_def)

lemma events_upd [simp]: "events_head (upd e f st) = events_head st"
  by (simp add: upd_def)

lemma seg_cong:
  "(\<And>x. x \<in> set xs \<Longrightarrow> prev_ev (ev st' x) = prev_ev (ev st x) \<and> next_ev (ev st' x) = next_ev (ev st x)) \<Longrightarrow>
   seg st' p c xs q = seg st p c xs q"
  by (induction xs arbitrary: p c) auto

text \<open>Changing the back link of the first node, or the forward link of the last one.\<close>

lemma seg_new_prev:
  assumes "seg st p c (x # xs) q" "x \<notin> set xs"
  shows "seg (upd x (prev_ev_update (\<lambda>_. p')) st) p' c (x # xs) q"
proof -
  have "seg (upd x (prev_ev_update (\<lambda>_. p')) st) (Some x) (next_ev (ev st x)) xs q"
    using assms by (subst seg_cong[where st = st]) (auto simp: ev_upd)
  then show ?thesis using assms(1) by (simp add: ev_upd)
qed

lemma seg_new_next:
  assumes "seg st p c (xs @ [x]) q" "x \<notin> set xs"
  shows "seg (upd x (next_ev_update (\<lambda>_. q')) st) p c (xs @ [x]) q'"
proof -
  have "seg (upd x (next_ev_update (\<lambda>_. q')) st) p c xs (Some x)"
    using assms by (subst seg_cong[where st = st]) (auto simp: ev_upd seg_append)
  then show ?thesis using assms(1) by (auto simp: seg_append ev_upd)
qed

section \<open>The lists of the slots\<close>

definition slots_are :: "store \<Rightarrow> (slot \<Rightarrow> event list) \<Rightarrow> bool" where
  "slots_are st L \<longleftrightarrow>
     (\<forall>s. seg st None (events_head st s) (L s) None \<and> distinct (L s)) \<and>
     (\<forall>e s. in_slot (ev st e) = Some s \<longleftrightarrow> e \<in> set (L s))"

lemma slots_areD:
  assumes "slots_are st L"
  shows "seg st None (events_head st s) (L s) None" "distinct (L s)"
    "in_slot (ev st e) = Some s \<longleftrightarrow> e \<in> set (L s)"
  using assms unfolding slots_are_def by blast+

lemma slots_are_new: "slots_are new_store (\<lambda>_. [])"
  by (simp add: slots_are_def new_store_def)

lemma slots_disjoint:
  assumes "slots_are st L" "e \<in> set (L s)" "e \<in> set (L t)"
  shows "s = t"
  using assms by (metis option.inject slots_areD(3))

lemma slots_are_head:
  assumes "slots_are st L"
  shows "events_head st s = (case L s of [] \<Rightarrow> None | x # _ \<Rightarrow> Some x)"
  using slots_areD(1)[OF assms, of s] by (cases "L s") auto

lemma slots_are_active: "slots_are st L \<Longrightarrow> active e st \<longleftrightarrow> (\<exists>s. e \<in> set (L s))"
  unfolding active_def by (metis not_Some_eq slots_areD(3))

text \<open>Only the tick of an event changes: the lists stay.\<close>

lemma slots_are_set_scheduled_at:
  assumes "slots_are st L" shows "slots_are (set_scheduled_at e ts st) L"
proof -
  have ev: "prev_ev (ev (set_scheduled_at e ts st) x) = prev_ev (ev st x)"
    "next_ev (ev (set_scheduled_at e ts st) x) = next_ev (ev st x)"
    "in_slot (ev (set_scheduled_at e ts st) x) = in_slot (ev st x)" for x
    by (simp_all add: set_scheduled_at_def ev_upd)
  show ?thesis
    using assms by (simp add: slots_are_def ev seg_cong[OF conjI[OF ev(1,2)]])
      (simp add: set_scheduled_at_def)
qed

section \<open>Unlinking and linking\<close>

text \<open>The two link updates of the unlink code, without the head of the slot.\<close>

definition unlink_links :: "event \<Rightarrow> store \<Rightarrow> store" where
  "unlink_links e st =
     (let st1 = (case next_ev (ev st e) of None \<Rightarrow> st
                 | Some n \<Rightarrow> upd n (prev_ev_update (\<lambda>_. prev_ev (ev st e))) st)
      in case prev_ev (ev st e) of None \<Rightarrow> st1
         | Some p \<Rightarrow> upd p (next_ev_update (\<lambda>_. next_ev (ev st e))) st1)"

lemma unlink_old_links:
  "unlink_old e st =
     (case in_slot (ev st e) of None \<Rightarrow> st
      | Some s \<Rightarrow> (if prev_ev (ev st e) = None
                   then (unlink_links e st)\<lparr>events_head := (events_head st)(s := next_ev (ev st e))\<rparr>
                   else unlink_links e st))"
  by (auto simp: unlink_old_def unlink_links_def Let_def split: option.splits)

lemma unlink_links_frame [frame_simps]:
  "events_head (unlink_links e st) = events_head st"
  "in_slot (ev (unlink_links e st) x) = in_slot (ev st x)"
  "sched_at (ev (unlink_links e st) x) = sched_at (ev st x)"
  by (auto simp: unlink_links_def Let_def ev_upd split: option.splits)

lemma unlink_links_other:
  assumes "next_ev (ev st e) \<noteq> Some x" "prev_ev (ev st e) \<noteq> Some x"
  shows "ev (unlink_links e st) x = ev st x"
  using assms by (auto simp: unlink_links_def Let_def ev_upd split: option.splits)

lemma seg_unlink:
  assumes sg: "seg st None c (as @ e # bs) None" and dist: "distinct (as @ e # bs)"
  shows "seg (unlink_links e st) None (if as = [] then next_ev (ev st e) else c) (as @ bs) None"
proof -
  define p n where "p = prev_ev (ev st e)" and "n = next_ev (ev st e)"
  have as: "seg st None c as (Some e)" and p: "p = last_opt None as"
    and bs: "seg st (Some e) n bs None"
    using sg by (auto simp: seg_append p_def n_def)
  define st1 where "st1 = (case n of None \<Rightarrow> st | Some b \<Rightarrow> upd b (prev_ev_update (\<lambda>_. p)) st)"
  have bs1: "seg st1 p n bs None" and n_bs: "n = None \<or> n = Some (hd bs) \<and> bs \<noteq> []"
  proof -
    show "seg st1 p n bs None"
    proof (cases bs)
      case (Cons b bs')
      then show ?thesis
        using seg_new_prev[of st "Some e" n b bs' None p] bs dist by (simp add: st1_def)
    qed (use bs in \<open>simp add: st1_def\<close>)
    show "n = None \<or> n = Some (hd bs) \<and> bs \<noteq> []" using bs by (cases bs) auto
  qed
  have as1: "seg st1 None c as (Some e)"
    using as dist n_bs by (subst seg_cong[where st = st])
      (auto simp: st1_def ev_upd split: option.splits)
  have st2: "unlink_links e st =
      (case p of None \<Rightarrow> st1 | Some a \<Rightarrow> upd a (next_ev_update (\<lambda>_. n)) st1)"
    unfolding unlink_links_def st1_def p_def n_def Let_def ..
  show ?thesis
  proof (cases as rule: rev_cases)
    case Nil
    then show ?thesis using bs1 p st2 by (simp add: n_def)
  next
    case (snoc as' a)
    then have "seg (upd a (next_ev_update (\<lambda>_. n)) st1) None c as n"
      using seg_new_next[of st1 None c as' a "Some e" n] as1 dist by simp
    moreover have "seg (upd a (next_ev_update (\<lambda>_. n)) st1) (Some a) n bs None"
      using bs1 p snoc dist by (subst seg_cong[where st = st1]) (auto simp: ev_upd)
    ultimately show ?thesis using st2 p snoc by (auto simp: seg_append)
  qed
qed

text \<open>The neighbours of an event are in its slot.\<close>

lemma seg_neighbours:
  assumes "seg st None c (as @ e # bs) None"
  shows "prev_ev (ev st e) = last_opt None as" "next_ev (ev st e) = (case bs of [] \<Rightarrow> None | b # _ \<Rightarrow> Some b)"
  using assms by (cases bs; auto simp: seg_append)+

lemma last_opt_in: "last_opt None as = Some x \<Longrightarrow> x \<in> set as"
  by (auto simp: last_opt_cases split: if_splits)

text \<open>
  Removing an event from its slot. The slot field of the event itself is still the old one;
  the lists are those of the other events.
\<close>

definition links_are :: "store \<Rightarrow> (slot \<Rightarrow> event list) \<Rightarrow> bool" where
  "links_are st L \<longleftrightarrow> (\<forall>s. seg st None (events_head st s) (L s) None \<and> distinct (L s))"

lemma links_areD:
  assumes "links_are st L" shows "seg st None (events_head st s) (L s) None" "distinct (L s)"
  using assms unfolding links_are_def by blast+

lemma unlink_old_links_are:
  assumes "slots_are st L" "in_slot (ev st e) = Some s"
  shows "links_are (unlink_old e st) (L(s := remove1 e (L s)))"
proof -
  obtain as bs where L: "L s = as @ e # bs"
    using slots_areD(3)[OF assms(1), of e s] assms(2) by (auto simp: in_set_conv_decomp)
  have dist: "distinct (as @ e # bs)" and sg: "seg st None (events_head st s) (as @ e # bs) None"
    using slots_areD(1,2)[OF assms(1), of s] L by auto
  have rem: "remove1 e (L s) = as @ bs" using dist L by (simp add: remove1_append)
  note nb = seg_neighbours[OF sg]
  have heads: "events_head (unlink_old e st) =
      (if as = [] then (events_head st)(s := next_ev (ev st e)) else events_head st)"
    using assms(2) nb(1) by (auto simp: unlink_old_links frame_simps last_opt_cases)
  have evs: "ev (unlink_old e st) = ev (unlink_links e st)"
    using assms(2) by (simp add: unlink_old_links)
  have seg_eq: "seg (unlink_old e st) p c xs q = seg (unlink_links e st) p c xs q" for p c xs q
    by (rule seg_cong) (simp add: evs)
  have "seg (unlink_old e st) None (events_head (unlink_old e st) t) ((L(s := as @ bs)) t) None \<and>
        distinct ((L(s := as @ bs)) t)" for t
  proof (cases "t = s")
    case True
    then show ?thesis using seg_unlink[OF sg dist] heads dist by (auto simp: seg_eq)
  next
    case False
    have "x \<notin> set (L s)" if "x \<in> set (L t)" for x
      using slots_disjoint[OF assms(1)] that False by blast
    then have "ev (unlink_links e st) x = ev st x" if "x \<in> set (L t)" for x
      using that nb L last_opt_in[of as x] by (intro unlink_links_other) (auto split: list.splits)
    then have "seg (unlink_links e st) None (events_head st t) (L t) None"
      using slots_areD(1)[OF assms(1), of t] by (subst seg_cong[where st = st]) auto
    then show ?thesis using False heads slots_areD(2)[OF assms(1), of t] by (auto simp: seg_eq)
  qed
  then show ?thesis unfolding links_are_def rem by blast
qed

lemma unlink_old_frame [frame_simps]:
  "in_slot (ev (unlink_old e st) x) = in_slot (ev st x)"
  "sched_at (ev (unlink_old e st) x) = sched_at (ev st x)"
  by (auto simp: unlink_old_links frame_simps split: option.splits)

lemma link_new_frame [frame_simps]:
  "in_slot (ev (link_new e s st) x) = in_slot (ev st x)"
  "sched_at (ev (link_new e s st) x) = sched_at (ev st x)"
  by (auto simp: link_new_def Let_def ev_upd split: option.splits)

lemma seg_in_cong:
  assumes "links_are st L" "\<And>x. x \<in> set (L t) \<Longrightarrow>
    prev_ev (ev st' x) = prev_ev (ev st x) \<and> next_ev (ev st' x) = next_ev (ev st x)"
    "events_head st' t = events_head st t"
  shows "seg st' None (events_head st' t) (L t) None \<and> distinct (L t)"
  using links_areD[OF assms(1), of t] assms(3) seg_cong[OF assms(2), of "L t"] by simp

text \<open>Inserting an event that is in no list at the head of a slot, or in none.\<close>

lemma link_new_links_are:
  assumes "links_are st L" "\<And>t. e \<notin> set (L t)"
    and disj: "\<And>s t x. x \<in> set (L s) \<Longrightarrow> x \<in> set (L t) \<Longrightarrow> s = t"
  shows "links_are (link_new e (Some s) st) (L(s := e # L s))"
  unfolding links_are_def
proof
  fix t
  let ?st = "link_new e (Some s) st"
  have sg: "seg st None (events_head st s) (L s) None" and dist: "distinct (L s)"
    using links_areD[OF assms(1)] by auto
  have head_in: "h \<in> set (L s)" if "events_head st s = Some h" for h
    using sg that by (cases "L s") auto
  have heads: "events_head ?st = (events_head st)(s := Some e)"
    by (auto simp: link_new_def Let_def split: option.splits)
  have e_ev: "prev_ev (ev ?st e) = None" "next_ev (ev ?st e) = events_head st s"
    using head_in assms(2) by (auto simp: link_new_def Let_def ev_upd split: option.splits)
  have others: "ev ?st x = ev st x" if "x \<noteq> e" "events_head st s \<noteq> Some x" for x
    using that by (auto simp: link_new_def Let_def ev_upd split: option.splits)
  show "seg ?st None (events_head ?st t) ((L(s := e # L s)) t) None \<and> distinct ((L(s := e # L s)) t)"
  proof (cases "t = s")
    case False
    have "seg ?st None (events_head ?st t) (L t) None \<and> distinct (L t)"
    proof (rule seg_in_cong[OF assms(1)])
      fix x assume "x \<in> set (L t)"
      then have "x \<noteq> e" "events_head st s \<noteq> Some x"
        using assms(2)[of t] head_in disj[of x s t] False by auto
      then show "prev_ev (ev ?st x) = prev_ev (ev st x) \<and> next_ev (ev ?st x) = next_ev (ev st x)"
        using others by simp
    qed (use heads False in simp)
    then show ?thesis using False by simp
  next
    case True
    have "seg ?st (Some e) (events_head st s) (L s) None"
    proof (cases "L s")
      case (Cons h hs)
      then have h: "events_head st s = Some h" and "h \<noteq> e" "e \<notin> set hs"
        using sg assms(2)[of s] by auto
      have "prev_ev (ev ?st h) = Some e" "next_ev (ev ?st h) = next_ev (ev st h)"
        using h \<open>h \<noteq> e\<close> by (auto simp: link_new_def Let_def ev_upd)
      moreover have "ev ?st x = ev st x" if "x \<in> set hs" for x
        by (rule others) (use that Cons dist h \<open>e \<notin> set hs\<close> in auto)
      then have "seg ?st (Some h) (next_ev (ev st h)) hs None"
        using sg Cons by (subst seg_cong[where st = st]) auto
      ultimately show ?thesis using Cons h by simp
    qed (use sg in simp)
    then show ?thesis using True heads e_ev assms(2) dist by simp
  qed
qed

lemma link_none_links_are:
  assumes "links_are st L" "\<And>t. e \<notin> set (L t)"
  shows "links_are (link_new e None st) L"
  unfolding links_are_def
proof
  fix t
  show "seg (link_new e None st) None (events_head (link_new e None st) t) (L t) None \<and> distinct (L t)"
    by (rule seg_in_cong[OF assms(1)]) (use assms(2)[of t] in \<open>auto simp: link_new_def ev_upd\<close>)
qed

section \<open>What the operations do to the lists\<close>

text \<open>The list view of \<open>relink\<close>: out of the old slot, to the head of the new one.\<close>

definition relink_lists ::
  "event \<Rightarrow> slot option \<Rightarrow> slot option \<Rightarrow> (slot \<Rightarrow> event list) \<Rightarrow> slot \<Rightarrow> event list" where
  "relink_lists e old new_slot L =
     (if new_slot = old then L
      else
        (let L1 = (case old of None \<Rightarrow> L | Some s \<Rightarrow> L(s := remove1 e (L s)))
         in case new_slot of None \<Rightarrow> L1 | Some s \<Rightarrow> L1(s := e # L1 s)))"

lemma set_relink_lists:
  assumes "slots_are st L"
  shows "set (relink_lists e (in_slot (ev st e)) new_slot L s) =
    (set (L s) - {e}) \<union> (if new_slot = Some s then {e} else {})"
proof -
  have "e \<in> set (L t) \<longleftrightarrow> in_slot (ev st e) = Some t" for t
    using slots_areD(3)[OF assms] by blast
  moreover have "set (remove1 e (L t)) = set (L t) - {e}" for t
    using slots_areD(2)[OF assms] by simp
  ultimately show ?thesis
    by (auto simp: relink_lists_def Let_def split: option.splits)
qed

lemma relink_slots_are:
  assumes "slots_are st L"
  shows "slots_are (relink e new_slot st) (relink_lists e (in_slot (ev st e)) new_slot L)"
proof (cases "new_slot = in_slot (ev st e)")
  case True
  then show ?thesis using assms by (simp add: relink_def relink_lists_def)
next
  case False
  define L1 where "L1 = (case in_slot (ev st e) of None \<Rightarrow> L | Some s \<Rightarrow> L(s := remove1 e (L s)))"
  define st1 where "st1 = unlink_old e st"
  have mem: "e \<in> set (L t) \<longleftrightarrow> in_slot (ev st e) = Some t" for t
    using slots_areD(3)[OF assms] by blast
  have L1: "links_are st1 L1"
  proof (cases "in_slot (ev st e)")
    case None
    then show ?thesis
      using assms by (simp add: st1_def L1_def unlink_old_def slots_are_def links_are_def del: split_paired_All)
  next
    case (Some s)
    then show ?thesis using unlink_old_links_are[OF assms Some] by (simp add: st1_def L1_def)
  qed
  have set1: "set (L1 t) = set (L t) - {e}" for t
    using mem slots_areD(2)[OF assms] by (auto simp: L1_def split: option.splits)
  have disj: "s = t" if "x \<in> set (L1 s)" "x \<in> set (L1 t)" for s t x
    using slots_disjoint[OF assms] that set1 by blast
  let ?L2 = "relink_lists e (in_slot (ev st e)) new_slot L"
  let ?st2 = "link_new e new_slot st1"
  have L2: "links_are ?st2 ?L2"
  proof (cases new_slot)
    case None
    then show ?thesis
      using link_none_links_are[OF L1, of e] set1 False by (simp add: relink_lists_def L1_def)
  next
    case (Some s)
    then show ?thesis
      using link_new_links_are[OF L1, of e s] set1 disj False
      by (simp add: relink_lists_def L1_def Let_def)
  qed
  have re: "relink e new_slot st = upd e (in_slot_update (\<lambda>_. new_slot)) ?st2"
    using False by (simp add: relink_def st1_def)
  have "seg (relink e new_slot st) p c xs q = seg ?st2 p c xs q" for p c xs q
    unfolding re by (rule seg_cong) (simp add: ev_upd)
  moreover have "events_head (relink e new_slot st) = events_head ?st2" by (simp add: re)
  moreover have "in_slot (ev (relink e new_slot st) x) = Some s \<longleftrightarrow> x \<in> set (?L2 s)" for x s
    using slots_areD(3)[OF assms, of x s] set_relink_lists[OF assms, of e new_slot s] mem[of s]
    by (auto simp: re ev_upd frame_simps st1_def)
  ultimately show ?thesis
    unfolding slots_are_def using links_areD[OF L2] by auto
qed

lemma relink_frame [frame_simps]:
  "sched_at (ev (relink e s st) x) = sched_at (ev st x)"
  "in_slot (ev (relink e s st) x) = (if x = e then s else in_slot (ev st x))"
  by (auto simp: relink_def ev_upd frame_simps)

lemma cancel_slots_are:
  assumes "slots_are st L"
  shows "slots_are (cancel e st) (relink_lists e (in_slot (ev st e)) None L)"
  using assms relink_slots_are[OF assms, of e None]
  by (cases "in_slot (ev st e)") (simp_all add: cancel_def relink_lists_def)

lemma cancel_frame [frame_simps]:
  "sched_at (ev (cancel e st) x) = sched_at (ev st x)"
  "in_slot (ev (cancel e st) x) = (if x = e then None else in_slot (ev st x))"
  by (auto simp: cancel_def frame_simps)

text \<open>\<open>pop_event\<close> does what unlinking the first event of the slot does.\<close>

lemma pop_event_eq_relink:
  assumes "slots_are st L" "L s = e # es"
  shows "\<exists>st'. pop_event s st = Some (e, st') \<and> slots_are st' (L(s := es)) \<and>
    (\<forall>x. sched_at (ev st' x) = sched_at (ev st x) \<and>
         in_slot (ev st' x) = (if x = e then None else in_slot (ev st x)))"
proof -
  have sg: "seg st None (events_head st s) (e # es) None"
    using slots_areD(1)[OF assms(1), of s] assms(2) by simp
  have hd: "events_head st s = Some e" and pv: "prev_ev (ev st e) = None"
    and sl: "in_slot (ev st e) = Some s"
    using sg slots_areD(3)[OF assms(1), of e s] assms(2) by auto
  define st1 where "st1 = unlink_old e st"
  have st1: "st1 = (unlink_links e st)\<lparr>events_head := (events_head st)(s := next_ev (ev st e))\<rparr>"
    using sl pv by (simp add: st1_def unlink_old_links)
  have "next_ev (ev st e) \<noteq> Some e"
    using sg slots_areD(2)[OF assms(1), of s] assms(2) by (cases es) auto
  then have pop: "pop_event s st = Some (e, upd e (in_slot_update (\<lambda>_. None)) (link_new e None st1))"
    using hd pv
    by (auto simp: pop_event_def st1 unlink_links_def link_new_def Let_def upd_def fun_eq_iff
        split: option.splits)
  have "relink e None st = upd e (in_slot_update (\<lambda>_. None)) (link_new e None st1)"
    using sl by (simp add: relink_def st1_def)
  then have "pop_event s st = Some (e, relink e None st)" using pop by simp
  moreover have "relink_lists e (Some s) None L = L(s := es)"
    using assms(2) by (simp add: relink_lists_def)
  ultimately show ?thesis
    using relink_slots_are[OF assms(1), of e None] sl by (simp add: frame_simps)
qed

end
