(* ===== verification/TimerWheel.thy ===== *)
theory TimerWheel
  imports TimerSlots
begin

text \<open>
  The hierarchical timer wheel of \<^verbatim>\<open>src/mybase/src/timer-wheel.h\<close> over the slot objects of
  \<open>TimerSlots\<close>: \<open>schedule\<close>, \<open>schedule_in_range\<close>, \<open>advance\<close> and
  \<open>process_current_slot\<close>, with the ticks as numbers modulo \<open>2 ^ 64\<close>.

  An event's callback is code of the user: the parameter \<open>cb\<close> gives, for the event, the
  wheel it can inspect and the user's own state, the calls it makes on the wheel and its new
  state. A run carries the wheel, that state and a log of the executions (event, the tick it
  was scheduled for, the tick of the wheel), which the code does not keep. The model is
  \<open>None\<close> where the source fails an assertion or indexes past \<^verbatim>\<open>slots_\<close>, and when the
  fuel of the slot loop, which a callback could keep busy for ever, is used up.
\<close>

unbundle bit_operations_syntax

section \<open>The wheel\<close>

definition WIDTH_BITS :: nat where "WIDTH_BITS = 8"
definition NUM_LEVELS :: nat where "NUM_LEVELS = (64 + WIDTH_BITS - 1) div WIDTH_BITS"
definition MAX_LEVEL :: nat where "MAX_LEVEL = NUM_LEVELS - 1"
definition NUM_SLOTS :: nat where "NUM_SLOTS = 2 ^ WIDTH_BITS"

lemmas wheel_consts = WIDTH_BITS_def NUM_LEVELS_def MAX_LEVEL_def NUM_SLOTS_def

text \<open>\<^verbatim>\<open>x & MASK\<close> is \<open>x mod NUM_SLOTS\<close> and \<^verbatim>\<open>x >> WIDTH_BITS\<close> is \<open>x div NUM_SLOTS\<close>.\<close>

record wheel =
  now_at :: "nat \<Rightarrow> nat"
  ticks_pending :: nat
  store :: store

definition new_wheel :: "nat \<Rightarrow> wheel" where
  "new_wheel now = \<lparr>now_at = (\<lambda>i. if i < NUM_LEVELS then now div 2 ^ (WIDTH_BITS * i) else 0),
                    ticks_pending = 0, store = new_store\<rparr>"

definition wheel_now :: "wheel \<Rightarrow> nat" where
  "wheel_now w = now_at w 0"

function schedule_level :: "(nat \<Rightarrow> nat) \<Rightarrow> nat \<Rightarrow> nat \<Rightarrow> (nat \<times> nat) option" where
  "schedule_level nows level delta =
     (if level \<ge> NUM_LEVELS then None
      else if delta \<ge> NUM_SLOTS
      then schedule_level nows (Suc level)
             (size_add delta (nows level mod NUM_SLOTS) div NUM_SLOTS)
      else Some (level, delta))"
  by pat_completeness auto
termination
  by (relation "measure (\<lambda>(nows, level, delta). NUM_LEVELS - level)") auto

declare schedule_level.simps [simp del]

definition schedule :: "event \<Rightarrow> nat \<Rightarrow> wheel \<Rightarrow> wheel option" where
  "schedule event delta w =
     (if delta = 0 then None
      else
        (let st = set_scheduled_at event (size_add (now_at w 0) delta) (store w)
         in case schedule_level (now_at w) 0 delta of
              None \<Rightarrow> None
            | Some (level, d) \<Rightarrow>
                (let slot_index = size_add (now_at w level) d mod NUM_SLOTS
                 in Some (w\<lparr>store := relink event (Some (level, slot_index)) st\<rparr>))))"

text \<open>
  \<^verbatim>\<open>while ((start & mask) != (end & mask)) mask <<= WIDTH_BITS\<close>, from the mask of all ones.
  After eight shifts the mask is 0 and the loop has ended: the count is enough.
\<close>

primrec range_mask :: "nat \<Rightarrow> nat \<Rightarrow> nat \<Rightarrow> nat \<Rightarrow> nat" where
  "range_mask 0 start stop m = m"
| "range_mask (Suc n) start stop m =
     (if start AND m \<noteq> stop AND m
      then range_mask n start stop ((m * NUM_SLOTS) mod size_max) else m)"

definition range_delta :: "nat \<Rightarrow> nat \<Rightarrow> nat" where
  "range_delta start stop = stop AND (range_mask 9 start stop (size_max - 1) div NUM_SLOTS)"

definition schedule_in_range :: "event \<Rightarrow> nat \<Rightarrow> nat \<Rightarrow> wheel \<Rightarrow> wheel option" where
  "schedule_in_range event start stop w =
     (if stop \<le> start then None
      else if active event (store w) \<and>
              start \<le> size_sub (scheduled_at event (store w)) (now_at w 0) \<and>
              size_sub (scheduled_at event (store w)) (now_at w 0) \<le> stop
      then Some w
      else schedule event (range_delta start stop) w)"

definition cancel_event :: "event \<Rightarrow> wheel \<Rightarrow> wheel" where
  "cancel_event event w = w\<lparr>store := cancel event (store w)\<rparr>"

section \<open>Callbacks and runs\<close>

datatype cmd = Schedule event nat | Schedule_in_range event nat nat | Cancel event

fun run_cmd :: "cmd \<Rightarrow> wheel \<Rightarrow> wheel option" where
  "run_cmd (Schedule e d) w = schedule e d w"
| "run_cmd (Schedule_in_range e a b) w = schedule_in_range e a b w"
| "run_cmd (Cancel e) w = Some (cancel_event e w)"

fun run_cmds :: "cmd list \<Rightarrow> wheel \<Rightarrow> wheel option" where
  "run_cmds [] w = Some w"
| "run_cmds (c # cs) w = (case run_cmd c w of None \<Rightarrow> None | Some w' \<Rightarrow> run_cmds cs w')"

record 's run =
  wh :: wheel
  us :: 's
  log :: "(event \<times> nat \<times> nat) list"

type_synonym 's callback = "event \<Rightarrow> wheel \<Rightarrow> 's \<Rightarrow> cmd list \<times> 's"

definition execute :: "'s callback \<Rightarrow> event \<Rightarrow> 's run \<Rightarrow> 's run option" where
  "execute cb e r =
     (let (cmds, s) = cb e (wh r) (us r)
      in case run_cmds cmds (wh r) of
           None \<Rightarrow> None
         | Some w \<Rightarrow>
             Some (r\<lparr>wh := w, us := s,
                     log := log r @ [(e, scheduled_at e (store (wh r)), now_at (wh r) 0)]\<rparr>))"

section \<open>Advancing\<close>

text \<open>The loop \<^verbatim>\<open>while (slot->events())\<close> of \<^verbatim>\<open>process_current_slot\<close>.\<close>

primrec slot_loop ::
  "nat \<Rightarrow> 's callback \<Rightarrow> nat \<Rightarrow> slot \<Rightarrow> nat \<Rightarrow> 's run \<Rightarrow> (bool \<times> 's run) option" where
  "slot_loop 0 cb level slot max_events r = None"
| "slot_loop (Suc fuel) cb level slot max_events r =
     (if events_head (store (wh r)) slot = None then Some (True, r)
      else case pop_event slot (store (wh r)) of
        None \<Rightarrow> None
      | Some (event, st) \<Rightarrow>
          (let r1 = r\<lparr>wh := (wh r)\<lparr>store := st\<rparr>\<rparr>;
               continue = (\<lambda>r2. let left = size_sub max_events 1
                                in if left = 0 then Some (False, r2)
                                   else slot_loop fuel cb level slot left r2)
           in if level > 0
              then (if now_at (wh r1) 0 mod NUM_SLOTS \<noteq> 0 then None
                    else if now_at (wh r1) 0 \<ge> scheduled_at event st
                    then (case execute cb event r1 of None \<Rightarrow> None | Some r2 \<Rightarrow> continue r2)
                    else (case schedule event
                                 (size_sub (scheduled_at event st) (now_at (wh r1) 0)) (wh r1) of
                            None \<Rightarrow> None
                          | Some w \<Rightarrow> slot_loop fuel cb level slot max_events (r1\<lparr>wh := w\<rparr>)))
              else (case execute cb event r1 of None \<Rightarrow> None | Some r2 \<Rightarrow> continue r2)))"

definition tick_level :: "nat \<Rightarrow> 's run \<Rightarrow> 's run" where
  "tick_level level r =
     r\<lparr>wh := (wh r)\<lparr>now_at := (now_at (wh r))(level := size_add (now_at (wh r) level) 1)\<rparr>\<rparr>"

definition set_pending :: "nat \<Rightarrow> 's run \<Rightarrow> 's run" where
  "set_pending n r = r\<lparr>wh := (wh r)\<lparr>ticks_pending := n\<rparr>\<rparr>"

function process_current_slot ::
    "nat \<Rightarrow> 's callback \<Rightarrow> nat \<Rightarrow> nat \<Rightarrow> nat \<Rightarrow> 's run \<Rightarrow> (bool \<times> 's run) option"
  and advance_loop :: "nat \<Rightarrow> 's callback \<Rightarrow> nat \<Rightarrow> nat \<Rightarrow> nat \<Rightarrow> 's run \<Rightarrow> (bool \<times> 's run) option"
  and advance :: "nat \<Rightarrow> 's callback \<Rightarrow> nat \<Rightarrow> nat \<Rightarrow> nat \<Rightarrow> 's run \<Rightarrow> (bool \<times> 's run) option"
where
  "process_current_slot fuel cb now max_events level r =
     (let slot_index = now mod NUM_SLOTS
      in case (if slot_index = 0 \<and> level < MAX_LEVEL
               then advance fuel cb 1 max_events (level + 1) r else Some (True, r)) of
           None \<Rightarrow> None
         | Some (False, r1) \<Rightarrow> Some (False, r1)
         | Some (True, r1) \<Rightarrow> slot_loop fuel cb level (level, slot_index) max_events r1)"
| "advance_loop fuel cb delta max_events level r =
     (if delta = 0 then Some (True, r)
      else
        (let r1 = tick_level level r
         in case process_current_slot fuel cb (now_at (wh r1) level) max_events level r1 of
              None \<Rightarrow> None
            | Some (False, r2) \<Rightarrow> Some (False, set_pending delta r2)
            | Some (True, r2) \<Rightarrow> advance_loop fuel cb (delta - 1) max_events level r2))"
| "advance fuel cb delta max_events level r =
     (if ticks_pending (wh r) \<noteq> 0
      then
        (let r1 = (if level = 0 then set_pending (size_add (ticks_pending (wh r)) delta) r else r)
         in case process_current_slot fuel cb (now_at (wh r1) level) max_events level r1 of
              None \<Rightarrow> None
            | Some (False, r2) \<Rightarrow> Some (False, r2)
            | Some (True, r2) \<Rightarrow>
                (if level = 0
                 then advance_loop fuel cb (size_sub (ticks_pending (wh r2)) 1) max_events level
                        (set_pending 0 r2)
                 else Some (True, r2)))
      else if delta = 0 then None
      else advance_loop fuel cb delta max_events level r)"
  by pat_completeness auto
termination
  by (relation "measures
       [\<lambda>x. case x of Inl (f, cb, now, m, l, r) \<Rightarrow> NUM_LEVELS - l
                  | Inr (Inl (f, cb, d, m, l, r)) \<Rightarrow> NUM_LEVELS - l
                  | Inr (Inr (f, cb, d, m, l, r)) \<Rightarrow> NUM_LEVELS - l,
        \<lambda>x. case x of Inl _ \<Rightarrow> 0 | Inr (Inl _) \<Rightarrow> 1 | Inr (Inr _) \<Rightarrow> 2,
        \<lambda>x. case x of Inl _ \<Rightarrow> 0 | Inr (Inl (f, cb, d, m, l, r)) \<Rightarrow> d | Inr (Inr _) \<Rightarrow> 0]")
    (auto simp: MAX_LEVEL_def)

declare process_current_slot.simps [simp del] advance_loop.simps [simp del] advance.simps [simp del]

section \<open>Where an event belongs\<close>

text \<open>
  At tick \<open>T\<close> an event scheduled for \<open>D\<close> is placed in a slot of level \<open>l\<close> when the level's
  clock has between 1 and 255 steps to go to the event's own; it is due there when the clock
  has reached it.
\<close>

definition index_at :: "nat \<Rightarrow> nat \<Rightarrow> nat" where
  "index_at l D = (D div 256 ^ l) mod 256"

definition placed :: "nat \<Rightarrow> nat \<Rightarrow> slot \<Rightarrow> bool" where
  "placed T D s \<longleftrightarrow> fst s < 8 \<and> snd s = index_at (fst s) D \<and> D < size_max \<and>
     T div 256 ^ fst s < D div 256 ^ fst s \<and> D div 256 ^ fst s \<le> T div 256 ^ fst s + 255"

definition due :: "nat \<Rightarrow> nat \<Rightarrow> slot \<Rightarrow> bool" where
  "due T D s \<longleftrightarrow> fst s < 8 \<and> snd s = index_at (fst s) D \<and> D < size_max \<and>
     D div 256 ^ fst s = T div 256 ^ fst s"

text \<open>The current slots of the levels below \<open>j\<close>, which the tick \<open>T\<close> still has to process.\<close>

definition pending :: "nat \<Rightarrow> nat \<Rightarrow> slot set" where
  "pending T j = {(l, index_at l T) | l. l < j}"

definition clock :: "nat \<Rightarrow> wheel \<Rightarrow> bool" where
  "clock T w \<longleftrightarrow> T < size_max \<and> (\<forall>l<8. now_at w l = T div 256 ^ l)"

text \<open>
  The invariant: the clocks of the levels agree, the slots are lists, every event in a slot is
  one of the first \<open>N\<close> and is placed there, or due there if the slot is in \<open>P\<close>.
\<close>

definition winv :: "nat \<Rightarrow> nat \<Rightarrow> slot set \<Rightarrow> wheel \<Rightarrow> bool" where
  "winv N T P w \<longleftrightarrow> clock T w \<and> (\<exists>L. slots_are (store w) L) \<and>
     (\<forall>e s. in_slot (ev (store w) e) = Some s \<longrightarrow>
        e < N \<and> (placed T (sched_at (ev (store w) e)) s \<or>
                s \<in> P \<and> due T (sched_at (ev (store w) e)) s))"

definition members :: "slot \<Rightarrow> wheel \<Rightarrow> event set" where
  "members s w = {e. in_slot (ev (store w) e) = Some s}"

definition cmd_ok :: "nat \<Rightarrow> nat \<Rightarrow> cmd \<Rightarrow> bool" where
  "cmd_ok N T c = (case c of
      Schedule e d \<Rightarrow> e < N \<and> 0 < d \<and> T + d < size_max
    | Schedule_in_range e a b \<Rightarrow> e < N \<and> a < b \<and> b < 2 ^ 56 \<and> T + b < size_max
    | Cancel e \<Rightarrow> True)"

text \<open>
  A callback that keeps to the rules of the header up to tick \<open>H\<close>: events of the wheel, deltas
  not 0, as long as its own state satisfies \<open>I\<close>, which it keeps.
\<close>

definition callback_ok :: "nat \<Rightarrow> nat \<Rightarrow> ('s \<Rightarrow> bool) \<Rightarrow> 's callback \<Rightarrow> bool" where
  "callback_ok N H I cb \<longleftrightarrow> (\<forall>e w s. I s \<longrightarrow> now_at w 0 \<le> H \<longrightarrow>
     I (snd (cb e w s)) \<and> (\<forall>c \<in> set (fst (cb e w s)). cmd_ok N (now_at w 0) c))"

section \<open>Arithmetic of the levels\<close>

lemma NUM_simps [simp]: "NUM_LEVELS = 8" "NUM_SLOTS = 256" "MAX_LEVEL = 7"
  by (simp_all add: wheel_consts)

lemma size_max_256: "size_max = 256 ^ 8"
  by (simp add: size_max_def)

lemma level_step:
  fixes a b :: nat
  assumes "a \<le> b" shows "(b - a + a mod 256) div 256 = b div 256 - a div 256"
proof -
  have le: "a div 256 \<le> b div 256" using assms by (rule div_le_mono)
  then obtain k where k: "b div 256 = a div 256 + k" using le_Suc_ex by blast
  have "b - a + a mod 256 = b mod 256 + k * 256"
    using assms k mult_div_mod_eq[of 256 a] mult_div_mod_eq[of 256 b] by linarith
  then show ?thesis using k by simp
qed

lemma div_256_Suc: "(x::nat) div 256 ^ Suc l = x div 256 ^ l div 256"
  by (simp add: div_mult2_eq[symmetric] mult.commute)

lemma schedule_level_spec:
  assumes "\<forall>l<8. nows l = T div 256 ^ l" "T < D" "D < size_max" "level < 8"
    and "delta = D div 256 ^ level - T div 256 ^ level" "0 < delta"
  shows "\<exists>l d. schedule_level nows level delta = Some (l, d) \<and> l < 8 \<and>
    d = D div 256 ^ l - T div 256 ^ l \<and> 0 < d \<and> d < 256"
  using assms
proof (induction nows level delta rule: schedule_level.induct)
  case (1 nows level delta)
  let ?a = "T div 256 ^ level" and ?b = "D div 256 ^ level"
  have ab: "?a \<le> ?b" using 1(3) by (simp add: div_le_mono)
  show ?case
  proof (cases "delta < 256")
    case True
    then show ?thesis using 1(5,6,7) by (subst schedule_level.simps) simp
  next
    case False
    have "level \<noteq> 7"
    proof
      assume "level = 7"
      then have "?b < 256" using 1(4) by (simp add: size_max_256 less_mult_imp_div_less)
      then show False using False 1(6) by simp
    qed
    then have lv: "Suc level < 8" using 1(5) by simp
    have "delta + ?a mod 256 \<le> ?b" using ab 1(6) mod_less_eq_dividend[of ?a 256] by simp
    also have "\<dots> \<le> D" by simp
    finally have sz: "size_add delta (?a mod 256) = delta + ?a mod 256" using 1(4) by simp
    have next_delta: "size_add delta (nows level mod 256) div 256 =
        D div 256 ^ Suc level - T div 256 ^ Suc level"
      using level_step[OF ab] 1(2,5,6) sz by (simp add: div_256_Suc del: power_Suc)
    have "0 < size_add delta (nows level mod 256) div 256"
      using False sz 1(2,5) by (simp add: div_greater_zero_iff)
    then have "\<exists>l d. schedule_level nows (Suc level) (size_add delta (nows level mod 256) div 256) =
        Some (l, d) \<and> l < 8 \<and> d = D div 256 ^ l - T div 256 ^ l \<and> 0 < d \<and> d < 256"
      using 1(1)[OF _ _ 1(2,3,4)] lv False 1(5) next_delta by simp
    then show ?thesis using False 1(5) by (subst schedule_level.simps) simp
  qed
qed

text \<open>Scheduling puts the event where it belongs.\<close>

lemma schedule_places:
  assumes "clock T w" "0 < delta" "T + delta < size_max"
  shows "\<exists>s. placed T (T + delta) s \<and>
    schedule e delta w = Some (w\<lparr>store := relink e (Some s) (set_scheduled_at e (T + delta) (store w))\<rparr>)"
proof -
  let ?D = "T + delta"
  have now: "\<forall>l<8. now_at w l = T div 256 ^ l" and T0: "now_at w 0 = T"
    using assms(1) by (auto simp: clock_def)
  obtain l d where ld: "schedule_level (now_at w) 0 delta = Some (l, d)" "l < 8"
    "d = ?D div 256 ^ l - T div 256 ^ l" "0 < d" "d < 256"
    using schedule_level_spec[OF now, of ?D 0 delta] assms(2,3) by auto
  have "T div 256 ^ l \<le> ?D div 256 ^ l" by (simp add: div_le_mono)
  then have sum: "now_at w l + d = ?D div 256 ^ l" using now ld(2,3) by simp
  have "?D div 256 ^ l < size_max" using assms(3) by (rule le_less_trans[OF div_le_dividend])
  then have "size_add (now_at w l) d = ?D div 256 ^ l" by (simp only: sum[symmetric] size_add_small)
  then have "size_add (now_at w l) d mod 256 = index_at l ?D" by (simp add: index_at_def)
  moreover have "placed T ?D (l, index_at l ?D)"
    using ld assms(3) by (auto simp: placed_def)
  ultimately show ?thesis
    using ld(1) assms(2,3) T0 by (intro exI[of _ "(l, index_at l ?D)"]) (simp add: schedule_def Let_def)
qed

lemma mod_256_close: "(a::nat) \<le> b \<Longrightarrow> b \<le> a + 255 \<Longrightarrow> b mod 256 = a mod 256 \<Longrightarrow> b = a"
  using mod_eq_dvd_iff_nat[of a b 256] dvd_imp_le[of 256 "b - a"] by fastforce

lemma placed_not_current: "placed T D s \<Longrightarrow> s \<notin> pending T j"
proof
  assume p: "placed T D s" "s \<in> pending T j"
  let ?a = "T div 256 ^ fst s" and ?b = "D div 256 ^ fst s"
  have "?b = ?a" by (rule mod_256_close) (use p in \<open>auto simp: placed_def pending_def index_at_def\<close>)
  then show False using p(1) by (simp add: placed_def)
qed

section \<open>The range of a schedule\<close>

text \<open>The mask after \<open>k\<close> shifts: the upper \<open>j - k\<close> bytes of \<open>j\<close>.\<close>

definition byte_mask :: "nat \<Rightarrow> nat \<Rightarrow> nat" where
  "byte_mask j k = 256 ^ j - 256 ^ k"

lemma pow_256: "(256::nat) ^ k = 2 ^ (8 * k)"
  by (simp add: power_mult)

lemma byte_mask_bits: "k \<le> j \<Longrightarrow> byte_mask j k = push_bit (8 * k) (mask (8 * (j - k)))"
  by (simp add: byte_mask_def push_bit_eq_mult mask_eq_exp_minus_1 pow_256 diff_mult_distrib
      le_add_diff_inverse2 add_mult_distrib2[symmetric] flip: power_add)

lemma and_push_mask: "(x::nat) AND push_bit n (mask m) = push_bit n (take_bit m (drop_bit n x))"
  by (rule bit_eqI) (auto simp: bit_simps)

lemma and_byte_mask:
  assumes "k \<le> j" "x < 256 ^ j" shows "x AND byte_mask j k = x div 256 ^ k * 256 ^ k"
proof -
  have "x div 256 ^ k < 2 ^ (8 * (j - k))"
    using assms by (intro less_mult_imp_div_less) (simp add: pow_256 diff_mult_distrib2 flip: power_add)
  then have "take_bit (8 * (j - k)) (drop_bit (8 * k) x) = x div 256 ^ k"
    by (simp only: drop_bit_eq_div pow_256[symmetric] take_bit_nat_eq_self)
  then show ?thesis
    unfolding byte_mask_bits[OF assms(1)] and_push_mask by (simp only: push_bit_eq_mult pow_256)
qed

lemma byte_mask_shift: "k < 8 \<Longrightarrow> byte_mask 8 k * 256 mod size_max = byte_mask 8 (Suc k)"
proof -
  assume "k < 8"
  then consider "k = 0" | "k = 1" | "k = 2" | "k = 3" | "k = 4" | "k = 5" | "k = 6" | "k = 7"
    by linarith
  then show ?thesis by cases (simp_all add: byte_mask_def size_max_def)
qed

lemma byte_mask_half: "byte_mask (Suc j) (Suc k) div 256 = byte_mask j k"
  by (simp add: byte_mask_def flip: diff_mult_distrib2)

lemma range_mask_spec:
  assumes "a < size_max" "b < size_max" "k \<le> 8" "8 < n + k"
    and "\<forall>i<k. a div 256 ^ i \<noteq> b div 256 ^ i"
  shows "\<exists>j \<le> 8. range_mask n a b (byte_mask 8 k) = byte_mask 8 j \<and> a div 256 ^ j = b div 256 ^ j \<and>
    (\<forall>i<j. a div 256 ^ i \<noteq> b div 256 ^ i)"
  using assms
proof (induction n arbitrary: k)
  case (Suc n)
  have and_m: "x AND byte_mask 8 k = x div 256 ^ k * 256 ^ k" if "x < size_max" for x
    using and_byte_mask[OF Suc.prems(3)] that by (simp add: size_max_256)
  show ?case
  proof (cases "a div 256 ^ k = b div 256 ^ k")
    case True
    then have "range_mask (Suc n) a b (byte_mask 8 k) = byte_mask 8 k"
      using and_m Suc.prems(1,2) by simp
    then show ?thesis using True Suc.prems(3,5) by blast
  next
    case False
    then have "k \<noteq> 8" using Suc.prems(1,2) by (auto simp: size_max_256)
    then have k: "Suc k \<le> 8" using Suc.prems(3) by simp
    have "range_mask (Suc n) a b (byte_mask 8 k) = range_mask n a b (byte_mask 8 (Suc k))"
      using False and_m Suc.prems(1,2) k byte_mask_shift by simp
    moreover have "\<forall>i<Suc k. a div 256 ^ i \<noteq> b div 256 ^ i"
      using False Suc.prems(5) by (auto simp: less_Suc_eq)
    ultimately show ?thesis using Suc.IH[OF Suc.prems(1,2) k] Suc.prems(4) by simp
  qed
qed simp

lemma range_delta_bounds:
  assumes "a < b" "b < 2 ^ 56" shows "a < range_delta a b" "range_delta a b \<le> b"
proof -
  have sz: "a < size_max" "b < size_max" using assms by (auto simp: size_max_def)
  obtain j where j: "j \<le> 8" "range_mask 9 a b (byte_mask 8 0) = byte_mask 8 j"
    "a div 256 ^ j = b div 256 ^ j" "\<forall>i<j. a div 256 ^ i \<noteq> b div 256 ^ i"
    using range_mask_spec[OF sz, of 0 9] by auto
  have "j \<noteq> 0" using j(3) assms(1) by (cases j) auto
  then obtain i where i: "j = Suc i" using not0_implies_Suc by blast
  have d: "range_delta a b = b div 256 ^ i * 256 ^ i"
    using j(1,2) i assms(2) byte_mask_half[of 7 i] and_byte_mask[of i 7 b]
    by (simp add: range_delta_def byte_mask_def size_max_def)
  have "a div 256 ^ i < b div 256 ^ i"
    using j(4) i assms(1) by (metis div_le_mono le_neq_implies_less lessI less_imp_le)
  then have "a < b div 256 ^ i * 256 ^ i" by (metis div_less_iff_less_mult zero_less_power zero_less_numeral)
  then show "a < range_delta a b" "range_delta a b \<le> b" by (simp_all add: d)
qed

section \<open>Every call keeps the invariant\<close>

lemma winvD:
  assumes "winv N T P w"
  shows "clock T w" "\<exists>L. slots_are (store w) L"
    "in_slot (ev (store w) e) = Some s \<Longrightarrow> e < N"
    "in_slot (ev (store w) e) = Some s \<Longrightarrow> placed T (sched_at (ev (store w) e)) s \<or>
       s \<in> P \<and> due T (sched_at (ev (store w) e)) s"
  using assms unfolding winv_def by blast+

lemma winv_now: "winv N T P w \<Longrightarrow> now_at w 0 = T"
  using winvD(1) by (fastforce simp: clock_def)

lemma set_scheduled_at_frame [frame_simps]:
  "in_slot (ev (set_scheduled_at e ts st) x) = in_slot (ev st x)"
  "sched_at (ev (set_scheduled_at e ts st) x) = (if x = e then ts else sched_at (ev st x))"
  by (simp_all add: set_scheduled_at_def ev_upd)

lemma schedule_winv:
  assumes "winv N T P w" "e < N" "0 < delta" "T + delta < size_max"
  shows "\<exists>w'. schedule e delta w = Some w' \<and> winv N T P w' \<and> ticks_pending w' = ticks_pending w \<and>
    (\<forall>j. \<forall>s \<in> pending T j. members s w' \<subseteq> members s w)"
proof -
  obtain t where t: "placed T (T + delta) t"
    "schedule e delta w = Some (w\<lparr>store := relink e (Some t) (set_scheduled_at e (T + delta) (store w))\<rparr>)"
    using schedule_places[OF winvD(1)[OF assms(1)] assms(3,4)] by blast
  let ?st = "relink e (Some t) (set_scheduled_at e (T + delta) (store w))"
  obtain L where "slots_are (store w) L" using winvD(2)[OF assms(1)] by blast
  then have "\<exists>L. slots_are ?st L"
    using relink_slots_are[OF slots_are_set_scheduled_at] by blast
  moreover have "e' < N \<and> (placed T (sched_at (ev ?st e')) s \<or> s \<in> P \<and> due T (sched_at (ev ?st e')) s)"
    if "in_slot (ev ?st e') = Some s" for e' s
    using that t(1) assms(2) winvD(3,4)[OF assms(1), of e' s] by (auto simp: frame_simps split: if_splits)
  ultimately have "winv N T P (w\<lparr>store := ?st\<rparr>)"
    using winvD(1)[OF assms(1)] unfolding winv_def by (simp add: clock_def)
  moreover have "members s (w\<lparr>store := ?st\<rparr>) \<subseteq> members s w" if "s \<in> pending T j" for s j
    using placed_not_current[OF t(1), of j] that by (auto simp: members_def frame_simps split: if_splits)
  ultimately show ?thesis using t(2) by auto
qed

lemma cancel_winv:
  assumes "winv N T P w"
  shows "winv N T P (cancel_event e w)" "members s (cancel_event e w) \<subseteq> members s w"
proof -
  obtain L where "slots_are (store w) L" using winvD(2)[OF assms] by blast
  then have L: "\<exists>L. slots_are (cancel e (store w)) L" using cancel_slots_are by blast
  have "e' < N \<and> (placed T (sched_at (ev (cancel e (store w)) e')) s \<or>
      s \<in> P \<and> due T (sched_at (ev (cancel e (store w)) e')) s)"
    if "in_slot (ev (cancel e (store w)) e') = Some s" for e' s
    using that winvD(3,4)[OF assms, of e' s] by (auto simp: frame_simps split: if_splits)
  then show "winv N T P (cancel_event e w)"
    using winvD(1)[OF assms] L unfolding winv_def cancel_event_def by (simp add: clock_def)
  show "members s (cancel_event e w) \<subseteq> members s w"
    by (auto simp: members_def cancel_event_def frame_simps split: if_splits)
qed

end
