(* ===== verification/TimerAdvance.thy ===== *)
theory TimerAdvance
  imports TimerWheel
begin

text \<open>
  The correctness of \<^verbatim>\<open>TimerWheel::advance\<close>: whatever the callbacks schedule or cancel,
  every event is executed in the tick it was scheduled for, none is left behind, and the call
  returns. The steps are the slot loop, one tick of one level with the levels above it, and
  the loop over the ticks.
\<close>

section \<open>Calls from a callback\<close>

text \<open>What a call on the wheel at tick \<open>T\<close> keeps, and that the current slots do not grow.\<close>

definition keeps :: "nat \<Rightarrow> nat \<Rightarrow> slot set \<Rightarrow> wheel \<Rightarrow> wheel \<Rightarrow> bool" where
  "keeps N T P w w' \<longleftrightarrow> winv N T P w' \<and> ticks_pending w' = ticks_pending w \<and>
     (\<forall>j. \<forall>s \<in> pending T j. members s w' \<subseteq> members s w)"

lemma keeps_trans: "keeps N T P w w1 \<Longrightarrow> keeps N T P w1 w2 \<Longrightarrow> keeps N T P w w2"
  unfolding keeps_def by (metis subset_trans)

lemma keeps_refl: "winv N T P w \<Longrightarrow> keeps N T P w w"
  unfolding keeps_def by blast

lemma schedule_keeps:
  assumes "winv N T P w" "e < N" "0 < d" "T + d < size_max"
  shows "\<exists>w'. schedule e d w = Some w' \<and> keeps N T P w w'"
  using schedule_winv[OF assms] unfolding keeps_def by blast

lemma run_cmd_keeps:
  assumes "winv N T P w" "cmd_ok N T c"
  shows "\<exists>w'. run_cmd c w = Some w' \<and> keeps N T P w w'"
proof (cases c)
  case (Schedule e d)
  then show ?thesis using schedule_keeps[OF assms(1)] assms(2) by (simp add: cmd_ok_def)
next
  case (Schedule_in_range e a b)
  then have ab: "e < N" "a < b" "b < 2 ^ 56" "T + b < size_max"
    using assms(2) by (simp_all add: cmd_ok_def)
  note rd = range_delta_bounds[OF ab(2,3)]
  have "\<exists>w'. schedule e (range_delta a b) w = Some w' \<and> keeps N T P w w'"
    by (rule schedule_keeps[OF assms(1) ab(1)]) (use rd ab(4) in linarith)+
  then show ?thesis
    using Schedule_in_range ab(2) keeps_refl[OF assms(1)] by (simp add: schedule_in_range_def)
next
  case (Cancel e)
  have "keeps N T P w (cancel_event e w)"
    using cancel_winv[OF assms(1)] by (simp add: keeps_def cancel_event_def)
  then show ?thesis using Cancel by simp
qed

lemma run_cmds_keeps:
  assumes "winv N T P w" "\<forall>c \<in> set cs. cmd_ok N T c"
  shows "\<exists>w'. run_cmds cs w = Some w' \<and> keeps N T P w w'"
  using assms
proof (induction cs arbitrary: w)
  case Nil
  then show ?case using keeps_refl by simp
next
  case (Cons c cs)
  obtain w1 where w1: "run_cmd c w = Some w1" "keeps N T P w w1"
    using run_cmd_keeps[OF Cons.prems(1)] Cons.prems(2) by auto
  then have "winv N T P w1" by (simp add: keeps_def)
  then obtain w2 where "run_cmds cs w1 = Some w2" "keeps N T P w1 w2"
    using Cons.IH Cons.prems(2) by auto
  then show ?case using w1 keeps_trans by auto
qed

lemma execute_keeps:
  assumes "winv N T P (wh r)" "callback_ok N H I cb" "T \<le> H" "I (us r)"
  shows "\<exists>r'. execute cb e r = Some r' \<and> keeps N T P (wh r) (wh r') \<and> I (us r') \<and>
    log r' = log r @ [(e, scheduled_at e (store (wh r)), T)]"
proof -
  have now: "now_at (wh r) 0 = T" by (rule winv_now[OF assms(1)])
  then have "\<forall>c \<in> set (fst (cb e (wh r) (us r))). cmd_ok N T c" "I (snd (cb e (wh r) (us r)))"
    using assms(2-4) by (auto simp: callback_ok_def)
  moreover then obtain w' where
    w': "run_cmds (fst (cb e (wh r) (us r))) (wh r) = Some w'" "keeps N T P (wh r) w'"
    using run_cmds_keeps[OF assms(1)] by blast
  ultimately show ?thesis using now by (auto simp: execute_def split_beta)
qed

section \<open>The slot loop\<close>

lemma members_finite: "winv N T P w \<Longrightarrow> finite (members s w)"
  by (rule finite_subset[of _ "{..<N}"]) (auto simp: members_def dest: winvD(3))

lemma members_card: "winv N T P w \<Longrightarrow> card (members s w) \<le> N"
  using card_mono[of "{..<N}" "members s w"] by (fastforce simp: members_def dest: winvD(3))

lemma head_None_members:
  assumes "winv N T P w" shows "events_head (store w) s = None \<longleftrightarrow> members s w = {}"
proof -
  obtain L where L: "slots_are (store w) L" using winvD(2)[OF assms] by blast
  have "members s w = set (L s)" using slots_areD(3)[OF L] by (auto simp: members_def)
  then show ?thesis using slots_are_head[OF L, of s] by (simp split: list.splits)
qed

lemma pop_keeps:
  assumes "winv N T P w" "events_head (store w) s \<noteq> None"
  shows "\<exists>e st. pop_event s (store w) = Some (e, st) \<and> e \<in> members s w \<and>
    keeps N T P w (w\<lparr>store := st\<rparr>) \<and> members s (w\<lparr>store := st\<rparr>) = members s w - {e} \<and>
    scheduled_at e st = scheduled_at e (store w)"
proof -
  obtain L where L: "slots_are (store w) L" using winvD(2)[OF assms(1)] by blast
  obtain e es where Ls: "L s = e # es"
    using assms(2) slots_are_head[OF L, of s] by (auto split: list.splits)
  obtain st where st: "pop_event s (store w) = Some (e, st)" "slots_are st (L(s := es))"
    "\<And>x. sched_at (ev st x) = sched_at (ev (store w) x)"
    "\<And>x. in_slot (ev st x) = (if x = e then None else in_slot (ev (store w) x))"
    using pop_event_eq_relink[where e = e, OF L Ls] by blast
  have "winv N T P (w\<lparr>store := st\<rparr>)"
    using assms(1) st(2,3,4) unfolding winv_def
    by (auto simp: clock_def split: if_splits simp del: split_paired_All)
  moreover have "members t (w\<lparr>store := st\<rparr>) = members t w - {e}" for t
    by (auto simp: members_def st(4) split: if_splits)
  moreover have "e \<in> members s w" using slots_areD(3)[OF L, of e s] Ls by (simp add: members_def)
  ultimately show ?thesis using st(1,3) by (auto simp: keeps_def scheduled_at_def)
qed

text \<open>An event due in the current slot of its level, at a tick where that level turns.\<close>

lemma due_ge:
  assumes "due T D (l, i)" "256 ^ l dvd T" shows "T \<le> D"
proof -
  have "T = 256 ^ l * (T div 256 ^ l)" using assms(2) by simp
  also have "\<dots> = 256 ^ l * (D div 256 ^ l)" using assms(1) by (simp add: due_def)
  also have "\<dots> \<le> D" by (rule times_div_less_eq_dividend)
  finally show ?thesis .
qed

lemma due_0: "due T D (0, i) \<Longrightarrow> D = T"
  by (simp add: due_def)

lemma due_size: "due T D s \<Longrightarrow> D < size_max"
  by (simp add: due_def)

lemma member_due:
  assumes "winv N T P w" "e \<in> members s w" "s \<in> pending T j"
  shows "due T (scheduled_at e (store w)) s" "e < N" "s \<in> P"
  using winvD(3,4)[OF assms(1), of e s] assms(2,3)
    placed_not_current[of T "sched_at (ev (store w) e)" s j]
  by (auto simp: members_def scheduled_at_def)

definition on_time :: "nat \<Rightarrow> nat \<Rightarrow> (event \<times> nat \<times> nat) list \<Rightarrow> bool" where
  "on_time N T es \<longleftrightarrow> (\<forall>(e, sched, now) \<in> set es. e < N \<and> sched = T \<and> now = T)"

lemma on_time_simps [simp]:
  "on_time N T []" "on_time N T (x # xs) \<longleftrightarrow> (case x of (e, s, n) \<Rightarrow> e < N \<and> s = T \<and> n = T) \<and> on_time N T xs"
  "on_time N T (xs @ ys) \<longleftrightarrow> on_time N T xs \<and> on_time N T ys"
  by (simp_all add: on_time_def ball_Un)

text \<open>The two ways one round of the slot loop goes on.\<close>

lemma pop_event_head: "pop_event s st = Some (e, st') \<Longrightarrow> events_head st s \<noteq> None"
  by (auto simp: pop_event_def split: option.splits)

lemma slot_loop_execute:
  assumes "pop_event s (store (wh r)) = Some (e, st)" "r1 = r\<lparr>wh := (wh r)\<lparr>store := st\<rparr>\<rparr>"
    and "execute cb e r1 = Some r2"
    and "l = 0 \<or> now_at (wh r1) 0 mod 256 = 0 \<and> scheduled_at e st \<le> now_at (wh r1) 0"
    and "size_sub m 1 \<noteq> 0"
  shows "slot_loop (Suc fuel) cb l s m r = slot_loop fuel cb l s (size_sub m 1) r2"
  using assms pop_event_head[OF assms(1)] by (auto simp: Let_def)

lemma slot_loop_promote:
  assumes "pop_event s (store (wh r)) = Some (e, st)" "r1 = r\<lparr>wh := (wh r)\<lparr>store := st\<rparr>\<rparr>"
    and "0 < l" "now_at (wh r1) 0 mod 256 = 0" "now_at (wh r1) 0 < scheduled_at e st"
    and "schedule e (size_sub (scheduled_at e st) (now_at (wh r1) 0)) (wh r1) = Some w"
  shows "slot_loop (Suc fuel) cb l s m r = slot_loop fuel cb l s m (r1\<lparr>wh := w\<rparr>)"
  using assms pop_event_head[OF assms(1)] by (auto simp: Let_def)

lemma slot_loop_spec:
  assumes "winv N T P (wh r)" "s = (l, index_at l T)" "256 ^ l dvd T" "callback_ok N H I cb"
    and "card (members s (wh r)) < fuel" "card (members s (wh r)) < m" "m < size_max"
    and "T \<le> H" "I (us r)"
  shows "\<exists>r' new. slot_loop fuel cb l s m r = Some (True, r') \<and> keeps N T P (wh r) (wh r') \<and>
    members s (wh r') = {} \<and> log r' = log r @ new \<and> on_time N T new \<and> I (us r')"
  using assms(1,5,6,7,9)
proof (induction fuel arbitrary: r m)
  case (Suc fuel)
  let ?w = "wh r"
  have cur: "s \<in> pending T (Suc l)" using assms(2) by (auto simp: pending_def)
  show ?case
  proof (cases "events_head (store ?w) s = None")
    case True
    then show ?thesis using head_None_members[OF Suc.prems(1)] keeps_refl[OF Suc.prems(1)] Suc.prems(5) by simp
  next
    case False
    obtain e st where pop: "pop_event s (store ?w) = Some (e, st)" "e \<in> members s ?w"
      "keeps N T P ?w (?w\<lparr>store := st\<rparr>)" "members s (?w\<lparr>store := st\<rparr>) = members s ?w - {e}"
      "scheduled_at e st = scheduled_at e (store ?w)"
      using pop_keeps[OF Suc.prems(1) False] by blast
    define r1 where "r1 = r\<lparr>wh := ?w\<lparr>store := st\<rparr>\<rparr>"
    have r1: "winv N T P (wh r1)" "keeps N T P ?w (wh r1)" "store (wh r1) = st" "log r1 = log r" "I (us r1)"
      using pop(3) Suc.prems(5) by (simp_all add: r1_def keeps_def)
    note D = member_due[OF Suc.prems(1) pop(2) cur]
    have fin: "finite (members s ?w)" by (rule members_finite[OF Suc.prems(1)])
    have smaller: "card (members s w) < card (members s ?w)" if "keeps N T P (wh r1) w" for w
    proof -
      have "members s w \<subseteq> members s ?w - {e}"
        using that cur pop(4) unfolding keeps_def r1_def by fastforce
      then show ?thesis
        using fin pop(2) by (meson card_Diff1_less card_mono finite_Diff le_less_trans)
    qed
    have now: "now_at (wh r1) 0 = T" by (rule winv_now[OF r1(1)])
    have due: "due T (scheduled_at e st) (l, index_at l T)"
      using D(1) assms(2) pop(5) by simp
    have T_le: "T \<le> scheduled_at e st" by (rule due_ge[OF due assms(3)])
    show ?thesis
    proof (cases "l = 0 \<or> scheduled_at e st \<le> T")
      case True
      then have sT: "scheduled_at e st = T" using T_le due_0 due by (metis le_antisym)
      obtain r2 where r2: "execute cb e r1 = Some r2" "keeps N T P (wh r1) (wh r2)"
        "log r2 = log r @ [(e, T, T)]" "I (us r2)"
        using execute_keeps[OF r1(1) assms(4,8) r1(5), of e] r1(3,4) sT by auto
      have "winv N T P (wh r2)" using r2(2) by (simp add: keeps_def)
      moreover have left: "size_sub m 1 = m - 1" "m - 1 \<noteq> 0"
        using Suc.prems(3,4) smaller[OF r2(2)] by auto
      ultimately obtain r' new where r': "slot_loop fuel cb l s (m - 1) r2 = Some (True, r')"
        "keeps N T P (wh r2) (wh r')" "members s (wh r') = {}" "log r' = log r2 @ new" "on_time N T new" "I (us r')"
        using Suc.IH[of r2 "m - 1"] smaller[OF r2(2)] Suc.prems(2,3,4) r2(4) by fastforce
      have "l = 0 \<or> T mod 256 = 0" using assms(3) by (cases l) (auto dest: dvd_mult_left)
      then have "slot_loop (Suc fuel) cb l s m r = slot_loop fuel cb l s (m - 1) r2"
        using slot_loop_execute[OF pop(1) r1_def r2(1), of l m fuel] now sT left by (simp del: slot_loop.simps)
      then have "slot_loop (Suc fuel) cb l s m r = Some (True, r')" by (rule trans[OF _ r'(1)])
      moreover have "keeps N T P (wh r) (wh r')"
        by (rule keeps_trans[OF r1(2) keeps_trans[OF r2(2) r'(2)]])
      moreover have "log r' = log r @ ((e, T, T) # new)" using r'(4) r2(3) by simp
      moreover have "on_time N T ((e, T, T) # new)" using D(2) r'(5) by simp
      ultimately show ?thesis using r'(3,6) by blast
    next
      case False2: False
      have d: "size_sub (scheduled_at e st) T = scheduled_at e st - T"
        by (rule size_sub_small[OF T_le due_size[OF due]])
      obtain w where w: "schedule e (scheduled_at e st - T) (wh r1) = Some w" "keeps N T P (wh r1) w"
        using schedule_keeps[OF r1(1) D(2), of "scheduled_at e st - T"] False2 due_size[OF due]
        by auto
      define r2 where "r2 = r1\<lparr>wh := w\<rparr>"
      have r2: "keeps N T P (wh r1) (wh r2)" "winv N T P (wh r2)" "log r2 = log r" "I (us r2)"
        using w(2) r1(4,5) by (simp_all add: r2_def keeps_def)
      obtain r' new where r': "slot_loop fuel cb l s m r2 = Some (True, r')"
        "keeps N T P (wh r2) (wh r')" "members s (wh r') = {}" "log r' = log r2 @ new" "on_time N T new" "I (us r')"
        using Suc.IH[of r2 m] r2(2,4) smaller[OF r2(1)] Suc.prems(2,3,4) by fastforce
      have "T mod 256 = 0" using assms(3) False2 by (cases l) (auto dest: dvd_mult_left)
      then have "slot_loop (Suc fuel) cb l s m r = slot_loop fuel cb l s m r2"
        using slot_loop_promote[OF pop(1) r1_def, of l w fuel cb m] w(1) now False2 d
        by (simp add: r2_def del: slot_loop.simps)
      then have "slot_loop (Suc fuel) cb l s m r = Some (True, r')" by (rule trans[OF _ r'(1)])
      moreover have "keeps N T P (wh r) (wh r')"
        by (rule keeps_trans[OF r1(2) keeps_trans[OF r2(1) r'(2)]])
      moreover have "log r' = log r @ new" using r'(4) r2(3) by simp
      ultimately show ?thesis using r'(3,5,6) by blast
    qed
  qed
qed simp

section \<open>One tick\<close>

lemma winv_drop: "winv N T P w \<Longrightarrow> members s w = {} \<Longrightarrow> winv N T (P - {s}) w"
  unfolding winv_def members_def by blast

lemma pending_Suc: "pending T (Suc l) - {(l, index_at l T)} = pending T l"
  by (auto simp: pending_def less_Suc_eq)

text \<open>
  The wheel in the middle of the tick from \<open>T\<close> to \<open>T + 1\<close>: the clocks up to level \<open>l\<close> have
  moved, the events are still where they were for \<open>T\<close>.
\<close>

definition tick_inv :: "nat \<Rightarrow> nat \<Rightarrow> nat \<Rightarrow> wheel \<Rightarrow> bool" where
  "tick_inv N T l w \<longleftrightarrow> T + 1 < size_max \<and>
     (\<forall>k<8. now_at w k = (if k \<le> l then T + 1 else T) div 256 ^ k) \<and>
     (\<exists>L. slots_are (store w) L) \<and>
     (\<forall>e s. in_slot (ev (store w) e) = Some s \<longrightarrow> e < N \<and> placed T (sched_at (ev (store w) e)) s)"

lemma div_tick: "(T + 1) div 256 ^ k = T div 256 ^ k + (if 256 ^ k dvd T + 1 then 1 else 0)" for T :: nat
  by (simp add: div_Suc dvd_eq_mod_eq_0)

lemma placed_tick:
  assumes "placed T D s"
  shows "placed (T + 1) D s \<or> 256 ^ fst s dvd T + 1 \<and> due (T + 1) D s"
  using assms div_tick[of T "fst s"] by (auto simp: placed_def due_def split: if_splits)

lemma tick_inv_start:
  assumes "winv N T {} (wh r)" "T + 1 < size_max"
  shows "tick_inv N T 0 (wh (tick_level 0 r))"
  using assms unfolding winv_def tick_inv_def tick_level_def clock_def by simp

lemma dvd_next_level:
  fixes T :: nat assumes "256 ^ l dvd T" "(T div 256 ^ l) mod 256 = 0" shows "256 ^ Suc l dvd T"
proof -
  obtain q where q: "T = 256 ^ l * q" using assms(1) by (rule dvdE)
  then have "256 dvd q" using assms(2) by (simp add: dvd_eq_mod_eq_0)
  then show ?thesis using q by (simp add: mult.commute)
qed

lemma tick_inv_next:
  assumes "tick_inv N T l (wh r)" "l < 7" "256 ^ Suc l dvd T + 1"
  shows "tick_inv N T (Suc l) (wh (tick_level (Suc l) r))"
    "now_at (wh (tick_level (Suc l) r)) (Suc l) = (T + 1) div 256 ^ Suc l"
proof -
  have "T div 256 ^ Suc l + 1 \<le> T + 1" by (simp del: power_Suc)
  then have "T div 256 ^ Suc l + 1 < size_max" using assms(1) unfolding tick_inv_def by linarith
  then have "size_add (now_at (wh r) (Suc l)) 1 = (T + 1) div 256 ^ Suc l"
    using assms div_tick[of T "Suc l"] unfolding tick_inv_def by (simp del: power_Suc)
  then show "tick_inv N T (Suc l) (wh (tick_level (Suc l) r))"
    "now_at (wh (tick_level (Suc l) r)) (Suc l) = (T + 1) div 256 ^ Suc l"
    using assms(1) unfolding tick_inv_def tick_level_def by (simp_all del: power_Suc)
qed

lemma dvd_256_mono: "k \<le> l \<Longrightarrow> 256 ^ l dvd (T::nat) \<Longrightarrow> 256 ^ k dvd T"
  by (meson dvd_trans le_imp_power_dvd)

lemma index_at_0: "256 ^ Suc l dvd T \<Longrightarrow> index_at l T = 0"
  by (auto simp: index_at_def elim!: dvdE)

text \<open>When no further level turns, the tick's due events are in the current slots below.\<close>

lemma tick_inv_done:
  assumes "tick_inv N T l w" "l < 8" "l = 7 \<or> index_at l (T + 1) \<noteq> 0"
  shows "winv N (T + 1) (pending (T + 1) (Suc l)) w"
proof -
  have nd: "\<not> 256 ^ k dvd T + 1" if "l < k" "k < 8" for k
  proof
    assume "256 ^ k dvd T + 1"
    then have "256 ^ Suc l dvd T + 1" using dvd_256_mono[of "Suc l" k] that(1) by simp
    then show False using index_at_0 assms(3) that by auto
  qed
  have "now_at w k = (T + 1) div 256 ^ k" if "k < 8" for k
    using assms(1) nd[of k] that div_tick[of T k] unfolding tick_inv_def by (auto simp: not_le)
  moreover have "e < N \<and> (placed (T + 1) (sched_at (ev (store w) e)) s \<or>
      s \<in> pending (T + 1) (Suc l) \<and> due (T + 1) (sched_at (ev (store w) e)) s)"
    if "in_slot (ev (store w) e) = Some s" for e s
  proof -
    have e: "e < N" "placed T (sched_at (ev (store w) e)) s"
      using assms(1) that unfolding tick_inv_def by blast+
    have "s \<in> pending (T + 1) (Suc l)"
      if "256 ^ fst s dvd T + 1" "due (T + 1) (sched_at (ev (store w) e)) s"
    proof -
      have "fst s \<le> l" using nd[of "fst s"] that by (force simp: due_def not_le)
      moreover have "snd s = index_at (fst s) (T + 1)" using that(2) by (simp add: due_def index_at_def)
      ultimately show ?thesis by (cases s) (auto simp: pending_def)
    qed
    then show ?thesis using e placed_tick[OF e(2)] by blast
  qed
  ultimately show ?thesis
    using assms(1) unfolding winv_def tick_inv_def clock_def by (simp del: split_paired_All)
qed

lemma finish_slot:
  assumes "winv N T (pending T (Suc l)) (wh r)" "256 ^ l dvd T" "callback_ok N H I cb"
    and "N < fuel" "N < m" "m < size_max" "T \<le> H" "ticks_pending (wh r) = 0" "I (us r)"
  shows "\<exists>r' new. slot_loop fuel cb l (l, index_at l T) m r = Some (True, r') \<and>
    winv N T (pending T l) (wh r') \<and> ticks_pending (wh r') = 0 \<and> log r' = log r @ new \<and>
    on_time N T new \<and> I (us r')"
proof -
  obtain r' new where r': "slot_loop fuel cb l (l, index_at l T) m r = Some (True, r')"
    "keeps N T (pending T (Suc l)) (wh r) (wh r')" "members (l, index_at l T) (wh r') = {}"
    "log r' = log r @ new" "on_time N T new" "I (us r')"
    using slot_loop_spec[OF assms(1) refl assms(2,3) _ _ assms(6,7,9), of fuel]
      members_card[OF assms(1)] assms(4,5) by (meson le_less_trans)
  have "winv N T (pending T l) (wh r')"
    using winv_drop[OF _ r'(3), of N T "pending T (Suc l)"] r'(2) pending_Suc unfolding keeps_def by simp
  then show ?thesis using r' assms(8) by (auto simp: keeps_def)
qed

lemma process_spec:
  assumes "tick_inv N T l (wh r)" "l < 8" "256 ^ l dvd T + 1" "callback_ok N H I cb"
    and "N < fuel" "N < m" "m < size_max" "T + 1 \<le> H" "ticks_pending (wh r) = 0" "I (us r)"
  shows "\<exists>r' new. process_current_slot fuel cb ((T + 1) div 256 ^ l) m l r = Some (True, r') \<and>
    winv N (T + 1) (pending (T + 1) l) (wh r') \<and> ticks_pending (wh r') = 0 \<and>
    log r' = log r @ new \<and> on_time N (T + 1) new \<and> I (us r')"
  using assms(1-3,9,10)
proof (induction "7 - l" arbitrary: l r)
  case 0
  then have l: "l = 7" by simp
  have "winv N (T + 1) (pending (T + 1) (Suc l)) (wh r)"
    using tick_inv_done[OF 0(2,3)] l by simp
  then show ?case
    using finish_slot[OF _ 0(4) assms(4-8) 0(5,6)] l
    by (subst process_current_slot.simps) (simp add: index_at_def)
next
  case (Suc n)
  let ?T = "T + 1"
  have l: "l < 7" using Suc(2) by simp
  show ?case
  proof (cases "index_at l ?T = 0")
    case False
    then have "winv N ?T (pending ?T (Suc l)) (wh r)" using tick_inv_done[OF Suc(3,4)] by simp
    then show ?thesis
      using finish_slot[OF _ Suc(5) assms(4-8) Suc(6,7)] False
      by (subst process_current_slot.simps) (simp add: index_at_def)
  next
    case True
    let ?r1 = "tick_level (Suc l) r"
    have dvd: "256 ^ Suc l dvd ?T" using dvd_next_level[OF Suc(5)] True by (simp add: index_at_def)
    note nx = tick_inv_next[OF Suc(3) l dvd]
    have "ticks_pending (wh ?r1) = 0" "log ?r1 = log r" "I (us ?r1)"
      using Suc(6,7) by (simp_all add: tick_level_def)
    then obtain r2 new where r2:
      "process_current_slot fuel cb (?T div 256 ^ Suc l) m (Suc l) ?r1 = Some (True, r2)"
      "winv N ?T (pending ?T (Suc l)) (wh r2)" "ticks_pending (wh r2) = 0"
      "log r2 = log r @ new" "on_time N ?T new" "I (us r2)"
      using Suc(1)[of "Suc l" ?r1, OF _ nx(1) _ dvd] Suc(2) l by (fastforce simp del: power_Suc)
    have adv: "advance fuel cb 1 m (Suc l) r = Some (True, r2)"
      using Suc(6) r2(1) nx(2)
      by (simp add: advance.simps advance_loop.simps Let_def del: power_Suc)
    obtain r3 new' where r3: "slot_loop fuel cb l (l, index_at l ?T) m r2 = Some (True, r3)"
      "winv N ?T (pending ?T l) (wh r3)" "ticks_pending (wh r3) = 0" "log r3 = log r2 @ new'"
      "on_time N ?T new'" "I (us r3)"
      using finish_slot[OF r2(2) Suc(5) assms(4-8) r2(3,6)] by blast
    then have "process_current_slot fuel cb (?T div 256 ^ l) m l r = Some (True, r3)"
      using adv True l by (subst process_current_slot.simps) (simp add: index_at_def)
    then show ?thesis using r3 r2 by (intro exI[of _ r3] exI[of _ "new @ new'"]) simp
  qed
qed

section \<open>Advancing by any number of ticks\<close>

text \<open>The executions of a call from tick \<open>T\<close> to tick \<open>U\<close>: each in its own tick, in order.\<close>

definition in_order :: "nat \<Rightarrow> nat \<Rightarrow> (event \<times> nat \<times> nat) list \<Rightarrow> bool" where
  "in_order T U es \<longleftrightarrow> (\<forall>(e, sched, now) \<in> set es. sched = now \<and> T < now \<and> now \<le> U) \<and>
     sorted (map (\<lambda>(e, sched, now). now) es)"

lemma in_order_append:
  assumes "in_order T U xs" "in_order U V ys" "T \<le> U" "U \<le> V"
  shows "in_order T V (xs @ ys)"
  using assms unfolding in_order_def by (fastforce simp: sorted_append)

lemma on_time_in_order: "on_time N (T + 1) es \<Longrightarrow> in_order T (T + 1) es"
proof (induction es)
  case (Cons x es)
  then show ?case by (cases x) (auto simp: in_order_def on_time_def)
qed (simp add: in_order_def)

lemma advance_loop_spec:
  assumes "winv N T {} (wh r)" "ticks_pending (wh r) = 0" "T + delta \<le> H" "I (us r)"
    and "callback_ok N H I cb" "N < fuel" "N < m" "m < size_max" "H < size_max"
  shows "\<exists>r' new. advance_loop fuel cb delta m 0 r = Some (True, r') \<and> winv N (T + delta) {} (wh r') \<and>
    ticks_pending (wh r') = 0 \<and> log r' = log r @ new \<and> in_order T (T + delta) new \<and> I (us r')"
  using assms(1-4)
proof (induction delta arbitrary: T r)
  case 0
  then show ?case by (simp add: advance_loop.simps in_order_def)
next
  case (Suc d)
  let ?r1 = "tick_level 0 r"
  have ti: "tick_inv N T 0 (wh ?r1)" using tick_inv_start[OF Suc.prems(1)] Suc.prems(3) assms(9) by simp
  then have now: "now_at (wh ?r1) 0 = T + 1" by (auto simp: tick_inv_def)
  have "ticks_pending (wh ?r1) = 0" "log ?r1 = log r" "I (us ?r1)"
    using Suc.prems(2,4) by (simp_all add: tick_level_def)
  then obtain r2 new where r2: "process_current_slot fuel cb (T + 1) m 0 ?r1 = Some (True, r2)"
    "winv N (T + 1) {} (wh r2)" "ticks_pending (wh r2) = 0" "log r2 = log r @ new" "on_time N (T + 1) new"
    "I (us r2)"
    using process_spec[OF ti _ _ assms(5-8)] Suc.prems(3) by (auto simp: pending_def)
  obtain r3 new' where r3: "advance_loop fuel cb d m 0 r2 = Some (True, r3)"
    "winv N (T + 1 + d) {} (wh r3)" "ticks_pending (wh r3) = 0" "log r3 = log r2 @ new'"
    "in_order (T + 1) (T + 1 + d) new'" "I (us r3)"
    using Suc.IH[OF r2(2,3) _ r2(6)] Suc.prems(3) by auto
  have "advance_loop fuel cb (Suc d) m 0 r = Some (True, r3)"
    using r2(1) r3(1) now by (subst advance_loop.simps) (simp add: Let_def)
  moreover have "in_order T (T + Suc d) (new @ new')"
    using in_order_append[OF on_time_in_order[OF r2(5)] r3(5)] by simp
  ultimately show ?case using r2 r3 by (intro exI[of _ r3] exI[of _ "new @ new'"]) simp
qed

lemma advance_spec:
  assumes "winv N T {} (wh r)" "ticks_pending (wh r) = 0" "I (us r)" "0 < delta" "T + delta \<le> H"
    and "callback_ok N H I cb" "N < fuel" "N < m" "m < size_max" "H < size_max"
  shows "\<exists>r' new. advance fuel cb delta m 0 r = Some (True, r') \<and> winv N (T + delta) {} (wh r') \<and>
    ticks_pending (wh r') = 0 \<and> log r' = log r @ new \<and> in_order T (T + delta) new \<and> I (us r')"
  using advance_loop_spec[OF assms(1,2,5,3,6-10)] assms(2,4) by (subst advance.simps) simp

section \<open>Every history of calls\<close>

text \<open>
  The states a client reaches from a new wheel by calls that keep to the rules of the header,
  with callbacks that keep to them too, and a limit \<open>m\<close> larger than the number of events.
  Between the calls the client may change its own state.
\<close>

inductive wheel_run ::
  "nat \<Rightarrow> nat \<Rightarrow> ('s \<Rightarrow> bool) \<Rightarrow> 's callback \<Rightarrow> nat \<Rightarrow> nat \<Rightarrow> 's run \<Rightarrow> bool"
  for N H I cb fuel m where
  start: "now \<le> H \<Longrightarrow> I s \<Longrightarrow> wheel_run N H I cb fuel m \<lparr>wh = new_wheel now, us = s, log = []\<rparr>"
| call: "wheel_run N H I cb fuel m r \<Longrightarrow> cmd_ok N (wheel_now (wh r)) c \<Longrightarrow> run_cmd c (wh r) = Some w \<Longrightarrow>
         wheel_run N H I cb fuel m (r\<lparr>wh := w\<rparr>)"
| user: "wheel_run N H I cb fuel m r \<Longrightarrow> I s \<Longrightarrow> wheel_run N H I cb fuel m (r\<lparr>us := s\<rparr>)"
| adv: "wheel_run N H I cb fuel m r \<Longrightarrow> 0 < delta \<Longrightarrow> wheel_now (wh r) + delta \<le> H \<Longrightarrow>
        advance fuel cb delta m 0 r = Some (b, r') \<Longrightarrow> wheel_run N H I cb fuel m r'"

text \<open>The contract of the sizes and of the callbacks.\<close>

definition client_ok ::
  "nat \<Rightarrow> nat \<Rightarrow> ('s \<Rightarrow> bool) \<Rightarrow> 's callback \<Rightarrow> nat \<Rightarrow> nat \<Rightarrow> bool" where
  "client_ok N H I cb fuel m \<longleftrightarrow>
     callback_ok N H I cb \<and> N < fuel \<and> N < m \<and> m < size_max \<and> H < size_max"

lemma winv_new:
  assumes "now < size_max" shows "winv N now {} (new_wheel now)"
proof -
  have "slots_are (store (new_wheel now)) (\<lambda>_. [])"
    using slots_are_new by (simp add: new_wheel_def)
  then show ?thesis
    using assms unfolding winv_def clock_def
    by (auto simp: new_wheel_def new_store_def wheel_consts power_mult)
qed

lemma wheel_run_inv:
  assumes "wheel_run N H I cb fuel m r" "client_ok N H I cb fuel m"
  shows "winv N (wheel_now (wh r)) {} (wh r) \<and> ticks_pending (wh r) = 0 \<and> I (us r) \<and>
    wheel_now (wh r) \<le> H \<and> (\<exists>S. in_order S (wheel_now (wh r)) (log r) \<and> S \<le> wheel_now (wh r))"
  using assms(1)
proof induction
  case (start now s)
  have "wheel_now (new_wheel now) = now" by (simp add: wheel_now_def new_wheel_def wheel_consts)
  then show ?case
    using winv_new[of now N] start assms(2) by (auto simp: new_wheel_def in_order_def client_ok_def)
next
  case (user r s)
  then show ?case by simp
next
  case (call r c w)
  have "keeps N (wheel_now (wh r)) {} (wh r) w"
    using run_cmd_keeps[of N "wheel_now (wh r)" "{}" "wh r" c] call by auto
  then have "winv N (wheel_now (wh r)) {} w" "ticks_pending w = ticks_pending (wh r)"
    by (simp_all add: keeps_def)
  moreover then have "wheel_now w = wheel_now (wh r)" using winv_now by (simp add: wheel_now_def)
  ultimately show ?case using call.IH by simp
next
  case (adv r delta b r')
  let ?T = "wheel_now (wh r)"
  have ok: "callback_ok N H I cb" "N < fuel" "N < m" "m < size_max" "H < size_max"
    using assms(2) by (simp_all add: client_ok_def)
  obtain r2 new where r2: "advance fuel cb delta m 0 r = Some (True, r2)" "winv N (?T + delta) {} (wh r2)"
    "ticks_pending (wh r2) = 0" "log r2 = log r @ new" "in_order ?T (?T + delta) new" "I (us r2)"
    using advance_spec[OF _ _ _ adv.hyps(2,3) ok] adv.IH by blast
  have eq: "r' = r2" using r2(1) adv.hyps(4) by simp
  have now: "wheel_now (wh r2) = ?T + delta" using winv_now[OF r2(2)] by (simp add: wheel_now_def)
  obtain S where S: "in_order S ?T (log r)" "S \<le> ?T" using adv.IH by blast
  have "in_order S (?T + delta) (log r2)" using in_order_append[OF S(1) r2(5) S(2)] r2(4) by simp
  then show ?case using r2(2,3,6) now eq S(2) adv.hyps(3) by (metis trans_le_add1)
qed

section \<open>Invariants of runs\<close>

text \<open>
  A property of runs that every execution, every promotion and the moves of the clocks keep is
  kept by \<open>advance\<close>, whether it completes its ticks or stops at the limit.
\<close>

locale run_invariant =
  fixes cb :: "'s callback" and J :: "'s run \<Rightarrow> bool"
  assumes exec: "J r \<Longrightarrow> pop_event s (store (wh r)) = Some (e, st) \<Longrightarrow>
      execute cb e (r\<lparr>wh := (wh r)\<lparr>store := st\<rparr>\<rparr>) = Some r' \<Longrightarrow> J r'"
    and promote: "J r \<Longrightarrow> pop_event s (store (wh r)) = Some (e, st) \<Longrightarrow>
      now_at (wh r) 0 < scheduled_at e st \<Longrightarrow>
      schedule e (size_sub (scheduled_at e st) (now_at (wh r) 0)) ((wh r)\<lparr>store := st\<rparr>) = Some w \<Longrightarrow>
      J (r\<lparr>wh := w\<rparr>)"
    and tick: "J r \<Longrightarrow> J (tick_level l r)"
    and pend: "J r \<Longrightarrow> J (set_pending n r)"
begin

lemma slot_loop_inv: "slot_loop fuel cb l s m r = Some (b, r') \<Longrightarrow> J r \<Longrightarrow> J r'"
proof (induction fuel arbitrary: r m)
  case (Suc fuel)
  show ?case
  proof (cases "events_head (store (wh r)) s = None")
    case True
    then show ?thesis using Suc.prems by simp
  next
    case False
    then obtain x st where pop: "pop_event s (store (wh r)) = Some (x, st)"
      using Suc.prems(1) by (auto split: option.splits)
    define r1 where "r1 = r\<lparr>wh := (wh r)\<lparr>store := st\<rparr>\<rparr>"
    have now: "now_at (wh r1) 0 = now_at (wh r) 0" by (simp add: r1_def)
    have step: "J r'" if "execute cb x r1 = Some r2"
      "(if size_sub m 1 = 0 then Some (False, r2) else slot_loop fuel cb l s (size_sub m 1) r2) = Some (b, r')"
      for r2
      using exec[OF Suc.prems(2) pop that(1)[unfolded r1_def]] that(2) Suc.IH by (auto split: if_splits)
    have again: "J r'" if "schedule x (size_sub (scheduled_at x st) (now_at (wh r) 0)) (wh r1) = Some w"
      "now_at (wh r) 0 < scheduled_at x st" "slot_loop fuel cb l s m (r1\<lparr>wh := w\<rparr>) = Some (b, r')" for w
      using promote[OF Suc.prems(2) pop that(2), of w] that(1,3) Suc.IH by (simp add: r1_def)
    show ?thesis
      using Suc.prems(1) False pop step again
      by (auto simp: Let_def r1_def[symmetric] now split: if_splits option.splits)
  qed
qed simp

lemma advance_inv_gen:
  "process_current_slot fuel c now m l r = Some (b, r') \<Longrightarrow> c = cb \<Longrightarrow> J r \<Longrightarrow> J r'"
  "advance_loop fuel c d m l r = Some (b, r') \<Longrightarrow> c = cb \<Longrightarrow> J r \<Longrightarrow> J r'"
  "advance fuel c d m l r = Some (b, r') \<Longrightarrow> c = cb \<Longrightarrow> J r \<Longrightarrow> J r'"
proof (induction fuel c now m l r and fuel c d m l r and fuel c d m l r
    arbitrary: b r' and b r' and b r'
    rule: process_current_slot_advance_loop_advance.induct)
  case (1 fuel c now m l r)
  from 1(2)[unfolded process_current_slot.simps[of fuel c now m l r]] 1(1,3,4) show ?case
    by (auto simp: Let_def split: option.splits prod.splits bool.splits if_splits dest: slot_loop_inv)
next
  case (2 fuel c d m l r)
  from 2(3)[unfolded advance_loop.simps[of fuel c d m l r]] 2(1,2,4,5) tick[OF 2(5), of l] show ?case
    by (auto simp: Let_def intro: pend split: option.splits prod.splits bool.splits if_splits)
next
  case (3 fuel c d m l r)
  have p: "J (set_pending n r)" for n using pend[OF 3(6)] .
  from 3(4)[unfolded advance.simps[of fuel c d m l r]] 3(1,2,3,5,6) p show ?case
    by (auto simp: Let_def split: option.splits prod.splits bool.splits if_splits) (metis pend)
qed

lemmas advance_inv = advance_inv_gen(3)[OF _ refl]

end

section \<open>No event is lost\<close>

text \<open>An event that no callback schedules or cancels stays scheduled until it is executed.\<close>

primrec cmd_event :: "cmd \<Rightarrow> event" where
  "cmd_event (Schedule e d) = e"
| "cmd_event (Schedule_in_range e a b) = e"
| "cmd_event (Cancel e) = e"

definition untouched :: "event \<Rightarrow> 's callback \<Rightarrow> bool" where
  "untouched e cb \<longleftrightarrow> (\<forall>x w s. \<forall>c \<in> set (fst (cb x w s)). cmd_event c \<noteq> e)"

definition kept :: "event \<Rightarrow> nat \<Rightarrow> 's run \<Rightarrow> bool" where
  "kept e D r \<longleftrightarrow> active e (store (wh r)) \<and> scheduled_at e (store (wh r)) = D \<or>
     (\<exists>t. (e, D, t) \<in> set (log r))"

definition same_event :: "event \<Rightarrow> store \<Rightarrow> store \<Rightarrow> bool" where
  "same_event e st st' \<longleftrightarrow> in_slot (ev st' e) = in_slot (ev st e) \<and> sched_at (ev st' e) = sched_at (ev st e)"

lemma same_event_trans: "same_event e a b \<Longrightarrow> same_event e b c \<Longrightarrow> same_event e a c"
  by (simp add: same_event_def)

lemma schedule_SomeE:
  assumes "schedule e d w = Some w'"
  obtains s where "w' = w\<lparr>store := relink e (Some s) (set_scheduled_at e (size_add (now_at w 0) d) (store w))\<rparr>"
  using assms by (auto simp: schedule_def Let_def split: if_splits option.splits prod.splits)

lemma schedule_same: "schedule x d w = Some w' \<Longrightarrow> x \<noteq> e \<Longrightarrow> same_event e (store w) (store w')"
  by (erule schedule_SomeE) (auto simp: same_event_def frame_simps)

lemma run_cmd_same:
  "run_cmd c w = Some w' \<Longrightarrow> cmd_event c \<noteq> e \<Longrightarrow> same_event e (store w) (store w')"
  by (cases c) (auto simp: schedule_in_range_def same_event_def cancel_event_def frame_simps
      split: if_splits dest: schedule_same[unfolded same_event_def])

lemma run_cmds_same:
  "run_cmds cs w = Some w' \<Longrightarrow> \<forall>c \<in> set cs. cmd_event c \<noteq> e \<Longrightarrow> same_event e (store w) (store w')"
proof (induction cs arbitrary: w)
  case (Cons c cs)
  then show ?case
    by (auto split: option.splits intro: same_event_trans[OF run_cmd_same])
qed (simp add: same_event_def)

lemma execute_kept:
  assumes "execute cb x r = Some r'" "untouched e cb"
    and "x = e \<and> scheduled_at e (store (wh r)) = D \<or> kept e D r"
  shows "kept e D r'"
proof -
  obtain w where w: "run_cmds (fst (cb x (wh r) (us r))) (wh r) = Some w" "wh r' = w"
    "log r' = log r @ [(x, scheduled_at x (store (wh r)), now_at (wh r) 0)]"
    using assms(1) by (auto simp: execute_def split_beta split: option.splits)
  have "same_event e (store (wh r)) (store w)"
    using run_cmds_same[OF w(1)] assms(2) by (simp add: untouched_def)
  then show ?thesis
    using assms(3) w(2,3) by (auto simp: kept_def same_event_def active_def scheduled_at_def)
qed

lemma pop_event_same:
  assumes "pop_event s st = Some (x, st')"
  shows "sched_at (ev st' y) = sched_at (ev st y)" "y \<noteq> x \<Longrightarrow> in_slot (ev st' y) = in_slot (ev st y)"
  using assms by (auto simp: pop_event_def Let_def ev_upd split: option.splits)

lemma schedule_again:
  assumes "schedule e (size_sub D (now_at w 0)) w = Some w'" "now_at w 0 < D" "D < size_max"
  shows "active e (store w') \<and> scheduled_at e (store w') = D"
  using assms(2,3) by (auto simp: active_def scheduled_at_def frame_simps intro: schedule_SomeE[OF assms(1)])

lemma promote_kept:
  assumes "kept e D r" "D < size_max" "pop_event s (store (wh r)) = Some (x, st)"
    and "now_at (wh r) 0 < scheduled_at x st"
    and "schedule x (size_sub (scheduled_at x st) (now_at (wh r) 0)) ((wh r)\<lparr>store := st\<rparr>) = Some w"
  shows "kept e D (r\<lparr>wh := w\<rparr>)"
proof (cases "x = e")
  case True
  then show ?thesis
    using schedule_again[of e D "(wh r)\<lparr>store := st\<rparr>" w] assms pop_event_same(1)[OF assms(3), of e]
    by (auto simp: kept_def scheduled_at_def)
next
  case False
  then show ?thesis
    using assms(1) schedule_same[OF assms(5) False] pop_event_same[OF assms(3), of e]
    by (auto simp: kept_def same_event_def active_def scheduled_at_def)
qed

lemma tick_level_kept [simp]: "kept e D (tick_level l r) = kept e D r"
  by (simp add: kept_def tick_level_def)

lemma set_pending_kept [simp]: "kept e D (set_pending n r) = kept e D r"
  by (simp add: kept_def set_pending_def)

interpretation kept: run_invariant cb "\<lambda>r. untouched e cb \<and> D < size_max \<and> kept e D r"
  for cb :: "'s callback" and e D
proof (unfold_locales, goal_cases)
  case (1 r s x st r')
  then have "x = e \<and> scheduled_at e st = D \<or> kept e D (r\<lparr>wh := (wh r)\<lparr>store := st\<rparr>\<rparr>)"
    using pop_event_same[OF 1(2), of e] by (auto simp: kept_def active_def scheduled_at_def)
  then show ?case using execute_kept[OF 1(3)] 1(1) by simp
next
  case (2 r s x st w)
  then show ?case using promote_kept by blast
qed simp_all

section \<open>The properties of the wheel\<close>

lemma log_now_le:
  assumes "in_order S U es" "(e, D, t) \<in> set es" shows "D = t" "D \<le> U"
  using assms unfolding in_order_def by auto

lemma placed_late: "placed T D s \<Longrightarrow> T < D"
  by (meson div_le_mono leI not_le placed_def)

lemma advance_executes_winv:
  assumes inv: "winv N T {} (wh r)" "ticks_pending (wh r) = 0" "I (us r)" and "client_ok N H I cb fuel m"
    and "0 < delta" "T + delta \<le> H"
    and "active e (store (wh r))" "scheduled_at e (store (wh r)) \<le> T + delta" "untouched e cb"
    and S: "in_order S T (log r)"
  shows "\<exists>r' new. advance fuel cb delta m 0 r = Some (True, r') \<and> log r' = log r @ new \<and>
    (e, scheduled_at e (store (wh r)), scheduled_at e (store (wh r))) \<in> set new"
proof -
  let ?D = "scheduled_at e (store (wh r))"
  obtain r' new where r': "advance fuel cb delta m 0 r = Some (True, r')" "winv N (T + delta) {} (wh r')"
    "log r' = log r @ new" "in_order T (T + delta) new"
    using advance_spec[where I = I, OF inv assms(5,6)] assms(4) unfolding client_ok_def by blast
  obtain s where "in_slot (ev (store (wh r)) e) = Some s" using assms(7) by (auto simp: active_def)
  then have D: "T < ?D" using winvD(4)[OF inv(1)] placed_late by (fastforce simp: scheduled_at_def)
  have "kept e ?D r'"
    using kept.advance_inv[OF r'(1), of e ?D] assms(4,6-9) by (simp add: kept_def client_ok_def)
  moreover have "\<not> (active e (store (wh r')) \<and> scheduled_at e (store (wh r')) = ?D)"
    using winvD(4)[OF r'(2), of e] placed_late[of "T + delta" ?D] assms(8)
    by (fastforce simp: active_def scheduled_at_def)
  ultimately obtain t where "(e, ?D, t) \<in> set (log r @ new)" using r'(3) by (auto simp: kept_def)
  then have "(e, ?D, ?D) \<in> set new"
    using log_now_le[OF S] log_now_le[OF r'(4)] D by (fastforce dest: not_le_imp_less)
  then show ?thesis using r'(1,3) by blast
qed

definition no_calls :: "unit callback" where
  "no_calls e w s = ([], ())"

lemma no_calls_ok:
  "N < fuel \<Longrightarrow> N < m \<Longrightarrow> m < size_max \<Longrightarrow> H < size_max \<Longrightarrow> client_ok N H (\<lambda>_. True) no_calls fuel m"
  by (simp add: client_ok_def callback_ok_def no_calls_def)

definition demo_run :: "unit run" where
  "demo_run = \<lparr>wh = the (run_cmd (Schedule 0 300) (new_wheel 0)), us = (), log = []\<rparr>"

lemma demo_sched: "run_cmd (Schedule 0 300) (new_wheel 0) = Some (wh demo_run)"
proof -
  have "run_cmd (Schedule 0 300) (new_wheel 0) \<noteq> None"
    using schedule_keeps[OF winv_new, of 0 0 1 300] by (auto simp: size_max_def)
  then show ?thesis by (simp add: demo_run_def)
qed

lemma demo_wheel_run: "wheel_run 1 1000 (\<lambda>_. True) no_calls 2 2 demo_run"
proof -
  have "wheel_run 1 1000 (\<lambda>_. True) no_calls 2 2 \<lparr>wh = new_wheel 0, us = (), log = []\<rparr>"
    by (rule wheel_run.start) simp_all
  from wheel_run.call[OF this, of "Schedule 0 300" "wh demo_run"] show ?thesis
    using demo_sched
    by (simp add: cmd_ok_def wheel_now_def new_wheel_def size_max_def demo_run_def)
qed

lemma demo_facts:
  "wheel_now (wh demo_run) = 0" "active 0 (store (wh demo_run))" "scheduled_at 0 (store (wh demo_run)) = 300"
proof -
  obtain s where "wh demo_run = (new_wheel 0)\<lparr>store :=
      relink 0 (Some s) (set_scheduled_at 0 (size_add (now_at (new_wheel 0) 0) 300) (store (new_wheel 0)))\<rparr>"
    using demo_sched by (auto elim: schedule_SomeE)
  then show "wheel_now (wh demo_run) = 0" "active 0 (store (wh demo_run))"
    "scheduled_at 0 (store (wh demo_run)) = 300"
    by (simp_all add: wheel_now_def active_def scheduled_at_def frame_simps new_wheel_def size_add_def
        size_max_def)
qed

text \<open>
  C1. In every history of calls on the wheel, callbacks included, each executed event ran in
  exactly the tick it was scheduled for, and the executions happened in the order of the ticks.
\<close>

theorem timers_run_on_time:
  assumes "wheel_run N H I cb fuel m r" "client_ok N H I cb fuel m"
  shows "(\<forall>(e, sched, now) \<in> set (log r). sched = now \<and> now \<le> wheel_now (wh r)) \<and>
    sorted (map (\<lambda>(e, sched, now). now) (log r))"
proof -
  obtain S where "in_order S (wheel_now (wh r)) (log r)" using wheel_run_inv[OF assms] by blast
  then show ?thesis unfolding in_order_def by fastforce
qed

theorem timers_run_on_time_witness:
  "list_all (\<lambda>(e, sched, now). sched = now \<and> now \<le> wheel_now (wh demo_run)) (log demo_run) \<and>
   sorted (map (\<lambda>(e, sched, now). now) (log demo_run))"
  using timers_run_on_time[OF demo_wheel_run no_calls_ok] by (simp add: size_max_def list_all_iff)

text \<open>
  C3. In every state reached by calls on the wheel, \<^verbatim>\<open>advance(delta)\<close> with a limit larger than
  the number of events returns true, moves the clock by \<open>delta\<close>, and leaves no event whose
  tick has come.
\<close>

theorem advance_completes:
  assumes "wheel_run N H I cb fuel m r" "client_ok N H I cb fuel m"
    and "0 < delta" "wheel_now (wh r) + delta \<le> H"
  shows "\<exists>r'. advance fuel cb delta m 0 r = Some (True, r') \<and>
    wheel_now (wh r') = wheel_now (wh r) + delta \<and> ticks_pending (wh r') = 0 \<and>
    (\<forall>e. active e (store (wh r')) \<longrightarrow> wheel_now (wh r') < scheduled_at e (store (wh r')))"
proof -
  let ?T = "wheel_now (wh r)"
  have inv: "winv N ?T {} (wh r)" "ticks_pending (wh r) = 0" "I (us r)"
    using wheel_run_inv[OF assms(1,2)] by auto
  obtain r' where r': "advance fuel cb delta m 0 r = Some (True, r')" "winv N (?T + delta) {} (wh r')"
    "ticks_pending (wh r') = 0"
    using advance_spec[where I = I, OF inv assms(3,4)] assms(2) unfolding client_ok_def by blast
  have "?T + delta < scheduled_at e (store (wh r'))" if act: "active e (store (wh r'))" for e
  proof -
    obtain s where "in_slot (ev (store (wh r')) e) = Some s" using act by (auto simp: active_def)
    then have "placed (?T + delta) (scheduled_at e (store (wh r'))) s"
      using winvD(4)[OF r'(2)] by (auto simp: scheduled_at_def)
    then show ?thesis by (rule placed_late)
  qed
  then show ?thesis using r' winv_now[OF r'(2)] by (auto simp: wheel_now_def)
qed

theorem advance_completes_witness:
  "\<exists>r'. advance 2 no_calls 299 2 0 demo_run = Some (True, r') \<and>
    wheel_now (wh r') = wheel_now (wh demo_run) + 299 \<and> ticks_pending (wh r') = 0 \<and>
    {e. active e (store (wh r')) \<and> scheduled_at e (store (wh r')) \<le> wheel_now (wh r')} = {}"
  using advance_completes[OF demo_wheel_run no_calls_ok, of 299]
  by (fastforce simp: size_max_def demo_facts)

text \<open>
  C2. No timer is lost: an event scheduled for a tick the call reaches, which no callback
  reschedules or cancels, is executed by the call, in its tick.
\<close>

theorem advance_executes:
  assumes "wheel_run N H I cb fuel m r" "client_ok N H I cb fuel m"
    and "0 < delta" "wheel_now (wh r) + delta \<le> H"
    and "active e (store (wh r))" "scheduled_at e (store (wh r)) \<le> wheel_now (wh r) + delta"
    and "untouched e cb"
  shows "\<exists>r' new. advance fuel cb delta m 0 r = Some (True, r') \<and> log r' = log r @ new \<and>
    (e, scheduled_at e (store (wh r)), scheduled_at e (store (wh r))) \<in> set new"
proof -
  obtain S where "in_order S (wheel_now (wh r)) (log r)" using wheel_run_inv[OF assms(1,2)] by blast
  then show ?thesis
    using advance_executes_winv[OF _ _ _ assms(2-7)] wheel_run_inv[OF assms(1,2)] by blast
qed

theorem advance_executes_witness:
  "\<exists>r' new. advance 2 no_calls 300 2 0 demo_run = Some (True, r') \<and> log r' = log demo_run @ new \<and>
    (0, scheduled_at 0 (store (wh demo_run)), scheduled_at 0 (store (wh demo_run))) \<in> set new"
  using advance_executes[OF demo_wheel_run no_calls_ok, of 300 0]
  by (simp add: size_max_def demo_facts untouched_def no_calls_def)

text \<open>
  \<^verbatim>\<open>schedule_in_range(event, start, end)\<close> leaves the event scheduled for a tick of the
  range, from \<open>start\<close> to \<open>end\<close> ticks after now, in every state of the wheel (for ends below
  \<open>2 ^ 56\<close>, where the shifted mask does not lose the top byte).
\<close>

theorem schedule_in_range_within:
  assumes "wheel_run N H I cb fuel m r" "client_ok N H I cb fuel m"
    and "e < N" "start < stop" "stop < 2 ^ 56" "wheel_now (wh r) + stop < size_max"
  shows "\<exists>w'. schedule_in_range e start stop (wh r) = Some w' \<and> active e (store w') \<and>
    wheel_now (wh r) + start \<le> scheduled_at e (store w') \<and>
    scheduled_at e (store w') \<le> wheel_now (wh r) + stop"
proof -
  let ?T = "wheel_now (wh r)" and ?w = "wh r"
  have inv: "winv N ?T {} ?w" using wheel_run_inv[OF assms(1,2)] by blast
  note rd = range_delta_bounds[OF assms(4,5)]
  show ?thesis
  proof (cases "active e (store ?w) \<and> start \<le> size_sub (scheduled_at e (store ?w)) (now_at ?w 0) \<and>
      size_sub (scheduled_at e (store ?w)) (now_at ?w 0) \<le> stop")
    case True
    then obtain s where "in_slot (ev (store ?w) e) = Some s" by (auto simp: active_def)
    then have "placed ?T (scheduled_at e (store ?w)) s"
      using winvD(4)[OF inv] by (auto simp: scheduled_at_def)
    then have "?T < scheduled_at e (store ?w)" "scheduled_at e (store ?w) < size_max"
      by (rule placed_late, simp add: placed_def)
    then show ?thesis using True assms(4) by (auto simp: schedule_in_range_def wheel_now_def)
  next
    case False
    obtain s where "schedule e (range_delta start stop) ?w =
        Some (?w\<lparr>store := relink e (Some s) (set_scheduled_at e (?T + range_delta start stop) (store ?w))\<rparr>)"
      using schedule_places[OF winvD(1)[OF inv], of "range_delta start stop" e] rd assms(6) by auto
    then show ?thesis
      using False assms(4) rd
      by (auto simp: schedule_in_range_def active_def scheduled_at_def frame_simps)
  qed
qed

theorem schedule_in_range_within_witness:
  "\<exists>w'. schedule_in_range 0 100 1000 (wh demo_run) = Some w' \<and> active 0 (store w') \<and>
    wheel_now (wh demo_run) + 100 \<le> scheduled_at 0 (store w') \<and>
    scheduled_at 0 (store w') \<le> wheel_now (wh demo_run) + 1000"
  using schedule_in_range_within[OF demo_wheel_run no_calls_ok, of 0 100 1000]
  by (simp add: size_max_def demo_facts)

end
