(* ===== verification/TimerNext.thy ===== *)
theory TimerNext
  imports TimerAdvance
begin

text \<open>
  \<^verbatim>\<open>TimerWheel::ticks_to_next_event\<close> of \<^verbatim>\<open>src/mybase/src/timer-wheel.h\<close>: the search of the
  slots for the next event, with what it promises of its bound, and two behaviours the header's
  comments do not announce.
\<close>

section \<open>The search\<close>

text \<open>
  The walk along \<^verbatim>\<open>next_\<close> from the head of a slot; \<open>None\<close> when the fuel is used up, which it
  is not in a list of fewer events.
\<close>

primrec chain :: "nat \<Rightarrow> store \<Rightarrow> event option \<Rightarrow> event list option" where
  "chain 0 st c = None"
| "chain (Suc fuel) st c =
     (case c of
        None \<Rightarrow> Some []
      | Some e \<Rightarrow> (case chain fuel st (next_ev (ev st e)) of None \<Rightarrow> None | Some es \<Rightarrow> Some (e # es)))"

definition min_over :: "wheel \<Rightarrow> nat \<Rightarrow> event list \<Rightarrow> nat" where
  "min_over w mn es =
     fold (\<lambda>e m. min m (size_sub (scheduled_at e (store w)) (now_at w 0))) es mn"

text \<open>The loop over the slots of a level; \<open>Some (Some v)\<close> is a \<^verbatim>\<open>return v\<close> inside it.\<close>

primrec next_scan :: "nat \<Rightarrow> wheel \<Rightarrow> nat \<Rightarrow> nat list \<Rightarrow> nat \<Rightarrow> nat option option" where
  "next_scan fuel w level [] mn = Some None"
| "next_scan fuel w level (i # is) mn =
     (let slot_index = size_add (size_add (now_at w level) 1) i mod NUM_SLOTS;
          up_slot_index = size_add (now_at w (level + 1)) 1 mod NUM_SLOTS
      in case (if slot_index = 0 \<and> level < MAX_LEVEL \<and>
                  (level > 0 \<or> events_head (store w) (level, slot_index) = None)
               then chain fuel (store w) (events_head (store w) (level + 1, up_slot_index))
               else Some []) of
           None \<Rightarrow> None
         | Some ups \<Rightarrow>
             (let mn1 = min_over w mn ups
              in case chain fuel (store w) (events_head (store w) (level, slot_index)) of
                   None \<Rightarrow> None
                 | Some [] \<Rightarrow> next_scan fuel w level is mn1
                 | Some (e # es) \<Rightarrow>
                     Some (Some (if level = 0 then min_over w mn1 [e] else min_over w mn1 (e # es)))))"

function ticks_to_next_event :: "nat \<Rightarrow> nat \<Rightarrow> nat \<Rightarrow> wheel \<Rightarrow> nat option" where
  "ticks_to_next_event fuel mx level w =
     (if ticks_pending w \<noteq> 0 then Some 0
      else case next_scan fuel w level [0..<NUM_SLOTS] mx of
             None \<Rightarrow> None
           | Some (Some v) \<Rightarrow> Some v
           | Some None \<Rightarrow>
               (if level < MAX_LEVEL \<and> mx div 2 ^ (WIDTH_BITS * level + 1) > 0
                then ticks_to_next_event fuel mx (level + 1) w else Some mx))"
  by pat_completeness auto
termination
  by (relation "measure (\<lambda>(fuel, mx, level, w). NUM_LEVELS - level)") (auto simp: MAX_LEVEL_def)

declare ticks_to_next_event.simps [simp del]

section \<open>Its bound\<close>

lemma min_over_le: "min_over w mn es \<le> mn"
proof -
  have "fold (\<lambda>e m. min m (f e)) es mn \<le> mn" for f :: "event \<Rightarrow> nat"
    by (induction es arbitrary: mn) (simp, metis fold_simps(2) min.bounded_iff)
  then show ?thesis by (simp add: min_over_def)
qed

lemma next_scan_le: "next_scan fuel w level is mn = Some (Some v) \<Longrightarrow> v \<le> mn"
proof (induction "is" arbitrary: mn)
  case (Cons i "is")
  have le: "min_over w (min_over w mn us) es \<le> mn" for us es
    using min_over_le order_trans by blast
  show ?case using Cons le order_trans[OF Cons.IH min_over_le]
    by (auto simp: Let_def split: option.splits list.splits if_splits)
qed simp

lemma chain_seg: "seg st p c xs None \<Longrightarrow> length xs < fuel \<Longrightarrow> chain fuel st c = Some xs"
proof (induction xs arbitrary: p c fuel)
  case Nil
  then show ?case by (cases fuel) auto
next
  case (Cons x xs)
  then show ?case by (cases fuel) auto
qed

lemma chain_total:
  assumes "winv N T P w" "N < fuel"
  shows "\<exists>es. chain fuel (store w) (events_head (store w) s) = Some es \<and> set es = members s w"
proof -
  obtain L where L: "slots_are (store w) L" using winvD(2)[OF assms(1)] by blast
  have set: "set (L s) = members s w" using slots_areD(3)[OF L] by (auto simp: members_def)
  then have "length (L s) \<le> N"
    using members_card[OF assms(1), of s] distinct_card[OF slots_areD(2)[OF L]] by metis
  then show ?thesis using chain_seg[OF slots_areD(1)[OF L], of s fuel] assms(2) set by auto
qed

lemma next_scan_total:
  assumes "winv N T P w" "N < fuel"
  shows "next_scan fuel w level is mn \<noteq> None"
proof (induction "is" arbitrary: mn)
  case (Cons i "is")
  have c: "chain fuel (store w) (events_head (store w) s) =
      Some (the (chain fuel (store w) (events_head (store w) s)))" for s
    using chain_total[OF assms, of s] by auto
  show ?case using Cons
    by (subst next_scan.simps, subst c, subst c) (simp add: Let_def split: list.splits)
qed simp

lemma ticks_to_next_total:
  assumes "winv N T P w" "N < fuel"
  shows "\<exists>v \<le> mx. ticks_to_next_event fuel mx level w = Some v"
  using assms
proof (induction fuel mx level w rule: ticks_to_next_event.induct)
  case (1 fuel mx level w)
  obtain o1 where "next_scan fuel w level [0..<NUM_SLOTS] mx = Some o1"
    using next_scan_total[OF 1(2,3)] by blast
  then show ?case
    using 1 next_scan_le[of fuel w level _ mx]
    by (subst ticks_to_next_event.simps) (auto split: option.splits)
qed

section \<open>The properties\<close>



text \<open>
  A wheel at tick 65534 with event 0 in the core wheel, for tick 65539, and event 1 where
  a call of \<^verbatim>\<open>schedule\<close> at tick 0 puts an event for tick 65537: in the third wheel.
\<close>

definition late_wheel :: wheel where
  "late_wheel = (new_wheel 65534)\<lparr>store :=
     relink 1 (Some (2, 1)) (set_scheduled_at 1 65537
       (relink 0 (Some (0, 3)) (set_scheduled_at 0 65539 new_store)))\<rparr>"

lemma late_wheel_store:
  "events_head (store late_wheel) = (\<lambda>s. if s = (2, 1) then Some 1 else if s = (0, 3) then Some 0 else None)"
  "in_slot (ev (store late_wheel) e) =
     (if e = 1 then Some (2, 1) else if e = 0 then Some (0, 3) else None)"
  "sched_at (ev (store late_wheel) e) = (if e = 1 then 65537 else if e = 0 then 65539 else 0)"
  "next_ev (ev (store late_wheel) e) = None" "prev_ev (ev (store late_wheel) e) = None"
  by (auto simp: late_wheel_def relink_def link_new_def unlink_old_def set_scheduled_at_def
      new_store_def upd_def)

lemma late_wheel_now: "now_at late_wheel = now_at (new_wheel 65534)" "ticks_pending late_wheel = 0"
  by (simp_all add: late_wheel_def new_wheel_def)

lemma late_wheel_winv: "winv 2 65534 {} late_wheel"
proof -
  have "slots_are (store late_wheel) (\<lambda>s. if s = (2, 1) then [1] else if s = (0, 3) then [0] else [])"
    unfolding slots_are_def by (auto simp: late_wheel_store split: if_splits)
  moreover have "clock 65534 late_wheel"
    using winvD(1)[OF winv_new[of 65534 0]] by (simp add: clock_def late_wheel_now size_max_def)
  ultimately show ?thesis
    unfolding winv_def
    by (auto simp: late_wheel_store placed_def index_at_def size_max_def split: if_splits)
qed

lemma late_wheel_search: "ticks_to_next_event 3 (size_max - 1) 0 late_wheel = Some 5"
proof -
  have upt: "[0..<NUM_SLOTS] = 0 # 1 # 2 # 3 # 4 # [5..<256]" by (simp add: upt_conv_Cons)
  have now: "now_at late_wheel 0 = 65534" "now_at late_wheel (Suc 0) = 255"
    by (simp_all add: late_wheel_now new_wheel_def wheel_consts)
  have ch: "chain 3 (store late_wheel) None = Some []" "chain 3 (store late_wheel) (Some 0) = Some [0]"
    by (simp_all add: numeral_3_eq_3 late_wheel_store)
  have "next_scan 3 late_wheel 0 (0 # 1 # 2 # 3 # 4 # is) (size_max - 1) = Some (Some 5)" for "is"
    by (simp add: now late_wheel_store ch min_over_def scheduled_at_def Let_def
        size_add_def size_sub_def size_max_def)
  then show ?thesis
    by (subst ticks_to_next_event.simps) (simp only: upt late_wheel_now(2) option.case simp_thms if_False)
qed

text \<open>
  The answer can be too late: with event 1 in an outer wheel that is promoted in the same
  tick as two levels turn, \<^verbatim>\<open>ticks_to_next_event()\<close> answers 5 ticks, for event 0, although
  advancing by 3 ticks executes event 1. At a wrap the search looks one level up only.
\<close>

theorem ticks_to_next_late:
  "winv 2 65534 {} late_wheel \<and> ticks_to_next_event 3 (size_max - 1) 0 late_wheel = Some 5 \<and>
   (\<exists>r'. advance 3 no_calls 3 3 0 \<lparr>wh = late_wheel, us = (), log = []\<rparr> = Some (True, r') \<and>
     (1, 65537, 65537) \<in> set (log r'))"
proof -
  let ?r = "\<lparr>wh = late_wheel, us = (), log = []\<rparr>"
  have "\<exists>r' new. advance 3 no_calls 3 3 0 ?r = Some (True, r') \<and> log r' = log ?r @ new \<and>
    (1, scheduled_at 1 (store (wh ?r)), scheduled_at 1 (store (wh ?r))) \<in> set new"
    by (rule advance_executes_winv[where N = 2 and T = 65534 and S = 0 and H = 65537 and I = "\<lambda>_. True"])
      (simp_all add: late_wheel_winv late_wheel_now no_calls_ok size_max_def active_def
        scheduled_at_def late_wheel_store untouched_def no_calls_def in_order_def)
  then show ?thesis
    using late_wheel_winv late_wheel_search by (auto simp: scheduled_at_def late_wheel_store)
qed

end
