(* ===== verification/TimerMan.thy ===== *)
theory TimerMan
  imports TimerAdvance
begin

text \<open>
  The timer manager of \<^verbatim>\<open>src/mybase/src/timerman.cpp\<close> on top of the wheel: \<open>TMEvent\<close>
  (\<open>tm_start\<close>, \<open>onTimer\<close>, \<open>tm_cancel\<close>), \<open>_TimerImpl\<close> (\<open>impl_set\<close>, \<open>impl_cancel\<close>) and
  \<open>TimerMan\<close> (\<open>setTimer\<close>, \<open>stopTimer\<close>, the wheel thread's \<open>run_wheel\<close> and the clock
  thread's \<open>run_clock\<close>).

  A \<open>TMEvent\<close> is named by the address of its wheel event; addresses are given out in order.
  The member \<^verbatim>\<open>cnts_\<close> has no initialiser: the parameter \<open>garbage\<close> gives the value found in the
  memory of each event. A user's callback acts on the user's own state (\<open>act\<close>) and does not
  itself set or stop timers.
\<close>

section \<open>Timer events\<close>

record tmevent =
  ms :: nat
  cnts :: int
  max_cnts :: int
  canceled :: bool

record 'u timers =
  tms :: "event \<Rightarrow> tmevent option"
  next_id :: event
  user :: 'u

type_synonym 'u timer_run = "'u timers run"

text \<open>The conversion of an \<^verbatim>\<open>int32_t\<close> to a \<^verbatim>\<open>Tick\<close>.\<close>

definition to_tick :: "int \<Rightarrow> nat" where
  "to_tick i = nat (i mod int size_max)"

definition tm_new :: "(event \<Rightarrow> int) \<Rightarrow> event \<Rightarrow> tmevent" where
  "tm_new garbage e = \<lparr>ms = 0, cnts = garbage e, max_cnts = 0, canceled = False\<rparr>"

definition set_tm :: "event \<Rightarrow> tmevent option \<Rightarrow> 'u timer_run \<Rightarrow> 'u timer_run" where
  "set_tm e t r = r\<lparr>us := (us r)\<lparr>tms := (tms (us r))(e := t)\<rparr>\<rparr>"

definition tm_start :: "event \<Rightarrow> int \<Rightarrow> int \<Rightarrow> 'u timer_run \<Rightarrow> 'u timer_run option" where
  "tm_start e timeout cnt r =
     (case tms (us r) e of
        None \<Rightarrow> None
      | Some t \<Rightarrow>
          (let t1 = t\<lparr>ms := to_tick timeout, max_cnts := cnt\<rparr>
           in case schedule e (ms t1) (wh r) of
                None \<Rightarrow> None
              | Some w \<Rightarrow> Some (set_tm e (Some t1) (r\<lparr>wh := w\<rparr>))))"

definition onTimer :: "(event \<Rightarrow> 'u \<Rightarrow> 'u) \<Rightarrow> 'u timers callback" where
  "onTimer act e w s =
     (case tms s e of
        None \<Rightarrow> ([], s)
      | Some t \<Rightarrow>
          (let u = act e (user s);
               t1 = t\<lparr>cnts := cnts t + 1\<rparr>;
               s1 = s\<lparr>user := u, tms := (tms s)(e \<mapsto> t1)\<rparr>
           in (if \<not> canceled t1 \<and> cnts t1 < max_cnts t1 then [Schedule e (ms t1)] else [], s1)))"

definition tm_cancel :: "event \<Rightarrow> 'u timer_run \<Rightarrow> 'u timer_run" where
  "tm_cancel e r =
     (let r1 = set_tm e (map_option (canceled_update (\<lambda>_. True)) (tms (us r) e)) r
      in r1\<lparr>wh := cancel_event e (wh r1)\<rparr>)"

section \<open>The manager\<close>

definition new_timers :: "'u \<Rightarrow> 'u timer_run" where
  "new_timers u = \<lparr>wh = new_wheel 0, us = \<lparr>tms = (\<lambda>_. None), next_id = 0, user = u\<rparr>, log = []\<rparr>"

definition impl_set :: "(event \<Rightarrow> int) \<Rightarrow> int \<Rightarrow> int \<Rightarrow> 'u timer_run \<Rightarrow> (event \<times> 'u timer_run) option" where
  "impl_set garbage timeout cnt r =
     (let e = next_id (us r);
          r1 = r\<lparr>us := (us r)\<lparr>next_id := e + 1\<rparr>\<rparr>;
          r2 = set_tm e (Some (tm_new garbage e)) r1
      in map_option (\<lambda>r3. (e, r3)) (tm_start e timeout cnt r2))"

text \<open>
  \<^verbatim>\<open>cancel\<close>, then \<^verbatim>\<open>delete\<close>, whose destructor cancels once more. A handle that is not the
  address of a live event is undefined behaviour: \<open>None\<close>.
\<close>

definition impl_cancel :: "event option \<Rightarrow> 'u timer_run \<Rightarrow> 'u timer_run option" where
  "impl_cancel htimer r =
     (case htimer of
        None \<Rightarrow> Some r
      | Some e \<Rightarrow>
          (if tms (us r) e = None then None
           else let r1 = tm_cancel e r in Some (set_tm e None (r1\<lparr>wh := cancel_event e (wh r1)\<rparr>))))"

definition setTimer where "setTimer garbage timeout cnt r = impl_set garbage timeout cnt r"

definition stopTimer where "stopTimer htimer r = impl_cancel htimer r"

definition MIN_RESOLUTION :: nat where "MIN_RESOLUTION = 5"

text \<open>One round of the wheel thread of \<^verbatim>\<open>run\<close>.\<close>

definition run_wheel :: "nat \<Rightarrow> (event \<Rightarrow> 'u \<Rightarrow> 'u) \<Rightarrow> 'u timer_run \<Rightarrow> (bool \<times> 'u timer_run) option" where
  "run_wheel fuel act r = advance fuel (onTimer act) MIN_RESOLUTION npos 0 r"

text \<open>
  One round of the clock thread: from \<^verbatim>\<open>ftime\<close> (seconds and milliseconds) and
  \<^verbatim>\<open>localtime_r\<close>, the broken-down time, to the three values the getters return.
\<close>

record tm =
  tm_sec :: int
  tm_min :: int
  tm_hour :: int
  tm_mday :: int
  tm_mon :: int
  tm_year :: int

record clock_state =
  time_ms :: int
  date_ymd :: int
  time_hmss :: int
  pstm :: tm

definition run_clock :: "(int \<Rightarrow> tm) \<Rightarrow> int \<Rightarrow> int \<Rightarrow> clock_state \<Rightarrow> clock_state" where
  "run_clock localtime secs millitm c =
     (let t = localtime secs
      in c\<lparr>time_ms := secs * 1000 + millitm, pstm := t,
           date_ymd := (tm_year t + 1900) * 10000 + (tm_mon t + 1) * 100 + tm_mday t,
           time_hmss := tm_hour t * 10000000 + tm_min t * 100000 + tm_sec t * 1000 + millitm\<rparr>)"

section \<open>Histories of the manager\<close>

text \<open>At most \<open>N\<close> timers are ever set, with timeouts from 1 to \<open>M\<close>, up to tick \<open>H\<close>.\<close>

inductive timer_hist ::
  "nat \<Rightarrow> nat \<Rightarrow> nat \<Rightarrow> (event \<Rightarrow> int) \<Rightarrow> (event \<Rightarrow> 'u \<Rightarrow> 'u) \<Rightarrow> nat \<Rightarrow> 'u timer_run \<Rightarrow> bool"
  for N M H garbage act fuel where
  start: "timer_hist N M H garbage act fuel (new_timers u)"
| set: "timer_hist N M H garbage act fuel r \<Longrightarrow> 1 \<le> timeout \<Longrightarrow> timeout \<le> int M \<Longrightarrow>
        next_id (us r) < N \<Longrightarrow> setTimer garbage timeout cnt r = Some (e, r') \<Longrightarrow>
        timer_hist N M H garbage act fuel r'"
| stop: "timer_hist N M H garbage act fuel r \<Longrightarrow> stopTimer h r = Some r' \<Longrightarrow>
         timer_hist N M H garbage act fuel r'"
| tick: "timer_hist N M H garbage act fuel r \<Longrightarrow> wheel_now (wh r) + MIN_RESOLUTION \<le> H \<Longrightarrow>
         run_wheel fuel act r = Some (b, r') \<Longrightarrow> timer_hist N M H garbage act fuel r'"

definition timers_ok :: "nat \<Rightarrow> nat \<Rightarrow> 'u timers \<Rightarrow> bool" where
  "timers_ok N M s \<longleftrightarrow> next_id s \<le> N \<and>
     (\<forall>e t. tms s e = Some t \<longrightarrow> e < next_id s \<and> 0 < ms t \<and> ms t \<le> M)"

definition sizes_ok :: "nat \<Rightarrow> nat \<Rightarrow> nat \<Rightarrow> nat \<Rightarrow> bool" where
  "sizes_ok N M H fuel \<longleftrightarrow> H + M < size_max \<and> N < fuel \<and> N < npos"

lemma onTimer_ok:
  assumes "sizes_ok N M H fuel"
  shows "client_ok N H (timers_ok N M) (onTimer act) fuel npos"
proof -
  have "timers_ok N M (snd (onTimer act e w s)) \<and>
      (\<forall>c \<in> set (fst (onTimer act e w s)). cmd_ok N (now_at w 0) c)"
    if "timers_ok N M s" "now_at w 0 \<le> H" for e w s
    using that assms
    by (fastforce simp: onTimer_def timers_ok_def cmd_ok_def sizes_ok_def Let_def split: option.splits)
  then show ?thesis
    using assms npos_less_size_max(1) by (auto simp: client_ok_def callback_ok_def sizes_ok_def)
qed

lemma to_tick_small: "0 \<le> i \<Longrightarrow> i < int size_max \<Longrightarrow> to_tick i = nat i"
  by (simp add: to_tick_def)

lemma setTimer_run:
  assumes "setTimer garbage timeout cnt r = Some (e, r')"
  shows "e = next_id (us r)" "schedule e (to_tick timeout) (wh r) = Some (wh r')"
    "us r' = (us r)\<lparr>next_id := e + 1, tms := (tms (us r))(e \<mapsto>
       \<lparr>ms = to_tick timeout, cnts = garbage e, max_cnts = cnt, canceled = False\<rparr>)\<rparr>" "log r' = log r"
  using assms
  by (auto simp: setTimer_def impl_set_def tm_start_def tm_new_def set_tm_def Let_def split: option.splits)

lemma stopTimer_run:
  assumes "stopTimer (Some e) r = Some r'"
  shows "tms (us r) e \<noteq> None" "wh r' = cancel_event e (cancel_event e (wh r))"
    "us r' = (us r)\<lparr>tms := (tms (us r))(e := None)\<rparr>" "log r' = log r"
  using assms
  by (auto simp: stopTimer_def impl_cancel_def tm_cancel_def set_tm_def Let_def split: if_splits)

lemma run_split: "log r' = log r \<Longrightarrow> r\<lparr>wh := wh r', us := us r'\<rparr> = (r' :: 's run)"
  by simp

text \<open>The histories of the manager are histories of the wheel.\<close>

lemma timer_hist_wheel:
  assumes "timer_hist N M H garbage act fuel r" "sizes_ok N M H fuel"
  shows "wheel_run N H (timers_ok N M) (onTimer act) fuel npos r"
  using assms(1)
proof induction
  case (start u)
  show ?case unfolding new_timers_def by (rule wheel_run.start) (simp_all add: timers_ok_def)
next
  case (set r timeout cnt e r')
  note sr = setTimer_run[OF set.hyps(5)]
  note inv = wheel_run_inv[OF set.IH onTimer_ok[OF assms(2)]]
  have tt: "to_tick timeout = nat timeout" "0 < nat timeout" "nat timeout \<le> M"
    using set.hyps(2,3) assms(2) by (auto simp: sizes_ok_def intro!: to_tick_small)
  have "cmd_ok N (wheel_now (wh r)) (Schedule e (to_tick timeout))"
    using sr(1) set.hyps(4) tt inv assms(2) by (auto simp: cmd_ok_def sizes_ok_def)
  from wheel_run.call[OF set.IH this] sr(2)
  have call: "wheel_run N H (timers_ok N M) (onTimer act) fuel npos (r\<lparr>wh := wh r'\<rparr>)" by simp
  have "timers_ok N M (us r')"
    using inv sr(1,3) set.hyps(4) tt by (fastforce simp: timers_ok_def)
  from wheel_run.user[OF call this] show ?case
    by (simp add: run_split[OF sr(4)])
next
  case (stop r h r')
  show ?case
  proof (cases h)
    case None
    then show ?thesis using stop by (simp add: stopTimer_def impl_cancel_def)
  next
    case (Some e)
    note sr = stopTimer_run[OF stop.hyps(2)[unfolded Some]]
    have inv: "timers_ok N M (us r)" using wheel_run_inv[OF stop.IH onTimer_ok[OF assms(2)]] by blast
    have cancel_run: "wheel_run N H (timers_ok N M) (onTimer act) fuel npos (q\<lparr>wh := cancel_event e (wh q)\<rparr>)"
      if "wheel_run N H (timers_ok N M) (onTimer act) fuel npos q" for q
      by (rule wheel_run.call[OF that, of "Cancel e"]) (simp_all add: cmd_ok_def)
    have "timers_ok N M (us r')" using inv sr(3) by (auto simp: timers_ok_def)
    from wheel_run.user[OF cancel_run[OF cancel_run[OF stop.IH]] this] show ?thesis
      using run_split[OF sr(4)] by (simp add: sr(2))
  qed
next
  case (tick r b r')
  then show ?case
    unfolding run_wheel_def by (intro wheel_run.adv[OF tick.IH]) (simp_all add: MIN_RESOLUTION_def)
qed

section \<open>Counting and spacing of the firings\<close>

definition fires :: "event \<Rightarrow> (event \<times> nat \<times> nat) list \<Rightarrow> (event \<times> nat \<times> nat) list" where
  "fires e es = filter (\<lambda>(x, sched, now). x = e) es"

text \<open>Each firing was scheduled for \<open>d\<close> ticks after the one before.\<close>

definition spaced :: "nat \<Rightarrow> (event \<times> nat \<times> nat) list \<Rightarrow> bool" where
  "spaced d fs \<longleftrightarrow> (\<forall>i. Suc i < length fs \<longrightarrow> fst (snd (fs ! Suc i)) = size_add (snd (snd (fs ! i))) d)"

text \<open>A timer \<open>t\<close> whose counter started at \<open>g\<close>, its firings, and the tick it waits for.\<close>

definition tm_ok :: "int \<Rightarrow> tmevent \<Rightarrow> (event \<times> nat \<times> nat) list \<Rightarrow> nat option \<Rightarrow> bool" where
  "tm_ok g t fs nxt \<longleftrightarrow> cnts t = g + int (length fs) \<and> int (length fs) \<le> max 1 (max_cnts t - g) \<and>
     spaced (ms t) fs \<and>
     (\<forall>D. nxt = Some D \<longrightarrow> fs = [] \<or> cnts t < max_cnts t \<and> D = size_add (snd (snd (last fs))) (ms t))"

definition waits :: "event \<Rightarrow> store \<Rightarrow> nat option" where
  "waits e st = (if active e st then Some (scheduled_at e st) else None)"

lemma spaced_snoc:
  "spaced d (fs @ [x]) \<longleftrightarrow> spaced d fs \<and> (fs = [] \<or> fst (snd x) = size_add (snd (snd (last fs))) d)"
proof -
  have "(\<forall>i. Suc i < length (fs @ [x]) \<longrightarrow> Q i) \<longleftrightarrow> (\<forall>i. Suc i < length fs \<longrightarrow> Q i) \<and> (fs = [] \<or> Q (length fs - 1))"
    for Q by (cases fs rule: rev_cases) (auto simp: less_Suc_eq)
  then show ?thesis unfolding spaced_def
    by (cases fs rule: rev_cases) (auto simp: nth_append less_Suc_eq)
qed

lemma tm_ok_fire:
  assumes "tm_ok g t fs (Some D)"
    and "nxt = None \<or> cnts t + 1 < max_cnts t \<and> nxt = Some (size_add now (ms t))"
  shows "tm_ok g (t\<lparr>cnts := cnts t + 1\<rparr>) (fs @ [(e, D, now)]) nxt"
  using assms by (auto simp: tm_ok_def spaced_snoc)

lemma tm_ok_None: "tm_ok g t fs nxt \<Longrightarrow> tm_ok g t fs None"
  by (simp add: tm_ok_def)

definition count_inv :: "(event \<Rightarrow> int) \<Rightarrow> 'u timer_run \<Rightarrow> bool" where
  "count_inv garbage r \<longleftrightarrow> (\<exists>L. slots_are (store (wh r)) L) \<and>
     (\<forall>e. scheduled_at e (store (wh r)) < size_max) \<and>
     (\<forall>e. next_id (us r) \<le> e \<longrightarrow> fires e (log r) = [] \<and> tms (us r) e = None) \<and>
     (\<forall>e. active e (store (wh r)) \<longrightarrow> tms (us r) e \<noteq> None) \<and>
     (\<forall>e t. tms (us r) e = Some t \<longrightarrow>
        tm_ok (garbage e) t (fires e (log r)) (waits e (store (wh r))))"

lemma pop_facts:
  assumes "slots_are st L" "pop_event s st = Some (e, st')"
  shows "active e st" "\<exists>L'. slots_are st' L'" "scheduled_at x st' = scheduled_at x st"
    "waits x st' = (if x = e then None else waits x st)"
proof -
  obtain es where Ls: "L s = e # es"
    using assms slots_are_head[OF assms(1), of s] by (auto simp: pop_event_def Let_def split: option.splits list.splits)
  obtain st2 where st2: "pop_event s st = Some (e, st2)" "slots_are st2 (L(s := es))"
    "\<And>x. sched_at (ev st2 x) = sched_at (ev st x)"
    "\<And>x. in_slot (ev st2 x) = (if x = e then None else in_slot (ev st x))"
    using pop_event_eq_relink[OF assms(1) Ls] by blast
  have eq: "st2 = st'" using st2(1) assms(2) by simp
  show "active e st" using slots_areD(3)[OF assms(1), of e s] Ls by (simp add: active_def)
  show "\<exists>L'. slots_are st' L'" using st2(2) eq by blast
  show "scheduled_at x st' = scheduled_at x st" "waits x st' = (if x = e then None else waits x st)"
    using st2(3,4) eq by (auto simp: waits_def active_def scheduled_at_def)
qed

lemma schedule_facts:
  assumes "schedule e d w = Some w'" "slots_are (store w) L"
  shows "\<exists>L'. slots_are (store w') L'" "waits e (store w') = Some (size_add (now_at w 0) d)"
    "scheduled_at x (store w') = (if x = e then size_add (now_at w 0) d else scheduled_at x (store w))"
    "x \<noteq> e \<Longrightarrow> waits x (store w') = waits x (store w)"
proof -
  obtain s where w': "w' = w\<lparr>store := relink e (Some s) (set_scheduled_at e (size_add (now_at w 0) d) (store w))\<rparr>"
    by (rule schedule_SomeE[OF assms(1)])
  show "\<exists>L'. slots_are (store w') L'"
    using relink_slots_are[OF slots_are_set_scheduled_at[OF assms(2), of e "size_add (now_at w 0) d"],
        of e "Some s"] w' by (intro exI) simp
  show "waits e (store w') = Some (size_add (now_at w 0) d)"
    "scheduled_at x (store w') = (if x = e then size_add (now_at w 0) d else scheduled_at x (store w))"
    "x \<noteq> e \<Longrightarrow> waits x (store w') = waits x (store w)"
    using w' by (auto simp: waits_def active_def scheduled_at_def frame_simps)
qed

lemma waits_active: "waits e st \<noteq> None \<longleftrightarrow> active e st"
  by (simp add: waits_def)

lemma fires_snoc [simp]:
  "fires e (es @ [(x, s, n)]) = (if x = e then fires e es @ [(x, s, n)] else fires e es)"
  by (simp add: fires_def)

lemma size_add_less [simp]: "size_add a b < size_max"
  by (simp add: size_add_def size_max_def)

lemma count_invD:
  assumes "count_inv garbage r"
  obtains L where "slots_are (store (wh r)) L"
    and "\<And>e. scheduled_at e (store (wh r)) < size_max"
    and "\<And>e. next_id (us r) \<le> e \<Longrightarrow> fires e (log r) = [] \<and> tms (us r) e = None"
    and "\<And>e. active e (store (wh r)) \<Longrightarrow> \<exists>t. tms (us r) e = Some t"
    and "\<And>e t. tms (us r) e = Some t \<Longrightarrow>
      tm_ok (garbage e) t (fires e (log r)) (waits e (store (wh r)))"
  using assms unfolding count_inv_def by blast

lemma execute_onTimer:
  assumes "execute (onTimer act) e r = Some r'" "tms (us r) e = Some t"
  shows "us r' = (us r)\<lparr>user := act e (user (us r)), tms := (tms (us r))(e \<mapsto> t\<lparr>cnts := cnts t + 1\<rparr>)\<rparr>"
    "log r' = log r @ [(e, scheduled_at e (store (wh r)), now_at (wh r) 0)]"
    "if \<not> canceled t \<and> cnts t + 1 < max_cnts t then schedule e (ms t) (wh r) = Some (wh r') else wh r' = wh r"
  using assms by (auto simp: execute_def onTimer_def Let_def split: option.splits if_splits)

lemma exec_count_inv:
  assumes "count_inv garbage r" "pop_event s (store (wh r)) = Some (e, st)"
    and "execute (onTimer act) e (r\<lparr>wh := (wh r)\<lparr>store := st\<rparr>\<rparr>) = Some r'"
  shows "count_inv garbage r'"
  using assms(1)
proof (rule count_invD)
  fix L assume L: "slots_are (store (wh r)) L"
    and sz: "\<And>e. scheduled_at e (store (wh r)) < size_max"
    and new: "\<And>e. next_id (us r) \<le> e \<Longrightarrow> fires e (log r) = [] \<and> tms (us r) e = None"
    and act: "\<And>e. active e (store (wh r)) \<Longrightarrow> \<exists>t. tms (us r) e = Some t"
    and ok: "\<And>e t. tms (us r) e = Some t \<Longrightarrow>
      tm_ok (garbage e) t (fires e (log r)) (waits e (store (wh r)))"
  note pf = pop_facts[OF L assms(2)]
  obtain t where t: "tms (us r) e = Some t" using act[OF pf(1)] by blast
  obtain L' where L': "slots_are st L'" using pf(2) by blast
  let ?again = "\<not> canceled t \<and> cnts t + 1 < max_cnts t"
  note ex = execute_onTimer[OF assms(3), simplified, OF t]
  have wh': "(\<exists>L. slots_are (store (wh r')) L) \<and> (\<forall>x. scheduled_at x (store (wh r')) < size_max) \<and>
      waits e (store (wh r')) = (if ?again then Some (size_add (now_at (wh r) 0) (ms t)) else None) \<and>
      (\<forall>x. x \<noteq> e \<longrightarrow> waits x (store (wh r')) = waits x (store (wh r)))"
  proof (cases ?again)
    case True
    then have sc: "schedule e (ms t) ((wh r)\<lparr>store := st\<rparr>) = Some (wh r')" using ex(3) by simp
    show ?thesis using schedule_facts[OF sc, of L'] L' True sz pf(3,4) by simp
  next
    case False
    then have "wh r' = (wh r)\<lparr>store := st\<rparr>" using ex(3) by (simp split: if_splits)
    then show ?thesis using False L' sz pf(3,4) by auto
  qed
  have D: "waits e (store (wh r)) = Some (scheduled_at e st)" using pf(1,3) by (simp add: waits_def)
  have "tm_ok (garbage x) u (fires x (log r')) (waits x (store (wh r')))"
    if "tms (us r') x = Some u" for x u
    using that ok[of x] tm_ok_fire[OF ok[OF t, unfolded D]] wh' ex(1,2) by (auto split: if_splits)
  moreover have "tms (us r') x \<noteq> None" if "active x (store (wh r'))" for x
    using that act[of x] wh' ex(1) t by (cases "x = e") (auto simp flip: waits_active)
  moreover have "fires x (log r') = [] \<and> tms (us r') x = None" if "next_id (us r') \<le> x" for x
    using that new[of x] ex(1,2) t by auto
  ultimately show ?thesis using wh' unfolding count_inv_def by blast
qed

lemma promote_count_inv:
  assumes "count_inv garbage r" "pop_event s (store (wh r)) = Some (e, st)"
    and "now_at (wh r) 0 < scheduled_at e st"
    and "schedule e (size_sub (scheduled_at e st) (now_at (wh r) 0)) ((wh r)\<lparr>store := st\<rparr>) = Some w"
  shows "count_inv garbage (r\<lparr>wh := w\<rparr>)"
  using assms(1)
proof (rule count_invD)
  fix L assume L: "slots_are (store (wh r)) L" and sz: "\<And>e. scheduled_at e (store (wh r)) < size_max"
    and "\<And>e. next_id (us r) \<le> e \<Longrightarrow> fires e (log r) = [] \<and> tms (us r) e = None"
    and "\<And>e. active e (store (wh r)) \<Longrightarrow> \<exists>t. tms (us r) e = Some t"
    and "\<And>e t. tms (us r) e = Some t \<Longrightarrow>
      tm_ok (garbage e) t (fires e (log r)) (waits e (store (wh r)))"
  note pf = pop_facts[OF L assms(2)]
  obtain L' where L': "slots_are st L'" using pf(2) by blast
  note sf = schedule_facts[OF assms(4), simplified, OF L']
  have "size_add (now_at (wh r) 0) (size_sub (scheduled_at e st) (now_at (wh r) 0)) = scheduled_at e st"
    using assms(3) sz[of e] pf(3)[of e] by simp
  then have w: "waits x (store w) = waits x (store (wh r))" for x
    using sf(2,4) pf(1,3,4) by (cases "x = e") (auto simp: waits_def)
  have "scheduled_at x (store w) < size_max" for x using sf(3)[of x] sz[of x] pf(3)[of x] by simp
  moreover have "active x (store w) = active x (store (wh r))" for x by (simp add: w flip: waits_active)
  ultimately show ?thesis using assms(1) sf(1) w unfolding count_inv_def by simp
qed

lemma count_inv_frame [simp]:
  "count_inv garbage (tick_level l r) = count_inv garbage r"
  "count_inv garbage (set_pending n r) = count_inv garbage r"
  by (simp_all add: count_inv_def tick_level_def set_pending_def)

interpretation counting: run_invariant "onTimer act" "count_inv garbage"
  for act :: "event \<Rightarrow> 'u \<Rightarrow> 'u" and garbage
  by unfold_locales (erule (2) exec_count_inv, erule (3) promote_count_inv, simp_all)

lemma cancel_facts:
  assumes "slots_are (store w) L"
  shows "\<exists>L'. slots_are (store (cancel_event e w)) L'"
    "scheduled_at x (store (cancel_event e w)) = scheduled_at x (store w)"
    "waits x (store (cancel_event e w)) = (if x = e then None else waits x (store w))"
  using cancel_slots_are[OF assms, of e]
  by (auto simp: cancel_event_def scheduled_at_def waits_def active_def frame_simps)

lemma set_count_inv:
  assumes "count_inv garbage r" "setTimer garbage timeout cnt r = Some (e, r')"
  shows "count_inv garbage r'"
  using assms(1)
proof (rule count_invD)
  fix L assume L: "slots_are (store (wh r)) L"
    and sz: "\<And>e. scheduled_at e (store (wh r)) < size_max"
    and new: "\<And>e. next_id (us r) \<le> e \<Longrightarrow> fires e (log r) = [] \<and> tms (us r) e = None"
    and act: "\<And>e. active e (store (wh r)) \<Longrightarrow> \<exists>t. tms (us r) e = Some t"
    and ok: "\<And>e t. tms (us r) e = Some t \<Longrightarrow>
      tm_ok (garbage e) t (fires e (log r)) (waits e (store (wh r)))"
  note sr = setTimer_run[OF assms(2)]
  note sf = schedule_facts[OF sr(2) L]
  have "scheduled_at x (store (wh r')) < size_max" for x using sf(3)[of x] sz[of x] by simp
  moreover have "tms (us r') x \<noteq> None" if "active x (store (wh r'))" for x
    using that sf(4)[of x] act[of x] sr(3) by (cases "x = e") (auto simp flip: waits_active)
  moreover have "tm_ok (garbage x) u (fires x (log r')) (waits x (store (wh r')))"
    if "tms (us r') x = Some u" for x u
    using that ok[of x u] new[of e] sf(4)[of x] sr(1,3,4)
    by (cases "x = e") (auto simp: tm_ok_def spaced_def)
  ultimately show ?thesis using sf(1) new sr(1,3,4) unfolding count_inv_def by auto
qed

lemma stop_count_inv:
  assumes "count_inv garbage r" "stopTimer h r = Some r'"
  shows "count_inv garbage r'"
proof (cases h)
  case None
  then show ?thesis using assms by (simp add: stopTimer_def impl_cancel_def)
next
  case (Some e)
  note sr = stopTimer_run[OF assms(2)[unfolded Some]]
  show ?thesis using assms(1)
  proof (rule count_invD)
    fix L assume L: "slots_are (store (wh r)) L"
      and sz: "\<And>e. scheduled_at e (store (wh r)) < size_max"
      and new: "\<And>e. next_id (us r) \<le> e \<Longrightarrow> fires e (log r) = [] \<and> tms (us r) e = None"
      and act: "\<And>e. active e (store (wh r)) \<Longrightarrow> \<exists>t. tms (us r) e = Some t"
      and ok: "\<And>e t. tms (us r) e = Some t \<Longrightarrow>
        tm_ok (garbage e) t (fires e (log r)) (waits e (store (wh r)))"
    note c1 = cancel_facts[OF L, where e = e]
    obtain L' where "slots_are (store (cancel_event e (wh r))) L'" using c1(1) by blast
    note c2 = cancel_facts[OF this, where e = e]
    have w: "waits x (store (wh r')) = (if x = e then None else waits x (store (wh r)))" for x
      using c1(3) c2(3) sr(2) by simp
    have "tms (us r') x \<noteq> None" if "active x (store (wh r'))" for x
      using that w[of x] act[of x] sr(3) by (cases "x = e") (auto simp flip: waits_active)
    moreover have "tm_ok (garbage x) u (fires x (log r')) (waits x (store (wh r')))"
      if "tms (us r') x = Some u" for x u
      using that ok[of x u] w[of x] sr(3,4) by (auto split: if_splits)
    ultimately show ?thesis
      using c2(1,2) c1(2) sz new sr(2-4) unfolding count_inv_def by auto
  qed
qed

lemma timer_hist_count:
  "timer_hist N M H garbage act fuel r \<Longrightarrow> count_inv garbage r"
proof (induction rule: timer_hist.induct)
  case (start u)
  have "slots_are (store (new_wheel 0)) (\<lambda>_. [])" using slots_are_new by (simp add: new_wheel_def)
  then show ?case
    by (auto simp: count_inv_def new_timers_def fires_def new_wheel_def new_store_def active_def
        scheduled_at_def size_max_def)
next
  case (tick r b r')
  then show ?case unfolding run_wheel_def by (blast intro: counting.advance_inv)
qed (auto intro: set_count_inv stop_count_inv)

section \<open>The properties of the manager\<close>

definition demo_timers :: "unit timer_run" where
  "demo_timers = snd (the (setTimer (\<lambda>_. 0) 20 3 (new_timers ())))"

lemma demo_set: "setTimer (\<lambda>_. 0) 20 3 (new_timers ()) = Some (0, demo_timers)"
proof -
  have "schedule 0 (to_tick 20) (new_wheel 0) \<noteq> None"
    using schedule_keeps[OF winv_new, of 0 0 1 "to_tick 20"] by (auto simp: to_tick_def size_max_def)
  then show ?thesis
    by (auto simp: demo_timers_def setTimer_def impl_set_def tm_start_def set_tm_def Let_def tm_new_def
        new_timers_def)
qed

lemma demo_hist: "timer_hist 1 20 1000 (\<lambda>_. 0) (\<lambda>_ u. u) 2 demo_timers"
  by (rule timer_hist.set[OF timer_hist.start _ _ _ demo_set]) (simp_all add: new_timers_def)

lemma demo_sizes: "sizes_ok 1 20 1000 2"
  by (simp add: sizes_ok_def size_max_def npos_def)



text \<open>
  The member \<^verbatim>\<open>cnts_\<close> is never set to 0: a timer set for one firing, in memory that holds
  \<open>-1\<close>, schedules itself again when it fires.
\<close>

theorem one_shot_fires_again:
  "\<exists>r. setTimer (\<lambda>_. -1) 20 1 (new_timers u) = Some (0, r) \<and>
     fst (onTimer act 0 (wh r) (us r)) = [Schedule 0 20]"
proof -
  have "schedule 0 (to_tick 20) (new_wheel 0) \<noteq> None"
    using schedule_keeps[OF winv_new, of 0 0 1 "to_tick 20"] by (auto simp: to_tick_def size_max_def)
  then show ?thesis
    by (auto simp: setTimer_def impl_set_def tm_start_def set_tm_def Let_def tm_new_def
        new_timers_def onTimer_def to_tick_def size_max_def)
qed

end
