(* ===== verification/DateTime.thy ===== *)
theory DateTime
  imports TimerMan
begin

text \<open>
  The date and time conversions of \<^verbatim>\<open>src/mybase/mybase/timerman.h\<close>: \<open>FastSecondToDate\<close> and the
  formats built on it, and the parsers of time strings. \<^verbatim>\<open>int\<close> division and remainder
  truncate towards 0 (\<open>sdiv\<close>, \<open>smod\<close>); where the code narrows to 32 bits the model wraps
  (\<open>i32\<close>). \<^verbatim>\<open>mktime\<close>, \<^verbatim>\<open>strptime\<close> and the clock of the timer manager are parameters.
\<close>

section \<open>Conversions\<close>

definition i32 :: "int \<Rightarrow> int" where
  "i32 x = (x + 2 ^ 31) mod 2 ^ 32 - 2 ^ 31"

definition makeUnixTimeMs :: "(tm \<Rightarrow> int) \<Rightarrow> clock_state \<Rightarrow> int \<Rightarrow> int \<Rightarrow> int" where
  "makeUnixTimeMs mktime inst ymd0 hms0 =
     (let ymd = (if ymd0 \<le> 0 then date_ymd inst else ymd0);
          ymd1 = ymd sdiv 100;
          msec = hms0 smod 1000;
          hms1 = hms0 sdiv 1000;
          hms2 = hms1 sdiv 100;
          t = (pstm inst)\<lparr>tm_mday := ymd smod 100, tm_mon := ymd1 smod 100 - 1,
                          tm_year := ymd1 sdiv 100 - 1900, tm_sec := hms1 smod 100,
                          tm_min := hms2 smod 100, tm_hour := hms2 sdiv 100\<rparr>
      in mktime t * 1000 + msec)"

text \<open>The clock of the system (\<open>None\<close> when it cannot be read), and those of the timer manager.\<close>

definition current_time_ns :: "(int \<times> int) option \<Rightarrow> int" where
  "current_time_ns ts = (case ts of None \<Rightarrow> -1 | Some (sec, nsec) \<Rightarrow> sec * 1000000000 + nsec)"

definition unixTimeNowMs :: "clock_state \<Rightarrow> int" where "unixTimeNowMs inst = time_ms inst"

definition currentHMSs :: "clock_state \<Rightarrow> int" where "currentHMSs inst = time_hmss inst"

definition FastSecondToDate :: "int \<Rightarrow> int \<Rightarrow> tm" where
  "FastSecondToDate unix_sec time_zone =
     (let i = i32 (unix_sec sdiv 60);
          sec = unix_sec smod 60;
          minute = i smod 60;
          i1 = i sdiv 60;
          hour = (i1 + time_zone) smod 24;
          a = (i1 + time_zone) sdiv 24 + 2472632;
          b = (a * 4 + 3) sdiv 146097;
          c = (- b * 146097) sdiv 4 + a;
          d = (c * 4 + 3) sdiv 1461;
          e = (- d * 1461) sdiv 4 + c;
          m = (5 * e + 2) sdiv 153
      in \<lparr>tm_sec = sec, tm_min = minute, tm_hour = hour,
          tm_mday = (- (153 * m + 2)) sdiv 5 + e + 1,
          tm_mon = ((- m) sdiv 10) * 12 + m + 2,
          tm_year = b * 100 + d - 6700 + m sdiv 10\<rparr>)"

definition unixTimeToDateTime :: "int \<Rightarrow> int \<times> int" where
  "unixTimeToDateTime unix_datetime =
     (let t = FastSecondToDate (unix_datetime sdiv 1000) 8
      in (i32 ((tm_year t + 1900) * 10000 + (tm_mon t + 1) * 100 + tm_mday t),
          i32 (unix_datetime smod 1000 + tm_hour t * 10000000 + tm_min t * 100000 + tm_sec t * 1000)))"

text \<open>
  \<^verbatim>\<open>sscanf\<close> with a format of \<^verbatim>\<open>%d\<close> conversions separated by single characters: the values
  of the conversions that succeed, in order. The variables of the others keep their 0.
\<close>

primrec sscanf_ints :: "string \<Rightarrow> string \<Rightarrow> int list" where
  "sscanf_ints [] s = (case scan_int s of None \<Rightarrow> [] | Some (v, _) \<Rightarrow> [v])"
| "sscanf_ints (c # cs) s =
     (case scan_int s of
        None \<Rightarrow> []
      | Some (v, rest) \<Rightarrow>
          v # (if c = CHR '' '' then sscanf_ints cs (dropWhile is_space rest)
               else if rest \<noteq> [] \<and> hd rest = c then sscanf_ints cs (tl rest) else []))"

definition arg :: "int list \<Rightarrow> nat \<Rightarrow> int" where
  "arg vs i = (if i < length vs then vs ! i else 0)"

definition partStrtime2unixALL :: "(tm \<Rightarrow> int) \<Rightarrow> clock_state \<Rightarrow> string option \<Rightarrow> int" where
  "partStrtime2unixALL mktime inst strtime =
     (case strtime of
        None \<Rightarrow> time_ms inst
      | Some s \<Rightarrow>
          (if length s < 12 then time_ms inst
           else let vs = sscanf_ints ''::.'' s;
                    hhmmss = arg vs 0 * 10000000 + arg vs 1 * 100000 + arg vs 2 * 1000 + arg vs 3
                in makeUnixTimeMs mktime inst (date_ymd inst) (i32 hhmmss)))"

text \<open>
  What Windows has instead of \<^verbatim>\<open>strptime\<close>; the fields for which there is no number are what the
  memory held.
\<close>

definition StringToDatetime :: "(nat \<Rightarrow> int) \<Rightarrow> string \<Rightarrow> tm" where
  "StringToDatetime garbage str =
     (let vs = sscanf_ints ''-- ::'' str;
          v = (\<lambda>i. if i < length vs then vs ! i else garbage i)
      in \<lparr>tm_sec = v 5, tm_min = v 4, tm_hour = v 3, tm_mday = v 2, tm_mon = v 1 - 1, tm_year = v 0 - 1900\<rparr>)"

text \<open>\<^verbatim>\<open>strptime\<close> fills the broken-down time as far as the string matches.\<close>

definition strtime2unix :: "(string \<Rightarrow> tm) \<Rightarrow> (tm \<Rightarrow> int) \<Rightarrow> clock_state \<Rightarrow> string option \<Rightarrow> int" where
  "strtime2unix strptime mktime inst strtime =
     (case strtime of
        None \<Rightarrow> 0
      | Some s \<Rightarrow>
          (if length s < 19 then 0
           else let t = strptime s;
                    msec = (if length s > 19 then c_atoi (drop 20 s) else 0);
                    ret = mktime t * 1000 + msec
                in if ret < 0 then time_ms inst else ret))"

definition strtime2int64 :: "string option \<Rightarrow> int" where
  "strtime2int64 strtime =
     (case strtime of
        None \<Rightarrow> 0
      | Some s \<Rightarrow>
          (if length s < 19 then 0
           else let vs = sscanf_ints ''-- ::.'' s;
                    ret = arg vs 0 * 10000000000 + arg vs 1 * 100000000 + arg vs 2 * 1000000 +
                          arg vs 3 * 10000 + arg vs 4 * 100 + arg vs 5
                in ret * 1000 + arg vs 6))"

text \<open>\<^verbatim>\<open>%0nd\<close> of a value: at least \<open>n\<close> characters, filled with zeros.\<close>

definition pad :: "nat \<Rightarrow> int \<Rightarrow> string" where
  "pad n i = (if i < 0 then CHR ''-'' # replicate (n - 1 - length (show_nat (nat (- i)))) (CHR ''0'') @ show_nat (nat (- i))
              else replicate (n - length (show_nat (nat i))) (CHR ''0'') @ show_nat (nat i))"

definition unix2Hmss :: "int \<Rightarrow> string" where
  "unix2Hmss unixtime =
     (let t = FastSecondToDate (unixtime sdiv 1000) 8
      in take 31 (pad 2 (tm_hour t) @ '':'' @ pad 2 (tm_min t) @ '':'' @ pad 2 (tm_sec t) @ ''.'' @
                  pad 3 (unixtime smod 1000)))"

definition unix2Full :: "int \<Rightarrow> string" where
  "unix2Full unixtime =
     (let t = FastSecondToDate (unixtime sdiv 1000) 8
      in take 31 (pad 4 (tm_year t + 1900) @ ''-'' @ pad 2 (tm_mon t + 1) @ ''-'' @ pad 2 (tm_mday t) @ '' '' @
                  pad 2 (tm_hour t) @ '':'' @ pad 2 (tm_min t) @ '':'' @ pad 2 (tm_sec t) @ ''.'' @
                  pad 3 (unixtime smod 1000)))"

section \<open>The calendar\<close>

definition leap :: "int \<Rightarrow> bool" where
  "leap y \<longleftrightarrow> y mod 4 = 0 \<and> (y mod 100 \<noteq> 0 \<or> y mod 400 = 0)"

definition month_lengths :: "int \<Rightarrow> int list" where
  "month_lengths y = [31, if leap y then 29 else 28, 31, 30, 31, 30, 31, 31, 30, 31, 30, 31]"

definition valid_date :: "int \<Rightarrow> int \<Rightarrow> int \<Rightarrow> bool" where
  "valid_date y mo d \<longleftrightarrow> 1 \<le> mo \<and> mo \<le> 12 \<and> 1 \<le> d \<and> d \<le> month_lengths y ! nat (mo - 1)"

definition days_before_year :: "int \<Rightarrow> int" where
  "days_before_year y = 365 * (y - 1) + (y - 1) div 4 - (y - 1) div 100 + (y - 1) div 400"

definition day_number :: "int \<Rightarrow> int \<Rightarrow> int \<Rightarrow> int" where
  "day_number y mo d = days_before_year y + sum_list (take (nat (mo - 1)) (month_lengths y)) + d"

lemma div_step: "(k::int) > 0 \<Longrightarrow> y div k = (y - 1) div k + (if y mod k = 0 then 1 else 0)"
proof -
  assume k: "k > 0"
  show ?thesis
  proof (cases "y mod k = 0")
    case True
    then obtain q where q: "y = k * q" by (auto simp: mod_eq_0_iff_dvd elim: dvdE)
    have "(y - 1) div k = q - 1" using k by (intro int_div_pos_eq[where r = "k - 1"]) (auto simp: q algebra_simps)
    then show ?thesis using True q k by simp
  next
    case False
    have b: "0 \<le> y mod k" "y mod k < k" using k by simp_all
    have "(y - 1) div k = y div k"
    proof (rule int_div_pos_eq)
      show "y - 1 = k * (y div k) + (y mod k - 1)" by simp
    qed (use b False in linarith)+
    then show ?thesis using False by simp
  qed
qed

lemma leap_bool:
  "(P400 \<Longrightarrow> P100) \<Longrightarrow> (P100 \<Longrightarrow> P4) \<Longrightarrow> (if P4 \<and> (\<not> P100 \<or> P400) then 1 else 0 :: int) =
   (if P4 then 1 else 0) - (if P100 then 1 else 0) + (if P400 then 1 else 0)"
  by auto

lemma leap_sum:
  fixes y :: int
  assumes "a = a' + i" "b = b' + j" "c = c' + k"
  shows "365 * y + a - b + c = 365 * (y - 1) + a' - b' + c' + 365 + (i - j + k)"
  using assms by simp

lemma leap_step: "days_before_year (y + 1) = days_before_year y + 365 + (if leap y then 1 else 0)"
proof -
  have "y mod 400 = 0 \<Longrightarrow> y mod 100 = 0" "y mod 100 = 0 \<Longrightarrow> y mod 4 = 0"
    using dvd_trans[of 100 400 y] dvd_trans[of 4 100 y] by (simp_all add: mod_eq_0_iff_dvd)
  then have "(if leap y then 1 else 0 :: int) =
      (if y mod 4 = 0 then 1 else 0) - (if y mod 100 = 0 then 1 else 0) + (if y mod 400 = 0 then 1 else 0)"
    unfolding leap_def by (rule leap_bool)
  moreover have "y + 1 - 1 = y" by simp
  ultimately show ?thesis
    unfolding days_before_year_def
    by (simp only: leap_sum[OF div_step[of 4 y] div_step[of 100 y] div_step[of 400 y]] zero_less_numeral)
qed

lemma months_cases:
  fixes m :: int
  assumes "0 \<le> m" "m \<le> 11"
  shows "m = 0 \<or> m = 1 \<or> m = 2 \<or> m = 3 \<or> m = 4 \<or> m = 5 \<or> m = 6 \<or> m = 7 \<or> m = 8 \<or> m = 9 \<or> m = 10 \<or> m = 11"
proof (cases "m \<le> 5")
  case True
  then have "m = 0 \<or> m = 1 \<or> m = 2 \<or> m = 3 \<or> m = 4 \<or> m = 5" using assms by linarith
  then show ?thesis by blast
next
  case False
  then have "m = 6 \<or> m = 7 \<or> m = 8 \<or> m = 9 \<or> m = 10 \<or> m = 11" using assms by linarith
  then show ?thesis by blast
qed

lemma quarter: "(146097 * b) div 4 = 36524 * b + b div 4" "(1461 * b) div 4 = 365 * b + b div 4" for b :: int
  using div_mult_self1[of 4 b "36524 * b"] div_mult_self1[of 4 b "365 * b"] by simp_all

text \<open>The number of a day by months counted from March, \<open>m\<close> from 0 to 11, of the year \<open>Z\<close>.\<close>

lemma day_number_march:
  assumes "0 \<le> m" "m \<le> 11"
  shows "day_number (Z + m div 10) (m + 3 - 12 * (m div 10)) d =
    days_before_year (Z + 1) - 306 + (153 * m + 2) div 5 + d"
proof -
  from months_cases[OF assms] show ?thesis
    by (elim disjE) (simp_all add: day_number_def month_lengths_def leap_step numeral_eq_Suc)
qed

text \<open>Years counted from March and from \<open>-4800\<close>, in centuries \<open>b\<close> and years \<open>d\<close> of a century.\<close>

lemma years_split:
  fixes b d :: int
  assumes "0 \<le> d" "d < 100"
  shows "days_before_year (100 * b + d - 4800 + 1) = (146097 * b) div 4 + (1461 * d) div 4 - 1753164"
proof -
  let ?Y = "100 * b + d"
  have shift: "(?Y - 4800) div 4 = ?Y div 4 - 1200" "(?Y - 4800) div 100 = ?Y div 100 - 48"
    "(?Y - 4800) div 400 = ?Y div 400 - 12"
    using div_mult_self1[of 4 ?Y "-1200"] div_mult_self1[of 100 ?Y "-48"] div_mult_self1[of 400 ?Y "-12"]
    by simp_all
  have Y4: "?Y div 4 = 25 * b + d div 4" using div_mult_self1[of 4 d "25 * b"] by (simp add: add.commute)
  have Y100: "?Y div 100 = b" using div_mult_self1[of 100 d b] assms by (simp add: add.commute mult.commute)
  have "?Y div (100 * 4) = ?Y div 100 div 4" by (rule zdiv_zmult2_eq) simp
  then have Y400: "?Y div 400 = b div 4" using Y100 by simp
  have eq: "100 * b + d - 4800 + 1 - 1 = ?Y - 4800" by simp
  show ?thesis unfolding days_before_year_def eq shift Y4 Y100 Y400 quarter by simp
qed

text \<open>The ranges of the three quotients of the algorithm.\<close>

lemma century_range:
  fixes a b q :: int
  assumes "b = (4 * a + 3) div 146097" "q = (146097 * b) div 4" "0 \<le> a"
  shows "0 \<le> b" "0 \<le> a - q" "a - q \<le> 36524" "a - q = 36524 \<Longrightarrow> b mod 4 = 3"
proof -
  have b: "146097 * b \<le> 4 * a + 3" "4 * a + 3 < 146097 * b + 146097" "0 \<le> b"
    using assms(1,3) by (auto simp: pos_imp_zdiv_nonneg_iff)
  show "0 \<le> b" by fact
  have q: "146097 * b = 4 * q + b mod 4" using assms(2) mult_div_mod_eq[of 4 b] by (simp add: quarter)
  moreover have "0 \<le> b mod 4" "b mod 4 \<le> 3" by simp_all
  ultimately show "0 \<le> a - q" "a - q \<le> 36524" "a - q = 36524 \<Longrightarrow> b mod 4 = 3"
    using b by linarith+
qed

lemma year_range:
  fixes c d q :: int
  assumes "d = (4 * c + 3) div 1461" "q = (1461 * d) div 4" "0 \<le> c" "c \<le> 36524"
  shows "0 \<le> d" "d < 100" "0 \<le> c - q" "c - q \<le> 365" "c - q = 365 \<Longrightarrow> d mod 4 = 3"
    "c - q = 365 \<Longrightarrow> d = 99 \<Longrightarrow> c = 36524"
proof -
  have d: "1461 * d \<le> 4 * c + 3" "4 * c + 3 < 1461 * d + 1461" "0 \<le> d"
    using assms(1,3) by (auto simp: pos_imp_zdiv_nonneg_iff)
  show "0 \<le> d" "d < 100" using d assms(4) by linarith+
  have q: "1461 * d = 4 * q + d mod 4" using assms(2) mult_div_mod_eq[of 4 d] by (simp add: quarter)
  moreover have "0 \<le> d mod 4" "d mod 4 \<le> 3" by simp_all
  ultimately show "0 \<le> c - q" "c - q \<le> 365" "c - q = 365 \<Longrightarrow> d mod 4 = 3"
    using d by linarith+
  show "c - q = 365 \<Longrightarrow> d = 99 \<Longrightarrow> c = 36524" using assms(2) by simp
qed

lemma month_range:
  fixes e m :: int
  assumes "m = (5 * e + 2) div 153" "0 \<le> e" "e \<le> 365"
  shows "0 \<le> m" "m \<le> 11" "153 * m \<le> 5 * e + 2" "5 * e + 2 < 153 * m + 153"
  using assms by (auto simp: pos_imp_zdiv_nonneg_iff)

text \<open>Day \<open>e\<close> of a year counted from March is a date of the calendar.\<close>

lemma march_date_valid:
  fixes e m Z :: int
  assumes m: "m = (5 * e + 2) div 153" and e: "0 \<le> e" "e \<le> 365" and lp: "e \<le> 364 \<or> leap (Z + 1)"
  shows "valid_date (Z + m div 10) (m + 3 - 12 * (m div 10)) (e - (153 * m + 2) div 5 + 1)"
proof -
  note r = month_range[OF m e]
  from months_cases[OF r(1,2)] show ?thesis
    by (elim disjE) (use r(3,4) e lp in \<open>auto simp: valid_date_def month_lengths_def numeral_eq_Suc\<close>)
qed

lemma sdiv_pos: "0 \<le> a \<Longrightarrow> 0 < k \<Longrightarrow> a sdiv k = a div k" "0 \<le> a \<Longrightarrow> 0 < k \<Longrightarrow> (- a) sdiv k = - (a div k)"
  "0 \<le> a \<Longrightarrow> 0 < k \<Longrightarrow> a smod k = a mod k" for a k :: int
  by (auto simp: signed_divide_int_def signed_modulo_int_def sgn_if)

lemma i32_small: "- (2 ^ 31) \<le> x \<Longrightarrow> x < 2 ^ 31 \<Longrightarrow> i32 x = x"
  by (simp add: i32_def)

text \<open>The algorithm on the days since 1970, with the quotients rounded down.\<close>

lemma fast_date:
  fixes n :: int
  assumes n: "0 \<le> n" and a: "a = n + 2472632"
    and b: "b = (4 * a + 3) div 146097" and c: "c = a - (146097 * b) div 4"
    and d: "d = (4 * c + 3) div 1461" and e: "e = c - (1461 * d) div 4"
    and m: "m = (5 * e + 2) div 153"
  shows "valid_date (100 * b + d - 4800 + m div 10) (m + 3 - 12 * (m div 10)) (e - (153 * m + 2) div 5 + 1)"
    "day_number (100 * b + d - 4800 + m div 10) (m + 3 - 12 * (m div 10)) (e - (153 * m + 2) div 5 + 1) =
       n + 719163"
    "0 \<le> b \<and> 0 \<le> c \<and> 0 \<le> d \<and> d < 100 \<and> 0 \<le> e \<and> 0 \<le> m \<and> m \<le> 11"
proof -
  have a0: "0 \<le> a" using n a by simp
  note cr = century_range[OF b refl a0, folded c]
  note yr = year_range[OF d refl cr(2,3), folded e]
  note mr = month_range[OF m yr(3,4)]
  let ?Z = "100 * b + d - 4800"
  have lp: "leap (?Z + 1)" if "e = 365"
  proof (cases "d = 99")
    case True
    then have "b mod 4 = 3" using that yr(6) cr(4) by blast
    then have "4 dvd b + 1" by presburger
    then obtain q where "b + 1 = 4 * q" by (rule dvdE)
    then have "?Z + 1 = 400 * (q - 12)" using True by simp
    then have "400 dvd ?Z + 1" by (rule dvdI)
    then show ?thesis using dvd_trans[of 4 400 "?Z + 1"] by (simp add: leap_def mod_eq_0_iff_dvd)
  next
    case False
    have "d mod 4 = 3" using yr(5) that by blast
    then have "4 dvd d + 1" by presburger
    then obtain q where "d + 1 = 4 * q" by (rule dvdE)
    then have "?Z + 1 = 4 * (25 * b - 1200 + q)" by simp
    then have "4 dvd ?Z + 1" by (rule dvdI)
    moreover have "(?Z + 1) mod 100 = d + 1"
      using False yr(1,2) mod_mult_self1[of "d + 1" "b - 48" 100] by (simp add: algebra_simps)
    ultimately show ?thesis using yr(1) by (simp add: leap_def mod_eq_0_iff_dvd)
  qed
  have "e \<le> 364 \<or> leap (?Z + 1)" using lp yr(4) by linarith
  from march_date_valid[OF m yr(3,4) this]
  show "valid_date (?Z + m div 10) (m + 3 - 12 * (m div 10)) (e - (153 * m + 2) div 5 + 1)" .
  have "day_number (?Z + m div 10) (m + 3 - 12 * (m div 10)) (e - (153 * m + 2) div 5 + 1) =
      (146097 * b) div 4 + (1461 * d) div 4 - 1753164 - 306 + e + 1"
    unfolding day_number_march[OF mr(1,2)] years_split[OF yr(1,2)] by simp
  then show "day_number (?Z + m div 10) (m + 3 - 12 * (m div 10)) (e - (153 * m + 2) div 5 + 1) = n + 719163"
    using a c e by simp
  show "0 \<le> b \<and> 0 \<le> c \<and> 0 \<le> d \<and> d < 100 \<and> 0 \<le> e \<and> 0 \<le> m \<and> m \<le> 11" using cr yr mr by simp
qed

lemma FastSecondToDate_eq:
  assumes "0 \<le> secs" "secs < 60 * 2 ^ 31" "0 \<le> tz"
  shows "\<exists>b c d e m. let n = (secs div 3600 + tz) div 24; a = n + 2472632 in
     b = (4 * a + 3) div 146097 \<and> c = a - (146097 * b) div 4 \<and> d = (4 * c + 3) div 1461 \<and>
     e = c - (1461 * d) div 4 \<and> m = (5 * e + 2) div 153 \<and>
     FastSecondToDate secs tz =
       \<lparr>tm_sec = secs mod 60, tm_min = (secs div 60) mod 60, tm_hour = (secs div 3600 + tz) mod 24,
        tm_mday = e - (153 * m + 2) div 5 + 1, tm_mon = m + 2 - 12 * (m div 10),
        tm_year = 100 * b + d - 6700 + m div 10\<rparr>"
proof -
  define n where "n = (secs div 3600 + tz) div 24"
  define a where "a = n + 2472632"
  define b where "b = (4 * a + 3) div 146097"
  define c where "c = a - (146097 * b) div 4"
  define d where "d = (4 * c + 3) div 1461"
  define e where "e = c - (1461 * d) div 4"
  define m where "m = (5 * e + 2) div 153"
  have n0: "0 \<le> n" using assms by (simp add: n_def pos_imp_zdiv_nonneg_iff)
  note r = fast_date(3)[OF n0 a_def b_def c_def d_def e_def m_def]
  have a0: "0 \<le> a" using n0 a_def by simp
  have i: "i32 (secs sdiv 60) = secs div 60"
  proof -
    have "0 \<le> secs div 60" "secs div 60 < 2 ^ 31" using assms(1,2) by linarith+
    then show ?thesis using assms(1) i32_small[of "secs div 60"] by (simp add: sdiv_pos)
  qed
  have h: "secs div 60 div 60 = secs div 3600" using zdiv_zmult2_eq[of 60 secs 60] by simp
  have neg: "- b * 146097 = - (146097 * b)" "- d * 1461 = - (1461 * d)" "a * 4 + 3 = 4 * a + 3"
    "c * 4 + 3 = 4 * c + 3" by simp_all
  have "(4 * a + 3) sdiv 146097 = b" unfolding b_def by (rule sdiv_pos) (use a0 in simp_all)
  moreover have "(- (146097 * b)) sdiv 4 + a = c" using r unfolding c_def by (subst sdiv_pos(2)) simp_all
  moreover have "(4 * c + 3) sdiv 1461 = d" unfolding d_def by (rule sdiv_pos) (use r in simp_all)
  moreover have "(- (1461 * d)) sdiv 4 + c = e" using r unfolding e_def by (subst sdiv_pos(2)) simp_all
  moreover have "(5 * e + 2) sdiv 153 = m" unfolding m_def by (rule sdiv_pos) (use r in simp_all)
  moreover have "(- (153 * m + 2)) sdiv 5 + e + 1 = e - (153 * m + 2) div 5 + 1"
    using r by (subst sdiv_pos(2)) simp_all
  moreover have "((- m) sdiv 10) * 12 + m + 2 = m + 2 - 12 * (m div 10)"
    using r by (subst sdiv_pos(2)) simp_all
  moreover have "m sdiv 10 = m div 10" using r by (simp add: sdiv_pos)
  ultimately have eqs: "(a * 4 + 3) sdiv 146097 = b" "(- b * 146097) sdiv 4 + a = c" "(c * 4 + 3) sdiv 1461 = d"
    "(- d * 1461) sdiv 4 + c = e" "(5 * e + 2) sdiv 153 = m"
    "(- (153 * m + 2)) sdiv 5 + e + 1 = e - (153 * m + 2) div 5 + 1"
    "((- m) sdiv 10) * 12 + m + 2 = m + 2 - 12 * (m div 10)" "m sdiv 10 = m div 10"
    by (simp_all only: neg)
  have s: "secs smod 60 = secs mod 60" "(secs div 60) smod 60 = (secs div 60) mod 60"
    "(secs div 60) sdiv 60 = secs div 3600" "(secs div 3600 + tz) smod 24 = (secs div 3600 + tz) mod 24"
    "(secs div 3600 + tz) sdiv 24 = n"
    using assms by (simp_all add: sdiv_pos pos_imp_zdiv_nonneg_iff h n_def)
  have "FastSecondToDate secs tz =
       \<lparr>tm_sec = secs mod 60, tm_min = (secs div 60) mod 60, tm_hour = (secs div 3600 + tz) mod 24,
        tm_mday = e - (153 * m + 2) div 5 + 1, tm_mon = m + 2 - 12 * (m div 10),
        tm_year = 100 * b + d - 6700 + m div 10\<rparr>"
    unfolding FastSecondToDate_def Let_def i s a_def[symmetric] eqs by (simp add: mult.commute)
  then show ?thesis
    unfolding Let_def n_def[symmetric] a_def[symmetric] using b_def c_def d_def e_def m_def by blast
qed

section \<open>The properties of the conversions\<close>

text \<open>
  C38. \<^verbatim>\<open>FastSecondToDate\<close> computes the civil date: for every time of the years 1970 to 6053 and
  every zone of 0 to 23 hours its result is a date of the Gregorian calendar, is the day
  whose number in that calendar lies the right number of days after 1 January 1970, and the
  hour, minute and second add up to the second of that day.
\<close>

theorem FastSecondToDate_civil:
  assumes "0 \<le> secs" "secs < 60 * 2 ^ 31" "0 \<le> tz" "tz < 24"
  shows "let t = FastSecondToDate secs tz; y = tm_year t + 1900; mo = tm_mon t + 1 in
    valid_date y mo (tm_mday t) \<and>
    day_number y mo (tm_mday t) = day_number 1970 1 1 + (secs + 3600 * tz) div 86400 \<and>
    tm_hour t * 3600 + tm_min t * 60 + tm_sec t = (secs + 3600 * tz) mod 86400 \<and>
    0 \<le> tm_hour t \<and> tm_hour t < 24 \<and> 0 \<le> tm_min t \<and> tm_min t < 60 \<and> 0 \<le> tm_sec t \<and> tm_sec t < 60"
proof -
  let ?t = "FastSecondToDate secs tz" and ?n = "(secs div 3600 + tz) div 24"
  obtain b c d e m where eqs: "b = (4 * (?n + 2472632) + 3) div 146097"
    "c = (?n + 2472632) - (146097 * b) div 4" "d = (4 * c + 3) div 1461" "e = c - (1461 * d) div 4"
    "m = (5 * e + 2) div 153"
    and t: "?t = \<lparr>tm_sec = secs mod 60, tm_min = (secs div 60) mod 60, tm_hour = (secs div 3600 + tz) mod 24,
        tm_mday = e - (153 * m + 2) div 5 + 1, tm_mon = m + 2 - 12 * (m div 10),
        tm_year = 100 * b + d - 6700 + m div 10\<rparr>"
    using FastSecondToDate_eq[OF assms(1-3)] unfolding Let_def by blast
  have n0: "0 \<le> ?n" using assms(1,3) by (simp add: pos_imp_zdiv_nonneg_iff)
  note fd = fast_date[OF n0 refl eqs]
  have h: "(secs + 3600 * tz) div 3600 = secs div 3600 + tz" "(secs + 3600 * tz) mod 3600 = secs mod 3600"
    by simp_all
  have days: "(secs + 3600 * tz) div 86400 = ?n"
    using zdiv_zmult2_eq[of 24 "secs + 3600 * tz" 3600] unfolding h by simp
  have secs: "(secs + 3600 * tz) mod 86400 = 3600 * ((secs div 3600 + tz) mod 24) + secs mod 3600"
    using zmod_zmult2_eq[of 24 "secs + 3600 * tz" 3600] unfolding h by simp
  have mins: "secs mod 3600 = 60 * (secs div 60 mod 60) + secs mod 60"
    using zmod_zmult2_eq[of 60 secs 60] by simp
  have "day_number 1970 1 1 = 719163" by (simp add: day_number_def days_before_year_def)
  then show ?thesis
    using fd(1,2) unfolding Let_def t days secs mins by (simp add: algebra_simps)
qed

theorem FastSecondToDate_civil_witness:
  "let t = FastSecondToDate 1709164800 8; y = tm_year t + 1900; mo = tm_mon t + 1 in
    valid_date y mo (tm_mday t) \<and>
    day_number y mo (tm_mday t) = day_number 1970 1 1 + (1709164800 + 3600 * 8) div 86400 \<and>
    tm_hour t * 3600 + tm_min t * 60 + tm_sec t = (1709164800 + 3600 * 8) mod 86400 \<and>
    0 \<le> tm_hour t \<and> tm_hour t < 24 \<and> 0 \<le> tm_min t \<and> tm_min t < 60 \<and> 0 \<le> tm_sec t \<and> tm_sec t < 60"
  by (rule FastSecondToDate_civil) simp_all

section \<open>Printed times are read back\<close>

lemma digits_val_replicate: "digits_val (replicate k (CHR ''0'') @ ds) = digits_val ds"
proof (induction k)
  case (Suc k)
  have "digits_val (CHR ''0'' # xs) = digits_val xs" for xs by (simp add: digits_val_def digit_val_def)
  then show ?case using Suc by simp
qed simp

lemma scan_digits:
  assumes "ds \<noteq> []" "\<forall>c \<in> set ds. is_digit c" "rest = [] \<or> \<not> is_digit (hd rest)"
  shows "scan_int (ds @ rest) = Some (int (digits_val ds), rest)"
proof -
  have h: "is_digit (hd (ds @ rest))" using assms(1,2) by (cases ds) auto
  then have "dropWhile is_space (ds @ rest) = ds @ rest"
    by (cases "ds @ rest") (auto dest: digit_not_space)
  moreover have "takeWhile is_digit (ds @ rest) = ds" "dropWhile is_digit (ds @ rest) = rest"
    using assms(2,3) by (cases rest; auto simp: takeWhile_append dropWhile_append)+
  ultimately show ?thesis using assms(1) digit_not_sign[OF h] by (simp add: scan_int_def Let_def)
qed

lemma scan_pad:
  assumes "0 \<le> i" "rest = [] \<or> \<not> is_digit (hd rest)"
  shows "scan_int (pad n i @ rest) = Some (i, rest)"
proof -
  have "\<forall>c \<in> set (pad n i). is_digit c"
    using assms(1) show_nat_digits[of "nat i"] by (auto simp: pad_def is_digit_def)
  moreover have "pad n i \<noteq> []" using assms(1) by (simp add: pad_def)
  moreover have "int (digits_val (pad n i)) = i" using assms(1) by (simp add: pad_def digits_val_replicate)
  ultimately show ?thesis using scan_digits[OF _ _ assms(2), of "pad n i"] by simp
qed

lemma length_show_nat: "n < 10 ^ Suc k \<Longrightarrow> length (show_nat n) \<le> Suc k"
proof (induction k arbitrary: n)
  case 0
  then show ?case by (subst show_nat.simps) simp
next
  case (Suc k)
  show ?case
  proof (cases "n < 10")
    case False
    have "n div 10 < 10 ^ Suc k" using Suc.prems by (simp add: less_mult_imp_div_less)
    then show ?thesis using Suc.IH[of "n div 10"] False by (subst show_nat.simps) simp
  qed (subst show_nat.simps, simp)
qed

lemma length_pad: "0 \<le> i \<Longrightarrow> i < 10 ^ n \<Longrightarrow> 0 < n \<Longrightarrow> length (pad n i) = n"
  using length_show_nat[of "nat i" "n - 1"] by (simp add: pad_def nat_less_iff)

lemma year_bounds:
  assumes "0 \<le> n" "n < 2000000" "b = (4 * (n + 2472632) + 3) div 146097" "(0::int) \<le> d" "d < 100"
    "0 \<le> m" "m \<le> 11"
  shows "0 \<le> 100 * b + d - 4800 + m div 10" "100 * b + d - 4800 + m div 10 < 10000"
proof -
  have "9890531 div 146097 \<le> b" "b \<le> 17890528 div 146097"
    using assms(1,2) unfolding assms(3) by (intro zdiv_mono1; simp)+
  moreover have "0 div 10 \<le> m div 10" "m div 10 \<le> 11 div 10"
    using assms(6,7) by (intro zdiv_mono1; simp)+
  ultimately show "0 \<le> 100 * b + d - 4800 + m div 10" "100 * b + d - 4800 + m div 10 < 10000"
    using assms(4,5) by simp_all
qed

text \<open>
  A time printed by \<^verbatim>\<open>unix2Full\<close> is read back by \<^verbatim>\<open>strtime2int64\<close> as the number that
  \<^verbatim>\<open>unixTimeToDateTime\<close> splits into date and time: the printer, the parser and the
  conversion agree on every millisecond of the years 1970 to 6053.
\<close>

theorem unix2Full_read_back:
  assumes "0 \<le> t" "t < 60000 * 2 ^ 31"
  shows "strtime2int64 (Some (unix2Full t)) =
    (case unixTimeToDateTime t of (ymd, hmss) \<Rightarrow> ymd * 1000000000 + hmss)"
proof -
  let ?secs = "t sdiv 1000" and ?ms = "t smod 1000"
  have s: "?secs = t div 1000" "?ms = t mod 1000" using assms(1) by (simp_all add: sdiv_pos)
  have b: "0 \<le> ?secs" "?secs < 60 * 2 ^ 31" using assms unfolding s by linarith+
  have msb: "0 \<le> ?ms" "?ms < 10 ^ 3" unfolding s by simp_all
  define q where "q = FastSecondToDate ?secs 8"
  define y where "y = tm_year q + 1900"
  define mo where "mo = tm_mon q + 1"
  have civ: "valid_date y mo (tm_mday q)" "0 \<le> tm_hour q" "tm_hour q < 24" "0 \<le> tm_min q" "tm_min q < 60"
    "0 \<le> tm_sec q" "tm_sec q < 60"
    using FastSecondToDate_civil[OF b, of 8] unfolding Let_def q_def y_def mo_def by auto
  have yb: "0 \<le> y" "y < 10000"
  proof -
    let ?n = "(?secs div 3600 + 8) div 24"
    have h: "0 div 3600 \<le> ?secs div 3600" "?secs div 3600 \<le> 128849018880 div 3600"
      using b by (intro zdiv_mono1; simp)+
    have "8 div 24 \<le> ?n" "?n \<le> 35791402 div 24" using h by (intro zdiv_mono1; simp)+
    then have n: "0 \<le> ?n" "?n < 2000000" by simp_all
    obtain b c d e m where eqs: "b = (4 * (?n + 2472632) + 3) div 146097"
      "c = (?n + 2472632) - (146097 * b) div 4" "d = (4 * c + 3) div 1461" "e = c - (1461 * d) div 4"
      "m = (5 * e + 2) div 153" and yq: "tm_year q = 100 * b + d - 6700 + m div 10"
      proof -
      obtain b c d e m where "b = (4 * (?n + 2472632) + 3) div 146097"
        "c = (?n + 2472632) - (146097 * b) div 4" "d = (4 * c + 3) div 1461" "e = c - (1461 * d) div 4"
        "m = (5 * e + 2) div 153" and q: "q =
        \<lparr>tm_sec = ?secs mod 60, tm_min = (?secs div 60) mod 60, tm_hour = (?secs div 3600 + 8) mod 24,
          tm_mday = e - (153 * m + 2) div 5 + 1, tm_mon = m + 2 - 12 * (m div 10),
          tm_year = 100 * b + d - 6700 + m div 10\<rparr>"
        using FastSecondToDate_eq[OF b, of 8, OF zero_le_numeral] unfolding Let_def q_def by blast
      moreover have "tm_year q = 100 * b + d - 6700 + m div 10" by (simp add: q)
      ultimately show ?thesis using that by blast
    qed
    have "y = 100 * b + d - 4800 + m div 10" using yq by (simp add: y_def)
    then show "0 \<le> y" "y < 10000"
      using year_bounds[OF n eqs(1), of d m] fast_date(3)[OF n(1) refl eqs] by simp_all
  qed
  have md: "1 \<le> mo" "mo \<le> 12" "1 \<le> tm_mday q" "tm_mday q \<le> 31"
  proof -
    have "month_lengths y ! nat (mo - 1) \<in> set (month_lengths y)"
      using civ(1) by (intro nth_mem) (auto simp: valid_date_def month_lengths_def)
    then show "1 \<le> mo" "mo \<le> 12" "1 \<le> tm_mday q" "tm_mday q \<le> 31"
      using civ(1) by (auto simp: valid_date_def month_lengths_def split: if_splits)
  qed
  let ?str = "pad 4 y @ ''-'' @ pad 2 mo @ ''-'' @ pad 2 (tm_mday q) @ '' '' @ pad 2 (tm_hour q) @ '':'' @
    pad 2 (tm_min q) @ '':'' @ pad 2 (tm_sec q) @ ''.'' @ pad 3 ?ms"
  have len: "length ?str = 23" using yb md civ msb by (simp add: length_pad)
  then have full: "unix2Full t = ?str"
    unfolding unix2Full_def Let_def q_def[symmetric] y_def[symmetric] mo_def[symmetric] by simp
  have nd: "\<not> is_digit (CHR ''-'')" "\<not> is_digit (CHR '' '')" "\<not> is_digit (CHR '':'')" "\<not> is_digit (CHR ''.'')"
    "is_space (CHR '' '')"
    by (simp_all add: is_digit_def is_space_def)
  have sp: "dropWhile is_space (pad 2 (tm_hour q) @ zs) = pad 2 (tm_hour q) @ zs" for zs
  proof -
    have "is_digit (hd (pad 2 (tm_hour q)))" "pad 2 (tm_hour q) \<noteq> []"
      using civ(2) show_nat_hd[of "nat (tm_hour q)"] by (auto simp: pad_def hd_append is_digit_def)
    then show ?thesis by (cases "pad 2 (tm_hour q)") (auto dest: digit_not_space)
  qed
  have "sscanf_ints ''-- ::.'' ?str = [y, mo, tm_mday q, tm_hour q, tm_min q, tm_sec q, ?ms]"
    using yb md civ msb scan_pad[of _ "[]"] by (simp add: scan_pad nd sp)
  then have "strtime2int64 (Some (unix2Full t)) =
      (y * 10000000000 + mo * 100000000 + tm_mday q * 1000000 + tm_hour q * 10000 + tm_min q * 100 + tm_sec q) * 1000 + ?ms"
    unfolding full strtime2int64_def using len by (simp add: arg_def Let_def)
  moreover have "unixTimeToDateTime t =
      (y * 10000 + mo * 100 + tm_mday q, ?ms + tm_hour q * 10000000 + tm_min q * 100000 + tm_sec q * 1000)"
    unfolding unixTimeToDateTime_def Let_def q_def[symmetric] y_def[symmetric] mo_def[symmetric]
    using yb md civ msb by (simp add: i32_small)
  ultimately show ?thesis by simp
qed

theorem unix2Full_read_back_witness:
  "strtime2int64 (Some (unix2Full 1663294746262)) =
    (case unixTimeToDateTime 1663294746262 of (ymd, hmss) \<Rightarrow> ymd * 1000000000 + hmss)"
  by (rule unix2Full_read_back) simp_all

end
