(* ===== verification/QtpMsg.thy ===== *)
theory QtpMsg
  imports Prelude "HOL-Library.AList"
begin

text \<open>
  The messages of \<^verbatim>\<open>src/include/qtp_msg.h\<close> and their decoding from a byte stream in
  \<^verbatim>\<open>src/tcp/src/event_wrapper.cpp\<close>: the packed head, the options, the class \<^verbatim>\<open>QtpMsg\<close> with its
  two buffers, \<^verbatim>\<open>encode\<close>, \<^verbatim>\<open>send_data\<close> and \<^verbatim>\<open>decode_msg_with_head\<close>.

  A buffer is the list of its bytes, as long as the allocation, and \<^verbatim>\<open>nullptr\<close> is \<open>None\<close>;
  reading or writing past an allocation makes the operation \<open>None\<close>. The fields \<^verbatim>\<open>head_\<close>,
  \<^verbatim>\<open>opts_\<close>, \<^verbatim>\<open>data_len_\<close>, \<^verbatim>\<open>data_buf_\<close>, \<^verbatim>\<open>opt_len_\<close> and \<^verbatim>\<open>opt_buf_\<close> are \<open>msg_head\<close>, \<open>opts\<close>,
  \<open>data_len\<close>, \<open>data_buf\<close>, \<open>opt_len\<close> and \<open>opt_buf\<close>. The order in which an
  \<^verbatim>\<open>unordered_map\<close> is iterated is not specified: the parameter \<open>iter\<close> gives it, and the
  theorems ask of it only that it is a permutation.
\<close>

section \<open>Bytes\<close>

type_synonym byte = "8 word"

primrec le :: "nat \<Rightarrow> nat \<Rightarrow> byte list" where
  "le 0 v = []"
| "le (Suc k) v = word_of_nat v # le k (v div 256)"

primrec unle :: "byte list \<Rightarrow> nat" where
  "unle [] = 0"
| "unle (b # bs) = unat b + 256 * unle bs"

lemma length_le [simp]: "length (le k v) = k"
  by (induction k arbitrary: v) auto

lemma unle_le: "unle (le k v) = v mod 256 ^ k"
proof (induction k arbitrary: v)
  case (Suc k)
  then show ?case by (simp add: unat_of_nat take_bit_eq_mod mod_mult2_eq)
qed simp

section \<open>The head\<close>

record msg_head =
  version :: u8
  service :: u8
  msgtype :: u16
  topic :: u16
  optslen :: u16
  datalen :: u32

definition new_head :: msg_head where
  "new_head = \<lparr>version = 0, service = 0, msgtype = 0, topic = 0, optslen = 0, datalen = 0\<rparr>"

definition MSG_HEAD_SIZE :: nat where "MSG_HEAD_SIZE = 12"

definition head_bytes :: "msg_head \<Rightarrow> byte list" where
  "head_bytes h = le 1 (unat (version h)) @ le 1 (unat (service h)) @ le 2 (unat (msgtype h)) @
     le 2 (unat (topic h)) @ le 2 (unat (optslen h)) @ le 4 (unat (datalen h))"

definition field :: "nat \<Rightarrow> nat \<Rightarrow> byte list \<Rightarrow> nat" where
  "field off n bs = unle (take n (drop off bs))"

definition head_of :: "byte list \<Rightarrow> msg_head" where
  "head_of bs = \<lparr>version = word_of_nat (field 0 1 bs), service = word_of_nat (field 1 1 bs),
     msgtype = word_of_nat (field 2 2 bs), topic = word_of_nat (field 4 2 bs),
     optslen = word_of_nat (field 6 2 bs), datalen = word_of_nat (field 8 4 bs)\<rparr>"

section \<open>Options and messages\<close>

definition kOptionId_Reserved :: int where "kOptionId_Reserved = 60000"
definition kOptionId_SessionId :: int where "kOptionId_SessionId = 60001"
definition kOptionId_PageInfo :: int where "kOptionId_PageInfo = 60002"
definition kOptionId_SubscribeKey :: int where "kOptionId_SubscribeKey = 60003"
definition kOptionId_ServerTime :: int where "kOptionId_ServerTime = 60004"
definition kOptionId_ReqId :: int where "kOptionId_ReqId = 60005"
definition kOptionId_UserToken :: int where "kOptionId_UserToken = 600011"
definition kOptionId_KLinePeriodType :: int where "kOptionId_KLinePeriodType = 600020"
definition kOptionId_Extended :: int where "kOptionId_Extended = 61000"

lemmas kOptionId_defs = kOptionId_Reserved_def kOptionId_SessionId_def kOptionId_PageInfo_def
  kOptionId_SubscribeKey_def kOptionId_ServerTime_def kOptionId_ReqId_def kOptionId_UserToken_def
  kOptionId_KLinePeriodType_def kOptionId_Extended_def

record option_request =
  option_id :: u16
  option_size :: u16
  option_buf :: "byte list"

definition OptionRequest :: "u16 \<Rightarrow> u16 \<Rightarrow> byte list \<Rightarrow> option_request option" where
  "OptionRequest i n d =
     (if length d < unat n then None
      else Some \<lparr>option_id = i, option_size = n, option_buf = take (unat n) d\<rparr>)"

type_synonym options = "(int \<times> option_request) list"

record qtp_msg =
  msg_head :: msg_head
  opts :: options
  data_len :: nat
  data_buf :: "byte list option"
  opt_len :: nat
  opt_buf :: "byte list option"

definition new_msg :: qtp_msg where
  "new_msg = \<lparr>msg_head = new_head, opts = [], data_len = 0, data_buf = None, opt_len = 0, opt_buf = None\<rparr>"

function parse_loop :: "byte list \<Rightarrow> nat \<Rightarrow> nat \<Rightarrow> options \<Rightarrow> options option" where
  "parse_loop buf n offset os =
     (if offset < n
      then (if length buf < offset + 4 then None
            else case OptionRequest (word_of_nat (field offset 2 buf)) (word_of_nat (field (offset + 2) 2 buf))
                        (drop (offset + 4) buf) of
                   None \<Rightarrow> None
                 | Some r \<Rightarrow> parse_loop buf n (offset + 4 + unat (option_size r))
                              (AList.update (uint (option_id r)) r os))
      else Some os)"
  by pat_completeness auto
termination by (relation "measure (\<lambda>(buf, n, offset, os). n - offset)") auto

declare parse_loop.simps [simp del]

definition parse_options :: "qtp_msg \<Rightarrow> qtp_msg option" where
  "parse_options m =
     map_option (\<lambda>os. m\<lparr>opts := os\<rparr>)
       (parse_loop (case opt_buf m of None \<Rightarrow> [] | Some b \<Rightarrow> b) (opt_len m) 0 (opts m))"

definition msg_of_parts :: "msg_head \<Rightarrow> byte list option \<Rightarrow> byte list option \<Rightarrow> qtp_msg option" where
  "msg_of_parts h d opt =
     parse_options (new_msg\<lparr>msg_head := h, data_len := unat (datalen h), data_buf := d,
                            opt_len := unat (optslen h), opt_buf := opt\<rparr>)"

definition remove_option :: "(options \<Rightarrow> options) \<Rightarrow> int \<Rightarrow> qtp_msg \<Rightarrow> bool \<times> qtp_msg" where
  "remove_option iter i m =
     (case find (\<lambda>(k, r). uint (option_id r) = i) (iter (opts m)) of
        None \<Rightarrow> (False, m)
      | Some (k, _) \<Rightarrow> (True, m\<lparr>opts := AList.delete k (opts m)\<rparr>))"

definition get_option :: "int \<Rightarrow> qtp_msg \<Rightarrow> option_request option" where
  "get_option i m = map_of (opts m) i"

definition set_head :: "msg_head \<Rightarrow> qtp_msg \<Rightarrow> qtp_msg" where
  "set_head h m = m\<lparr>msg_head := h\<rparr>"

definition set_msgtype_topic :: "u16 \<Rightarrow> u16 \<Rightarrow> qtp_msg \<Rightarrow> qtp_msg" where
  "set_msgtype_topic t p m = m\<lparr>msg_head := (msg_head m)\<lparr>msgtype := t, topic := p\<rparr>\<rparr>"

definition set_msgtype :: "u16 \<Rightarrow> qtp_msg \<Rightarrow> qtp_msg" where
  "set_msgtype t m = m\<lparr>msg_head := (msg_head m)\<lparr>msgtype := t\<rparr>\<rparr>"

definition set_topic :: "u16 \<Rightarrow> qtp_msg \<Rightarrow> qtp_msg" where
  "set_topic p m = m\<lparr>msg_head := (msg_head m)\<lparr>topic := p\<rparr>\<rparr>"

definition set_version :: "u8 \<Rightarrow> qtp_msg \<Rightarrow> qtp_msg" where
  "set_version v m = m\<lparr>msg_head := (msg_head m)\<lparr>version := v\<rparr>\<rparr>"

definition reset_body :: "qtp_msg \<Rightarrow> qtp_msg" where
  "reset_body m = m\<lparr>data_len := 0, data_buf := None\<rparr>"

definition reset_option :: "qtp_msg \<Rightarrow> qtp_msg" where
  "reset_option m = m\<lparr>opt_len := 0, opt_buf := None, opts := []\<rparr>"

definition reset :: "qtp_msg \<Rightarrow> qtp_msg" where
  "reset m = (reset_option (reset_body m))\<lparr>msg_head := new_head\<rparr>"

text \<open>
  The new buffer of \<^verbatim>\<open>new char[size]\<close>, whose bytes are all written before they are read, and
  the copy into the front of a buffer.
\<close>

definition grow :: "nat \<Rightarrow> nat \<Rightarrow> byte list option \<Rightarrow> byte list option" where
  "grow old n buf = (if old < n then Some (replicate n 0) else buf)"

definition memcpy :: "byte list option \<Rightarrow> byte list \<Rightarrow> byte list option option" where
  "memcpy buf d =
     (case buf of
        None \<Rightarrow> (if d = [] then Some None else None)
      | Some b \<Rightarrow> (if length b < length d then None else Some (Some (d @ drop (length d) b))))"

definition set_data :: "byte list option \<Rightarrow> qtp_msg \<Rightarrow> (bool \<times> qtp_msg) option" where
  "set_data d m =
     (case d of
        None \<Rightarrow> Some (False, reset_body m)
      | Some bs \<Rightarrow>
          (case memcpy (grow (data_len m) (length bs) (data_buf m)) bs of
             None \<Rightarrow> None
           | Some b \<Rightarrow>
               Some (True, m\<lparr>msg_head := (msg_head m)\<lparr>datalen := word_of_nat (length bs)\<rparr>,
                             data_len := length bs, data_buf := b\<rparr>)))"

definition set_options :: "byte list option \<Rightarrow> qtp_msg \<Rightarrow> (bool \<times> qtp_msg) option" where
  "set_options d m =
     (case d of
        None \<Rightarrow> Some (False, m)
      | Some bs \<Rightarrow>
          (case memcpy (grow (opt_len m) (length bs) (opt_buf m)) bs of
             None \<Rightarrow> None
           | Some b \<Rightarrow>
               map_option (\<lambda>m'. (True, m'))
                 (parse_options (m\<lparr>opt_len := length bs, opt_buf := b\<rparr>))))"

definition opts_size :: "options \<Rightarrow> nat" where
  "opts_size os = sum_list (map (\<lambda>(k, r). unat (option_size r) + 4) os)"

definition option_bytes :: "option_request \<Rightarrow> byte list" where
  "option_bytes r = le 2 (unat (option_id r)) @ le 2 (unat (option_size r)) @ option_buf r"

definition encode_opts :: "options \<Rightarrow> byte list" where
  "encode_opts os = concat (map (\<lambda>(k, r). option_bytes r) os)"

definition encode :: "(options \<Rightarrow> options) \<Rightarrow> qtp_msg \<Rightarrow> qtp_msg option" where
  "encode iter m =
     (let n = opts_size (iter (opts m))
      in case memcpy (grow (opt_len m) n (opt_buf m)) (encode_opts (iter (opts m))) of
           None \<Rightarrow> None
         | Some b \<Rightarrow>
             Some (m\<lparr>opt_len := n, opt_buf := b,
                     msg_head := (msg_head m)\<lparr>optslen := word_of_nat n,
                                             datalen := word_of_nat (data_len m)\<rparr>\<rparr>))"

definition add_option :: "(options \<Rightarrow> options) \<Rightarrow> option_request \<Rightarrow> qtp_msg \<Rightarrow> qtp_msg option" where
  "add_option iter r m = encode iter (m\<lparr>opts := AList.update (uint (option_id r)) r (opts m)\<rparr>)"

text \<open>\<^verbatim>\<open>add_option(uint16_t id, int64_t data)\<close>: the id is narrowed to 16 bits.\<close>

definition add_option_i64 :: "(options \<Rightarrow> options) \<Rightarrow> int \<Rightarrow> u64 \<Rightarrow> qtp_msg \<Rightarrow> qtp_msg option" where
  "add_option_i64 iter i v m =
     (case OptionRequest (word_of_int i) 8 (le 8 (unat v)) of
        None \<Rightarrow> None
      | Some r \<Rightarrow> add_option iter r m)"

definition buf_bytes :: "nat \<Rightarrow> byte list option \<Rightarrow> byte list option" where
  "buf_bytes n buf =
     (case buf of
        None \<Rightarrow> Some []
      | Some b \<Rightarrow> (if length b < n then None else Some (take n b)))"

definition send_data :: "(options \<Rightarrow> options) \<Rightarrow> qtp_msg \<Rightarrow> (byte list \<times> qtp_msg) option" where
  "send_data iter m =
     (case encode iter m of
        None \<Rightarrow> None
      | Some m1 \<Rightarrow>
          (let m2 = m1\<lparr>msg_head := (msg_head m1)\<lparr>optslen := word_of_nat (opt_len m1),
                                               datalen := word_of_nat (data_len m1)\<rparr>\<rparr>
           in case buf_bytes (opt_len m2) (opt_buf m2) of
                None \<Rightarrow> None
              | Some ob \<Rightarrow>
                  (case buf_bytes (data_len m2) (data_buf m2) of
                     None \<Rightarrow> None
                   | Some db \<Rightarrow> Some (head_bytes (msg_head m2) @ ob @ db, m2))))"

section \<open>Copying and moving\<close>

definition assign :: "qtp_msg \<Rightarrow> qtp_msg \<Rightarrow> qtp_msg option" where
  "assign m src =
     (case set_options (map_option (take (opt_len src)) (opt_buf src)) (set_head (msg_head src) m) of
        None \<Rightarrow> None
      | Some (_, m1) \<Rightarrow>
          (case set_data (map_option (take (data_len src)) (data_buf src)) m1 of
             None \<Rightarrow> None
           | Some (_, m2) \<Rightarrow> parse_options m2))"

definition copy_msg :: "qtp_msg \<Rightarrow> qtp_msg option" where
  "copy_msg src = assign new_msg src"

definition moved_from :: "qtp_msg \<Rightarrow> qtp_msg" where
  "moved_from src = src\<lparr>msg_head := (msg_head src)\<lparr>datalen := 0, optslen := 0\<rparr>,
                        data_buf := None, data_len := 0, opt_buf := None, opt_len := 0\<rparr>"

definition move_msg :: "qtp_msg \<Rightarrow> (qtp_msg \<times> qtp_msg) option" where
  "move_msg src = map_option (\<lambda>m. (m, moved_from src)) (parse_options (src\<lparr>opts := []\<rparr>))"

definition move_assign :: "qtp_msg \<Rightarrow> (qtp_msg \<times> qtp_msg) option" where
  "move_assign src = map_option (\<lambda>m. (m, moved_from src)) (parse_options src)"

section \<open>Decoding\<close>

text \<open>\<open>Some (None, input)\<close> is the null result: the message is not complete.\<close>

definition decode_msg_with_head :: "byte list \<Rightarrow> (qtp_msg option \<times> byte list) option" where
  "decode_msg_with_head input =
     (if length input < MSG_HEAD_SIZE then Some (None, input)
      else
        (let head = head_of input;
             msg_total_len = MSG_HEAD_SIZE + unat (optslen head) + unat (datalen head)
         in if length input < msg_total_len then Some (None, input)
            else
              (let in1 = drop MSG_HEAD_SIZE input;
                   opt = (if optslen head \<noteq> 0 then Some (take (unat (optslen head)) in1) else None);
                   in2 = drop (unat (optslen head)) in1;
                   d = (if datalen head \<noteq> 0 then Some (take (unat (datalen head)) in2) else None);
                   in3 = drop (unat (datalen head)) in2
               in map_option (\<lambda>m. (Some m, in3)) (msg_of_parts head d opt))))"

section \<open>The head is read back\<close>

lemma unle_le_unat: "unle (le k (unat w)) = unat w" if "LENGTH('a) \<le> 8 * k" for w :: "'a::len word"
proof -
  have "unat w < 2 ^ (8 * k)"
    using unsigned_less[of w] that by (meson less_le_trans one_le_numeral power_increasing)
  then show ?thesis by (simp add: unle_le power_mult)
qed

lemma field_skip: "field (length xs + off) n (xs @ ys) = field off n ys"
  by (simp add: field_def)

lemma field_here: "field 0 n (le n v @ ys) = unle (le n v)"
  by (simp add: field_def)

lemma length_head_bytes [simp]: "length (head_bytes h) = MSG_HEAD_SIZE"
  by (simp add: head_bytes_def MSG_HEAD_SIZE_def)

lemma head_of_head_bytes: "head_of (head_bytes h @ rest) = h"
proof -
  have f: "field 0 1 (head_bytes h @ rest) = unat (version h)"
    "field 1 1 (head_bytes h @ rest) = unat (service h)"
    "field 2 2 (head_bytes h @ rest) = unat (msgtype h)"
    "field 4 2 (head_bytes h @ rest) = unat (topic h)"
    "field 6 2 (head_bytes h @ rest) = unat (optslen h)"
    "field 8 4 (head_bytes h @ rest) = unat (datalen h)"
    using unle_le_unat[of 1 "version h"] unle_le_unat[of 1 "service h"] unle_le_unat[of 2 "msgtype h"]
      unle_le_unat[of 2 "topic h"] unle_le_unat[of 2 "optslen h"] unle_le_unat[of 4 "datalen h"]
    by (simp_all add: head_bytes_def field_def)
  show ?thesis unfolding head_of_def f by simp
qed

section \<open>Well-formed messages\<close>

definition buf_ok :: "nat \<Rightarrow> byte list option \<Rightarrow> bool" where
  "buf_ok n buf \<longleftrightarrow> (case buf of None \<Rightarrow> n = 0 | Some b \<Rightarrow> n \<le> length b)"

definition option_ok :: "int \<Rightarrow> option_request \<Rightarrow> bool" where
  "option_ok k r \<longleftrightarrow> k = uint (option_id r) \<and> length (option_buf r) = unat (option_size r)"

definition opts_ok :: "options \<Rightarrow> bool" where
  "opts_ok os \<longleftrightarrow> distinct (map fst os) \<and> (\<forall>(k, r) \<in> set os. option_ok k r)"

definition msg_ok :: "qtp_msg \<Rightarrow> bool" where
  "msg_ok m \<longleftrightarrow> buf_ok (data_len m) (data_buf m) \<and> buf_ok (opt_len m) (opt_buf m) \<and> opts_ok (opts m)"

definition buf_take :: "nat \<Rightarrow> byte list option \<Rightarrow> byte list" where
  "buf_take n buf = (case buf of None \<Rightarrow> [] | Some b \<Rightarrow> take n b)"

definition body :: "qtp_msg \<Rightarrow> byte list" where
  "body m = buf_take (data_len m) (data_buf m)"

text \<open>What a message says: the fields of its head, its body and its options.\<close>

definition content :: "qtp_msg \<Rightarrow> (u8 \<times> u8 \<times> u16 \<times> u16) \<times> byte list \<times> (int \<rightharpoonup> option_request)" where
  "content m = ((version (msg_head m), service (msg_head m), msgtype (msg_head m), topic (msg_head m)),
     body m, map_of (opts m))"

definition permutes_all :: "(options \<Rightarrow> options) \<Rightarrow> bool" where
  "permutes_all iter \<longleftrightarrow> (\<forall>os. mset (iter os) = mset os)"

lemma permutesD:
  assumes "permutes_all iter" shows "mset (iter os) = mset os" "set (iter os) = set os"
    "opts_size (iter os) = opts_size os" "opts_ok (iter os) = opts_ok os"
proof -
  show ms: "mset (iter os) = mset os" using assms by (simp add: permutes_all_def)
  then show st: "set (iter os) = set os" by (rule mset_eq_setD)
  have ms_map: "mset (map f (iter os)) = mset (map f os)" for f :: "int \<times> option_request \<Rightarrow> 'b"
    using ms by simp
  have "sum_list (map f (iter os)) = sum_list (map f os)" for f :: "int \<times> option_request \<Rightarrow> nat"
    using ms_map[of f] by (metis sum_mset_sum_list)
  then show "opts_size (iter os) = opts_size os" unfolding opts_size_def .
  have "distinct (map fst (iter os)) = distinct (map fst os)"
    using ms_map[of fst] by (rule mset_eq_imp_distinct_iff)
  then show "opts_ok (iter os) = opts_ok os" unfolding opts_ok_def st by simp
qed

lemma map_of_permute: "permutes_all iter \<Longrightarrow> opts_ok os \<Longrightarrow> map_of (iter os) = map_of os"
  using permutesD[of iter os] by (simp add: opts_ok_def map_of_inject_set)

lemma set_update_cases: "x \<in> set (AList.update k v xs) \<Longrightarrow> x = (k, v) \<or> x \<in> set xs"
  by (induction xs) (auto split: if_splits)

lemma opts_ok_update: "opts_ok os \<Longrightarrow> option_ok k r \<Longrightarrow> opts_ok (AList.update k r os)"
  by (auto simp: opts_ok_def distinct_update dest!: set_update_cases)

lemma set_delete_subset: "x \<in> set (AList.delete k xs) \<Longrightarrow> x \<in> set xs"
  by (induction xs) (auto split: if_splits)

lemma opts_ok_delete: "opts_ok os \<Longrightarrow> opts_ok (AList.delete k os)"
  by (auto simp: opts_ok_def distinct_delete dest!: set_delete_subset)

lemma length_encode_opts: "(\<forall>(k, r) \<in> set os. option_ok k r) \<Longrightarrow> length (encode_opts os) = opts_size os"
  by (induction os) (auto simp: encode_opts_def opts_size_def option_bytes_def option_ok_def)

lemma OptionRequest_ok: "OptionRequest i n d = Some r \<Longrightarrow> option_ok (uint (option_id r)) r"
  by (auto simp: OptionRequest_def option_ok_def split: if_splits)

section \<open>Options are read back\<close>

primrec put_all :: "options \<Rightarrow> options \<Rightarrow> options" where
  "put_all [] acc = acc"
| "put_all (x # xs) acc = put_all xs (AList.update (fst x) (snd x) acc)"

lemma map_of_put_all: "map_of (put_all os acc) k = (case map_of (rev os) k of None \<Rightarrow> map_of acc k | Some v \<Rightarrow> Some v)"
  by (induction os arbitrary: acc)
    (auto simp: update_conv map_add_Some_iff map_add_def split: option.splits)

lemma put_all_ok: "opts_ok acc \<Longrightarrow> \<forall>(k, r) \<in> set os. option_ok k r \<Longrightarrow> opts_ok (put_all os acc)"
  by (induction os arbitrary: acc) (simp_all add: opts_ok_update split_beta)

lemma map_of_put_all_nil: "opts_ok os \<Longrightarrow> map_of (put_all os []) = map_of os"
proof (rule ext)
  fix k assume "opts_ok os"
  then have "map_of (rev os) = map_of os"
    by (subst map_of_inject_set) (simp_all add: opts_ok_def rev_map[symmetric])
  then show "map_of (put_all os []) k = map_of os k" by (simp add: map_of_put_all split: option.splits)
qed

lemma parse_one:
  assumes "option_ok k r"
  shows "parse_loop (pre @ option_bytes r @ post) n (length pre) os =
    (if length pre < n
     then parse_loop (pre @ option_bytes r @ post) n (length pre + 4 + unat (option_size r)) (AList.update k r os)
     else Some os)"
proof -
  let ?buf = "pre @ option_bytes r @ post"
  have f: "field (length pre) 2 ?buf = unat (option_id r)" "field (length pre + 2) 2 ?buf = unat (option_size r)"
    using field_skip[of pre 0 2 "option_bytes r @ post"] field_skip[of pre 2 2 "option_bytes r @ post"]
      unle_le_unat[of 2 "option_id r"] unle_le_unat[of 2 "option_size r"]
    by (simp_all add: option_bytes_def field_def)
  have len: "length (option_buf r) = unat (option_size r)" "k = uint (option_id r)"
    using assms by (simp_all add: option_ok_def)
  have d: "drop (length pre + 4) ?buf = option_buf r @ post"
    by (simp add: option_bytes_def)
  have "OptionRequest (option_id r) (option_size r) (option_buf r @ post) = Some r"
    using len by (simp add: OptionRequest_def)
  then show ?thesis
    using len by (subst parse_loop.simps) (simp only: f d, simp add: option_bytes_def)
qed

lemma parse_loop_encode:
  assumes "\<forall>(k, r) \<in> set os. option_ok k r"
  shows "parse_loop (pre @ encode_opts os @ post) (length pre + opts_size os) (length pre) acc =
    Some (put_all os acc)"
  using assms
proof (induction os arbitrary: pre acc)
  case Nil
  then show ?case by (subst parse_loop.simps) (simp add: opts_size_def)
next
  case (Cons x os)
  obtain k r where x: "x = (k, r)" by (cases x)
  have ok: "option_ok k r" using Cons.prems x by simp
  have len: "length (option_bytes r) = 4 + unat (option_size r)"
    using ok by (simp add: option_bytes_def option_ok_def)
  have enc: "encode_opts (x # os) = option_bytes r @ encode_opts os" by (simp add: encode_opts_def x)
  have sz: "opts_size (x # os) = 4 + unat (option_size r) + opts_size os" by (simp add: opts_size_def x)
  have "parse_loop ((pre @ option_bytes r) @ encode_opts os @ post) (length (pre @ option_bytes r) + opts_size os)
      (length (pre @ option_bytes r)) (AList.update k r acc) = Some (put_all os (AList.update k r acc))"
    by (rule Cons.IH) (use Cons.prems in simp)
  then show ?case
    using parse_one[OF ok, of pre "encode_opts os @ post" "length pre + opts_size (x # os)" acc]
    unfolding enc sz by (simp add: len x add.assoc)
qed

section \<open>Encoding and sending\<close>

lemma grow_memcpy:
  assumes "buf_ok old buf" "length d = n"
  shows "\<exists>b. memcpy (grow old n buf) d = Some b \<and> buf_ok n b \<and> buf_take n b = d \<and>
    (b = None \<longrightarrow> buf = None)"
  using assms by (auto simp: buf_take_def buf_ok_def grow_def memcpy_def split: option.splits if_splits)

lemma encode_spec:
  assumes "msg_ok m" "permutes_all iter"
  shows "\<exists>b. encode iter m = Some (m\<lparr>opt_len := opts_size (opts m), opt_buf := b,
      msg_head := (msg_head m)\<lparr>optslen := word_of_nat (opts_size (opts m)), datalen := word_of_nat (data_len m)\<rparr>\<rparr>) \<and>
    buf_ok (opts_size (opts m)) b \<and>
    buf_take (opts_size (opts m)) b = encode_opts (iter (opts m))"
proof -
  note p = permutesD[OF assms(2), of "opts m"]
  have "length (encode_opts (iter (opts m))) = opts_size (opts m)"
    using length_encode_opts[of "iter (opts m)"] assms(1) p by (simp add: msg_ok_def opts_ok_def)
  then show ?thesis
    using grow_memcpy[of "opt_len m" "opt_buf m"] assms(1) p(3) by (fastforce simp: encode_def Let_def msg_ok_def)
qed

lemma buf_bytes_ok: "buf_ok n buf \<Longrightarrow> buf_bytes n buf = Some (buf_take n buf)"
  by (auto simp: buf_take_def buf_ok_def buf_bytes_def split: option.splits)

definition wire_head :: "qtp_msg \<Rightarrow> msg_head" where
  "wire_head m = (msg_head m)\<lparr>optslen := word_of_nat (opts_size (opts m)), datalen := word_of_nat (data_len m)\<rparr>"

definition wire :: "(options \<Rightarrow> options) \<Rightarrow> qtp_msg \<Rightarrow> byte list" where
  "wire iter m = head_bytes (wire_head m) @ encode_opts (iter (opts m)) @ body m"

lemma send_data_spec:
  assumes "msg_ok m" "permutes_all iter"
  shows "\<exists>m'. send_data iter m = Some (wire iter m, m') \<and> msg_ok m' \<and> content m' = content m"
proof -
  obtain b where b: "encode iter m = Some (m\<lparr>opt_len := opts_size (opts m), opt_buf := b,
      msg_head := (msg_head m)\<lparr>optslen := word_of_nat (opts_size (opts m)), datalen := word_of_nat (data_len m)\<rparr>\<rparr>)"
    "buf_ok (opts_size (opts m)) b"
    "buf_take (opts_size (opts m)) b = encode_opts (iter (opts m))"
    using encode_spec[OF assms] by blast
  then show ?thesis
    using assms(1) buf_bytes_ok[OF b(2)] buf_bytes_ok[of "data_len m" "data_buf m"]
    by (auto simp: send_data_def Let_def wire_def wire_head_def body_def msg_ok_def content_def)
qed

text \<open>The sizes the 16 bits of \<^verbatim>\<open>optslen\<close> and the 32 bits of \<^verbatim>\<open>datalen\<close> can hold.\<close>

definition fits :: "qtp_msg \<Rightarrow> bool" where
  "fits m \<longleftrightarrow> opts_size (opts m) < 2 ^ 16 \<and> data_len m < 2 ^ 32"

lemma wire_lengths:
  assumes "msg_ok m" "permutes_all iter" "fits m"
  shows "unat (optslen (wire_head m)) = opts_size (opts m)" "unat (datalen (wire_head m)) = data_len m"
    "length (encode_opts (iter (opts m))) = opts_size (opts m)" "length (body m) = data_len m"
    "length (wire iter m) = MSG_HEAD_SIZE + opts_size (opts m) + data_len m"
proof -
  note p = permutesD[OF assms(2), of "opts m"]
  show "unat (optslen (wire_head m)) = opts_size (opts m)" "unat (datalen (wire_head m)) = data_len m"
    using assms(3) by (simp_all add: wire_head_def fits_def unat_of_nat take_bit_nat_eq_self)
  show l: "length (encode_opts (iter (opts m))) = opts_size (opts m)"
    using length_encode_opts[of "iter (opts m)"] assms(1) p by (simp add: msg_ok_def opts_ok_def)
  show d: "length (body m) = data_len m"
    using assms(1) by (auto simp: msg_ok_def buf_ok_def body_def buf_take_def split: option.splits)
  show "length (wire iter m) = MSG_HEAD_SIZE + opts_size (opts m) + data_len m" by (simp add: wire_def l d)
qed

lemma decode_wire:
  assumes "msg_ok m" "permutes_all iter" "fits m"
  shows "\<exists>m'. decode_msg_with_head (wire iter m @ rest) = Some (Some m', rest) \<and> msg_ok m' \<and> content m' = content m"
proof -
  note wl = wire_lengths[OF assms] and p = permutesD[OF assms(2), of "opts m"]
  let ?h = "wire_head m" and ?eo = "encode_opts (iter (opts m))"
  have ok: "opts_ok (iter (opts m))" using assms(1) p by (simp add: msg_ok_def)
  have pl: "parse_loop ?eo (opts_size (opts m)) 0 [] = Some (put_all (iter (opts m)) [])"
    using parse_loop_encode[of "iter (opts m)" "[]" "[]" "[]"] ok p(3) by (simp add: opts_ok_def)
  have po: "msg_of_parts ?h d (if optslen ?h \<noteq> 0 then Some ?eo else None) =
      Some \<lparr>msg_head = ?h, opts = put_all (iter (opts m)) [], data_len = data_len m, data_buf = d,
            opt_len = opts_size (opts m), opt_buf = (if optslen ?h \<noteq> 0 then Some ?eo else None)\<rparr>" for d
  proof (cases "optslen ?h = 0")
    case True
    then have "?eo = []" using wl(1,3) by (metis length_0_conv unat_0)
    then show ?thesis using pl wl(1,2) True by (simp add: msg_of_parts_def parse_options_def new_msg_def)
  qed (use pl wl(1,2) in \<open>simp add: msg_of_parts_def parse_options_def new_msg_def\<close>)
  have hd: "head_of (wire iter m @ rest) = ?h" by (simp add: wire_def head_of_head_bytes)
  have dr: "drop MSG_HEAD_SIZE (wire iter m @ rest) = ?eo @ body m @ rest"
    using drop_append[of MSG_HEAD_SIZE "head_bytes ?h"] by (simp add: wire_def)
  define d where "d = (if datalen ?h \<noteq> 0 then Some (body m) else None)"
  have dec: "decode_msg_with_head (wire iter m @ rest) = Some (Some \<lparr>msg_head = ?h,
      opts = put_all (iter (opts m)) [], data_len = data_len m, data_buf = d,
      opt_len = opts_size (opts m), opt_buf = (if optslen ?h \<noteq> 0 then Some ?eo else None)\<rparr>, rest)"
    unfolding decode_msg_with_head_def Let_def hd dr
    using wl po[of d] by (simp add: d_def cong: if_cong)
  have zero: "datalen ?h = 0 \<longleftrightarrow> data_len m = 0" "optslen ?h = 0 \<longleftrightarrow> opts_size (opts m) = 0"
    using wl(1,2) by (metis unat_0 unat_eq_zero)+
  have bd: "body m = []" if "data_len m = 0" using wl(4) that by simp
  have "opts_ok (put_all (iter (opts m)) [])"
    using put_all_ok[of "[]" "iter (opts m)"] ok by (simp add: opts_ok_def)
  moreover have "map_of (put_all (iter (opts m)) []) = map_of (opts m)"
    using map_of_put_all_nil[OF ok] map_of_permute[OF assms(2), of "opts m"] ok p(4) by simp
  moreover have "buf_ok (data_len m) d" using wl(4) zero(1) by (simp add: d_def buf_ok_def)
  moreover have "buf_ok (opts_size (opts m)) (if optslen ?h \<noteq> 0 then Some ?eo else None)"
    using wl(3) zero(2) by (simp add: buf_ok_def)
  moreover have "buf_take (data_len m) d = body m"
    using wl(4) zero(1) bd by (simp add: d_def buf_take_def)
  ultimately show ?thesis
    unfolding dec by (simp add: msg_ok_def content_def body_def wire_head_def)
qed

lemma decode_partial:
  assumes "msg_ok m" "permutes_all iter" "fits m" "k < length (wire iter m)"
  shows "decode_msg_with_head (take k (wire iter m)) = Some (None, take k (wire iter m))"
proof (cases "k < MSG_HEAD_SIZE")
  case True
  then have "length (take k (wire iter m)) < MSG_HEAD_SIZE" by simp
  then show ?thesis by (simp only: decode_msg_with_head_def if_True)
next
  case False
  then have "take k (wire iter m) = head_bytes (wire_head m) @ take (k - MSG_HEAD_SIZE) (encode_opts (iter (opts m)) @ body m)"
    by (simp add: wire_def)
  then have "head_of (take k (wire iter m)) = wire_head m" by (simp add: head_of_head_bytes)
  then show ?thesis
    using wire_lengths[OF assms(1-3)] assms(4) by (simp add: decode_msg_with_head_def Let_def)
qed

section \<open>Streams of messages\<close>

lemma decode_consumes: "decode_msg_with_head i = Some (Some m, r) \<Longrightarrow> length r < length i"
  by (auto simp: decode_msg_with_head_def Let_def MSG_HEAD_SIZE_def split: if_splits)

text \<open>The loop of the \<^verbatim>\<open>OnRead\<close> handlers: messages are taken until none is complete.\<close>

function decode_all :: "byte list \<Rightarrow> (qtp_msg list \<times> byte list) option" where
  "decode_all i =
     (case decode_msg_with_head i of
        None \<Rightarrow> None
      | Some (None, r) \<Rightarrow> Some ([], r)
      | Some (Some m, r) \<Rightarrow> map_option (\<lambda>(ms, r'). (m # ms, r')) (decode_all r))"
  by pat_completeness auto
termination by (relation "measure length") (auto dest: decode_consumes)

declare decode_all.simps [simp del]

primrec feed :: "byte list list \<Rightarrow> qtp_msg list \<Rightarrow> byte list \<Rightarrow> (qtp_msg list \<times> byte list) option" where
  "feed [] ms buf = Some (ms, buf)"
| "feed (c # cs) ms buf =
     (case decode_all (buf @ c) of None \<Rightarrow> None | Some (new, r) \<Rightarrow> feed cs (ms @ new) r)"

text \<open>What a reader of a byte stream needs of an encoder and a decoder.\<close>

inductive reads :: "('b list \<Rightarrow> ('m option \<times> 'b list) option) \<Rightarrow> 'b list \<Rightarrow> 'm list \<Rightarrow> 'b list \<Rightarrow> bool"
  for dec where
  wait: "dec i = Some (None, r) \<Longrightarrow> reads dec i [] r"
| more: "dec i = Some (Some m, i') \<Longrightarrow> reads dec i' ms r \<Longrightarrow> reads dec i (m # ms) r"

locale framing =
  fixes ok :: "'m \<Rightarrow> bool" and enc :: "'m \<Rightarrow> 'b list" and dec :: "'b list \<Rightarrow> ('m option \<times> 'b list) option"
    and same :: "'m \<Rightarrow> 'm \<Rightarrow> bool"
  assumes whole: "ok m \<Longrightarrow> \<exists>m'. dec (enc m @ rest) = Some (Some m', rest) \<and> same m m'"
    and partial: "ok m \<Longrightarrow> k < length (enc m) \<Longrightarrow> dec (take k (enc m)) = Some (None, take k (enc m))"
    and empty: "dec [] = Some (None, [])"
begin

text \<open>The first \<open>k\<close> bytes of a stream give its first messages, and the rest waits.\<close>

lemma stream_prefix:
  "\<forall>m \<in> set ms. ok m \<Longrightarrow> k \<le> length (concat (map enc ms)) \<Longrightarrow>
   \<exists>done todo ms' r. ms = done @ todo \<and> reads dec (take k (concat (map enc ms))) ms' r \<and>
     list_all2 same done ms' \<and> take k (concat (map enc ms)) = concat (map enc done) @ r \<and>
     (todo = [] \<longrightarrow> r = [])"
proof (induction ms arbitrary: k)
  case Nil
  then show ?case using reads.wait[of dec "[]" "[]", OF empty] by auto
next
  case (Cons m ms)
  have m: "ok m" using Cons.prems(1) by simp
  show ?case
  proof (cases "k < length (enc m)")
    case True
    then have t: "take k (concat (map enc (m # ms))) = take k (enc m)" by simp
    then have "reads dec (take k (concat (map enc (m # ms)))) [] (take k (enc m))"
      using reads.wait[of dec, OF partial[OF m True]] unfolding t by blast
    then have "m # ms = [] @ (m # ms) \<and> reads dec (take k (concat (map enc (m # ms)))) [] (take k (enc m)) \<and>
        list_all2 same [] [] \<and> take k (concat (map enc (m # ms))) = concat (map enc []) @ take k (enc m) \<and>
        (m # ms = [] \<longrightarrow> take k (enc m) = [])"
      using t by simp
    then show ?thesis by blast
  next
    case False
    let ?k = "k - length (enc m)"
    have t: "take k (concat (map enc (m # ms))) = enc m @ take ?k (concat (map enc ms))" using False by simp
    have kl: "?k \<le> length (concat (map enc ms))" using Cons.prems(2) by simp
    have oks: "\<forall>m \<in> set ms. ok m" using Cons.prems(1) by simp
    obtain dn todo ms' r where ih: "ms = dn @ todo" "reads dec (take ?k (concat (map enc ms))) ms' r"
      "list_all2 same dn ms'" "take ?k (concat (map enc ms)) = concat (map enc dn) @ r" "todo = [] \<longrightarrow> r = []"
      using Cons.IH[OF oks kl] by blast
    obtain m' where m': "dec (enc m @ take ?k (concat (map enc ms))) = Some (Some m', take ?k (concat (map enc ms)))"
      "same m m'"
      using whole[OF m] by blast
    have "reads dec (take k (concat (map enc (m # ms)))) (m' # ms') r"
      unfolding t by (rule reads.more[OF m'(1) ih(2)])
    then show ?thesis
      using ih m'(2) t by (intro exI[of _ "m # dn"] exI[of _ todo] exI[of _ "m' # ms'"] exI[of _ r]) simp
  qed
qed

end

interpretation wire: framing "\<lambda>m. permutes_all iter \<and> msg_ok m \<and> fits m" "wire iter"
  decode_msg_with_head "\<lambda>m m'. content m' = content m \<and> msg_ok m'" for iter
proof (unfold_locales, goal_cases)
  case (1 m rest)
  then show ?case using decode_wire by blast
next
  case (2 m k)
  then show ?case using decode_partial by blast
next
  case 3
  then show ?case by (simp add: decode_msg_with_head_def MSG_HEAD_SIZE_def)
qed

lemma reads_decode_all: "reads decode_msg_with_head i ms r \<Longrightarrow> decode_all i = Some (ms, r)"
proof (induction rule: reads.induct)
  case (wait i r)
  then show ?case by (subst decode_all.simps) simp
next
  case (more i m i' ms r)
  then show ?case by (subst decode_all.simps) simp
qed

text \<open>Where the reader stops, no message is complete.\<close>

lemma decode_None_keeps: "decode_msg_with_head i = Some (None, r) \<Longrightarrow> r = i"
  by (auto simp: decode_msg_with_head_def Let_def split: if_splits)

lemma reads_stuck_rest: "reads decode_msg_with_head i ms r \<Longrightarrow> decode_msg_with_head r = Some (None, r)"
  by (induction rule: reads.induct) (auto dest: decode_None_keeps)

lemma feed_stream:
  assumes "permutes_all iter" "\<forall>m \<in> set ms. msg_ok m \<and> fits m" "buf @ concat cs = concat (map (wire iter) ms)"
  shows "\<exists>ms'. feed cs acc buf = Some (acc @ ms', if cs = [] then buf else []) \<and>
    (cs \<noteq> [] \<longrightarrow> list_all2 (\<lambda>m m'. content m' = content m) ms ms')"
  using assms(2,3)
proof (induction cs arbitrary: ms buf acc)
  case (Cons c cs)
  let ?st = "concat (map (wire iter) ms)" and ?k = "length (buf @ c)"
  have k: "take ?k ?st = buf @ c" "drop ?k ?st = concat cs" "?k \<le> length ?st"
    using Cons.prems(2) by (simp_all flip: Cons.prems(2))
  obtain dn todo new r where st: "ms = dn @ todo" "reads decode_msg_with_head (buf @ c) new r"
    "list_all2 (\<lambda>m m'. content m' = content m \<and> msg_ok m') dn new"
    "buf @ c = concat (map (wire iter) dn) @ r" "todo = [] \<longrightarrow> r = []"
    using wire.stream_prefix[of ms iter ?k, unfolded k(1)] Cons.prems(1) assms(1) k(3) by blast
  have dec: "decode_all (buf @ c) = Some (new, r)" by (rule reads_decode_all[OF st(2)])
  have same: "list_all2 (\<lambda>m m'. content m' = content m) dn new" by (rule list_all2_mono[OF st(3)]) simp
  have "concat (map (wire iter) dn) @ r @ concat cs = concat (map (wire iter) dn) @ concat (map (wire iter) todo)"
    using Cons.prems(2) st(1) append_assoc[of buf c "concat cs"] unfolding st(4) by simp
  then have rest: "r @ concat cs = concat (map (wire iter) todo)" by simp
  show ?case
  proof (cases "cs = []")
    case True
    have "todo = []"
    proof (rule ccontr)
      assume "todo \<noteq> []"
      then obtain t ts where t: "todo = t # ts" by (cases todo) auto
      have ok: "permutes_all iter \<and> msg_ok t \<and> fits t" using Cons.prems(1) assms(1) st(1) t by simp
      show False
        using reads_stuck_rest[OF st(2)] rest True t wire.whole[OF ok, of "concat (map (wire iter) ts)"] by auto
    qed
    then show ?thesis using True dec same st(1,5) by simp
  next
    case False
    then obtain ms' where "feed cs (acc @ new) r = Some ((acc @ new) @ ms', [])"
      "list_all2 (\<lambda>m m'. content m' = content m) todo ms'"
      using Cons.IH[of todo r "acc @ new"] rest Cons.prems(1) st(1) by auto
    then show ?thesis using dec same st(1) by (auto intro: list_all2_appendI)
  qed
qed simp

section \<open>The operations keep messages well-formed\<close>

lemma parse_loop_ok: "parse_loop buf n off os = Some os' \<Longrightarrow> opts_ok os \<Longrightarrow> opts_ok os'"
proof (induction buf n off os rule: parse_loop.induct)
  case (1 buf n off os)
  show ?case
  proof (cases "off < n \<and> \<not> length buf < off + 4")
    case True
    then obtain r where r: "OptionRequest (word_of_nat (field off 2 buf)) (word_of_nat (field (off + 2) 2 buf))
        (drop (off + 4) buf) = Some r"
      "parse_loop buf n (off + 4 + unat (option_size r)) (AList.update (uint (option_id r)) r os) = Some os'"
      using 1(2) by (subst (asm) parse_loop.simps) (auto split: option.splits)
    show ?thesis
      using 1(1)[OF _ _ r(1) r(2)] True 1(3) opts_ok_update[OF _ OptionRequest_ok[OF r(1)]] by simp
  next
    case False
    then show ?thesis using 1(2,3) by (subst (asm) parse_loop.simps) (auto split: if_splits)
  qed
qed

lemma parse_options_ok: "parse_options m = Some m' \<Longrightarrow> msg_ok m \<Longrightarrow> msg_ok m'"
  by (auto simp: parse_options_def msg_ok_def dest: parse_loop_ok)

text \<open>The public calls that change a message.\<close>

inductive msg_call :: "(options \<Rightarrow> options) \<Rightarrow> qtp_msg \<Rightarrow> qtp_msg \<Rightarrow> bool" for iter where
  head: "msg_call iter m (set_head h m)"
| msgtype: "msg_call iter m (set_msgtype t m)"
| msgtype_topic: "msg_call iter m (set_msgtype_topic t p m)"
| topic: "msg_call iter m (set_topic p m)"
| version: "msg_call iter m (set_version v m)"
| reset_body: "msg_call iter m (reset_body m)"
| reset_option: "msg_call iter m (reset_option m)"
| reset: "msg_call iter m (reset m)"
| remove: "remove_option iter i m = (b, m') \<Longrightarrow> msg_call iter m m'"
| data: "set_data d m = Some (b, m') \<Longrightarrow> msg_call iter m m'"
| options: "set_options d m = Some (b, m') \<Longrightarrow> msg_call iter m m'"
| add: "option_ok (uint (option_id r)) r \<Longrightarrow> add_option iter r m = Some m' \<Longrightarrow> msg_call iter m m'"
| encode: "encode iter m = Some m' \<Longrightarrow> msg_call iter m m'"
| send: "send_data iter m = Some (bs, m') \<Longrightarrow> msg_call iter m m'"
| assign: "assign m src = Some m' \<Longrightarrow> msg_call iter m m'"

inductive_cases msg_callE: "msg_call iter m m'"

lemma msg_ok_head [simp]: "msg_ok (m\<lparr>msg_head := h\<rparr>) = msg_ok m"
  by (simp add: msg_ok_def)

lemma set_fields_ok:
  assumes "msg_ok m"
  shows "msg_ok (set_head h m)" "msg_ok (set_msgtype t m)" "msg_ok (set_msgtype_topic t p m)"
    "msg_ok (set_topic p m)" "msg_ok (set_version v m)"
  using assms
  by (simp_all add: set_head_def set_msgtype_def set_msgtype_topic_def set_topic_def set_version_def)

lemma reset_ok:
  assumes "msg_ok m" shows "msg_ok (reset_body m)" "msg_ok (reset_option m)" "msg_ok (reset m)"
  using assms by (simp_all add: reset_def reset_body_def reset_option_def msg_ok_def buf_ok_def opts_ok_def)

lemma remove_option_ok: "msg_ok m \<Longrightarrow> remove_option iter i m = (b, m') \<Longrightarrow> msg_ok m'"
  by (auto simp: remove_option_def msg_ok_def opts_ok_delete split: option.splits)

lemma encode_ok: "msg_ok m \<Longrightarrow> permutes_all iter \<Longrightarrow> encode iter m = Some m' \<Longrightarrow> msg_ok m'"
  using encode_spec[of m iter] by (auto simp: msg_ok_def)

lemma set_data_ok:
  assumes "msg_ok m" "set_data d m = Some (b, m')" shows "msg_ok m'"
proof (cases d)
  case None
  then show ?thesis using assms reset_ok(1)[OF assms(1)] by (auto simp: set_data_def)
next
  case (Some bs)
  then obtain buf where "memcpy (grow (data_len m) (length bs) (data_buf m)) bs = Some buf"
    "m' = m\<lparr>msg_head := (msg_head m)\<lparr>datalen := word_of_nat (length bs)\<rparr>, data_len := length bs, data_buf := buf\<rparr>"
    using assms(2) by (auto simp: set_data_def split: option.splits)
  then show ?thesis
    using grow_memcpy[of "data_len m" "data_buf m" bs "length bs"] assms(1) by (simp add: msg_ok_def)
qed

lemma set_options_ok:
  assumes "msg_ok m" "set_options d m = Some (b, m')" shows "msg_ok m'"
proof (cases d)
  case None
  then show ?thesis using assms by (simp add: set_options_def)
next
  case (Some bs)
  then obtain buf where buf: "memcpy (grow (opt_len m) (length bs) (opt_buf m)) bs = Some buf"
    "parse_options (m\<lparr>opt_len := length bs, opt_buf := buf\<rparr>) = Some m'"
    using assms(2) by (auto simp: set_options_def split: option.splits)
  have "msg_ok (m\<lparr>opt_len := length bs, opt_buf := buf\<rparr>)"
    using grow_memcpy[of "opt_len m" "opt_buf m" bs "length bs"] assms(1) buf(1) by (simp add: msg_ok_def)
  then show ?thesis using parse_options_ok buf(2) by blast
qed

lemma add_option_ok:
  assumes "msg_ok m" "permutes_all iter" "option_ok (uint (option_id r)) r" "add_option iter r m = Some m'"
  shows "msg_ok m'"
proof (rule encode_ok)
  show "msg_ok (m\<lparr>opts := AList.update (uint (option_id r)) r (opts m)\<rparr>)"
    using assms(1) opts_ok_update[OF _ assms(3)] by (simp add: msg_ok_def)
qed (use assms(2,4) in \<open>simp_all add: add_option_def\<close>)

lemma assign_ok:
  assumes "msg_ok m" "assign m src = Some m'" shows "msg_ok m'"
proof -
  obtain b1 m1 b2 m2 where
    "set_options (map_option (take (opt_len src)) (opt_buf src)) (set_head (msg_head src) m) = Some (b1, m1)"
    "set_data (map_option (take (data_len src)) (data_buf src)) m1 = Some (b2, m2)"
    "parse_options m2 = Some m'"
    using assms(2) by (auto simp: assign_def split: option.splits)
  then show ?thesis using set_fields_ok(1)[OF assms(1)] set_options_ok set_data_ok parse_options_ok by blast
qed

section \<open>The properties of messages\<close>

text \<open>
  C5. A byte stream of messages, cut into chunks at any places, is read back whole by the
  reading loop: the receiver gets the same messages in order, with the same head fields,
  bodies and options, in whatever order the sender's table is iterated, and no byte is left.
\<close>

theorem messages_survive_chunking:
  assumes "permutes_all iter" "\<forall>m \<in> set ms. msg_ok m \<and> fits m" "cs \<noteq> []"
    and "\<forall>m \<in> set ms. send_data iter m = Some (out m, after m)"
    and "concat cs = concat (map out ms)"
  shows "\<exists>ms'. feed cs [] [] = Some (ms', []) \<and> list_all2 (\<lambda>m m'. content m' = content m) ms ms'"
proof -
  have "out m = wire iter m" if "m \<in> set ms" for m
    using send_data_spec[of m iter] assms(1,2,4) that by fastforce
  then have "map out ms = map (wire iter) ms" by simp
  then have "concat (map out ms) = concat (map (wire iter) ms)" by (rule arg_cong)
  then have "[] @ concat cs = concat (map (wire iter) ms)" using assms(5) by (simp only: append_Nil)
  from feed_stream[OF assms(1,2) this, of "[]"] show ?thesis using assms(3) by auto
qed

definition beat_msg :: qtp_msg where
  "beat_msg = set_msgtype 101 new_msg"

lemma beat_send: "send_data (\<lambda>os. os) beat_msg = Some (fst (the (send_data (\<lambda>os. os) beat_msg)), snd (the (send_data (\<lambda>os. os) beat_msg)))"
  by (simp add: send_data_def encode_def beat_msg_def new_msg_def set_msgtype_def opts_size_def encode_opts_def
      memcpy_def grow_def buf_bytes_def Let_def)

theorem messages_survive_chunking_witness:
  "\<exists>ms'. feed (map (\<lambda>b. [b]) (fst (the (send_data (\<lambda>os. os) beat_msg)))) [] [] = Some (ms', []) \<and>
     list_all2 (\<lambda>m m'. content m' = content m) [beat_msg] ms'"
  by (rule messages_survive_chunking[where iter = "\<lambda>os. os"
        and out = "\<lambda>m. fst (the (send_data (\<lambda>os. os) m))" and after = "\<lambda>m. snd (the (send_data (\<lambda>os. os) m))"])
    (use beat_send in \<open>simp_all add: permutes_all_def beat_msg_def new_msg_def set_msgtype_def msg_ok_def
      buf_ok_def opts_ok_def fits_def opts_size_def send_data_def encode_def encode_opts_def memcpy_def
      grow_def buf_bytes_def Let_def head_bytes_def\<close>)



section \<open>Options by id\<close>

lemma encode_opts_same: "encode iter m = Some m' \<Longrightarrow> opts m' = opts m"
  by (auto simp: encode_def Let_def split: option.splits)

lemma add_option_i64_spec:
  assumes "msg_ok m" "permutes_all iter"
  shows "\<exists>m'. add_option_i64 iter i v m = Some m' \<and> msg_ok m' \<and>
    map_of (opts m') = (map_of (opts m))(i mod 2 ^ 16 \<mapsto>
      \<lparr>option_id = word_of_int i, option_size = 8, option_buf = le 8 (unat v)\<rparr>)"
proof -
  let ?r = "\<lparr>option_id = word_of_int i, option_size = 8, option_buf = le 8 (unat v)\<rparr> :: option_request"
  let ?m1 = "m\<lparr>opts := AList.update (uint (word_of_int i :: u16)) ?r (opts m)\<rparr>"
  have r: "OptionRequest (word_of_int i) 8 (le 8 (unat v)) = Some ?r" by (simp add: OptionRequest_def)
  have ok: "option_ok (uint (word_of_int i :: u16)) ?r" by (simp add: option_ok_def)
  have k: "uint (word_of_int i :: u16) = i mod 2 ^ 16" by (simp add: uint_word_of_int)
  have "msg_ok ?m1" using assms(1) opts_ok_update[OF _ ok] by (simp add: msg_ok_def)
  then obtain m' where m': "encode iter ?m1 = Some m'" using encode_spec[OF _ assms(2)] by blast
  then have "msg_ok m'" using \<open>msg_ok ?m1\<close> assms(2) encode_ok by blast
  then show ?thesis
    using m' encode_opts_same[OF m'] unfolding add_option_i64_def r add_option_def
    by (simp add: k update_conv')
qed

text \<open>
  An option added under an id of 16 bits is found again under that id with the bytes of its
  value, and the other options are untouched.
\<close>

theorem add_then_get_option:
  assumes "msg_ok m" "permutes_all iter" "0 \<le> i" "i < 2 ^ 16"
  shows "\<exists>m'. add_option_i64 iter i v m = Some m' \<and>
    get_option j m' = (if j = i then Some \<lparr>option_id = word_of_int i, option_size = 8, option_buf = le 8 (unat v)\<rparr>
                       else get_option j m)"
  using add_option_i64_spec[OF assms(1,2), of i v] assms(3,4) by (auto simp: get_option_def)

theorem add_then_get_option_witness:
  "\<exists>m'. add_option_i64 (\<lambda>os. os) kOptionId_SessionId 7 new_msg = Some m' \<and>
    get_option kOptionId_SessionId m' =
      (if kOptionId_SessionId = kOptionId_SessionId
       then Some \<lparr>option_id = word_of_int kOptionId_SessionId, option_size = 8, option_buf = le 8 (unat (7 :: u64))\<rparr>
       else get_option kOptionId_SessionId new_msg)"
  by (rule add_then_get_option)
    (simp_all add: permutes_all_def msg_ok_def new_msg_def buf_ok_def opts_ok_def kOptionId_defs)

text \<open>
  The ids \<^verbatim>\<open>kOptionId_UserToken\<close> and \<^verbatim>\<open>kOptionId_KLinePeriodType\<close> do not fit the 16 bits
  of an option id: an option added to a new message under one of them is not found there.
\<close>

theorem wide_option_ids_lost:
  "i = kOptionId_UserToken \<or> i = kOptionId_KLinePeriodType \<Longrightarrow> permutes_all iter \<Longrightarrow>
   \<exists>m'. add_option_i64 iter i v new_msg = Some m' \<and> get_option i m' = None"
  using add_option_i64_spec[of new_msg iter i v]
  by (auto simp: get_option_def new_msg_def msg_ok_def buf_ok_def opts_ok_def kOptionId_defs)

theorem wide_option_ids_lost_witness:
  "\<exists>m'. add_option_i64 (\<lambda>os. os) kOptionId_UserToken 5 new_msg = Some m' \<and> get_option kOptionId_UserToken m' = None"
  by (rule wide_option_ids_lost) (simp_all add: permutes_all_def)

text \<open>
  The size of the options is written into 16 bits unchecked: a message whose options take
  exactly 65536 bytes is sent with the size 0, the receiver gets a message without options,
  and 65536 bytes stay in its buffer where it expects the next head.
\<close>

theorem options_overflow_head:
  assumes "msg_ok m" "permutes_all iter" "opts_size (opts m) = 65536" "data_len m < 2 ^ 32"
  shows "\<exists>bs m1 m2 rest. send_data iter m = Some (bs, m1) \<and>
    decode_msg_with_head bs = Some (Some m2, rest) \<and> opts m2 = [] \<and> length rest = 65536"
proof -
  let ?h = "wire_head m" and ?tl = "encode_opts (iter (opts m)) @ body m"
  obtain m1 where m1: "send_data iter m = Some (wire iter m, m1)" using send_data_spec[OF assms(1,2)] by blast
  note p = permutesD[OF assms(2), of "opts m"]
  have l: "length (encode_opts (iter (opts m))) = 65536"
    using length_encode_opts[of "iter (opts m)"] assms(1,3) p by (simp add: msg_ok_def opts_ok_def)
  have d: "length (body m) = data_len m"
    using assms(1) by (auto simp: msg_ok_def buf_ok_def body_def buf_take_def split: option.splits)
  have h: "optslen ?h = 0" "unat (datalen ?h) = data_len m"
    using assms(3,4) by (simp_all add: wire_head_def unat_of_nat take_bit_nat_eq_self)
  have z: "datalen ?h = 0 \<Longrightarrow> data_len m = 0" using h(2) by simp
  have hd: "head_of (wire iter m) = ?h" by (simp add: wire_def head_of_head_bytes)
  have dr: "drop MSG_HEAD_SIZE (wire iter m) = ?tl"
    using drop_append[of MSG_HEAD_SIZE "head_bytes ?h"] by (simp add: wire_def)
  have lw: "length (wire iter m) = MSG_HEAD_SIZE + (65536 + data_len m)" by (simp add: wire_def l d)
  have mp: "\<exists>m2. msg_of_parts ?h b None = Some m2 \<and> opts m2 = []" for b
    by (simp add: msg_of_parts_def parse_options_def h new_msg_def parse_loop.simps)
  then obtain m2 where "msg_of_parts ?h (if datalen ?h \<noteq> 0 then Some (take (data_len m) ?tl) else None) None = Some m2"
    "opts m2 = []"
    by blast
  then have "decode_msg_with_head (wire iter m) = Some (Some m2, drop (data_len m) ?tl) \<and> opts m2 = []"
    using lw z by (cases "datalen ?h = 0")
      (simp_all add: decode_msg_with_head_def Let_def hd dr h del: take_append drop_append)
  moreover have "length (drop (data_len m) ?tl) = 65536" using l d by simp
  ultimately show ?thesis using m1 by blast
qed

definition big_msg :: qtp_msg where
  "big_msg = new_msg\<lparr>opts := [(1, \<lparr>option_id = 1, option_size = 65532, option_buf = replicate 65532 0\<rparr>)]\<rparr>"

theorem options_overflow_head_witness:
  "\<exists>bs m1 m2 rest. send_data (\<lambda>os. os) big_msg = Some (bs, m1) \<and>
    decode_msg_with_head bs = Some (Some m2, rest) \<and> opts m2 = [] \<and> length rest = 65536"
  by (rule options_overflow_head)
    (simp_all add: big_msg_def new_msg_def msg_ok_def buf_ok_def opts_ok_def option_ok_def permutes_all_def
      opts_size_def)

end
