(* ===== verification/Tcp.thy ===== *)
theory Tcp
  imports QtpMsg
begin

text \<open>
  The TCP client and server of \<^verbatim>\<open>src/tcp/src/event_client.cpp\<close>, \<^verbatim>\<open>event_server.cpp\<close> and
  \<^verbatim>\<open>event_wrapper.cpp\<close>: the state \<^verbatim>\<open>EventClientDataImpl\<close> with \<open>Start\<close>, \<open>Connect\<close>, \<open>Close\<close>,
  \<open>ReConnect\<close>, \<open>OnEvent\<close>, \<open>OnTimeout\<close> and \<open>Stop\<close>, the server's \<open>Start\<close>, \<open>ListenerCallback\<close>
  and \<open>Close\<close>, and the set-up of a TLS session on both sides.

  libevent, OpenSSL, the resolver and etcd are the record \<open>net\<close> of what they answer during one
  call. A \<^verbatim>\<open>bufferevent\<close> is a number; \<^verbatim>\<open>BEV_OPT_CLOSE_ON_FREE\<close> frees the TLS session together
  with the bufferevent that uses it, and the field \<open>ssl_live\<close> records whether the session in
  \<^verbatim>\<open>ssl_\<close> still exists: using it when it does not is \<open>None\<close>.
\<close>

section \<open>Parameters and environment\<close>

record connection_params =
  address :: string
  port :: string
  name :: string
  hostkey :: string
  etcd_address :: string
  etcd_port :: string
  etcd_endpoints :: string
  is_ssl :: bool
  cert_verify :: bool
  cert_path :: string

record net =
  getaddrinfo :: "string \<Rightarrow> string \<Rightarrow> int \<times> bool"
  socket_new :: bool
  socket_connect :: "string \<Rightarrow> string \<Rightarrow> bool"
  ctx_new :: bool
  load_ca :: "string \<Rightarrow> bool"
  use_cert :: "string \<Rightarrow> bool"
  use_key :: "string \<Rightarrow> bool"
  check_key :: bool
  ssl_new :: bool
  full_endpoints :: "string \<Rightarrow> string option"
  master_host :: "string \<Rightarrow> string \<Rightarrow> (string \<times> string) list option"
  set_key :: "string \<Rightarrow> string \<Rightarrow> string \<Rightarrow> bool"
  bind_ok :: bool
  event_new_ok :: bool

text \<open>The events of a bufferevent.\<close>

datatype bev_event = BEV_READING | BEV_WRITING | BEV_EOF | BEV_ERROR | BEV_TIMEOUT | BEV_CONNECTED

definition broken :: "bev_event set \<Rightarrow> bool" where
  "broken events \<longleftrightarrow> BEV_EOF \<in> events \<or> BEV_ERROR \<in> events \<or> BEV_READING \<in> events \<or> BEV_WRITING \<in> events"

section \<open>The client\<close>

record client =
  cparams :: connection_params
  bev :: "nat option"
  bev_ssl :: bool
  next_bev :: nat
  is_connected :: bool
  is_started :: bool
  ssl :: bool
  ssl_live :: bool
  etcd_last_hosts :: "string \<times> string"
  connection_info :: string
  timers_armed :: nat

definition no_params :: connection_params where
  "no_params = \<lparr>address = '''', port = '''', name = '''', hostkey = '''', etcd_address = '''', etcd_port = '''',
     etcd_endpoints = '''', is_ssl = False, cert_verify = False, cert_path = ''server/''\<rparr>"

definition new_client :: client where
  "new_client = \<lparr>cparams = no_params, bev = None, bev_ssl = False, next_bev = 0, is_connected = False,
     is_started = False, ssl = False, ssl_live = False, etcd_last_hosts = ([], []), connection_info = '''',
     timers_armed = 0\<rparr>"

definition bufferevent_free :: "client \<Rightarrow> client" where
  "bufferevent_free c = c\<lparr>bev := None, bev_ssl := False, ssl_live := (ssl_live c \<and> \<not> bev_ssl c)\<rparr>"

definition Close :: "client \<Rightarrow> client" where
  "Close c = (if bev c \<noteq> None then bufferevent_free c else c)\<lparr>is_connected := False\<rparr>"

definition Send :: "byte list \<Rightarrow> bool \<Rightarrow> client \<Rightarrow> bool" where
  "Send d written c = (bev c \<noteq> None \<and> written)"

text \<open>\<open>True\<close> is a session, \<open>False\<close> the null result.\<close>

definition client_CreateSSL :: "net \<Rightarrow> client \<Rightarrow> bool" where
  "client_CreateSSL n c =
     (if ssl c then True
      else if \<not> ctx_new n then False
      else if cert_verify (cparams c) \<and> \<not> load_ca n (cert_path (cparams c) @ ''ca.crt'') then False
      else if cert_verify (cparams c) \<and> \<not> use_cert n (cert_path (cparams c) @ ''client.crt'') then False
      else if cert_verify (cparams c) \<and> \<not> use_key n (cert_path (cparams c) @ ''client.key'') then False
      else if cert_verify (cparams c) \<and> \<not> check_key n then False
      else ssl_new n)"

definition connect_to :: "net \<Rightarrow> string \<Rightarrow> string \<Rightarrow> client \<Rightarrow> (int \<times> client) option" where
  "connect_to n ip prt c =
     (let (ret, found) = getaddrinfo n ip prt
      in if ret \<noteq> 0 \<or> \<not> found then Some (ret, c)
         else if is_ssl (cparams c) \<and> \<not> ssl c \<and> \<not> client_CreateSSL n c then Some (-1, c)
         else
           (let c1 = (if is_ssl (cparams c) \<and> \<not> ssl c then c\<lparr>ssl := True, ssl_live := True\<rparr> else c)
            in if ssl c1 \<and> \<not> ssl_live c1 then None
               else if \<not> socket_new n then Some (-1, c1\<lparr>bev := None\<rparr>)
               else
                 (let c2 = c1\<lparr>bev := Some (next_bev c1), next_bev := next_bev c1 + 1, bev_ssl := ssl c1\<rparr>
                  in if \<not> socket_connect n ip prt then Some (-1, bufferevent_free c2)
                     else Some (0, c2))))"

fun connect_hosts :: "net \<Rightarrow> bool \<Rightarrow> (string \<times> string) list \<Rightarrow> client \<Rightarrow> (bool \<times> client) option" where
  "connect_hosts n many [] c = Some (False, c)"
| "connect_hosts n many (p # ps) c =
     (if many \<and> etcd_last_hosts c = p then connect_hosts n many ps c
      else case connect_to n (fst p) (snd p) c of
             None \<Rightarrow> None
           | Some (ret, c1) \<Rightarrow>
               (if ret = 0
                then Some (True, c1\<lparr>etcd_last_hosts := p,
                                    connection_info := ''etcd_'' @ fst p @ '':'' @ snd p\<rparr>)
                else connect_hosts n many ps c1))"

text \<open>The two ends of \<open>Connect\<close>: asking etcd for all its endpoints, and the address of the parameters.\<close>

definition etcd_params :: "net \<Rightarrow> client \<Rightarrow> client" where
  "etcd_params n c =
     (case full_endpoints n (etcd_endpoints (cparams c)) of
        None \<Rightarrow> c
      | Some full \<Rightarrow> c\<lparr>cparams := (cparams c)\<lparr>etcd_endpoints := full\<rparr>\<rparr>)"

definition connect_default :: "net \<Rightarrow> client \<Rightarrow> (int \<times> client) option" where
  "connect_default n c =
     connect_to n (address (cparams c)) (port (cparams c))
       (c\<lparr>etcd_last_hosts := ([], []),
          connection_info := ''default_'' @ address (cparams c) @ '':'' @ port (cparams c)\<rparr>)"

definition Connect :: "net \<Rightarrow> client \<Rightarrow> (int \<times> client) option" where
  "Connect n c0 =
     (let c = Close c0
      in if etcd_endpoints (cparams c) \<noteq> [] \<and> hostkey (cparams c) \<noteq> []
         then
           (let c1 = etcd_params n c
            in case master_host n (etcd_endpoints (cparams c1)) (hostkey (cparams c1)) of
                 None \<Rightarrow> connect_default n c1
               | Some hosts \<Rightarrow>
                   (case connect_hosts n (length hosts > 1) hosts c1 of
                      None \<Rightarrow> None
                    | Some (True, c2) \<Rightarrow> Some (0, c2)
                    | Some (False, c2) \<Rightarrow> connect_default n c2))
         else connect_default n c)"

text \<open>\<^verbatim>\<open>Start\<close> asserts that it is called once; its thread connects and then runs the loop.\<close>

definition client_Start :: "net \<Rightarrow> connection_params \<Rightarrow> client \<Rightarrow> (int \<times> client) option" where
  "client_Start n p c =
     (if is_started c then None
      else map_option (\<lambda>(_, c1). (0, c1)) (Connect n (c\<lparr>is_started := True, cparams := p\<rparr>)))"

definition ReConnect :: "net \<Rightarrow> client \<Rightarrow> int \<times> client" where
  "ReConnect n c = (if \<not> event_new_ok n then (-1, c) else (0, c\<lparr>timers_armed := timers_armed c + 1\<rparr>))"

definition OnDisconnected :: "net \<Rightarrow> client \<Rightarrow> client" where
  "OnDisconnected n c = (if is_started c then snd (ReConnect n c) else c)"

definition OnEvent :: "net \<Rightarrow> bev_event set \<Rightarrow> client \<Rightarrow> client" where
  "OnEvent n events c =
     (if broken events then OnDisconnected n (c\<lparr>is_connected := False\<rparr>)
      else if BEV_CONNECTED \<in> events then c\<lparr>is_connected := True\<rparr> else c)"

text \<open>The timer of \<^verbatim>\<open>ReConnect\<close> fires once.\<close>

definition OnTimeout :: "net \<Rightarrow> client \<Rightarrow> client option" where
  "OnTimeout n c =
     (let c1 = c\<lparr>timers_armed := timers_armed c - 1\<rparr>
      in if is_connected c1 then Some c1 else map_option snd (Connect n c1))"

definition Stop :: "client \<Rightarrow> client" where
  "Stop c = Close (c\<lparr>is_started := False\<rparr>)"

section \<open>The server\<close>

record server =
  sparams :: connection_params
  listener :: bool
  server_impl :: bool

definition new_server :: server where
  "new_server = \<lparr>sparams = no_params, listener = False, server_impl = True\<rparr>"

datatype start_result = Returned int | Exited

definition server_CreateSSL :: "net \<Rightarrow> server \<Rightarrow> bool" where
  "server_CreateSSL n s =
     (if \<not> ctx_new n then False
      else if \<not> load_ca n (cert_path (sparams s) @ ''ca.crt'') then False
      else if \<not> use_cert n (cert_path (sparams s) @ ''server.crt'') then False
      else if \<not> use_key n (cert_path (sparams s) @ ''server.key'') then False
      else if \<not> check_key n then False
      else ssl_new n)"

text \<open>The result, the server, and the endpoints, key and value handed to \<^verbatim>\<open>set_key_to_etcd\<close>, if any.\<close>

definition server_Start ::
  "net \<Rightarrow> connection_params \<Rightarrow> server \<Rightarrow> start_result \<times> server \<times> (string \<times> string \<times> string) option" where
  "server_Start n p s =
     (if address p = [] then (Returned 0, s, None)
      else
        (let s1 = s\<lparr>sparams := p\<rparr>
         in if listener s1 then (Returned (-1), s1, None)
            else
              (let etcd = (etcd_endpoints p \<noteq> [] \<and> hostkey p \<noteq> []);
                   s2 = (if etcd
                         then (case full_endpoints n (etcd_endpoints p) of
                                 None \<Rightarrow> s1
                               | Some full \<Rightarrow> s1\<lparr>sparams := p\<lparr>etcd_endpoints := full\<rparr>\<rparr>)
                         else s1);
                   q = sparams s2;
                   reg = (if etcd then Some (etcd_endpoints q, hostkey q, etcd_address q @ '':'' @ etcd_port q)
                          else None);
                   (ret, found) = getaddrinfo n (address q) (port q)
               in if ret \<noteq> 0 \<or> \<not> found then (Returned (-1), s2, reg)
                  else if \<not> bind_ok n then (Exited, s2, reg)
                  else (Returned 0, s2\<lparr>listener := True\<rparr>, reg))))"

text \<open>
  \<open>ListenerCallback\<close>: whether the accepted connection gets a bufferevent and is handed to
  \<^verbatim>\<open>OnAccept\<close>. A null TLS session passed to libevent is \<open>None\<close>.
\<close>

definition ListenerCallback :: "net \<Rightarrow> server \<Rightarrow> bool option" where
  "ListenerCallback n s =
     (if is_ssl (sparams s) then (if server_CreateSSL n s then Some (socket_new n) else None)
      else Some (socket_new n))"

text \<open>
  \<open>server_Close\<close> of a connection: the calls it makes, in order. Destroying the server frees the
  listener and the state object, both only when the server listens.
\<close>

datatype bev_call = Bev_disable | Tls_set_shutdown | Tls_shutdown | Bev_free

definition server_Close :: "bool \<Rightarrow> server \<Rightarrow> bev_call list \<times> int" where
  "server_Close has_ssl s =
     ([Bev_disable] @ (if is_ssl (sparams s) then (if has_ssl then [Tls_set_shutdown, Tls_shutdown] else []) else []) @
      [Bev_free], 0)"

definition server_destroy :: "server \<Rightarrow> server" where
  "server_destroy s = (if server_impl s \<and> listener s then s\<lparr>listener := False, server_impl := False\<rparr> else s)"

lemma server_destroy_leaks: "server_impl s \<Longrightarrow> server_impl (server_destroy s) = (\<not> listener s)"
  by (simp add: server_destroy_def)

section \<open>Connecting\<close>

text \<open>What the resolver promises: an answer without an error has an address.\<close>

definition resolver_ok :: "net \<Rightarrow> bool" where
  "resolver_ok n \<longleftrightarrow> (\<forall>ip prt. fst (getaddrinfo n ip prt) = 0 \<longrightarrow> snd (getaddrinfo n ip prt))"

lemma resolver_okD: "resolver_ok n \<Longrightarrow> getaddrinfo n ip prt \<noteq> (0, False)"
  unfolding resolver_ok_def by (metis fst_conv snd_conv)

text \<open>A client without TLS: whether an address can be connected to does not depend on the state.\<close>

definition reachable :: "net \<Rightarrow> string \<times> string \<Rightarrow> bool" where
  "reachable n p \<longleftrightarrow> getaddrinfo n (fst p) (snd p) = (0, True) \<and> socket_new n \<and> socket_connect n (fst p) (snd p)"

definition plain :: "client \<Rightarrow> bool" where
  "plain c \<longleftrightarrow> \<not> is_ssl (cparams c) \<and> \<not> ssl c \<and> \<not> bev_ssl c"

text \<open>The fields that a failed attempt to connect leaves alone.\<close>

definition same_client :: "client \<Rightarrow> client \<Rightarrow> bool" where
  "same_client c c' \<longleftrightarrow> cparams c' = cparams c \<and> etcd_last_hosts c' = etcd_last_hosts c \<and>
     connection_info c' = connection_info c \<and> is_connected c' = is_connected c \<and> is_started c' = is_started c \<and>
     timers_armed c' = timers_armed c"

lemma same_client_refl [simp]: "same_client c c"
  by (simp add: same_client_def)

lemma same_client_trans: "same_client c d \<Longrightarrow> same_client d e \<Longrightarrow> same_client c e"
  by (simp add: same_client_def)

lemma connect_to_reachable:
  assumes "plain c" "reachable n (ip, prt)"
  shows "\<exists>c'. connect_to n ip prt c = Some (0, c') \<and> plain c' \<and> same_client c c' \<and> bev c' = Some (next_bev c)"
  using assms by (simp add: connect_to_def plain_def reachable_def same_client_def Let_def)

lemma connect_to_unreachable:
  assumes "plain c" "\<not> reachable n (ip, prt)" "resolver_ok n" "bev c = None"
  shows "\<exists>r c'. connect_to n ip prt c = Some (r, c') \<and> r \<noteq> 0 \<and> plain c' \<and> same_client c c' \<and> bev c' = None"
  using assms resolver_okD[OF assms(3), of ip prt]
  by (auto simp: connect_to_def plain_def reachable_def same_client_def Let_def bufferevent_free_def split: prod.splits)

text \<open>The host taken: the first in the list that is reachable and, when there are several, is not the last one used.\<close>

definition candidate :: "net \<Rightarrow> string \<times> string \<Rightarrow> bool \<Rightarrow> (string \<times> string) list \<Rightarrow> (string \<times> string) option" where
  "candidate n last_host many hosts = find (\<lambda>p. \<not> (many \<and> last_host = p) \<and> reachable n p) hosts"

lemma connect_hosts_candidate:
  assumes "plain c" "resolver_ok n" "bev c = None"
  shows "\<exists>c'. connect_hosts n many ps c = Some (candidate n (etcd_last_hosts c) many ps \<noteq> None, c') \<and> plain c' \<and>
    cparams c' = cparams c \<and> is_connected c' = is_connected c \<and> is_started c' = is_started c \<and>
    timers_armed c' = timers_armed c \<and>
    (case candidate n (etcd_last_hosts c) many ps of
       Some p \<Rightarrow> bev c' \<noteq> None \<and> etcd_last_hosts c' = p \<and> connection_info c' = ''etcd_'' @ fst p @ '':'' @ snd p
     | None \<Rightarrow> bev c' = None)"
  using assms
proof (induction ps arbitrary: c)
  case Nil
  then show ?case by (simp add: candidate_def)
next
  case (Cons p ps)
  let ?skip = "many \<and> etcd_last_hosts c = p"
  consider (skip) "?skip" | (ok) "\<not> ?skip" "reachable n p" | (bad) "\<not> ?skip" "\<not> reachable n p" by blast
  then show ?case
  proof cases
    case skip
    then show ?thesis using Cons.IH[OF Cons.prems] by (simp add: candidate_def)
  next
    case ok
    then show ?thesis
      using connect_to_reachable[OF Cons.prems(1), of n "fst p" "snd p"]
      by (auto simp: candidate_def plain_def same_client_def)
  next
    case bad
    then obtain r c1 where c1: "connect_to n (fst p) (snd p) c = Some (r, c1)" "r \<noteq> 0" "plain c1"
      "same_client c c1" "bev c1 = None"
      using connect_to_unreachable[OF Cons.prems(1) _ Cons.prems(2,3), of "fst p" "snd p"] by auto
    then show ?thesis
      using Cons.IH[OF c1(3) Cons.prems(2) c1(5)] bad
      by (auto simp: candidate_def same_client_def split: if_splits)
  qed
qed

lemma Close_plain: "plain c \<Longrightarrow> plain (Close c)" and bev_Close [simp]: "bev (Close c) = None"
  by (auto simp: Close_def plain_def bufferevent_free_def)

lemma Close_fields [frame_simps]:
  "cparams (Close c) = cparams c" "etcd_last_hosts (Close c) = etcd_last_hosts c" "is_started (Close c) = is_started c"
  "timers_armed (Close c) = timers_armed c" "is_connected (Close c) = False" "ssl (Close c) = ssl c"
  "ssl_live (Close c) = (ssl_live c \<and> \<not> (bev c \<noteq> None \<and> bev_ssl c))" "connection_info (Close c) = connection_info c"
  by (auto simp: Close_def bufferevent_free_def)

text \<open>The hosts a call of \<open>Connect\<close> is offered.\<close>

definition offered :: "net \<Rightarrow> client \<Rightarrow> (string \<times> string) list" where
  "offered n c =
     (if etcd_endpoints (cparams c) = [] \<or> hostkey (cparams c) = [] then []
      else case master_host n (case full_endpoints n (etcd_endpoints (cparams c)) of
                                 None \<Rightarrow> etcd_endpoints (cparams c) | Some e \<Rightarrow> e) (hostkey (cparams c)) of
             None \<Rightarrow> [] | Some hosts \<Rightarrow> hosts)"

definition default_target :: "client \<Rightarrow> string \<times> string" where
  "default_target c = (address (cparams c), port (cparams c))"

lemma connect_default_plain:
  assumes "plain c" "resolver_ok n" "bev c = None"
  shows "\<exists>r c'. connect_default n c = Some (r, c') \<and> (r = 0) = reachable n (default_target c) \<and>
    (bev c' \<noteq> None) = (r = 0) \<and> plain c' \<and> etcd_last_hosts c' = ([], []) \<and> is_started c' = is_started c \<and>
    timers_armed c' = timers_armed c \<and> is_connected c' = is_connected c"
proof -
  define d where "d = c\<lparr>etcd_last_hosts := ([], []),
      connection_info := ''default_'' @ address (cparams c) @ '':'' @ port (cparams c)\<rparr>"
  have d: "plain d" "bev d = None" "etcd_last_hosts d = ([], [])" "is_started d = is_started c"
    "timers_armed d = timers_armed c" "is_connected d = is_connected c"
    using assms by (simp_all add: plain_def d_def)
  have eq: "connect_default n c = connect_to n (address (cparams c)) (port (cparams c)) d"
    by (simp only: connect_default_def d_def)
  show ?thesis
  proof (cases "reachable n (default_target c)")
    case True
    then show ?thesis
      using connect_to_reachable[OF d(1), of n "address (cparams c)" "port (cparams c)"] d
      unfolding eq by (auto simp: default_target_def same_client_def)
  next
    case False
    then show ?thesis
      using connect_to_unreachable[OF d(1) _ assms(2) d(2), of "address (cparams c)" "port (cparams c)"] d
      unfolding eq by (auto simp: default_target_def same_client_def)
  qed
qed

lemma etcd_params_plain:
  assumes "plain c"
  shows "plain (etcd_params n c)" "bev (etcd_params n c) = bev c" "etcd_last_hosts (etcd_params n c) = etcd_last_hosts c"
    "timers_armed (etcd_params n c) = timers_armed c" "default_target (etcd_params n c) = default_target c"
  using assms by (auto simp: etcd_params_def plain_def default_target_def split: option.splits)

lemma connect_takes_first_reachable_aux:
  assumes "plain c" "resolver_ok n"
  shows "\<exists>r c'. Connect n c = Some (r, c') \<and> (r = 0) = (bev c' \<noteq> None) \<and> timers_armed c' = timers_armed c \<and>
    (case candidate n (etcd_last_hosts c) (length (offered n c) > 1) (offered n c) of
       Some p \<Rightarrow> r = 0 \<and> etcd_last_hosts c' = p \<and> connection_info c' = ''etcd_'' @ fst p @ '':'' @ snd p
     | None \<Rightarrow> (r = 0) = reachable n (default_target c) \<and> etcd_last_hosts c' = ([], []))"
proof -
  let ?c1 = "etcd_params n (Close c)"
  note cp = Close_plain[OF assms(1)]
  note c1 = etcd_params_plain[OF cp, of n, unfolded frame_simps bev_Close]
  have dc: "default_target (Close c) = default_target c" by (simp add: default_target_def frame_simps)
  consider (no) "etcd_endpoints (cparams c) = [] \<or> hostkey (cparams c) = []"
    | (failed) "etcd_endpoints (cparams c) \<noteq> []" "hostkey (cparams c) \<noteq> []"
        "master_host n (etcd_endpoints (cparams ?c1)) (hostkey (cparams ?c1)) = None"
    | (hosts) hs where "etcd_endpoints (cparams c) \<noteq> []" "hostkey (cparams c) \<noteq> []"
        "master_host n (etcd_endpoints (cparams ?c1)) (hostkey (cparams ?c1)) = Some hs"
    by fastforce
  then show ?thesis
  proof cases
    case no
    then have "offered n c = []" "Connect n c = connect_default n (Close c)"
      by (auto simp: offered_def Connect_def frame_simps Let_def)
    then show ?thesis
      using connect_default_plain[OF cp assms(2)] dc by (auto simp: frame_simps candidate_def)
  next
    case failed
    then have "offered n c = []" "Connect n c = connect_default n ?c1"
      by (auto simp: offered_def Connect_def etcd_params_def frame_simps Let_def split: option.splits)
    then show ?thesis
      using connect_default_plain[OF c1(1) assms(2) c1(2)] c1(4,5) dc by (auto simp: candidate_def)
  next
    case hosts
    then have hs: "offered n c = hs"
      by (auto simp: offered_def etcd_params_def frame_simps split: option.splits)
    define cand where "cand = candidate n (etcd_last_hosts c) (length hs > 1) hs"
    obtain c2 where c2: "connect_hosts n (length hs > 1) hs ?c1 = Some (cand \<noteq> None, c2)" "plain c2"
        "cparams c2 = cparams ?c1" "timers_armed c2 = timers_armed c"
        "case cand of Some p \<Rightarrow> bev c2 \<noteq> None \<and> etcd_last_hosts c2 = p \<and>
             connection_info c2 = ''etcd_'' @ fst p @ '':'' @ snd p
         | None \<Rightarrow> bev c2 = None"
      using connect_hosts_candidate[OF c1(1) assms(2) c1(2), of "length hs > 1" hs]
      unfolding c1(3,4) cand_def[symmetric] by (elim exE conjE) (rule that)
    have dt: "default_target c2 = default_target c" using c2(3) c1(5) dc by (simp add: default_target_def)
    have cn: "Connect n c = (if cand \<noteq> None then Some (0, c2) else connect_default n c2)"
      using hosts c2(1) by (simp add: Connect_def Let_def frame_simps)
    show ?thesis
    proof (cases cand)
      case None
      then show ?thesis
        using connect_default_plain[OF c2(2) assms(2)] c2(4,5) cn dt hs by (auto simp: cand_def)
    next
      case (Some p)
      then show ?thesis using c2(4,5) cn hs by (auto simp: cand_def)
    qed
  qed
qed

text \<open>
  C36. A client without TLS takes the first of the hosts found in etcd that it can connect to,
  passing over the one it used last when there are several; when there is none (or etcd has no
  answer) it forgets the last host and takes the configured address. \<open>Connect\<close> returns 0
  exactly when it holds a connection, and the caller's timers are not touched.
\<close>

theorem connect_takes_first_reachable:
  assumes "plain c" "resolver_ok n"
  shows "\<exists>r c'. Connect n c = Some (r, c') \<and> (r = 0) = (bev c' \<noteq> None) \<and> timers_armed c' = timers_armed c \<and>
    (case candidate n (etcd_last_hosts c) (length (offered n c) > 1) (offered n c) of
       Some p \<Rightarrow> r = 0 \<and> etcd_last_hosts c' = p \<and> connection_info c' = ''etcd_'' @ fst p @ '':'' @ snd p
     | None \<Rightarrow> (r = 0) = reachable n (default_target c) \<and> etcd_last_hosts c' = ([], []))"
  using connect_takes_first_reachable_aux[OF assms] .

text \<open>Three servers known to etcd, of which the first is the one used last and the second is down.\<close>

definition demo_net :: net where
  "demo_net = \<lparr>getaddrinfo = \<lambda>_ _. (0, True), socket_new = True, socket_connect = \<lambda>ip _. ip \<noteq> ''b'', ctx_new = True,
     load_ca = \<lambda>_. True, use_cert = \<lambda>_. True, use_key = \<lambda>_. True, check_key = True, ssl_new = True,
     full_endpoints = Some, master_host = \<lambda>_ _. Some [(''a'', ''1''), (''b'', ''1''), (''c'', ''1'')],
     set_key = \<lambda>_ _ _. True, bind_ok = True, event_new_ok = True\<rparr>"

definition demo_client :: client where
  "demo_client = new_client\<lparr>cparams := no_params\<lparr>hostkey := ''k'', etcd_endpoints := ''e''\<rparr>,
     etcd_last_hosts := (''a'', ''1'')\<rparr>"

theorem connect_takes_first_reachable_witness:
  "\<exists>r c'. Connect demo_net demo_client = Some (r, c') \<and> r = 0 \<and> etcd_last_hosts c' = (''c'', ''1'')"
proof -
  have o: "offered demo_net demo_client = [(''a'', ''1''), (''b'', ''1''), (''c'', ''1'')]"
    by (simp add: offered_def demo_net_def demo_client_def new_client_def)
  have l: "etcd_last_hosts demo_client = (''a'', ''1'')" by (simp add: demo_client_def)
  have c: "candidate demo_net (''a'', ''1'') True [(''a'', ''1''), (''b'', ''1''), (''c'', ''1'')] = Some (''c'', ''1'')"
    by (simp add: candidate_def reachable_def demo_net_def)
  have p: "plain demo_client" by (simp add: plain_def demo_client_def new_client_def no_params_def)
  have r: "resolver_ok demo_net" by (simp add: resolver_ok_def demo_net_def)
  show ?thesis using connect_takes_first_reachable[OF p r] by (simp add: o l c) blast
qed

section \<open>A connection with TLS is not opened twice\<close>

lemma connect_to_dead: "ssl c \<Longrightarrow> \<not> ssl_live c \<Longrightarrow> getaddrinfo n ip prt = (0, True) \<Longrightarrow> connect_to n ip prt c = None"
  by (simp add: connect_to_def)

lemma connect_hosts_dead:
  assumes "ssl c" "\<not> ssl_live c" "\<And>ip prt. getaddrinfo n ip prt = (0, True)"
  shows "connect_hosts n many ps c = None \<or> connect_hosts n many ps c = Some (False, c)"
  using assms(1,2) by (induction ps) (auto simp: connect_to_dead assms(3))

lemma Connect_cases:
  obtains "Connect n c = connect_default n (Close c)" | "Connect n c = connect_default n (etcd_params n (Close c))"
  | hs where "Connect n c = (case connect_hosts n (length hs > 1) hs (etcd_params n (Close c)) of
      None \<Rightarrow> None | Some (True, c2) \<Rightarrow> Some (0, c2) | Some (False, c2) \<Rightarrow> connect_default n c2)"
proof (cases "etcd_endpoints (cparams (Close c)) \<noteq> [] \<and> hostkey (cparams (Close c)) \<noteq> []")
  case False
  then show ?thesis by (intro that(1)) (auto simp: Connect_def Let_def)
next
  case True
  show ?thesis
  proof (cases "master_host n (etcd_endpoints (cparams (etcd_params n (Close c))))
      (hostkey (cparams (etcd_params n (Close c))))")
    case None
    then show ?thesis using True by (intro that(2)) (simp add: Connect_def Let_def)
  next
    case (Some hs)
    then show ?thesis using True by (intro that(3)[of hs]) (simp add: Connect_def Let_def)
  qed
qed

lemma Connect_dead:
  assumes "ssl (Close c)" "\<not> ssl_live (Close c)" "\<And>ip prt. getaddrinfo n ip prt = (0, True)"
  shows "Connect n c = None"
proof -
  have d: "connect_default n c' = None" if "ssl c'" "\<not> ssl_live c'" for c'
    using that by (simp add: connect_default_def connect_to_dead assms(3))
  have e: "ssl (etcd_params n (Close c))" "\<not> ssl_live (etcd_params n (Close c))"
    using assms(1,2) by (auto simp: etcd_params_def split: option.splits)
  show ?thesis
  proof (cases n c rule: Connect_cases)
    case (3 hs)
    then show ?thesis using connect_hosts_dead[OF e assms(3), of "length hs > 1" hs] d[OF e] by auto
  qed (simp_all add: d assms(1,2) e)
qed

text \<open>The session of a connected client belongs to its bufferevent.\<close>

definition tls_connected :: "client \<Rightarrow> bool" where
  "tls_connected c \<longleftrightarrow> bev c \<noteq> None \<and> ssl c \<and> bev_ssl c"

lemma connect_to_tls:
  assumes "connect_to n ip prt c = Some (0, c')" "is_ssl (cparams c)" "resolver_ok n"
  shows "tls_connected c'"
  using assms resolver_okD[OF assms(3), of ip prt]
  by (auto simp: connect_to_def tls_connected_def Let_def split: prod.splits if_splits)

lemma connect_to_cparams: "connect_to n ip prt c = Some (r, c') \<Longrightarrow> cparams c' = cparams c"
  by (auto simp: connect_to_def Let_def bufferevent_free_def split: prod.splits if_splits)

lemma connect_hosts_tls:
  assumes "connect_hosts n many ps c = Some (b, c')" "is_ssl (cparams c)" "resolver_ok n"
  shows "cparams c' = cparams c \<and> (b \<longrightarrow> tls_connected c')"
  using assms(1,2)
proof (induction ps arbitrary: c)
  case (Cons p ps)
  then show ?case
    using connect_to_tls[OF _ _ assms(3)] connect_to_cparams
    by (fastforce simp: tls_connected_def split: if_splits option.splits)
qed simp

lemma Connect_tls:
  assumes "Connect n c = Some (0, c')" "is_ssl (cparams c)" "resolver_ok n"
  shows "tls_connected c'"
proof -
  have d: "tls_connected c'" if "connect_default n c2 = Some (0, c')" "is_ssl (cparams c2)" for c2
    using that connect_to_tls[OF _ _ assms(3)] unfolding connect_default_def by fastforce
  have e: "is_ssl (cparams (etcd_params n (Close c)))" "is_ssl (cparams (Close c))"
    using assms(2) by (auto simp: etcd_params_def frame_simps split: option.splits)
  show ?thesis
  proof (cases n c rule: Connect_cases)
    case (3 hs)
    then obtain b c2 where c2: "connect_hosts n (length hs > 1) hs (etcd_params n (Close c)) = Some (b, c2)"
      using assms(1) by (auto split: option.splits)
    then show ?thesis
      using 3 assms(1) connect_hosts_tls[OF c2 e(1) assms(3)] d[of c2] e(1) by (cases b) auto
  qed (use assms(1) d e in auto)
qed

text \<open>
  A client with TLS that loses its connection never gets it back: closing the old
  bufferevent frees the session, the client keeps the pointer to it, and when the reconnect
  timer fires the next bufferevent is opened on the freed session, whatever the network answers.
\<close>

theorem tls_reconnect_uses_freed_session:
  assumes "Connect n c = Some (0, c1)" "is_ssl (cparams c)" "resolver_ok n" "is_started c1"
    and "BEV_EOF \<in> events" "event_new_ok n'" "getaddrinfo n' = (\<lambda>_ _. (0, True))"
  shows "timers_armed (OnEvent n' events c1) = timers_armed c1 + 1 \<and> OnTimeout n' (OnEvent n' events c1) = None"
proof -
  note t = Connect_tls[OF assms(1,2,3)]
  let ?c2 = "c1\<lparr>is_connected := False\<rparr>"
  have "Connect n' ?c2 = None"
    using t assms(7) by (intro Connect_dead) (auto simp: frame_simps tls_connected_def)
  then show ?thesis
    using assms(4-6) by (simp add: OnEvent_def broken_def OnDisconnected_def ReConnect_def OnTimeout_def Let_def)
qed

definition tls_client :: client where
  "tls_client = new_client\<lparr>cparams := no_params\<lparr>is_ssl := True\<rparr>, is_started := True\<rparr>"

theorem tls_reconnect_uses_freed_session_witness:
  "timers_armed (OnEvent demo_net {BEV_EOF} (snd (the (Connect demo_net tls_client)))) =
     timers_armed (snd (the (Connect demo_net tls_client))) + 1 \<and>
   OnTimeout demo_net (OnEvent demo_net {BEV_EOF} (snd (the (Connect demo_net tls_client)))) = None"
  by (rule tls_reconnect_uses_freed_session[where n = demo_net and c = tls_client])
    (simp_all add: demo_net_def tls_client_def new_client_def no_params_def Connect_def Close_def connect_default_def
      connect_to_def client_CreateSSL_def resolver_ok_def Let_def)

section \<open>Losing the connection\<close>



text \<open>The callbacks libevent makes, on whatever network, and the call of \<open>Stop\<close>.\<close>

inductive client_step :: "client \<Rightarrow> client \<Rightarrow> bool" where
  event: "bev c \<noteq> None \<Longrightarrow> client_step c (OnEvent n events c)"
| timeout: "0 < timers_armed c \<Longrightarrow> OnTimeout n c = Some c' \<Longrightarrow> client_step c c'"
| stop: "client_step c (Stop c)"

inductive_cases client_stepE: "client_step c c'"

lemma idle_stays_idle:
  assumes "client_step\<^sup>*\<^sup>* c c'" "bev c = None" "timers_armed c = 0"
  shows "bev c' = None \<and> timers_armed c' = 0"
  using assms by (induction rule: rtranclp_induct) (auto elim!: client_stepE simp: Stop_def frame_simps)

text \<open>
  A client whose first attempt fails at once never tries again: no timer is armed, and
  whatever callbacks come afterwards, on whatever network, it has no connection.
\<close>

theorem start_failure_is_final:
  assumes "client_Start n p new_client = Some (0, c1)" "\<not> is_ssl p" "etcd_endpoints p = []" "resolver_ok n"
    and "\<not> reachable n (address p, port p)" "client_step\<^sup>*\<^sup>* c1 c2"
  shows "bev c2 = None \<and> timers_armed c2 = 0"
proof -
  let ?c = "new_client\<lparr>is_started := True, cparams := p\<rparr>"
  have c: "plain ?c" "offered n ?c = []" "default_target ?c = (address p, port p)"
    using assms(2,3) by (simp_all add: plain_def new_client_def offered_def default_target_def)
  obtain r c' where "Connect n ?c = Some (r, c')" "bev c' = None" "timers_armed c' = 0"
    using connect_takes_first_reachable_aux[OF c(1) assms(4)] c(2,3) assms(5)
    by (auto simp: candidate_def new_client_def)
  then have "bev c1 = None" "timers_armed c1 = 0"
    using assms(1) by (simp_all add: client_Start_def new_client_def)
  then show ?thesis using idle_stays_idle[OF assms(6)] by blast
qed

theorem start_failure_is_final_witness:
  "bev (Stop (snd (the (client_Start demo_net (no_params\<lparr>address := ''b''\<rparr>) new_client)))) = None \<and>
   timers_armed (Stop (snd (the (client_Start demo_net (no_params\<lparr>address := ''b''\<rparr>) new_client)))) = 0"
  by (rule start_failure_is_final[where n = demo_net and p = "no_params\<lparr>address := ''b''\<rparr>"],
      rule_tac [6] r_into_rtranclp[of client_step, OF client_step.stop])
    (simp_all add: client_Start_def Connect_def Close_def connect_default_def connect_to_def bufferevent_free_def
      demo_net_def new_client_def no_params_def resolver_ok_def reachable_def Let_def)

text \<open>
  Stopping does not disarm the timer: a client that is stopped while it waits to reconnect
  opens a connection when the timer fires, although it is no longer started.
\<close>

theorem stopped_client_reconnects:
  assumes "plain c" "is_started c" "broken events" "event_new_ok n" "resolver_ok n'"
    and "reachable n' (default_target c)"
  shows "\<exists>c'. OnTimeout n' (Stop (OnEvent n events c)) = Some c' \<and> bev c' \<noteq> None"
proof -
  let ?e = "c\<lparr>is_connected := False, timers_armed := timers_armed c + 1\<rparr>"
  let ?c = "(Stop ?e)\<lparr>timers_armed := timers_armed c\<rparr>"
  have "OnEvent n events c = ?e"
    using assms(2-4) by (simp add: OnEvent_def OnDisconnected_def ReConnect_def)
  then have t: "OnTimeout n' (Stop (OnEvent n events c)) = map_option snd (Connect n' ?c)"
    by (simp add: OnTimeout_def Let_def Stop_def frame_simps)
  have p: "plain ?c" "default_target ?c = default_target c"
    using assms(1) Close_plain[of "?e\<lparr>is_started := False\<rparr>"]
    by (simp_all add: plain_def Stop_def default_target_def frame_simps)
  show ?thesis
    using connect_takes_first_reachable_aux[OF p(1) assms(5)] p(2) assms(6)
    unfolding t by (auto split: option.splits)
qed

theorem stopped_client_reconnects_witness:
  "\<exists>c'. OnTimeout demo_net (Stop (OnEvent demo_net {BEV_EOF} (demo_client\<lparr>is_started := True\<rparr>))) = Some c' \<and>
     bev c' \<noteq> None"
  by (rule stopped_client_reconnects)
    (simp_all add: demo_client_def demo_net_def new_client_def no_params_def plain_def resolver_ok_def broken_def
      reachable_def default_target_def)

section \<open>The server\<close>

text \<open>
  \<open>Start\<close> of a server with an address that is not running yet listens exactly when it
  returns 0, for which the address resolves and can be bound; with etcd configured it has
  published its address under the host key by then in every case, also when it does not listen.
\<close>

theorem server_start_spec:
  assumes "address p \<noteq> []" "\<not> listener s" "server_Start n p s = (res, s', reg)"
  shows "(res = Returned 0) = listener s' \<and>
    listener s' = (getaddrinfo n (address p) (port p) = (0, True) \<and> bind_ok n) \<and>
    (reg \<noteq> None) = (etcd_endpoints p \<noteq> [] \<and> hostkey p \<noteq> []) \<and>
    (reg \<noteq> None \<longrightarrow> snd (the reg) = (hostkey p, etcd_address p @ '':'' @ etcd_port p))"
  using assms
  by (auto simp: server_Start_def Let_def split: prod.splits option.splits if_splits)

theorem server_start_spec_witness:
  "listener (fst (snd (server_Start demo_net (no_params\<lparr>address := ''a''\<rparr>) new_server)))"
  using server_start_spec[of "no_params\<lparr>address := ''a''\<rparr>" new_server demo_net]
  by (cases "server_Start demo_net (no_params\<lparr>address := ''a''\<rparr>) new_server")
    (simp add: new_server_def demo_net_def no_params_def)

end
