(* ===== verification/Linker.thy ===== *)
theory Linker
  imports Tcp
begin

text \<open>
  The login server of \<^verbatim>\<open>src/linker/l2\<close>: the message types of \<^verbatim>\<open>linker/include/common.h\<close>, the
  class \<^verbatim>\<open>ServerEnd\<close> of \<^verbatim>\<open>server_wrapper.cpp\<close> with its connections, sessions and queue of
  messages for the clients, and \<^verbatim>\<open>SignalServer\<close> of \<^verbatim>\<open>signal_server.cpp\<close>.

  A \<^verbatim>\<open>bufferevent*\<close> is a number. What the server writes is the list \<open>written\<close> of the
  connection and the bytes. The iteration orders of the unordered containers are the
  parameters \<open>iter\<close> (options of a message) and \<open>begin_of\<close> (the first of the connections), and
  \<^verbatim>\<open>json::parse\<close> is the predicate \<open>parses\<close> of the texts it accepts.
\<close>

section \<open>Message types\<close>

datatype FactorMsgT = kMtCmnServiceStatus | kMtCmnLogin | kMtCmnLoginAns | kMtCmnSubscribe | kMtCmnSubscribeAns
  | kMtCmnPublish | kMtCmnUnsubscribe | kMtCmnUnsubscribeAns | kMtCmnQueryFormular | kMtCmnQueryFormularAns
  | kMtCmnQueryFactor | kMtCmnQueryFactorAns | kMtCmnFactorOper | kMtCmnFactorOperAns | kMtCmnFactorSupplement
  | kMtCmnFactorSupplementAns | kMtCmnClientDisconnected | kMtFactorCalc | kMtFactorCalcAns | kMtFactorConf
  | kMtFactorConfAns | kMtModifyFormularType | kMtModifyFormularTypeAns | kMtQueryFormularType
  | kMtQueryFormularTypeAns | kMtCmnQueryFormularTree | kMtCmnQueryFormularTreeAns

fun msgt_code :: "FactorMsgT \<Rightarrow> nat" where
  "msgt_code kMtCmnServiceStatus = 1000"
| "msgt_code kMtCmnLogin = 1001"
| "msgt_code kMtCmnLoginAns = 1002"
| "msgt_code kMtCmnSubscribe = 1003"
| "msgt_code kMtCmnSubscribeAns = 1004"
| "msgt_code kMtCmnPublish = 1005"
| "msgt_code kMtCmnUnsubscribe = 1006"
| "msgt_code kMtCmnUnsubscribeAns = 1007"
| "msgt_code kMtCmnQueryFormular = 1008"
| "msgt_code kMtCmnQueryFormularAns = 1009"
| "msgt_code kMtCmnQueryFactor = 1010"
| "msgt_code kMtCmnQueryFactorAns = 1011"
| "msgt_code kMtCmnFactorOper = 1012"
| "msgt_code kMtCmnFactorOperAns = 1013"
| "msgt_code kMtCmnFactorSupplement = 1014"
| "msgt_code kMtCmnFactorSupplementAns = 1015"
| "msgt_code kMtCmnClientDisconnected = 1099"
| "msgt_code kMtFactorCalc = 2000"
| "msgt_code kMtFactorCalcAns = 2001"
| "msgt_code kMtFactorConf = 2002"
| "msgt_code kMtFactorConfAns = 2003"
| "msgt_code kMtModifyFormularType = 2004"
| "msgt_code kMtModifyFormularTypeAns = 2005"
| "msgt_code kMtQueryFormularType = 2006"
| "msgt_code kMtQueryFormularTypeAns = 2007"
| "msgt_code kMtCmnQueryFormularTree = 2008"
| "msgt_code kMtCmnQueryFormularTreeAns = 2009"

text \<open>The cases of \<^verbatim>\<open>MessageFactorMsgT\<close>, in the order of the switch.\<close>

definition msgt_names :: "(FactorMsgT \<times> string) list" where
  "msgt_names =
     [(kMtCmnServiceStatus, ''kMtCmnServiceStatus''),
      (kMtCmnLogin, ''kMtCmnLogin''),
      (kMtCmnLoginAns, ''kMtCmnLoginAns''),
      (kMtCmnSubscribe, ''kMtCmnSubscribe''),
      (kMtCmnSubscribeAns, ''kMtCmnSubscribeAns''),
      (kMtCmnPublish, ''kMtCmnPublish''),
      (kMtCmnUnsubscribe, ''kMtCmnUnsubscribe''),
      (kMtCmnUnsubscribeAns, ''kMtCmnUnsubscribeAns''),
      (kMtCmnQueryFormular, ''kMtCmnQueryFormular''),
      (kMtCmnQueryFormularAns, ''kMtCmnQueryFormularAns''),
      (kMtCmnQueryFactor, ''kMtCmnQueryFactor''),
      (kMtCmnQueryFactorAns, ''kMtCmnQueryFactorAns''),
      (kMtCmnFactorSupplement, ''kMtCmnFactorSupplement''),
      (kMtCmnFactorSupplementAns, ''kMtCmnFactorSupplementAns''),
      (kMtCmnClientDisconnected, ''kMtCmnClientDisconnected''),
      (kMtFactorCalc, ''kMtFactorCalc''),
      (kMtFactorCalcAns, ''kMtFactorCalcAns''),
      (kMtFactorConf, ''kMtFactorConf''),
      (kMtFactorConfAns, ''kMtFactorConfAns''),
      (kMtModifyFormularType, ''kMtModifyFormularType''),
      (kMtModifyFormularTypeAns, ''kMtModifyFormularTypeAns''),
      (kMtQueryFormularType, ''kMtQueryFormularType''),
      (kMtQueryFormularTypeAns, ''kMtQueryFormularTypeAns''),
      (kMtCmnQueryFormularTree, ''kMtCmnQueryFormularTree''),
      (kMtCmnQueryFormularTreeAns, ''kMtCmnQueryFormularTreeAns'')]"

definition MessageFactorMsgT :: "int \<Rightarrow> string" where
  "MessageFactorMsgT item =
     (case find (\<lambda>(t, _). int (msgt_code t) = item) msgt_names of
        None \<Rightarrow> ''MessageFactorMsgT Not Found''
      | Some (_, s) \<Rightarrow> s)"

definition mapMsgType :: "FactorMsgT \<Rightarrow> string" where
  "mapMsgType t =
     (if t \<in> {kMtFactorCalc, kMtFactorConf, kMtModifyFormularType, kMtQueryFormularType, kMtCmnQueryFormularTree}
      then show_nat (msgt_code t) else [])"

datatype ErrorCodeT = kErrorNone | kErrorServiceOffline | kErrorPyvmNotReady

fun error_code :: "ErrorCodeT \<Rightarrow> int" where
  "error_code kErrorNone = 0"
| "error_code kErrorServiceOffline = 10000"
| "error_code kErrorPyvmNotReady = 10001"

fun mapErrorCode :: "ErrorCodeT \<Rightarrow> string" where
  "mapErrorCode kErrorServiceOffline = ''kErrorServiceOffline''"
| "mapErrorCode kErrorNone = ''kErrorNone''"
| "mapErrorCode _ = []"

section \<open>The server\<close>

record server_end =
  bev_set :: "nat set"
  session_logined :: "u64 set"
  cur_session_id :: u64
  msg_to_clients :: "qtp_msg list"
  written :: "(nat \<times> byte list) list"

definition new_server_end :: server_end where
  "new_server_end = \<lparr>bev_set = {}, session_logined = {}, cur_session_id = 0, msg_to_clients = [], written = []\<rparr>"

text \<open>\<^verbatim>\<open>*(int64_t*)option_buf\<close>: eight bytes are read, \<open>None\<close> when the buffer is shorter.\<close>

definition read_i64 :: "option_request \<Rightarrow> u64 option" where
  "read_i64 r = (if length (option_buf r) < 8 then None else Some (word_of_nat (unle (take 8 (option_buf r)))))"

definition get_req_id :: "qtp_msg \<Rightarrow> u64 option" where
  "get_req_id m = (case get_option kOptionId_ReqId m of None \<Rightarrow> Some 0 | Some r \<Rightarrow> read_i64 r)"

definition write_to :: "nat \<Rightarrow> byte list \<Rightarrow> server_end \<Rightarrow> server_end" where
  "write_to b bs s = s\<lparr>written := written s @ [(b, bs)]\<rparr>"

definition send_to :: "(options \<Rightarrow> options) \<Rightarrow> nat \<Rightarrow> qtp_msg \<Rightarrow> server_end \<Rightarrow> server_end option" where
  "send_to iter b m s = map_option (\<lambda>(bs, _). write_to b bs s) (send_data iter m)"

definition server_OnAccept :: "nat \<Rightarrow> server_end \<Rightarrow> server_end" where
  "server_OnAccept b s = s\<lparr>bev_set := insert b (bev_set s)\<rparr>"

definition server_OnEvent :: "nat \<Rightarrow> bev_event set \<Rightarrow> server_end \<Rightarrow> server_end" where
  "server_OnEvent b events s =
     (if events = {BEV_CONNECTED} then s
      else if broken events then s\<lparr>bev_set := bev_set s - {b}\<rparr> else s)"

definition IsLogin :: "server_end \<Rightarrow> qtp_msg \<Rightarrow> bool option" where
  "IsLogin s m =
     (case get_option kOptionId_SessionId m of
        None \<Rightarrow> Some False
      | Some r \<Rightarrow> map_option (\<lambda>i. i \<in> session_logined s) (read_i64 r))"

definition HandleBeat :: "(options \<Rightarrow> options) \<Rightarrow> u64 \<Rightarrow> nat \<Rightarrow> qtp_msg \<Rightarrow> server_end \<Rightarrow> server_end option" where
  "HandleBeat iter now b m s =
     (case add_option_i64 iter kOptionId_ServerTime now (set_msgtype 102 m) of
        None \<Rightarrow> None
      | Some m1 \<Rightarrow> send_to iter b m1 s)"

definition HandleLogin :: "(options \<Rightarrow> options) \<Rightarrow> nat \<Rightarrow> qtp_msg \<Rightarrow> server_end \<Rightarrow> server_end option" where
  "HandleLogin iter b m s =
     (case IsLogin s m of
        None \<Rightarrow> None
      | Some True \<Rightarrow> send_to iter b (set_msgtype 1002 m) s
      | Some False \<Rightarrow>
          (let i = cur_session_id s + 1;
               s1 = s\<lparr>cur_session_id := i, session_logined := insert i (session_logined s)\<rparr>
           in case add_option_i64 iter kOptionId_SessionId i (set_msgtype 1002 m) of
                None \<Rightarrow> None
              | Some m1 \<Rightarrow> send_to iter b m1 s1))"

definition PushMsgToClient :: "qtp_msg \<Rightarrow> server_end \<Rightarrow> server_end" where
  "PushMsgToClient m s = s\<lparr>msg_to_clients := msg_to_clients s @ [m]\<rparr>"

definition HandleMsgToClient ::
  "(options \<Rightarrow> options) \<Rightarrow> (nat set \<Rightarrow> nat) \<Rightarrow> qtp_msg \<Rightarrow> server_end \<Rightarrow> server_end option" where
  "HandleMsgToClient iter begin_of m s =
     (if bev_set s = {} then Some s else send_to iter (begin_of (bev_set s)) m s)"

definition server_OnLoop :: "(options \<Rightarrow> options) \<Rightarrow> (nat set \<Rightarrow> nat) \<Rightarrow> server_end \<Rightarrow> server_end option" where
  "server_OnLoop iter begin_of s =
     (case msg_to_clients s of
        [] \<Rightarrow> Some s
      | m # ms \<Rightarrow> HandleMsgToClient iter begin_of m (s\<lparr>msg_to_clients := ms\<rparr>))"

text \<open>\<open>onMessage\<close> is the virtual function the reader calls for the messages of logged-in sessions.\<close>

type_synonym on_message = "nat \<Rightarrow> qtp_msg \<Rightarrow> server_end \<Rightarrow> server_end option"

definition handle_message ::
  "(options \<Rightarrow> options) \<Rightarrow> u64 \<Rightarrow> on_message \<Rightarrow> nat \<Rightarrow> qtp_msg \<Rightarrow> server_end \<Rightarrow> server_end option" where
  "handle_message iter now onMsg b m s =
     (if msgtype (msg_head m) = 101 then HandleBeat iter now b m s
      else if msgtype (msg_head m) = 1001 then HandleLogin iter b m s
      else case IsLogin s m of
             None \<Rightarrow> None
           | Some False \<Rightarrow> Some s
           | Some True \<Rightarrow> onMsg b m s)"

function server_OnRead ::
  "(options \<Rightarrow> options) \<Rightarrow> u64 \<Rightarrow> on_message \<Rightarrow> nat \<Rightarrow> byte list \<Rightarrow> server_end \<Rightarrow> (byte list \<times> server_end) option" where
  "server_OnRead iter now onMsg b input s =
     (case decode_msg_with_head input of
        None \<Rightarrow> None
      | Some (None, r) \<Rightarrow> Some (r, s)
      | Some (Some m, r) \<Rightarrow>
          (case handle_message iter now onMsg b m s of
             None \<Rightarrow> None
           | Some s' \<Rightarrow> server_OnRead iter now onMsg b r s'))"
  by pat_completeness auto
termination
  by (relation "measure (\<lambda>(iter, now, onMsg, b, input, s). length input)") (auto dest: decode_consumes)

declare server_OnRead.simps [simp del]

section \<open>The signal server\<close>

definition chars :: "string \<Rightarrow> byte list" where
  "chars s = map of_char s"

definition ResponseMsg :: "qtp_msg \<Rightarrow> nat \<Rightarrow> string \<Rightarrow> server_end \<Rightarrow> server_end option" where
  "ResponseMsg m t text s =
     (case set_data (Some (chars text @ [0])) (set_msgtype (word_of_nat t) m) of
        None \<Rightarrow> None
      | Some (_, m1) \<Rightarrow> Some (PushMsgToClient m1 s))"

definition HandleSubscribe :: "(byte list \<Rightarrow> bool) \<Rightarrow> on_message" where
  "HandleSubscribe parses b m s =
     (case get_option kOptionId_SessionId m of
        None \<Rightarrow> None
      | Some r \<Rightarrow>
          (case read_i64 r of
             None \<Rightarrow> None
           | Some _ \<Rightarrow>
               (case buf_bytes (data_len m) (data_buf m) of
                  None \<Rightarrow> None
                | Some d \<Rightarrow>
                    (if parses d then ResponseMsg m (msgt_code kMtCmnSubscribeAns) ''failed.'' s else Some s))))"

definition signal_onMessage :: "(byte list \<Rightarrow> bool) \<Rightarrow> on_message" where
  "signal_onMessage parses b m s =
     (if msgtype (msg_head m) = word_of_nat (msgt_code kMtCmnSubscribe) then HandleSubscribe parses b m s
      else map_option (\<lambda>_. s) (get_req_id m))"

section \<open>Sessions\<close>

text \<open>The sessions are the numbers given out so far.\<close>

definition sessions_ok :: "server_end \<Rightarrow> bool" where
  "sessions_ok s \<longleftrightarrow> session_logined s = {i. 0 < i \<and> i \<le> cur_session_id s}"

lemma sessions_ok_next:
  assumes "sessions_ok s" "unat (cur_session_id s) + 1 < 2 ^ 64"
  shows "sessions_ok (s\<lparr>cur_session_id := cur_session_id s + 1,
    session_logined := insert (cur_session_id s + 1) (session_logined s)\<rparr>)"
    "unat (cur_session_id s + 1) = unat (cur_session_id s) + 1"
    "cur_session_id s + 1 \<notin> session_logined s" "cur_session_id s + 1 \<noteq> 0"
proof -
  show u: "unat (cur_session_id s + 1) = unat (cur_session_id s) + 1"
    using assms(2) by (simp add: unat_plus_if')
  have "(i \<le> cur_session_id s + 1) = (i = cur_session_id s + 1 \<or> i \<le> cur_session_id s)" for i :: u64
    using u by (auto simp: word_le_nat_alt word_unat_eq_iff)
  moreover have "0 < cur_session_id s + 1" using u by (simp add: word_less_nat_alt)
  ultimately show "sessions_ok (s\<lparr>cur_session_id := cur_session_id s + 1,
    session_logined := insert (cur_session_id s + 1) (session_logined s)\<rparr>)"
    using assms(1) by (auto simp: sessions_ok_def)
  have "\<not> cur_session_id s + 1 \<le> cur_session_id s" using u by (simp only: word_le_nat_alt)
  then show "cur_session_id s + 1 \<notin> session_logined s" using assms(1) by (simp add: sessions_ok_def)
  show "cur_session_id s + 1 \<noteq> 0" using u by (metis Suc_eq_plus1 nat.distinct(1) unat_0)
qed

lemma send_to_fields [frame_simps]:
  "send_to iter b m s = Some s' \<Longrightarrow> session_logined s' = session_logined s \<and> cur_session_id s' = cur_session_id s \<and>
     bev_set s' = bev_set s \<and> msg_to_clients s' = msg_to_clients s"
  by (auto simp: send_to_def write_to_def)

lemma signal_onMessage_fields:
  "signal_onMessage parses b m s = Some s' \<Longrightarrow> session_logined s' = session_logined s \<and>
     cur_session_id s' = cur_session_id s \<and> bev_set s' = bev_set s \<and> written s' = written s"
  by (auto simp: signal_onMessage_def HandleSubscribe_def ResponseMsg_def PushMsgToClient_def
      split: option.splits if_splits)

text \<open>What handling one message does to the sessions.\<close>

definition one_more :: "server_end \<Rightarrow> server_end \<Rightarrow> bool" where
  "one_more s s' \<longleftrightarrow> cur_session_id s' = cur_session_id s + 1 \<and>
     session_logined s' = insert (cur_session_id s + 1) (session_logined s)"

lemma handle_message_sessions:
  assumes "handle_message iter now (signal_onMessage parses) b m s = Some s'"
  shows "(session_logined s' = session_logined s \<and> cur_session_id s' = cur_session_id s \<or> one_more s s') \<and>
    bev_set s' = bev_set s"
  using assms
  by (auto simp: handle_message_def HandleBeat_def HandleLogin_def one_more_def Let_def
      split: if_splits option.splits bool.splits dest!: send_to_fields signal_onMessage_fields)

lemma handle_message_ok:
  assumes "handle_message iter now (signal_onMessage parses) b m s = Some s'" "sessions_ok s"
    and "unat (cur_session_id s) + 1 < 2 ^ 64"
  shows "sessions_ok s'" "unat (cur_session_id s) \<le> unat (cur_session_id s')"
    "unat (cur_session_id s') \<le> unat (cur_session_id s) + 1"
  using handle_message_sessions[OF assms(1)] sessions_ok_next[OF assms(2,3)] assms(2)
  by (auto simp: sessions_ok_def one_more_def)

lemma server_OnRead_cases:
  assumes "server_OnRead iter now onMsg b input s = Some (r, s')"
  obtains (stop) "decode_msg_with_head input = Some (None, r)" "s' = s"
    | (step) m rest s1 where "decode_msg_with_head input = Some (Some m, rest)"
        "handle_message iter now onMsg b m s = Some s1" "server_OnRead iter now onMsg b rest s1 = Some (r, s')"
  using assms by (subst (asm) server_OnRead.simps) (auto split: option.splits)

lemma decode_None_same: "decode_msg_with_head input = Some (None, r) \<Longrightarrow> r = input"
  by (auto simp: decode_msg_with_head_def Let_def split: if_splits option.splits)

lemma server_OnRead_rest: "server_OnRead iter now onMsg b input s = Some (r, s') \<Longrightarrow> length r \<le> length input"
proof (induction iter now onMsg b input s rule: server_OnRead.induct)
  case (1 iter now onMsg b input s)
  from 1(2) show ?case
  proof (cases rule: server_OnRead_cases)
    case stop
    then show ?thesis using decode_None_same by blast
  next
    case (step m rest s1)
    from 1(1)[OF step(1) refl refl step(2) step(3)] show ?thesis using decode_consumes[OF step(1)] by linarith
  qed
qed

text \<open>A login takes at least one byte off the buffer, so \<open>n\<close> bytes give out at most \<open>n\<close> sessions.\<close>

lemma server_OnRead_sessions:
  assumes "server_OnRead iter now (signal_onMessage parses) b input s = Some (r, s')" "sessions_ok s"
    and "unat (cur_session_id s) + (length input - length r) < 2 ^ 64"
  shows "sessions_ok s' \<and> unat (cur_session_id s) \<le> unat (cur_session_id s') \<and> session_logined s \<subseteq> session_logined s' \<and>
    bev_set s' = bev_set s \<and> unat (cur_session_id s') \<le> unat (cur_session_id s) + (length input - length r)"
  using assms
proof (induction iter now "signal_onMessage parses" b input s rule: server_OnRead.induct)
  case (1 iter now b input s)
  from 1(2) show ?case
  proof (cases rule: server_OnRead_cases)
    case stop
    then show ?thesis using 1(3) by simp
  next
    case (step m rest s1)
    have len: "length rest < length input" "length r \<le> length rest"
      using decode_consumes[OF step(1)] server_OnRead_rest[OF step(3)] by simp_all
    then have lim: "unat (cur_session_id s) + 1 < 2 ^ 64" using 1(4) by linarith
    note h = handle_message_ok[OF step(2) 1(3) lim]
    have "unat (cur_session_id s1) + (length rest - length r) < 2 ^ 64" using h(3) len 1(4) by linarith
    from 1(1)[OF step(1) refl refl step(2) step(3) h(1) this]
    have "sessions_ok s' \<and> unat (cur_session_id s1) \<le> unat (cur_session_id s') \<and> session_logined s1 \<subseteq> session_logined s' \<and>
      bev_set s' = bev_set s1 \<and> unat (cur_session_id s') \<le> unat (cur_session_id s1) + (length rest - length r)" .
    then show ?thesis using h len handle_message_sessions[OF step(2)] by (fastforce simp: one_more_def)
  qed
qed

section \<open>The calls the event loop makes\<close>

inductive server_step ::
  "(options \<Rightarrow> options) \<Rightarrow> (nat set \<Rightarrow> nat) \<Rightarrow> (byte list \<Rightarrow> bool) \<Rightarrow> nat \<Rightarrow> server_end \<Rightarrow> server_end \<Rightarrow> bool"
  for iter begin_of parses where
  accept: "server_step iter begin_of parses 0 s (server_OnAccept b s)"
| event: "server_step iter begin_of parses 0 s (server_OnEvent b events s)"
| loop: "server_OnLoop iter begin_of s = Some s' \<Longrightarrow> server_step iter begin_of parses 0 s s'"
| read: "server_OnRead iter now (signal_onMessage parses) b input s = Some (r, s') \<Longrightarrow>
    server_step iter begin_of parses (length input - length r) s s'"

inductive server_run ::
  "(options \<Rightarrow> options) \<Rightarrow> (nat set \<Rightarrow> nat) \<Rightarrow> (byte list \<Rightarrow> bool) \<Rightarrow> nat \<Rightarrow> server_end \<Rightarrow> bool"
  for iter begin_of parses where
  start: "server_run iter begin_of parses 0 new_server_end"
| step: "server_run iter begin_of parses n s \<Longrightarrow> server_step iter begin_of parses k s s' \<Longrightarrow>
    server_run iter begin_of parses (n + k) s'"

inductive_cases server_stepE: "server_step iter begin_of parses k s s'"

lemma server_OnLoop_fields:
  "server_OnLoop iter begin_of s = Some s' \<Longrightarrow> session_logined s' = session_logined s \<and> cur_session_id s' = cur_session_id s"
  by (auto simp: server_OnLoop_def HandleMsgToClient_def split: list.splits if_splits dest!: send_to_fields)

lemma server_step_sessions:
  assumes "server_step iter begin_of parses k s s'" "sessions_ok s" "unat (cur_session_id s) + k < 2 ^ 64"
  shows "sessions_ok s' \<and> unat (cur_session_id s') \<le> unat (cur_session_id s) + k"
proof -
  have same: ?thesis if "session_logined s' = session_logined s" "cur_session_id s' = cur_session_id s"
    using that assms(2) by (simp add: sessions_ok_def)
  from assms(1) show ?thesis
  proof (cases rule: server_step.cases)
    case (read now b input r)
    then show ?thesis
      using assms(3) server_OnRead_sessions[OF read(2) assms(2)] by simp
  next
    case loop
    then show ?thesis using server_OnLoop_fields same by blast
  qed (use same in \<open>simp_all add: server_OnAccept_def server_OnEvent_def\<close>)
qed



section \<open>Answers\<close>

lemma set_data_spec:
  assumes "msg_ok m"
  shows "\<exists>m'. set_data (Some d) m = Some (True, m') \<and> msg_ok m' \<and> opts m' = opts m \<and> body m' = d \<and>
    data_len m' = length d \<and> msg_head m' = (msg_head m)\<lparr>datalen := word_of_nat (length d)\<rparr> \<and>
    opt_len m' = opt_len m \<and> opt_buf m' = opt_buf m"
proof -
  obtain b where b: "memcpy (grow (data_len m) (length d) (data_buf m)) d = Some b" "buf_ok (length d) b"
    "buf_take (length d) b = d"
    using grow_memcpy[of "data_len m" "data_buf m" d "length d"] assms by (auto simp: msg_ok_def)
  then show ?thesis using assms by (simp add: set_data_def msg_ok_def body_def)
qed

lemma content_fields:
  "content m' = content m \<Longrightarrow> msgtype (msg_head m') = msgtype (msg_head m) \<and> body m' = body m \<and>
     map_of (opts m') = map_of (opts m)"
  by (simp add: content_def)

lemma get_option_content: "content m' = content m \<Longrightarrow> get_option i m' = get_option i m"
  by (simp add: get_option_def content_def)

lemma IsLogin_content: "content m' = content m \<Longrightarrow> IsLogin s m' = IsLogin s m"
  using get_option_content[of m' m kOptionId_SessionId] by (simp add: IsLogin_def)

lemma option_length:
  assumes "msg_ok m" "get_option i m = Some r" shows "length (option_buf r) = unat (option_size r)"
proof -
  have "(i, r) \<in> set (opts m)" using assms(2) by (simp add: get_option_def map_of_SomeD)
  moreover have "\<forall>x \<in> set (opts m). option_ok (fst x) (snd x)"
    using assms(1) by (simp add: msg_ok_def opts_ok_def split_beta)
  ultimately show ?thesis by (auto simp: option_ok_def)
qed

lemma opts_size_wire: "send_data iter m = Some (bs, m1) \<Longrightarrow> msg_ok m \<Longrightarrow> permutes_all iter \<Longrightarrow> bs = wire iter m"
  by (drule (1) send_data_spec) auto

text \<open>
  Any client can make the server read beyond the option it has sent: on a message other than
  a heartbeat whose session option has fewer than 8 bytes, the check of the login reads 8.
\<close>

theorem short_session_option_overreads:
  assumes "permutes_all iter" "msg_ok m" "fits m" "send_data iter m = Some (bs, m1)"
    and "get_option kOptionId_SessionId m = Some r" "option_size r < 8" "msgtype (msg_head m) \<noteq> 101"
  shows "server_OnRead iter now onMsg b (bs @ rest) s = None"
proof -
  obtain m' where m': "decode_msg_with_head (wire iter m @ rest) = Some (Some m', rest)" "msg_ok m'"
    "content m' = content m"
    using decode_wire[OF assms(2,1,3)] by blast
  have r: "get_option kOptionId_SessionId m' = Some r" using get_option_content[OF m'(3)] assms(5) by simp
  have "length (option_buf r) < 8"
    using option_length[OF m'(2) r] assms(6) by (simp add: word_less_nat_alt)
  then have "IsLogin s m' = None" using r by (simp add: IsLogin_def read_i64_def)
  then have "handle_message iter now onMsg b m' s = None"
    using content_fields[OF m'(3)] assms(7) by (simp add: handle_message_def HandleLogin_def)
  then show ?thesis
    using m'(1) opts_size_wire[OF assms(4,2,1)] by (subst server_OnRead.simps) simp
qed

definition short_msg :: qtp_msg where
  "short_msg = new_msg\<lparr>opts := [(60001, \<lparr>option_id = 60001, option_size = 1, option_buf = [0]\<rparr>)]\<rparr>"

theorem short_session_option_overreads_witness:
  "server_OnRead (\<lambda>os. os) 0 (signal_onMessage (\<lambda>_. True)) 1
     (fst (the (send_data (\<lambda>os. os) short_msg)) @ []) new_server_end = None"
proof -
  have ok: "msg_ok short_msg" "fits short_msg"
    by (simp_all add: short_msg_def new_msg_def msg_ok_def buf_ok_def opts_ok_def option_ok_def fits_def opts_size_def)
  have p: "permutes_all (\<lambda>os. os)" by (simp add: permutes_all_def)
  obtain bs m1 where s: "send_data (\<lambda>os. os) short_msg = Some (bs, m1)" using send_data_spec[OF ok(1) p] by blast
  show ?thesis
    unfolding s option.sel fst_conv
    by (rule short_session_option_overreads[OF p ok s,
        where r = "\<lparr>option_id = 60001, option_size = 1, option_buf = [0]\<rparr>"])
      (simp_all add: short_msg_def get_option_def kOptionId_defs new_msg_def new_head_def)
qed

text \<open>
  The answer to a subscription is queued and written by the next turn of the loop to the
  first of the connections, whichever connection \<open>b\<close> has subscribed; it says ``failed.''
  for every text that parses.
\<close>

theorem subscription_answer_goes_to_first:
  assumes "permutes_all iter" "msg_ok m" "opts_size (opts m) < 2 ^ 16" "IsLogin s m = Some True"
    and "msgtype (msg_head m) = 1003" "parses (body m)" "msg_to_clients s = []" "bev_set s \<noteq> {}"
  shows "\<exists>s1 s2 bs m'. handle_message iter now (signal_onMessage parses) b m s = Some s1 \<and>
    server_OnLoop iter begin_of s1 = Some s2 \<and> written s2 = written s @ [(begin_of (bev_set s), bs)] \<and>
    decode_msg_with_head bs = Some (Some m', []) \<and> msgtype (msg_head m') = 1004 \<and>
    body m' = chars ''failed.'' @ [0] \<and> map_of (opts m') = map_of (opts m)"
proof -
  obtain r i where r: "get_option kOptionId_SessionId m = Some r" "read_i64 r = Some i"
    using assms(4) by (auto simp: IsLogin_def split: option.splits)
  have d: "buf_bytes (data_len m) (data_buf m) = Some (body m)"
    using buf_bytes_ok[of "data_len m" "data_buf m"] assms(2) by (simp add: msg_ok_def body_def)
  obtain m1 where m1: "set_data (Some (chars ''failed.'' @ [0])) (set_msgtype 1004 m) = Some (True, m1)" "msg_ok m1"
    "opts m1 = opts m" "body m1 = chars ''failed.'' @ [0]" "data_len m1 = 8" "msgtype (msg_head m1) = 1004"
    using set_data_spec[of "set_msgtype 1004 m" "chars ''failed.'' @ [0]"] assms(2)
    by (auto simp: set_msgtype_def chars_def)
  have h: "handle_message iter now (signal_onMessage parses) b m s = Some (PushMsgToClient m1 s)"
    using assms(4-6) r d m1(1)
    by (simp add: handle_message_def signal_onMessage_def HandleSubscribe_def ResponseMsg_def)
  obtain m2 where m2: "send_data iter m1 = Some (wire iter m1, m2)" using send_data_spec[OF m1(2) assms(1)] by blast
  have "fits m1" using assms(3) m1(3,5) by (simp add: fits_def)
  then obtain m' where m': "decode_msg_with_head (wire iter m1 @ []) = Some (Some m', [])" "content m' = content m1"
    using decode_wire[OF m1(2) assms(1)] by blast
  have "server_OnLoop iter begin_of (PushMsgToClient m1 s) =
      Some (write_to (begin_of (bev_set s)) (wire iter m1) (s\<lparr>msg_to_clients := []\<rparr>))"
    using assms(7,8) m2 by (simp add: server_OnLoop_def PushMsgToClient_def HandleMsgToClient_def send_to_def)
  then show ?thesis using h m' content_fields[OF m'(2)] m1(3,4,6) by (auto simp: write_to_def)
qed

definition demo_sub :: qtp_msg where
  "demo_sub = new_msg\<lparr>msg_head := new_head\<lparr>msgtype := 1003\<rparr>,
     opts := [(60001, \<lparr>option_id = 60001, option_size = 8, option_buf = [1, 0, 0, 0, 0, 0, 0, 0]\<rparr>)]\<rparr>"

definition demo_server :: server_end where
  "demo_server = new_server_end\<lparr>bev_set := {1, 2}, session_logined := {1}, cur_session_id := 1\<rparr>"

theorem subscription_answer_goes_to_first_witness:
  "\<exists>s1 s2 bs m'. handle_message (\<lambda>os. os) 0 (signal_onMessage (\<lambda>_. True)) 2 demo_sub demo_server = Some s1 \<and>
    server_OnLoop (\<lambda>os. os) Min s1 = Some s2 \<and> written s2 = written demo_server @ [(Min (bev_set demo_server), bs)] \<and>
    decode_msg_with_head bs = Some (Some m', []) \<and> msgtype (msg_head m') = 1004 \<and>
    body m' = chars ''failed.'' @ [0] \<and> map_of (opts m') = map_of (opts demo_sub)"
  by (rule subscription_answer_goes_to_first)
    (simp_all add: demo_sub_def demo_server_def new_server_end_def new_msg_def new_head_def permutes_all_def msg_ok_def
      buf_ok_def opts_ok_def option_ok_def opts_size_def IsLogin_def get_option_def read_i64_def kOptionId_defs)

end
