(* ===== verification/LinkClient.thy ===== *)
theory LinkClient
  imports Linker
begin

text \<open>
  The test client of \<^verbatim>\<open>src/linker/c1/main.cpp\<close>: the configuration file, the class \<^verbatim>\<open>TestClient\<close>
  with its session, heartbeat and queue of messages, the file of a prepared case, and one turn
  of the input loop of \<^verbatim>\<open>main\<close>.

  The files the program reads are the parameter \<open>files\<close>, \<^verbatim>\<open>json::parse\<close> is the predicate
  \<open>parses\<close> of the texts it accepts (it throws on the others, which ends the program: \<open>None\<close>),
  and \<open>up\<close> says whether the client has a connection to write to.
\<close>

section \<open>The configuration file\<close>

definition newline :: char where "newline = CHR 0x0A"

text \<open>
  \<^verbatim>\<open>istream::getline(buf, n)\<close> on what is left of a stream: the characters stored, the rest,
  and whether the end of the file and a failure are flagged.
\<close>

definition istream_getline :: "nat \<Rightarrow> string \<Rightarrow> string \<times> string \<times> bool \<times> bool" where
  "istream_getline n s =
     (let l = takeWhile (\<lambda>c. c \<noteq> newline) s
      in if length l < n \<and> length l < length s then (l, drop (length l + 1) s, False, False)
         else if length s < n then (s, [], True, s = [])
         else (take (n - 1) s, drop (n - 1) s, False, True))"

definition c_str :: "string \<Rightarrow> string" where
  "c_str s = takeWhile (\<lambda>c. c \<noteq> CHR 0x00) s"

text \<open>After a failed \<^verbatim>\<open>getline\<close> the next one stores the empty line, which ends the search.\<close>

function config_loop :: "string \<Rightarrow> string \<Rightarrow> string option" where
  "config_loop key s =
     (let (tmp, rest, eof, fail) = istream_getline 1000 s;
          line = c_str tmp;
          pos = str_find line ''='' 0
      in if pos = npos then None
         else if key = take pos line then Some (drop (pos + 1) line)
         else if eof \<or> fail then None
         else config_loop key rest)"
  by pat_completeness auto
termination
  by (relation "measure (\<lambda>(key, s). length s)") (auto simp: istream_getline_def Let_def split: if_splits)

declare config_loop.simps [simp del]

definition readConfigFile :: "string option \<Rightarrow> string \<Rightarrow> string option" where
  "readConfigFile file_text key = (case file_text of None \<Rightarrow> None | Some s \<Rightarrow> config_loop key s)"

section \<open>The client\<close>

record test_client =
  session_id :: u64
  last_heart_beat_time :: int
  msg_queue :: "qtp_msg list"
  sent :: "byte list"

definition new_test_client :: test_client where
  "new_test_client = \<lparr>session_id = 0, last_heart_beat_time = 0, msg_queue = [], sent = []\<rparr>"

definition client_send :: "bool \<Rightarrow> byte list \<Rightarrow> test_client \<Rightarrow> test_client" where
  "client_send up bs c = (if up then c\<lparr>sent := sent c @ bs\<rparr> else c)"

text \<open>Sending \<open>n\<close> bytes of a buffer.\<close>

definition send_buf :: "bool \<Rightarrow> nat \<Rightarrow> byte list option \<Rightarrow> test_client \<Rightarrow> test_client option" where
  "send_buf up n buf c =
     (if n = 0 then Some c
      else case buf of
             None \<Rightarrow> None
           | Some b \<Rightarrow> (if length b < n then None else Some (client_send up (take n b) c)))"

definition SendMsg :: "bool \<Rightarrow> qtp_msg \<Rightarrow> test_client \<Rightarrow> test_client option" where
  "SendMsg up m c =
     (case send_buf up (unat (optslen (msg_head m))) (opt_buf m) (client_send up (head_bytes (msg_head m)) c) of
        None \<Rightarrow> None
      | Some c1 \<Rightarrow> send_buf up (unat (datalen (msg_head m))) (data_buf m) c1)"

definition enqueue_msg :: "qtp_msg \<Rightarrow> test_client \<Rightarrow> test_client option" where
  "enqueue_msg m c = map_option (\<lambda>m1. c\<lparr>msg_queue := msg_queue c @ [m1]\<rparr>) (copy_msg m)"

definition SendHeartBeat :: "test_client \<Rightarrow> test_client option" where
  "SendHeartBeat c = enqueue_msg (set_msgtype 101 new_msg) c"

definition SendLogin :: "test_client \<Rightarrow> test_client option" where
  "SendLogin c = enqueue_msg (set_msgtype (word_of_nat (msgt_code kMtCmnLogin)) new_msg) c"

definition subscribe_text :: string where
  "subscribe_text = ''{'' @ [newline] @ replicate 16 (CHR '' '') @ [CHR 0x22] @ ''formular_name'' @ [CHR 0x22] @ '': '' @
     [CHR 0x22] @ ''CashflowZSpread'' @ [CHR 0x22, newline] @ replicate 12 (CHR '' '') @ ''}''"

definition unsubscribe_text :: string where
  "unsubscribe_text = ''{'' @ [newline] @ replicate 16 (CHR '' '') @ [CHR 0x22] @ ''formular_name'' @ [CHR 0x22] @ '': '' @
     [CHR 0x22] @ ''CashflowZSpread000'' @ [CHR 0x22, newline] @ replicate 12 (CHR '' '') @ ''}''"

definition disconnect_text :: "u64 \<Rightarrow> string" where
  "disconnect_text i = ''{'' @ [CHR 0x22] @ ''session_id'' @ [CHR 0x22] @ '':'' @ show_int (sint i) @ ''}''"

text \<open>\<open>msg.set_data(d)\<close> followed by the rest of the steps.\<close>

definition with_data :: "byte list \<Rightarrow> qtp_msg \<Rightarrow> qtp_msg option" where
  "with_data d m = map_option snd (set_data (Some d) m)"

definition type_is :: "u16 \<Rightarrow> FactorMsgT \<Rightarrow> bool" where
  "type_is t f \<longleftrightarrow> unat t = msgt_code f"

definition fill_by_type ::
  "(options \<Rightarrow> options) \<Rightarrow> (string \<Rightarrow> byte list) \<Rightarrow> (byte list \<Rightarrow> bool) \<Rightarrow> u16 \<Rightarrow> u64 \<Rightarrow> qtp_msg \<Rightarrow> qtp_msg option" where
  "fill_by_type iter files parses t sid m =
     (if type_is t kMtFactorCalc
      then Option.bind (with_data (files ''sample_cal.json'') m)
             (\<lambda>m1. Option.bind (add_option_i64 iter kOptionId_ReqId 888888 m1)
                (add_option_i64 iter kOptionId_ServerTime 123456))
      else if type_is t kMtCmnSubscribe then with_data (chars subscribe_text) m
      else if type_is t kMtCmnUnsubscribe then with_data (chars unsubscribe_text) m
      else if type_is t kMtFactorConf
      then (let config = files ''factors_mass.json'' @ [0]
            in if parses config then with_data config m else None)
      else if type_is t kMtCmnClientDisconnected then with_data (chars (disconnect_text sid)) m
      else Some m)"

definition SendOnMsgType ::
  "(options \<Rightarrow> options) \<Rightarrow> (string \<Rightarrow> byte list) \<Rightarrow> (byte list \<Rightarrow> bool) \<Rightarrow> u16 \<Rightarrow> byte list \<Rightarrow> test_client \<Rightarrow>
   test_client option" where
  "SendOnMsgType iter files parses t d c =
     Option.bind (add_option_i64 iter kOptionId_SessionId (session_id c) (set_msgtype t new_msg)) (\<lambda>m1.
     Option.bind (if d \<noteq> [] then with_data d m1 else Some m1) (\<lambda>m2.
     Option.bind (fill_by_type iter files parses t (session_id c) m2) (\<lambda>m3.
     Option.bind (encode iter m3)
       (\<lambda>m4. enqueue_msg m4 (if type_is t kMtCmnClientDisconnected then c\<lparr>session_id := 0\<rparr> else c)))))"

definition RawEnqueue :: "(options \<Rightarrow> options) \<Rightarrow> u16 \<Rightarrow> byte list \<Rightarrow> test_client \<Rightarrow> test_client option" where
  "RawEnqueue iter t d c =
     Option.bind (add_option_i64 iter kOptionId_SessionId (session_id c) new_msg) (\<lambda>m1.
     Option.bind (add_option_i64 iter kOptionId_ReqId 888888 m1) (\<lambda>m2.
     Option.bind (with_data (d @ [0]) (set_msgtype t m2)) (\<lambda>m3.
     Option.bind (encode iter m3) (\<lambda>m4. enqueue_msg m4 c))))"

section \<open>Reading\<close>

definition answer_types :: "FactorMsgT list" where
  "answer_types = [kMtFactorCalcAns, kMtFactorConfAns, kMtCmnQueryFormularAns, kMtCmnQueryFactorAns,
     kMtCmnUnsubscribeAns, kMtCmnSubscribeAns, kMtModifyFormularTypeAns, kMtQueryFormularTypeAns, kMtCmnFactorOperAns,
     kMtCmnQueryFormularTreeAns, kMtCmnFactorSupplementAns]"

text \<open>What the client prints of an answer: the request id, the server's time and the text.\<close>

definition read_or_zero :: "int \<Rightarrow> qtp_msg \<Rightarrow> u64 option" where
  "read_or_zero i m = (case get_option i m of None \<Rightarrow> Some 0 | Some r \<Rightarrow> read_i64 r)"

definition show_answer :: "qtp_msg \<Rightarrow> (u64 \<times> u64 \<times> byte list) option" where
  "show_answer m =
     (case read_or_zero kOptionId_ReqId m of
        None \<Rightarrow> None
      | Some q \<Rightarrow>
          (case read_or_zero kOptionId_ServerTime m of
             None \<Rightarrow> None
           | Some t \<Rightarrow> map_option (\<lambda>d. (q, t, d)) (buf_bytes (data_len m) (data_buf m))))"

definition read_message :: "qtp_msg \<Rightarrow> test_client \<Rightarrow> test_client option" where
  "read_message m c =
     (let t = msgtype (msg_head m)
      in if type_is t kMtCmnLoginAns
         then (case get_option kOptionId_SessionId m of
                 None \<Rightarrow> None
               | Some r \<Rightarrow> map_option (\<lambda>i. c\<lparr>session_id := i\<rparr>) (read_i64 r))
         else if list_ex (type_is t) answer_types \<or> type_is t kMtCmnPublish
         then map_option (\<lambda>_. c) (show_answer m)
         else Some c)"

function client_OnRead :: "byte list \<Rightarrow> test_client \<Rightarrow> (byte list \<times> test_client) option" where
  "client_OnRead input c =
     (case decode_msg_with_head input of
        None \<Rightarrow> None
      | Some (None, r) \<Rightarrow> Some (r, c)
      | Some (Some m, r) \<Rightarrow>
          (case read_message m c of None \<Rightarrow> None | Some c' \<Rightarrow> client_OnRead r c'))"
  by pat_completeness auto
termination by (relation "measure (\<lambda>(input, c). length input)") (auto dest: decode_consumes)

declare client_OnRead.simps [simp del]

section \<open>The loop\<close>

fun flush_queue :: "bool \<Rightarrow> qtp_msg list \<Rightarrow> test_client \<Rightarrow> test_client option" where
  "flush_queue up [] c = Some c"
| "flush_queue up (q # qs) c =
     (case move_assign q of
        None \<Rightarrow> None
      | Some (m, _) \<Rightarrow>
          (case SendMsg up m c of None \<Rightarrow> None | Some c1 \<Rightarrow> flush_queue up qs c1))"

definition client_OnLoop ::
  "(options \<Rightarrow> options) \<Rightarrow> (string \<Rightarrow> byte list) \<Rightarrow> (byte list \<Rightarrow> bool) \<Rightarrow> bool \<Rightarrow> int \<Rightarrow> test_client \<Rightarrow> test_client option" where
  "client_OnLoop iter files parses up now c =
     Option.bind (if now - last_heart_beat_time c > 3
                  then map_option (\<lambda>c1. c1\<lparr>last_heart_beat_time := now\<rparr>) (SendOnMsgType iter files parses 101 [] c)
                  else Some c)
       (\<lambda>c1. flush_queue up (msg_queue c1) (c1\<lparr>msg_queue := []\<rparr>))"

section \<open>The prepared case and the input loop\<close>

text \<open>The lines \<^verbatim>\<open>std::getline\<close> reads from a file.\<close>

function text_lines :: "string \<Rightarrow> string list" where
  "text_lines s =
     (if s = [] then []
      else takeWhile (\<lambda>c. c \<noteq> newline) s # text_lines (drop (Suc (length (takeWhile (\<lambda>c. c \<noteq> newline) s))) s))"
  by pat_completeness auto
termination by (relation "measure length") auto

declare text_lines.simps [simp del]

fun json_lines :: "bool \<Rightarrow> string list \<Rightarrow> string list" where
  "json_lines found [] = []"
| "json_lines found (l # ls) = (if found then [l] else []) @ json_lines (found \<or> l = ''|||'') ls"

definition TestUseFile :: "(options \<Rightarrow> options) \<Rightarrow> string option \<Rightarrow> test_client \<Rightarrow> test_client option" where
  "TestUseFile iter file_text c =
     (case file_text of
        None \<Rightarrow> Some c
      | Some s \<Rightarrow>
          (case text_lines s of
             [] \<Rightarrow> RawEnqueue iter 0 [] c
           | l # ls \<Rightarrow>
               (if c_atoi l = 0 then Some c
                else RawEnqueue iter (word_of_int (c_atoi l)) (chars (concat (json_lines False ls))) c)))"

text \<open>Message types are ordered by their numbers, as the \<^verbatim>\<open>std::set\<close> of the commands holds them.\<close>

lemma msgt_code_inj: "msgt_code x = msgt_code y \<Longrightarrow> x = y"
  by (cases x; cases y) simp_all

instantiation FactorMsgT :: linorder
begin

definition "x \<le> y \<longleftrightarrow> msgt_code x \<le> msgt_code y"
definition "x < y \<longleftrightarrow> msgt_code x < msgt_code y"

instance
  by standard (auto simp: less_eq_FactorMsgT_def less_FactorMsgT_def dest: msgt_code_inj)

end

definition cmdList :: "FactorMsgT list" where
  "cmdList = sort [kMtCmnLogin, kMtCmnSubscribe, kMtCmnUnsubscribe, kMtCmnQueryFormular, kMtCmnQueryFactor,
     kMtFactorCalc, kMtFactorConf, kMtModifyFormularType, kMtQueryFormularType, kMtCmnQueryFormularTree,
     kMtCmnClientDisconnected]"

definition help_text :: string where
  "help_text = ''Number of commands supported: '' @ show_nat (length cmdList) @ [newline] @ ''    '' @
     concat (map (\<lambda>f. MessageFactorMsgT (int (msgt_code f)) @ '': '' @ show_nat (msgt_code f) @ ''    '') cmdList) @
     [newline]"

definition input_line ::
  "(options \<Rightarrow> options) \<Rightarrow> (string \<Rightarrow> byte list) \<Rightarrow> (byte list \<Rightarrow> bool) \<Rightarrow> string option \<Rightarrow> string \<Rightarrow> test_client \<Rightarrow>
   (string \<times> test_client) option" where
  "input_line iter files parses case_xml str c =
     (let t = word_of_int (c_atoi str) :: u16
      in if str = [] then Some ([], c)
         else if str = ''='' then map_option (Pair []) (TestUseFile iter case_xml c)
         else if \<not> list_ex (type_is t) cmdList then Some (help_text, c)
         else map_option (Pair []) (SendOnMsgType iter files parses t [] c))"

section \<open>The configuration file is a table\<close>

text \<open>Lines \<open>key=value\<close> that fit the buffer.\<close>

definition config_line :: "string \<times> string \<Rightarrow> string" where
  "config_line kv = fst kv @ ''='' @ snd kv @ [newline]"

definition config_ok :: "string \<times> string \<Rightarrow> bool" where
  "config_ok kv \<longleftrightarrow> CHR ''='' \<notin> set (fst kv) \<and> newline \<notin> set (fst kv @ snd kv) \<and>
     CHR 0x00 \<notin> set (fst kv @ snd kv) \<and> length (fst kv) + length (snd kv) + 1 < 1000"

lemma getline_config_line:
  assumes "config_ok kv"
  shows "istream_getline 1000 (config_line kv @ rest) = (fst kv @ ''='' @ snd kv, rest, False, False)"
proof -
  have "takeWhile (\<lambda>c. c \<noteq> newline) (config_line kv @ rest) = fst kv @ ''='' @ snd kv"
    using assms by (auto simp: config_line_def config_ok_def newline_def takeWhile_append)
  then show ?thesis
    using assms by (simp add: istream_getline_def config_line_def config_ok_def Let_def)
qed

lemma find_equals:
  assumes "CHR ''='' \<notin> set k" shows "str_find (k @ ''='' @ v) ''='' 0 = length k"
proof -
  let ?s = "k @ ''='' @ v"
  have "find (\<lambda>i. i + 1 \<le> length ?s \<and> take 1 (drop i ?s) = ''='') [0..<Suc (length ?s)] = Some (length k)"
    unfolding find_upt_Some
  proof (intro conjI allI impI)
    fix j assume j: "j < length k"
    then have "take 1 (drop j ?s) = [k ! j]" by (simp add: take_Suc_conv_app_nth nth_append hd_drop_conv_nth take_Suc)
    moreover have "k ! j \<noteq> CHR ''=''" using assms j nth_mem by metis
    ultimately show "\<not> (j + 1 \<le> length ?s \<and> take 1 (drop j ?s) = ''='')" by simp
  qed simp_all
  then show ?thesis by (simp add: str_find_def)
qed

lemma config_loop_line:
  assumes "config_ok kv"
  shows "config_loop key (config_line kv @ rest) = (if key = fst kv then Some (snd kv) else config_loop key rest)"
proof -
  let ?l = "fst kv @ ''='' @ snd kv"
  have c: "c_str ?l = ?l" using assms by (auto simp: c_str_def config_ok_def takeWhile_eq_all_conv)
  have f: "str_find ?l ''='' 0 = length (fst kv)" using find_equals assms by (simp add: config_ok_def)
  have n: "length (fst kv) \<noteq> npos" using assms by (simp add: config_ok_def npos_def)
  show ?thesis
    using n by (subst config_loop.simps) (simp only: getline_config_line[OF assms] Let_def prod.case c f, simp)
qed

lemma readConfigFile_table:
  assumes "list_all config_ok kvs"
  shows "readConfigFile (Some (concat (map config_line kvs))) key = map_of kvs key"
  using assms
proof (induction kvs)
  case Nil
  have "find (\<lambda>i. i + 1 \<le> 0 \<and> take 1 (drop i []) = ''='') [0..<Suc 0] = None" by simp
  then have "str_find (c_str []) ''='' 0 = npos" by (simp add: str_find_def c_str_def)
  then show ?case by (simp add: readConfigFile_def config_loop.simps[of key "[]"] istream_getline_def)
next
  case (Cons kv kvs)
  then show ?case by (cases kv) (simp add: readConfigFile_def config_loop_line)
qed

text \<open>
  A file of lines \<open>key=value\<close> is read as a table: the value of the first line with the key,
  and no value when no line has it.
\<close>

theorem readConfigFile_is_map:
  assumes "list_all config_ok kvs"
  shows "readConfigFile (Some (concat (map config_line kvs))) key = map_of kvs key"
  by (rule readConfigFile_table[OF assms])

theorem readConfigFile_is_map_witness:
  "readConfigFile (Some (concat (map config_line [(''ip'', ''::1''), (''port'', ''8888'')]))) ''port'' =
     map_of [(''ip'', ''::1''), (''port'', ''8888'')] ''port''"
  by (rule readConfigFile_is_map) (simp add: config_ok_def newline_def)

section \<open>Messages on their way through the queue\<close>

text \<open>
  A message whose buffer holds its options in the order \<open>os\<close>, as \<open>encode\<close> leaves it.
\<close>

definition encoded_as :: "options \<Rightarrow> qtp_msg \<Rightarrow> bool" where
  "encoded_as os m \<longleftrightarrow> msg_ok m \<and> opts_ok os \<and> map_of (opts m) = map_of os \<and> opt_len m = opts_size os \<and>
     buf_take (opt_len m) (opt_buf m) = encode_opts os \<and> optslen (msg_head m) = word_of_nat (opts_size os) \<and>
     datalen (msg_head m) = word_of_nat (data_len m)"

lemma encoded_asD:
  assumes "encoded_as os m"
  shows "msg_ok m" "opts_ok os" "opts_ok (opts m)" "map_of (opts m) = map_of os" "opt_len m = opts_size os"
    "buf_take (opts_size os) (opt_buf m) = encode_opts os" "optslen (msg_head m) = word_of_nat (opts_size os)"
    "datalen (msg_head m) = word_of_nat (data_len m)" "buf_ok (data_len m) (data_buf m)"
    "buf_ok (opts_size os) (opt_buf m)"
  using assms unfolding encoded_as_def msg_ok_def by metis+

lemma encode_encoded:
  assumes "msg_ok m" "permutes_all iter"
  shows "\<exists>m'. encode iter m = Some m' \<and> encoded_as (iter (opts m)) m' \<and> content m' = content m \<and>
    data_len m' = data_len m"
proof -
  note p = permutesD[OF assms(2), of "opts m"]
  obtain b where b: "encode iter m = Some (m\<lparr>opt_len := opts_size (opts m), opt_buf := b,
      msg_head := (msg_head m)\<lparr>optslen := word_of_nat (opts_size (opts m)), datalen := word_of_nat (data_len m)\<rparr>\<rparr>)"
    "buf_ok (opts_size (opts m)) b" "buf_take (opts_size (opts m)) b = encode_opts (iter (opts m))"
    using encode_spec[OF assms] by blast
  have "opts_ok (opts m)" using assms(1) by (simp add: msg_ok_def)
  then show ?thesis
    using b p assms(1) map_of_permute[OF assms(2), of "opts m"]
    by (simp add: encoded_as_def msg_ok_def content_def body_def)
qed

lemma same_options:
  assumes "opts_ok os" "opts_ok os'" "map_of os = map_of os'"
  shows "mset os = mset os'" "opts_size os = opts_size os'"
proof -
  have d: "distinct (map fst os)" "distinct (map fst os')" using assms(1,2) by (simp_all add: opts_ok_def)
  then have "set os = set os'" using assms(3) map_of_inject_set by blast
  then show m: "mset os = mset os'" using d distinct_map set_eq_iff_mset_eq_distinct by metis
  have "mset (map (\<lambda>(k, r). unat (option_size r) + 4) os) = mset (map (\<lambda>(k, r). unat (option_size r) + 4) os')"
    using m by simp
  then show "opts_size os = opts_size os'" unfolding opts_size_def by (metis sum_mset_sum_list)
qed

lemma encoded_size: "encoded_as os m \<Longrightarrow> opts_size (opts m) = opts_size os"
  using same_options(2)[of "opts m" os] by (simp add: encoded_as_def msg_ok_def)

definition encoded_bytes :: "options \<Rightarrow> qtp_msg \<Rightarrow> byte list" where
  "encoded_bytes os m = head_bytes (msg_head m) @ encode_opts os @ body m"

lemma decode_encoded:
  assumes "encoded_as os m" "fits m"
  shows "\<exists>m'. decode_msg_with_head (encoded_bytes os m @ rest) = Some (Some m', rest) \<and> msg_ok m' \<and> content m' = content m"
proof -
  let ?it = "\<lambda>x. if x = opts m then os else x"
  note ok = encoded_asD(1)[OF assms(1)]
  have "opts_ok (opts m)" using encoded_asD(3)[OF assms(1)] .
  then have "mset (opts m) = mset os" using same_options(1)[of "opts m" os] assms(1) by (simp add: encoded_as_def)
  then have p: "permutes_all ?it" by (simp add: permutes_all_def)
  have "wire_head m = msg_head m" using assms(1) encoded_size[OF assms(1)] by (simp add: wire_head_def encoded_as_def)
  then have "wire ?it m = encoded_bytes os m" by (simp add: wire_def encoded_bytes_def)
  then show ?thesis using decode_wire[OF ok p assms(2), of rest] by simp
qed

lemma opts_size_zero: "opts_size os = 0 \<Longrightarrow> os = []"
  by (cases os) (auto simp: opts_size_def)

lemma buf_take_Nil: "buf_ok n buf \<Longrightarrow> buf_take n buf = [] \<Longrightarrow> n = 0"
  by (auto simp: buf_ok_def buf_take_def split: option.splits)

lemma encoded_parse:
  assumes "encoded_as os m"
  shows "\<exists>m'. parse_options m = Some m' \<and> encoded_as os m' \<and> content m' = content m \<and> data_len m' = data_len m"
proof -
  note os = encoded_asD(2)[OF assms] and mo = encoded_asD(3,1)[OF assms]
  have all: "\<forall>(k, r) \<in> set os. option_ok k r" using os by (simp add: opts_ok_def)
  obtain post where post: "(case opt_buf m of None \<Rightarrow> [] | Some b \<Rightarrow> b) = encode_opts os @ post"
  proof (cases "opt_buf m")
    case None
    then have "encode_opts os = []" using assms by (simp add: encoded_as_def buf_take_def)
    then show ?thesis using None that[of "[]"] by simp
  next
    case (Some b)
    then have "b = encode_opts os @ drop (opts_size os) b"
      using encoded_asD(6)[OF assms] append_take_drop_id[of "opts_size os" b] by (simp add: buf_take_def)
    then show ?thesis using Some that by simp
  qed
  have "parse_loop (encode_opts os @ post) (opts_size os) 0 (opts m) = Some (put_all os (opts m))"
    using parse_loop_encode[OF all, of "[]" post "opts m"] by simp
  then have eq: "parse_options m = Some (m\<lparr>opts := put_all os (opts m)\<rparr>)"
    using post assms by (simp add: parse_options_def encoded_as_def)
  have "map_of (rev os) = map_of os"
    using os by (subst map_of_inject_set) (simp_all add: opts_ok_def rev_map[symmetric])
  then have "map_of (put_all os (opts m)) = map_of (opts m)"
    using assms by (intro ext) (simp add: map_of_put_all encoded_as_def split: option.splits)
  then show ?thesis
    using eq encoded_asD[OF assms] put_all_ok[OF mo(1) all] by (simp add: encoded_as_def msg_ok_def content_def body_def)
qed

lemma move_encoded:
  assumes "encoded_as os m"
  shows "\<exists>m' x. move_assign m = Some (m', x) \<and> encoded_as os m' \<and> content m' = content m \<and> data_len m' = data_len m"
  using encoded_parse[OF assms] by (auto simp: move_assign_def)

lemma copy_encoded:
  assumes "encoded_as os m"
  shows "\<exists>m'. copy_msg m = Some m' \<and> encoded_as os m' \<and> content m' = content m \<and> data_len m' = data_len m"
proof -
  note ok = encoded_asD(9,10)[OF assms]
  let ?m0 = "set_head (msg_head m) new_msg"
  obtain b m1 where m1: "set_options (map_option (take (opt_len m)) (opt_buf m)) ?m0 = Some (b, m1)"
    "opt_len m1 = opts_size os" "buf_take (opt_len m1) (opt_buf m1) = encode_opts os" "map_of (opts m1) = map_of os"
    "msg_ok m1" "msg_head m1 = msg_head m" "data_len m1 = 0" "data_buf m1 = None"
  proof (cases "opt_buf m")
    case None
    then have "os = []" using ok(2) opts_size_zero by (simp add: buf_ok_def)
    then show ?thesis
      using None by (intro that[of False ?m0])
        (simp_all add: set_options_def set_head_def new_msg_def msg_ok_def buf_ok_def opts_ok_def opts_size_def
          buf_take_def encode_opts_def)
  next
    case (Some ob)
    have t: "take (opt_len m) ob = encode_opts os" "length (encode_opts os) = opts_size os"
      using encoded_asD(2,5,6)[OF assms] Some length_encode_opts[of os] by (simp_all add: buf_take_def opts_ok_def)
    define mm where "mm = ?m0\<lparr>opt_len := opts_size os, opt_buf := (if opts_size os = 0 then None else Some (encode_opts os))\<rparr>"
    have st: "set_options (map_option (take (opt_len m)) (opt_buf m)) ?m0 = map_option (Pair True) (parse_options mm)"
      using Some t by (auto simp: set_options_def set_head_def new_msg_def grow_def memcpy_def mm_def)
    have pl: "parse_loop (case opt_buf mm of None \<Rightarrow> [] | Some b \<Rightarrow> b) (opts_size os) 0 [] = Some (put_all os [])"
      using parse_loop_encode[of os "[]" "[]" "[]"] assms t opts_size_zero[of os]
      by (auto simp: mm_def encoded_as_def opts_ok_def)
    have po: "parse_options mm = Some (mm\<lparr>opts := put_all os []\<rparr>)"
      using pl by (simp add: parse_options_def) (simp add: mm_def set_head_def new_msg_def)
    have os: "opts_ok os" using assms by (simp add: encoded_as_def)
    then have ok': "opts_ok (put_all os [])" using put_all_ok[of "[]" os] by (simp add: opts_ok_def)
    show ?thesis
      using st po t ok' map_of_put_all_nil[OF os] opts_size_zero[of os]
      by (intro that[of True "mm\<lparr>opts := put_all os []\<rparr>"])
        (auto simp: mm_def set_head_def new_msg_def buf_take_def msg_ok_def buf_ok_def encode_opts_def)
  qed
  have os: "opts_ok os" using assms by (simp add: encoded_as_def)
  show ?thesis
  proof (cases "data_buf m")
    case None
    then have dl: "data_len m = 0" using ok(1) by (simp add: buf_ok_def)
    have e: "encoded_as os (reset_body m1)"
      using m1 os assms dl by (simp add: encoded_as_def reset_body_def msg_ok_def buf_ok_def)
    obtain m' where m': "parse_options (reset_body m1) = Some m'" "encoded_as os m'" "content m' = content (reset_body m1)"
      "data_len m' = 0"
      using encoded_parse[OF e] by (auto simp: reset_body_def)
    have "copy_msg m = Some m'" using m1(1) None m'(1) by (simp add: copy_msg_def assign_def set_data_def)
    moreover have "content (reset_body m1) = content m"
      using m1(4,6) encoded_asD(4)[OF assms] None by (simp add: content_def reset_body_def body_def buf_take_def)
    ultimately show ?thesis using m' dl by simp
  next
    case (Some db)
    have ld: "length (take (data_len m) db) = data_len m" using ok(1) Some by (simp add: buf_ok_def)
    obtain m2 where m2: "set_data (Some (take (data_len m) db)) m1 = Some (True, m2)" "msg_ok m2" "opts m2 = opts m1"
      "body m2 = take (data_len m) db" "data_len m2 = data_len m"
      "msg_head m2 = (msg_head m1)\<lparr>datalen := word_of_nat (data_len m)\<rparr>" "opt_len m2 = opt_len m1" "opt_buf m2 = opt_buf m1"
      using set_data_spec[OF m1(5), of "take (data_len m) db"] ld by auto
    have e: "encoded_as os m2" using m1 m2 os assms by (simp add: encoded_as_def)
    obtain m' where m': "parse_options m2 = Some m'" "encoded_as os m'" "content m' = content m2" "data_len m' = data_len m2"
      using encoded_parse[OF e] by blast
    have "copy_msg m = Some m'" using m1(1) Some m2(1) m'(1) by (simp add: copy_msg_def assign_def)
    moreover have "content m2 = content m"
      using m1(4,6) m2(3,4,6) encoded_asD(4)[OF assms] Some by (simp add: content_def) (simp add: body_def buf_take_def)
    ultimately show ?thesis using m' m2(5) by simp
  qed
qed

section \<open>What the client sends\<close>

lemma client_send_send: "client_send up b (client_send up a c) = client_send up (a @ b) c"
  by (simp add: client_send_def)

lemma send_buf_ok: "buf_ok n buf \<Longrightarrow> send_buf up n buf c = Some (client_send up (buf_take n buf) c)"
  by (auto simp: send_buf_def buf_ok_def buf_take_def client_send_def split: option.splits)

lemma SendMsg_encoded:
  assumes "encoded_as os m" "fits m"
  shows "SendMsg up m c = Some (client_send up (encoded_bytes os m) c)"
proof -
  have n: "unat (optslen (msg_head m)) = opts_size os" "unat (datalen (msg_head m)) = data_len m"
    using encoded_asD(7,8)[OF assms(1)] encoded_size[OF assms(1)] assms(2)
    by (simp_all add: fits_def unat_of_nat take_bit_nat_eq_self)
  show ?thesis
    using encoded_asD(6,9,10)[OF assms(1)]
    by (simp add: SendMsg_def n send_buf_ok client_send_send encoded_bytes_def body_def)
qed

lemma encoded_fits:
  assumes "encoded_as os m" "encoded_as os m'" "data_len m' = data_len m" "fits m" shows "fits m'"
  using assms encoded_size[OF assms(1)] encoded_size[OF assms(2)] by (simp add: fits_def)

text \<open>A message that is queued is written whole by the next turn of the loop.\<close>

lemma queued_is_sent:
  assumes "permutes_all iter" "msg_ok m" "fits m" "msg_queue c = []"
  shows "\<exists>c1 bs. Option.bind (encode iter m) (\<lambda>m1. enqueue_msg m1 c) = Some c1 \<and> session_id c1 = session_id c \<and>
    last_heart_beat_time c1 = last_heart_beat_time c \<and>
    (\<forall>now. now - last_heart_beat_time c \<le> 3 \<longrightarrow>
      client_OnLoop iter files parses True now c1 = Some (c\<lparr>sent := sent c @ bs\<rparr>)) \<and>
    (\<forall>rest. \<exists>m'. decode_msg_with_head (bs @ rest) = Some (Some m', rest) \<and> msg_ok m' \<and> content m' = content m)"
proof -
  let ?os = "iter (opts m)"
  obtain m1 where m1: "encode iter m = Some m1" "encoded_as ?os m1" "content m1 = content m" "data_len m1 = data_len m"
    using encode_encoded[OF assms(2,1)] by blast
  obtain m2 where m2: "copy_msg m1 = Some m2" "encoded_as ?os m2" "content m2 = content m1" "data_len m2 = data_len m1"
    using copy_encoded[OF m1(2)] by blast
  obtain m3 x where m3: "move_assign m2 = Some (m3, x)" "encoded_as ?os m3" "content m3 = content m2"
    "data_len m3 = data_len m2"
    using move_encoded[OF m2(2)] by blast
  have "opts_size ?os = opts_size (opts m)" using permutesD(3)[OF assms(1)] .
  then have f: "fits m3" using assms(3) m1(4) m2(4) m3(4) encoded_size[OF m3(2)] by (simp add: fits_def)
  have s: "SendMsg True m3 c' = Some (client_send True (encoded_bytes ?os m3) c')" for c'
    using SendMsg_encoded[OF m3(2) f] .
  have l: "client_OnLoop iter files parses True now (c\<lparr>msg_queue := [m2]\<rparr>) = Some (c\<lparr>sent := sent c @ encoded_bytes ?os m3\<rparr>)"
    if "now - last_heart_beat_time c \<le> 3" for now
    using that assms(4) m3(1) s by (simp add: client_OnLoop_def client_send_def)
  show ?thesis
    by (rule exI[of _ "c\<lparr>msg_queue := [m2]\<rparr>"], rule exI[of _ "encoded_bytes ?os m3"])
      (use m1 m2 m3 l assms(4) decode_encoded[OF m3(2) f] in \<open>simp add: enqueue_msg_def\<close>)
qed

text \<open>Messages with at most \<open>k\<close> options of 8 bytes.\<close>

definition small :: "nat \<Rightarrow> qtp_msg \<Rightarrow> bool" where
  "small k m \<longleftrightarrow> msg_ok m \<and> (\<forall>r \<in> ran (map_of (opts m)). option_size r = 8) \<and> card (dom (map_of (opts m))) \<le> k"

lemma small_opts_size:
  assumes "small k m" shows "opts_size (opts m) \<le> 12 * k"
proof -
  have d: "distinct (map fst (opts m))" using assms by (simp add: small_def msg_ok_def opts_ok_def)
  have r: "option_size r = 8" if "(i, r) \<in> set (opts m)" for i r
    using assms that d by (auto simp: small_def ran_def)
  have "opts_size (opts m) = sum_list (map (\<lambda>_. 12) (opts m))"
    unfolding opts_size_def using r by (intro arg_cong[of _ _ sum_list] map_cong) auto
  also have "\<dots> = 12 * length (opts m)" by (simp add: sum_list_triv)
  also have "length (opts m) = card (dom (map_of (opts m)))"
    using d by (metis dom_map_of_conv_image_fst distinct_card length_map list.set_map)
  finally show ?thesis using assms by (simp add: small_def)
qed

lemma small_add:
  assumes "small k m" "permutes_all iter"
  shows "\<exists>m'. add_option_i64 iter i v m = Some m' \<and> small (Suc k) m' \<and> body m' = body m \<and> data_len m' = data_len m \<and>
    msgtype (msg_head m') = msgtype (msg_head m) \<and>
    map_of (opts m') = (map_of (opts m))(i mod 2 ^ 16 \<mapsto> \<lparr>option_id = word_of_int i, option_size = 8, option_buf = le 8 (unat v)\<rparr>)"
proof -
  let ?r = "\<lparr>option_id = word_of_int i, option_size = 8, option_buf = le 8 (unat v)\<rparr> :: option_request"
  have ok: "msg_ok m" using assms(1) by (simp add: small_def)
  obtain m' where m': "add_option_i64 iter i v m = Some m'" "msg_ok m'" "map_of (opts m') = (map_of (opts m))(i mod 2 ^ 16 \<mapsto> ?r)"
    using add_option_i64_spec[OF ok assms(2)] by blast
  have "data_len m' = data_len m \<and> data_buf m' = data_buf m \<and> msgtype (msg_head m') = msgtype (msg_head m)"
    using m'(1) by (auto simp: add_option_i64_def add_option_def encode_def Let_def split: option.splits)
  moreover have "card (dom (map_of (opts m'))) \<le> Suc k"
    using assms(1) unfolding m'(3) small_def dom_fun_upd by (simp add: card_insert_if finite_dom_map_of)
  moreover have "\<forall>r \<in> ran (map_of (opts m')). option_size r = 8"
    using assms(1) unfolding m'(3) small_def by (auto simp: ran_def)
  ultimately show ?thesis using m' by (simp add: small_def body_def)
qed

lemma small_new: "small 0 (set_msgtype t new_msg)"
  by (simp add: small_def set_msgtype_def new_msg_def msg_ok_def buf_ok_def opts_ok_def)

lemma small_mono: "small k m \<Longrightarrow> k \<le> j \<Longrightarrow> small j m"
  by (auto simp: small_def)

lemma small_with_data:
  assumes "small k m"
  shows "\<exists>m'. with_data d m = Some m' \<and> small k m' \<and> opts m' = opts m \<and> data_len m' = length d \<and>
    msgtype (msg_head m') = msgtype (msg_head m) \<and> body m' = d"
  using set_data_spec[of m d] assms by (auto simp: with_data_def small_def)

end
