(* ===== verification/LinkRound.thy ===== *)
theory LinkRound
  imports LinkClient
begin

text \<open>
  The test client and the login server together: a login over the wire, the messages of a
  logged-in session, and the answers to heartbeats. The two ends may iterate their tables of
  options in different orders.
\<close>

section \<open>The messages of the client\<close>

definition session_option :: "u64 \<Rightarrow> option_request" where
  "session_option i = \<lparr>option_id = word_of_int kOptionId_SessionId, option_size = 8, option_buf = le 8 (unat i)\<rparr>"

lemma read_session_option [simp]: "read_i64 (session_option i) = Some i"
  using unle_le_unat[of 8 i] by (simp add: session_option_def read_i64_def)

definition sizes_fit :: "(string \<Rightarrow> byte list) \<Rightarrow> byte list \<Rightarrow> bool" where
  "sizes_fit files d \<longleftrightarrow> length d < 2 ^ 32 \<and> length (files ''sample_cal.json'') < 2 ^ 32 \<and>
     length (files ''factors_mass.json'') + 1 < 2 ^ 32"

definition conf_parses :: "(string \<Rightarrow> byte list) \<Rightarrow> (byte list \<Rightarrow> bool) \<Rightarrow> u16 \<Rightarrow> bool" where
  "conf_parses files parses t \<longleftrightarrow> (type_is t kMtFactorConf \<longrightarrow> parses (files ''factors_mass.json'' @ [0]))"

lemma show_nat_length: "n < 10 ^ k \<Longrightarrow> length (show_nat n) \<le> max 1 k"
proof (induction k arbitrary: n)
  case 0
  then show ?case by (subst show_nat.simps) simp
next
  case (Suc k)
  show ?case
  proof (cases "n < 10")
    case True
    then show ?thesis by (subst show_nat.simps) simp
  next
    case False
    then have k: "k \<noteq> 0" using Suc.prems by (cases k) auto
    have "n div 10 < 10 ^ k" using Suc.prems by (simp add: div_less_iff_less_mult mult.commute)
    then show ?thesis using Suc.IH[of "n div 10"] k False by (subst show_nat.simps) simp
  qed
qed

lemma disconnect_text_length: "length (disconnect_text i) < 2 ^ 32"
proof -
  have "- (2 ^ 63) \<le> sint i" "sint i < 2 ^ 63" using sint_greater_eq[of i] sint_less[of i] by simp_all
  then have "nat (sint i) < 10 ^ 20" "nat (- sint i) < 10 ^ 20" by simp_all
  then have "length (show_int (sint i)) \<le> 21"
    using show_nat_length[of "nat (sint i)" 20] show_nat_length[of "nat (- sint i)" 20] by (simp add: show_int_def)
  then show ?thesis by (simp add: disconnect_text_def)
qed

lemma texts_length: "length (chars subscribe_text) < 2 ^ 32" "length (chars unsubscribe_text) < 2 ^ 32"
  by (simp_all add: chars_def subscribe_text_def unsubscribe_text_def)

lemma session_key [simp]: "kOptionId_SessionId mod 65536 = kOptionId_SessionId" "kOptionId_ReqId mod 65536 = kOptionId_ReqId"
  "kOptionId_ServerTime mod 65536 = kOptionId_ServerTime"
  by (simp_all add: kOptionId_defs)

lemma new_body: "body (set_msgtype t new_msg) = []" "data_len (set_msgtype t new_msg) = 0"
  "msgtype (msg_head (set_msgtype t new_msg)) = t"
  by (simp_all add: body_def buf_take_def set_msgtype_def new_msg_def)

text \<open>A message of type \<open>t\<close> with the session \<open>i\<close>.\<close>

definition speaks :: "u16 \<Rightarrow> u64 \<Rightarrow> qtp_msg \<Rightarrow> bool" where
  "speaks t i m \<longleftrightarrow> msgtype (msg_head m) = t \<and> get_option kOptionId_SessionId m = Some (session_option i)"

lemma fill_by_type_spec:
  assumes "permutes_all iter" "small 1 m" "speaks t i m" "data_len m < 2 ^ 32" "sizes_fit files []"
    and "conf_parses files parses t"
  shows "\<exists>m'. fill_by_type iter files parses t i m = Some m' \<and> small 3 m' \<and> speaks t i m' \<and> data_len m' < 2 ^ 32"
proof -
  have data: "\<exists>m'. with_data d m = Some m' \<and> small 1 m' \<and> speaks t i m' \<and> data_len m' < 2 ^ 32" if "length d < 2 ^ 32" for d
    using small_with_data[OF assms(2), of d] that assms(3) by (auto simp: speaks_def get_option_def)
  have other: "fill_by_type iter files parses t i m = Some m \<or>
      (\<exists>d. fill_by_type iter files parses t i m = with_data d m \<and> length d < 2 ^ 32)"
    if "\<not> type_is t kMtFactorCalc" "\<not> type_is t kMtFactorConf"
  proof -
    have "length (chars (disconnect_text i)) < 2 ^ 32" using disconnect_text_length by (simp add: chars_def)
    then show ?thesis using that texts_length by (simp only: fill_by_type_def if_False) (metis (full_types))
  qed
  consider (calc) "type_is t kMtFactorCalc" | (conf) "type_is t kMtFactorConf" "\<not> type_is t kMtFactorCalc"
    | (texts) d where "fill_by_type iter files parses t i m = with_data d m" "length d < 2 ^ 32"
    | (plain) "fill_by_type iter files parses t i m = Some m"
    using other by blast
  then show ?thesis
  proof cases
    case calc
    obtain m1 where m1: "with_data (files ''sample_cal.json'') m = Some m1" "small 1 m1" "speaks t i m1" "data_len m1 < 2 ^ 32"
      using data[of "files ''sample_cal.json''"] assms(5) by (auto simp: sizes_fit_def)
    obtain m2 where m2: "add_option_i64 iter kOptionId_ReqId 888888 m1 = Some m2" "small 2 m2" "data_len m2 = data_len m1"
      "msgtype (msg_head m2) = msgtype (msg_head m1)"
      "get_option kOptionId_SessionId m2 = get_option kOptionId_SessionId m1"
      using small_add[OF m1(2) assms(1), of kOptionId_ReqId 888888]
      by (auto simp: get_option_def numeral_2_eq_2 kOptionId_defs)
    obtain m3 where m3: "add_option_i64 iter kOptionId_ServerTime 123456 m2 = Some m3" "small 3 m3" "data_len m3 = data_len m2"
      "msgtype (msg_head m3) = msgtype (msg_head m2)"
      "get_option kOptionId_SessionId m3 = get_option kOptionId_SessionId m2"
      using small_add[OF m2(2) assms(1), of kOptionId_ServerTime 123456]
      by (auto simp: get_option_def numeral_3_eq_3 numeral_2_eq_2 kOptionId_defs)
    show ?thesis using calc m1 m2 m3 by (simp add: fill_by_type_def speaks_def)
  next
    case conf
    then have ts: "\<not> type_is t kMtCmnSubscribe" "\<not> type_is t kMtCmnUnsubscribe" by (simp_all add: type_is_def)
    have "length (files ''factors_mass.json'' @ [0]) < 2 ^ 32" using assms(5) by (simp add: sizes_fit_def)
    from data[OF this] show ?thesis
      using conf ts assms(6) small_mono[of 1 _ 3] by (fastforce simp: fill_by_type_def conf_parses_def Let_def)
  next
    case texts
    then show ?thesis using data small_mono[of 1 _ 3] by fastforce
  next
    case plain
    then show ?thesis using assms(2-4) small_mono[of 1 m 3] by simp
  qed
qed

text \<open>The client after it has queued a message of type \<open>t\<close>.\<close>

definition after_sending :: "u16 \<Rightarrow> test_client \<Rightarrow> test_client" where
  "after_sending t c = (if type_is t kMtCmnClientDisconnected then c\<lparr>session_id := 0\<rparr> else c)"

lemma SendOnMsgType_sends:
  assumes "permutes_all iter" "sizes_fit files d" "msg_queue c = []"
    and "conf_parses files parses t"
  shows "\<exists>c1 bs m. SendOnMsgType iter files parses t d c = Some c1 \<and> speaks t (session_id c) m \<and>
    session_id c1 = session_id (after_sending t c) \<and>
    (\<forall>now. now - last_heart_beat_time c \<le> 3 \<longrightarrow>
      client_OnLoop iter files parses True now c1 = Some ((after_sending t c)\<lparr>sent := sent c @ bs\<rparr>)) \<and>
    (\<forall>rest. \<exists>m'. decode_msg_with_head (bs @ rest) = Some (Some m', rest) \<and> msg_ok m' \<and> content m' = content m) \<and>
    small 3 m \<and> (\<not> list_ex (type_is t) [kMtFactorCalc, kMtCmnSubscribe, kMtCmnUnsubscribe, kMtFactorConf, kMtCmnClientDisconnected] \<longrightarrow>
      body m = d)"
proof -
  obtain m1 where m1: "add_option_i64 iter kOptionId_SessionId (session_id c) (set_msgtype t new_msg) = Some m1"
    "small 1 m1" "body m1 = []" "data_len m1 = 0" "msgtype (msg_head m1) = t"
    "get_option kOptionId_SessionId m1 = Some (session_option (session_id c))"
    using small_add[OF small_new assms(1), of kOptionId_SessionId "session_id c" t]
    by (auto simp: get_option_def session_option_def new_body)
  obtain m2 where m2: "(if d \<noteq> [] then with_data d m1 else Some m1) = Some m2" "small 1 m2" "data_len m2 < 2 ^ 32"
    "speaks t (session_id c) m2" "body m2 = d"
  proof (cases "d = []")
    case True
    then show ?thesis using m1 by (intro that[of m1]) (simp_all add: speaks_def)
  next
    case False
    obtain m2 where m2: "with_data d m1 = Some m2" "small 1 m2" "opts m2 = opts m1" "data_len m2 = length d"
      "msgtype (msg_head m2) = msgtype (msg_head m1)" "body m2 = d"
      using small_with_data[OF m1(2), of d] by blast
    then show ?thesis
      using False assms(2) m1 by (intro that[of m2]) (simp_all add: speaks_def get_option_def sizes_fit_def)
  qed
  have sf: "sizes_fit files []" using assms(2) by (simp add: sizes_fit_def)
  obtain m3 where m3: "fill_by_type iter files parses t (session_id c) m2 = Some m3" "small 3 m3"
    "speaks t (session_id c) m3" "data_len m3 < 2 ^ 32"
    using fill_by_type_spec[OF assms(1) m2(2,4,3) sf assms(4)] by blast
  have ok: "msg_ok m3" "fits m3" using m3(2,4) small_opts_size[OF m3(2)] by (simp_all add: small_def fits_def)
  have q: "msg_queue (after_sending t c) = []" using assms(3) by (simp add: after_sending_def)
  obtain c1 bs where c1: "Option.bind (encode iter m3) (\<lambda>m. enqueue_msg m (after_sending t c)) = Some c1"
    "session_id c1 = session_id (after_sending t c)"
    "\<forall>now. now - last_heart_beat_time (after_sending t c) \<le> 3 \<longrightarrow>
      client_OnLoop iter files parses True now c1 = Some ((after_sending t c)\<lparr>sent := sent (after_sending t c) @ bs\<rparr>)"
    "\<forall>rest. \<exists>m'. decode_msg_with_head (bs @ rest) = Some (Some m', rest) \<and> msg_ok m' \<and> content m' = content m3"
    using queued_is_sent[OF assms(1) ok q, of files parses] by blast
  have "SendOnMsgType iter files parses t d c = Some c1"
    unfolding SendOnMsgType_def using m1(1) m2(1) m3(1) c1(1) by (simp add: after_sending_def)
  moreover have "sent (after_sending t c) = sent c" "last_heart_beat_time (after_sending t c) = last_heart_beat_time c"
    by (simp_all add: after_sending_def)
  moreover have "body m3 = d" if "\<not> list_ex (type_is t) [kMtFactorCalc, kMtCmnSubscribe, kMtCmnUnsubscribe, kMtFactorConf, kMtCmnClientDisconnected]"
    using that m3(1) m2(5) by (simp add: fill_by_type_def)
  ultimately show ?thesis using c1 m3(2,3) by metis
qed

section \<open>The server reads one message\<close>

lemma decode_empty: "decode_msg_with_head [] = Some (None, [])"
  by (simp add: decode_msg_with_head_def MSG_HEAD_SIZE_def)

lemma OnRead_one:
  assumes "decode_msg_with_head bs = Some (Some m, [])"
  shows "server_OnRead iter now onMsg b bs s =
    (case handle_message iter now onMsg b m s of None \<Rightarrow> None | Some s' \<Rightarrow> Some ([], s'))"
  using assms
  by (subst server_OnRead.simps) (simp add: server_OnRead.simps[of _ _ _ _ "[]"] decode_empty split: option.splits)

lemma client_OnRead_one:
  assumes "decode_msg_with_head bs = Some (Some m, [])"
  shows "client_OnRead bs c = (case read_message m c of None \<Rightarrow> None | Some c' \<Rightarrow> Some ([], c'))"
  using assms
  by (subst client_OnRead.simps) (simp add: client_OnRead.simps[of "[]"] decode_empty split: option.splits)

lemma IsLogin_speaks: "speaks t i m \<Longrightarrow> IsLogin s m = Some (i \<in> session_logined s)"
  by (simp add: IsLogin_def speaks_def)

lemma small_fits: "small k m \<Longrightarrow> k \<le> 5000 \<Longrightarrow> data_len m < 2 ^ 32 \<Longrightarrow> fits m"
  using small_opts_size[of k m] by (simp add: fits_def)

lemma content_small:
  assumes "content m' = content m" "msg_ok m'" "small k m" shows "small k m'" "data_len m' = data_len m"
proof -
  show "small k m'" using assms by (simp add: small_def content_def)
  have "length (body x) = data_len x" if "msg_ok x" for x
    using that by (auto simp: msg_ok_def buf_ok_def body_def buf_take_def split: option.splits)
  then show "data_len m' = data_len m" using assms by (metis content_fields small_def)
qed

lemma add_option_written:
  assumes "permutes_all iter" "small k m" "k < 5000" "data_len m < 2 ^ 32"
  shows "\<exists>m1 bs m'. add_option_i64 iter i v m = Some m1 \<and>
    send_to iter b m1 s = Some (write_to b bs s) \<and>
    decode_msg_with_head bs = Some (Some m', []) \<and> msgtype (msg_head m') = msgtype (msg_head m) \<and> body m' = body m \<and>
    map_of (opts m') = (map_of (opts m))(i mod 2 ^ 16 \<mapsto> \<lparr>option_id = word_of_int i, option_size = 8, option_buf = le 8 (unat v)\<rparr>)"
proof -
  obtain m1 where m1: "add_option_i64 iter i v m = Some m1" "small (Suc k) m1" "body m1 = body m" "data_len m1 = data_len m"
    "msgtype (msg_head m1) = msgtype (msg_head m)"
    "map_of (opts m1) = (map_of (opts m))(i mod 2 ^ 16 \<mapsto> \<lparr>option_id = word_of_int i, option_size = 8, option_buf = le 8 (unat v)\<rparr>)"
    using small_add[OF assms(2,1), of i v] by blast
  have ok: "msg_ok m1" "fits m1" using m1 small_fits[OF m1(2)] assms(3,4) by (simp_all add: small_def)
  obtain m2 where m2: "send_data iter m1 = Some (wire iter m1, m2)" using send_data_spec[OF ok(1) assms(1)] by blast
  obtain m' where m': "decode_msg_with_head (wire iter m1 @ []) = Some (Some m', [])" "content m' = content m1"
    using decode_wire[OF ok(1) assms(1) ok(2)] by blast
  have "send_to iter b m1 s = Some (write_to b (wire iter m1) s)" using m2 by (simp add: send_to_def)
  then show ?thesis
    using m1 m' content_fields[OF m'(2)]
    by (intro exI[of _ m1] exI[of _ "wire iter m1"] exI[of _ m']) simp
qed

section \<open>Logging in\<close>

text \<open>
  C7. A login over the wire: the client without a session queues a login and its loop writes
  it; the server gives out a fresh id, answers on the same connection, and the client that
  reads the answer has that id as its session, which the server accepts from then on.
\<close>

theorem login_round_trip:
  assumes "permutes_all iter" "permutes_all iter'" "sizes_fit files []" "msg_queue c = []" "sent c = []"
    and "session_id c = 0" "now - last_heart_beat_time c \<le> 3"
    and "sessions_ok s" "unat (cur_session_id s) + 1 < 2 ^ 64"
  shows "\<exists>c1 c2 s1 reply c3. SendOnMsgType iter files parses 1001 [] c = Some c1 \<and>
    client_OnLoop iter files parses True now c1 = Some c2 \<and>
    server_OnRead iter' t onMsg b (sent c2) s = Some ([], s1) \<and> written s1 = written s @ [(b, reply)] \<and>
    client_OnRead reply c2 = Some ([], c3) \<and> session_id c3 = cur_session_id s + 1 \<and>
    session_id c3 \<notin> session_logined s \<and> session_id c3 \<in> session_logined s1"
proof -
  have cp: "conf_parses files parses 1001" by (simp add: conf_parses_def type_is_def)
  have as: "after_sending 1001 c = c" by (simp add: after_sending_def type_is_def)
  obtain c1 bs m where c1: "SendOnMsgType iter files parses 1001 [] c = Some c1" "speaks 1001 0 m" "small 3 m" "body m = []"
    "client_OnLoop iter files parses True now c1 = Some (c\<lparr>sent := bs\<rparr>)"
    "\<forall>rest. \<exists>m'. decode_msg_with_head (bs @ rest) = Some (Some m', rest) \<and> msg_ok m' \<and> content m' = content m"
    using SendOnMsgType_sends[OF assms(1,3,4) cp] assms(5,6,7) as by (fastforce simp: type_is_def)
  obtain m' where m': "decode_msg_with_head bs = Some (Some m', [])" "msg_ok m'" "content m' = content m"
    using c1(6)[rule_format, of "[]"] by auto
  have sp: "speaks 1001 0 m'"
    using c1(2) content_fields[OF m'(3)] get_option_content[OF m'(3)] by (simp add: speaks_def)
  have sm: "small 3 m'" using content_small(1)[OF m'(3,2) c1(3)] .
  have "length (body m') = data_len m'"
    using m'(2) by (auto simp: msg_ok_def buf_ok_def body_def buf_take_def split: option.splits)
  then have dl: "data_len m' = 0" using content_fields[OF m'(3)] c1(4) by simp
  let ?i = "cur_session_id s + 1" and ?a = "set_msgtype 1002 m'"
  let ?s = "s\<lparr>cur_session_id := ?i, session_logined := insert ?i (session_logined s)\<rparr>"
  note nx = sessions_ok_next[OF assms(8,9)]
  have a: "small 3 ?a" "data_len ?a < 2 ^ 32" using sm dl by (simp_all add: small_def set_msgtype_def)
  obtain m1 reply m2 where r: "add_option_i64 iter' kOptionId_SessionId ?i ?a = Some m1"
    "send_to iter' b m1 ?s = Some (write_to b reply ?s)" "decode_msg_with_head reply = Some (Some m2, [])"
    "msgtype (msg_head m2) = 1002" "get_option kOptionId_SessionId m2 = Some (session_option ?i)"
    using add_option_written[OF assms(2) a(1) _ a(2), of kOptionId_SessionId ?i b ?s]
    by (auto simp: get_option_def session_option_def set_msgtype_def)
  have "0 \<notin> session_logined s" using assms(8) by (simp add: sessions_ok_def)
  then have "IsLogin s m' = Some False" using IsLogin_speaks[OF sp] by simp
  then have h: "handle_message iter' t onMsg b m' s = Some (write_to b reply ?s)"
    using sp r(1,2) by (simp add: handle_message_def HandleLogin_def speaks_def Let_def)
  have "read_message m2 c' = Some (c'\<lparr>session_id := ?i\<rparr>)" for c'
    using r(4,5) by (simp add: read_message_def type_is_def)
  then have "client_OnRead reply (c\<lparr>sent := bs\<rparr>) = Some ([], c\<lparr>sent := bs, session_id := ?i\<rparr>)"
    by (simp add: client_OnRead_one[OF r(3)])
  then show ?thesis
    using c1(1,5) OnRead_one[OF m'(1), of iter' t onMsg b s] h nx(3) by (auto simp: write_to_def)
qed

theorem login_round_trip_witness:
  "\<exists>c1 c2 s1 reply c3. SendOnMsgType (\<lambda>os. os) (\<lambda>_. []) (\<lambda>_. True) 1001 [] new_test_client = Some c1 \<and>
    client_OnLoop (\<lambda>os. os) (\<lambda>_. []) (\<lambda>_. True) True 2 c1 = Some c2 \<and>
    server_OnRead rev 0 (signal_onMessage (\<lambda>_. True)) 1 (sent c2) new_server_end = Some ([], s1) \<and>
    written s1 = written new_server_end @ [(1, reply)] \<and>
    client_OnRead reply c2 = Some ([], c3) \<and> session_id c3 = cur_session_id new_server_end + 1 \<and>
    session_id c3 \<notin> session_logined new_server_end \<and> session_id c3 \<in> session_logined s1"
  by (rule login_round_trip)
    (auto simp: permutes_all_def sizes_fit_def new_test_client_def new_server_end_def sessions_ok_def)



end
