(* ===== verification/GateServer.thy ===== *)
theory GateServer
  imports Linker
begin

text \<open>
  The gateway server of \<^verbatim>\<open>src/linker/l1/linker_impl_server.cpp\<close>: accepting and closing
  connections with their count, and the reading loop \<^verbatim>\<open>XTcpServer::OnRead\<close>, which takes heads
  and bodies off the buffer itself. Message types are those of \<^verbatim>\<open>linker/include/msg.h\<close>.

  What is left of the buffer is \<open>Some\<close> bytes, or \<open>None\<close> once the connection is closed; the
  whole result is \<open>None\<close> when bytes beyond an allocation are read.
\<close>

section \<open>Messages\<close>

text \<open>\<^verbatim>\<open>OptionRequestId\<close> is packed: two 16-bit fields and one of 64 bits.\<close>

record option_request_id =
  rid :: u16
  rsize :: u16
  rbuf :: u64

definition sizeof_OptionRequestId :: nat where "sizeof_OptionRequestId = 12"

definition new_option_request_id :: option_request_id where
  "new_option_request_id = \<lparr>rid = word_of_int kOptionId_ReqId, rsize = 8, rbuf = 0\<rparr>"

definition option_request_id_bytes :: "option_request_id \<Rightarrow> byte list" where
  "option_request_id_bytes r = le 2 (unat (rid r)) @ le 2 (unat (rsize r)) @ le 8 (unat (rbuf r))"

definition kMtHeartBeat :: u16 where "kMtHeartBeat = 101"
definition kMtHeartBeatAns :: u16 where "kMtHeartBeatAns = 102"
definition kMtSubscribe :: u16 where "kMtSubscribe = 105"
definition kMtUnsubscribe :: u16 where "kMtUnsubscribe = 106"

section \<open>The server\<close>

record gate =
  connect_count :: int
  gate_closed :: "nat list"
  gate_written :: "(nat \<times> byte list) list"

definition new_gate :: gate where
  "new_gate = \<lparr>connect_count = 0, gate_closed = [], gate_written = []\<rparr>"

definition gate_OnAccept :: "nat \<Rightarrow> gate \<Rightarrow> gate" where
  "gate_OnAccept b g = g\<lparr>connect_count := connect_count g + 1\<rparr>"

definition gate_Close :: "nat \<Rightarrow> gate \<Rightarrow> gate" where
  "gate_Close b g = g\<lparr>gate_closed := gate_closed g @ [b]\<rparr>"

definition gate_OnEvent :: "nat \<Rightarrow> bev_event set \<Rightarrow> gate \<Rightarrow> gate" where
  "gate_OnEvent b events g =
     (if broken events then (gate_Close b g)\<lparr>connect_count := connect_count g - 1\<rparr> else g)"

definition gate_write :: "nat \<Rightarrow> byte list \<Rightarrow> gate \<Rightarrow> gate" where
  "gate_write b bs g = g\<lparr>gate_written := gate_written g @ [(b, bs)]\<rparr>"

text \<open>The answer to a heartbeat reuses the head of the request.\<close>

definition heartbeat_answer :: "u64 \<Rightarrow> msg_head \<Rightarrow> byte list" where
  "heartbeat_answer now h =
     head_bytes (h\<lparr>msgtype := kMtHeartBeatAns, optslen := word_of_nat sizeof_OptionRequestId\<rparr>) @
     option_request_id_bytes (new_option_request_id\<lparr>rid := word_of_int kOptionId_ServerTime, rbuf := now\<rparr>)"

text \<open>The switch on the type of a message, with the input after its head and options.\<close>

definition gate_message :: "u64 \<Rightarrow> nat \<Rightarrow> msg_head \<Rightarrow> byte list \<Rightarrow> gate \<Rightarrow> byte list \<times> gate" where
  "gate_message now b h input g =
     (if msgtype h = kMtHeartBeat
      then (drop (unat (datalen h)) input, gate_write b (heartbeat_answer now h) g)
      else if msgtype h = kMtSubscribe \<or> msgtype h = kMtUnsubscribe then (input, g)
      else (drop (unat (datalen h)) input, g))"

function gate_OnRead :: "u64 \<Rightarrow> nat \<Rightarrow> byte list \<Rightarrow> gate \<Rightarrow> (byte list option \<times> gate) option" where
  "gate_OnRead now b input g =
     (let h = head_of input;
          in1 = drop MSG_HEAD_SIZE input;
          in2 = drop (unat (optslen h)) in1
      in if length input < MSG_HEAD_SIZE then Some (Some input, g)
         else if length input < MSG_HEAD_SIZE + unat (optslen h) + unat (datalen h) then Some (Some input, g)
         else if version h = 1 then Some (None, gate_Close b g)
         else if optslen h \<noteq> 0 \<and> unat (optslen h) < sizeof_OptionRequestId then None
         else (case gate_message now b h in2 g of (rest, g1) \<Rightarrow> gate_OnRead now b rest g1))"
  by pat_completeness auto
termination
  by (relation "measure (\<lambda>(now, b, input, g). length input)")
    (auto simp: gate_message_def MSG_HEAD_SIZE_def split: if_splits)

declare gate_OnRead.simps [simp del]

section \<open>Heartbeats\<close>

lemma gate_step:
  assumes "length opt = unat (optslen h)" "length d = unat (datalen h)" "version h \<noteq> 1"
    and "optslen h = 0 \<or> 12 \<le> unat (optslen h)"
  shows "gate_OnRead now b (head_bytes h @ opt @ d @ rest) g =
    (case gate_message now b h (d @ rest) g of (r, g1) \<Rightarrow> gate_OnRead now b r g1)"
proof -
  let ?in = "head_bytes h @ opt @ d @ rest"
  have f: "head_of ?in = h" "drop MSG_HEAD_SIZE ?in = opt @ d @ rest"
    using drop_append[of MSG_HEAD_SIZE "head_bytes h"] by (simp_all add: head_of_head_bytes)
  have l: "\<not> length ?in < MSG_HEAD_SIZE" "\<not> length ?in < MSG_HEAD_SIZE + unat (optslen h) + unat (datalen h)"
    "drop (unat (optslen h)) (opt @ d @ rest) = d @ rest" "\<not> (optslen h \<noteq> 0 \<and> unat (optslen h) < sizeof_OptionRequestId)"
    using assms by (auto simp: sizeof_OptionRequestId_def)
  show ?thesis using assms(3) l(4) by (subst gate_OnRead.simps) (simp only: Let_def f l if_False)
qed

lemma gate_empty: "gate_OnRead now b [] g = Some (Some [], g)"
  by (simp add: gate_OnRead.simps MSG_HEAD_SIZE_def Let_def)

text \<open>
  A heartbeat is answered by one message that the client's decoder reads whole when the
  heartbeat has no body: it has the type of the answer and the server's time as its option.
\<close>

theorem heartbeat_answered:
  assumes "length opt = unat (optslen h)" "msgtype h = kMtHeartBeat" "datalen h = 0" "version h \<noteq> 1"
    and "optslen h = 0 \<or> 12 \<le> unat (optslen h)"
  shows "\<exists>bs m. gate_OnRead now b (head_bytes h @ opt) g = Some (Some [], gate_write b bs g) \<and>
    decode_msg_with_head bs = Some (Some m, []) \<and> msgtype (msg_head m) = kMtHeartBeatAns \<and>
    Option.bind (get_option kOptionId_ServerTime m) read_i64 = Some now"
proof -
  let ?r = "\<lparr>option_id = word_of_int kOptionId_ServerTime, option_size = 8, option_buf = le 8 (unat now)\<rparr> :: option_request"
  let ?m = "new_msg\<lparr>msg_head := h\<lparr>msgtype := kMtHeartBeatAns\<rparr>, opts := [(kOptionId_ServerTime, ?r)]\<rparr>"
  have ok: "msg_ok ?m" "fits ?m" "permutes_all (\<lambda>x. x)"
    by (simp_all add: msg_ok_def new_msg_def buf_ok_def opts_ok_def option_ok_def fits_def opts_size_def permutes_all_def
        kOptionId_defs)
  have dz: "h\<lparr>msgtype := kMtHeartBeatAns, optslen := 12, datalen := 0\<rparr> = h\<lparr>msgtype := kMtHeartBeatAns, optslen := 12\<rparr>"
    using assms(3) by (cases h) simp
  have w: "wire (\<lambda>x. x) ?m = heartbeat_answer now h"
    by (simp add: wire_def wire_head_def new_msg_def opts_size_def dz encode_opts_def option_bytes_def body_def
        buf_take_def heartbeat_answer_def option_request_id_bytes_def new_option_request_id_def sizeof_OptionRequestId_def)
  obtain m where m: "decode_msg_with_head (heartbeat_answer now h @ []) = Some (Some m, [])" "content m = content ?m"
    using decode_wire[OF ok(1,3,2), of "[]"] unfolding w by blast
  have "gate_OnRead now b (head_bytes h @ opt) g = Some (Some [], gate_write b (heartbeat_answer now h) g)"
    using gate_step[OF assms(1) _ assms(4,5), of "[]" now b "[]" g] assms(2,3) by (simp add: gate_message_def gate_empty)
  moreover have "get_option kOptionId_ServerTime m = Some ?r"
    using get_option_content[OF m(2), of kOptionId_ServerTime] by (simp add: get_option_def)
  moreover have "read_i64 ?r = Some now" using unle_le_unat[of 8 now] by (simp add: read_i64_def)
  ultimately show ?thesis using m content_fields[OF m(2)] by auto
qed

theorem heartbeat_answered_witness:
  "\<exists>bs m. gate_OnRead 5 1 (head_bytes (new_head\<lparr>msgtype := 101\<rparr>) @ []) new_gate = Some (Some [], gate_write 1 bs new_gate) \<and>
    decode_msg_with_head bs = Some (Some m, []) \<and> msgtype (msg_head m) = kMtHeartBeatAns \<and>
    Option.bind (get_option kOptionId_ServerTime m) read_i64 = Some 5"
  by (rule heartbeat_answered) (simp_all add: new_head_def kMtHeartBeat_def)

text \<open>
  The body of a subscription stays in the buffer and is taken for the next messages: a
  client that subscribes with a body that is a heartbeat gets a heartbeat answered.
\<close>

theorem subscription_body_is_next_message:
  assumes "length opt = unat (optslen h)" "length d = unat (datalen h)" "msgtype h = kMtSubscribe \<or> msgtype h = kMtUnsubscribe"
    and "version h \<noteq> 1" "optslen h = 0 \<or> 12 \<le> unat (optslen h)"
  shows "gate_OnRead now b (head_bytes h @ opt @ d @ rest) g = gate_OnRead now b (d @ rest) g"
  using gate_step[OF assms(1,2,4,5), of now b rest g] assms(3)
  by (auto simp: gate_message_def kMtHeartBeat_def kMtSubscribe_def kMtUnsubscribe_def)

theorem subscription_body_is_next_message_witness:
  "gate_OnRead 5 1 (head_bytes (new_head\<lparr>msgtype := 105, datalen := 12\<rparr>) @ [] @ head_bytes (new_head\<lparr>msgtype := 101\<rparr>) @ []) new_gate =
   gate_OnRead 5 1 (head_bytes (new_head\<lparr>msgtype := 101\<rparr>) @ []) new_gate"
  by (rule subscription_body_is_next_message) (simp_all add: new_head_def kMtSubscribe_def MSG_HEAD_SIZE_def)

text \<open>An answer to a heartbeat with a body announces bytes that are never sent.\<close>

lemma heartbeat_with_body_incomplete:
  assumes "datalen h \<noteq> 0"
  shows "decode_msg_with_head (heartbeat_answer now h) = Some (None, heartbeat_answer now h)"
proof -
  let ?h = "h\<lparr>msgtype := kMtHeartBeatAns, optslen := word_of_nat sizeof_OptionRequestId\<rparr>"
  have "head_of (heartbeat_answer now h) = ?h" by (simp add: heartbeat_answer_def head_of_head_bytes)
  moreover have "length (heartbeat_answer now h) = 24"
    by (simp add: heartbeat_answer_def option_request_id_bytes_def MSG_HEAD_SIZE_def)
  moreover have "0 < unat (datalen h)" using assms by (simp add: unat_gt_0)
  ultimately show ?thesis
    by (simp add: decode_msg_with_head_def Let_def MSG_HEAD_SIZE_def sizeof_OptionRequestId_def)
qed

end
