(* ===== verification/MysqlDb.thy ===== *)
theory MysqlDb
  imports Prelude
begin

text \<open>
  One MySQL connection, \<^verbatim>\<open>src/database/src/mysqldb.cpp\<close>: opening and closing, the execution,
  preparation and query of statements with their retry after a lost connection, and the
  transaction calls.

  The MySQL connector is the record \<open>driver\<close> of its calls on a state of its own: each call
  answers with a value or throws, and a thrown exception is one of the three kinds the code
  distinguishes. A result \<open>Inl\<close> is an exception that leaves the operation. An uninitialised
  \<^verbatim>\<open>SQLError\<close> is the parameter \<open>garbage\<close>.
\<close>

section \<open>Results and the connector\<close>

datatype SQLError = SUCCESS | NOT_CONNECTED | EMPTY_SQL | SQL_ERROR | EMPTY_CONNECTION | TIMEOUT | STATMENT_NULL
  | MYSQL_SERVER_GONE_AWAY | SQL_EXCEPTION

datatype exn = SQLException int | StdException | OtherException

type_synonym 'a answer = "exn + 'a"

record 'd driver =
  drv_instance :: bool
  drv_connect :: "string \<Rightarrow> string \<Rightarrow> string \<Rightarrow> 'd \<Rightarrow> bool answer \<times> 'd"
  drv_valid :: "'d \<Rightarrow> bool answer \<times> 'd"
  drv_close :: "'d \<Rightarrow> 'd"
  drv_statement :: "'d \<Rightarrow> bool answer \<times> 'd"
  drv_execute :: "string \<Rightarrow> 'd \<Rightarrow> int answer \<times> 'd"
  drv_prepare :: "string \<Rightarrow> 'd \<Rightarrow> bool answer \<times> 'd"
  drv_query :: "string \<Rightarrow> 'd \<Rightarrow> bool answer \<times> 'd"
  drv_autocommit :: "bool \<Rightarrow> 'd \<Rightarrow> unit answer \<times> 'd"
  drv_savepoint :: "string \<Rightarrow> 'd \<Rightarrow> unit answer \<times> 'd"
  drv_commit :: "'d \<Rightarrow> unit answer \<times> 'd"
  drv_rollback :: "'d \<Rightarrow> unit answer \<times> 'd"
  drv_rollback_to :: "string option \<Rightarrow> 'd \<Rightarrow> unit answer \<times> 'd"

section \<open>A connection\<close>

record 'd mysqldb =
  addr_f :: string
  user_f :: string
  passwd_f :: string
  db_f :: string
  db_sn :: u64
  open_f :: bool
  connection :: bool
  point :: "string option"
  is_begin_trans :: bool
  idx :: int
  drv :: 'd

definition new_mysqldb :: "u64 \<Rightarrow> 'd \<Rightarrow> 'd mysqldb" where
  "new_mysqldb sn d = \<lparr>addr_f = [], user_f = [], passwd_f = [], db_f = [], db_sn = sn, open_f = False,
     connection = False, point = None, is_begin_trans = False, idx = 0, drv = d\<rparr>"

definition db_open :: "'d driver \<Rightarrow> (string \<Rightarrow> u64) \<Rightarrow> string \<Rightarrow> string \<Rightarrow> string \<Rightarrow> string \<Rightarrow> 'd mysqldb \<Rightarrow> bool \<times> 'd mysqldb" where
  "db_open D hash addr user passwd db s =
     (if addr = [] \<or> user = [] \<or> passwd = [] then (False, s)
      else
        (let s1 = s\<lparr>addr_f := addr, user_f := user, passwd_f := passwd, db_f := db,
                    db_sn := xor (hash addr) (push_bit 1 (hash db))\<rparr>
         in if \<not> drv_instance D then (False, s1)
            else case drv_connect D (addr @ ''/'' @ db) user passwd (drv s1) of
                   (Inr True, d) \<Rightarrow> (True, s1\<lparr>drv := d, connection := True, open_f := True\<rparr>)
                 | (_, d) \<Rightarrow> (False, s1\<lparr>drv := d\<rparr>)))"

definition db_close :: "'d driver \<Rightarrow> 'd mysqldb \<Rightarrow> 'd mysqldb" where
  "db_close D s =
     (if \<not> open_f s \<or> \<not> connection s then s\<lparr>open_f := False\<rparr>
      else s\<lparr>drv := drv_close D (drv s), open_f := False, connection := False\<rparr>)"

definition GetDbSn :: "'d mysqldb \<Rightarrow> u64" where
  "GetDbSn s = db_sn s"

definition IsOpen :: "'d mysqldb \<Rightarrow> bool" where
  "IsOpen s = (open_f s \<and> connection s)"

definition Reconnect_db :: "'d driver \<Rightarrow> (string \<Rightarrow> u64) \<Rightarrow> 'd mysqldb \<Rightarrow> bool answer \<times> 'd mysqldb" where
  "Reconnect_db D hash s =
     (let (r, s1) =
        (if \<not> connection s then (Inr (), s)
         else case drv_valid D (drv s) of
                (Inl e, d) \<Rightarrow> (Inl e, s\<lparr>drv := d\<rparr>)
              | (Inr v, d) \<Rightarrow> (Inr (), s\<lparr>drv := (if v then drv_close D d else d)\<rparr>))
      in case r of
           Inl e \<Rightarrow> (Inl e, s1)
         | Inr _ \<Rightarrow>
             (case db_open D hash (addr_f s1) (user_f s1) (passwd_f s1) (db_f s1) s1 of (b, s2) \<Rightarrow> (Inr b, s2)))"

definition db_IsValid :: "'d driver \<Rightarrow> 'd mysqldb \<Rightarrow> bool \<times> 'd mysqldb" where
  "db_IsValid D s =
     (if \<not> open_f s \<or> \<not> connection s then (False, s)
      else case drv_valid D (drv s) of
             (Inl _, d) \<Rightarrow> (False, s\<lparr>drv := d\<rparr>)
           | (Inr v, d) \<Rightarrow> (v, s\<lparr>drv := d\<rparr>))"

section \<open>Statements\<close>

text \<open>The error code after an exception: two codes of the server mean that it is gone.\<close>

fun error_of :: "exn \<Rightarrow> SQLError" where
  "error_of (SQLException c) = (if c \<noteq> 2006 \<and> c \<noteq> 2013 then SQL_EXCEPTION else MYSQL_SERVER_GONE_AWAY)"
| "error_of _ = SQL_EXCEPTION"

definition MysqlExec :: "'d driver \<Rightarrow> string \<Rightarrow> 'd mysqldb \<Rightarrow> (int \<times> SQLError) \<times> 'd mysqldb" where
  "MysqlExec D sql s =
     (if \<not> open_f s \<or> \<not> connection s then ((-1, EMPTY_CONNECTION), s)
      else if sql = [] then ((-1, EMPTY_SQL), s)
      else case drv_statement D (drv s) of
             (Inl e, d) \<Rightarrow> ((-1, error_of e), s\<lparr>drv := d\<rparr>)
           | (Inr False, d) \<Rightarrow> ((-1, STATMENT_NULL), s\<lparr>drv := d\<rparr>)
           | (Inr True, d) \<Rightarrow>
               (case drv_execute D sql d of
                  (Inl e, d') \<Rightarrow> ((-1, error_of e), s\<lparr>drv := d'\<rparr>)
                | (Inr n, d') \<Rightarrow> ((n, SUCCESS), s\<lparr>drv := d'\<rparr>)))"

text \<open>The result says whether there is a statement.\<close>

definition MysqlPrepared :: "'d driver \<Rightarrow> string \<Rightarrow> 'd mysqldb \<Rightarrow> (bool \<times> SQLError) \<times> 'd mysqldb" where
  "MysqlPrepared D sql s =
     (if \<not> open_f s \<or> \<not> connection s then ((False, NOT_CONNECTED), s)
      else if sql = [] then ((False, EMPTY_SQL), s)
      else case drv_prepare D sql (drv s) of
             (Inl e, d) \<Rightarrow> ((False, error_of e), s\<lparr>drv := d\<rparr>)
           | (Inr b, d) \<Rightarrow> ((b, SUCCESS), s\<lparr>drv := d\<rparr>))"

definition MysqlQuery :: "'d driver \<Rightarrow> string \<Rightarrow> 'd mysqldb \<Rightarrow> (bool \<times> SQLError) \<times> 'd mysqldb" where
  "MysqlQuery D sql s =
     (if \<not> open_f s \<or> \<not> connection s then ((False, NOT_CONNECTED), s)
      else if sql = [] then ((False, EMPTY_SQL), s)
      else case MysqlPrepared D sql s of
             ((False, c), s1) \<Rightarrow> ((False, if c = SUCCESS then STATMENT_NULL else c), s1)
           | ((True, c), s1) \<Rightarrow>
               (case drv_query D sql (drv s1) of
                  (Inl e, d) \<Rightarrow> ((False, error_of e), s1\<lparr>drv := d\<rparr>)
                | (Inr b, d) \<Rightarrow> ((b, SUCCESS), s1\<lparr>drv := d\<rparr>)))"

text \<open>The loop that reconnects: whether one of the attempts succeeded.\<close>

fun reconnects :: "'d driver \<Rightarrow> (string \<Rightarrow> u64) \<Rightarrow> nat \<Rightarrow> 'd mysqldb \<Rightarrow> bool answer \<times> 'd mysqldb" where
  "reconnects D hash 0 s = (Inr False, s)"
| "reconnects D hash (Suc k) s =
     (case Reconnect_db D hash s of
        (Inl e, s1) \<Rightarrow> (Inl e, s1)
      | (Inr True, s1) \<Rightarrow> (Inr True, s1)
      | (Inr False, s1) \<Rightarrow> reconnects D hash k s1)"

text \<open>
  The common body of \<open>Exec\<close>, \<open>Prepared\<close> and \<open>Query\<close>: run, and when the server is gone
  reconnect up to three times and, outside a transaction, run once more.
\<close>

definition with_retry ::
  "'d driver \<Rightarrow> (string \<Rightarrow> u64) \<Rightarrow> 'r \<Rightarrow> ('d mysqldb \<Rightarrow> ('r \<times> SQLError) \<times> 'd mysqldb) \<Rightarrow> 'd mysqldb \<Rightarrow>
   ('r \<times> SQLError) answer \<times> 'd mysqldb" where
  "with_retry D hash failed run s =
     (case run s of
        ((r, c), s1) \<Rightarrow>
          (if c \<noteq> MYSQL_SERVER_GONE_AWAY then (Inr (r, c), s1)
           else case reconnects D hash 3 s1 of
                  (Inl e, s2) \<Rightarrow> (Inl e, s2)
                | (Inr False, s2) \<Rightarrow> (Inr (failed, c), s2)
                | (Inr True, s2) \<Rightarrow>
                    (if is_begin_trans s2 then (Inr (failed, c), s2)
                     else case run s2 of (rc, s3) \<Rightarrow> (Inr rc, s3))))"

definition db_Exec :: "'d driver \<Rightarrow> (string \<Rightarrow> u64) \<Rightarrow> string \<Rightarrow> 'd mysqldb \<Rightarrow> (int \<times> SQLError) answer \<times> 'd mysqldb" where
  "db_Exec D hash sql = with_retry D hash (-1) (MysqlExec D sql)"

definition db_Prepared :: "'d driver \<Rightarrow> (string \<Rightarrow> u64) \<Rightarrow> string \<Rightarrow> 'd mysqldb \<Rightarrow> (bool \<times> SQLError) answer \<times> 'd mysqldb" where
  "db_Prepared D hash sql = with_retry D hash False (MysqlPrepared D sql)"

definition db_Query :: "'d driver \<Rightarrow> (string \<Rightarrow> u64) \<Rightarrow> string \<Rightarrow> 'd mysqldb \<Rightarrow> (bool \<times> SQLError) answer \<times> 'd mysqldb" where
  "db_Query D hash sql = with_retry D hash False (MysqlQuery D sql)"

section \<open>Transactions\<close>

text \<open>The three calls leave the error code as it was when they succeed.\<close>

definition run_unit :: "unit answer \<times> 'd \<Rightarrow> SQLError \<Rightarrow> 'd mysqldb \<Rightarrow> (int \<times> SQLError) \<times> 'd mysqldb" where
  "run_unit a code s =
     (case a of
        (Inl e, d) \<Rightarrow> ((-1, error_of e), s\<lparr>drv := d\<rparr>)
      | (Inr _, d) \<Rightarrow> ((0, code), s\<lparr>drv := d\<rparr>))"

definition MysqlAutoCommit :: "'d driver \<Rightarrow> bool \<Rightarrow> SQLError \<Rightarrow> 'd mysqldb \<Rightarrow> (int \<times> SQLError) \<times> 'd mysqldb" where
  "MysqlAutoCommit D flag code s =
     (if \<not> open_f s \<or> \<not> connection s then ((-1, EMPTY_CONNECTION), s)
      else run_unit (drv_autocommit D flag (drv s)) code s)"

definition MysqlCommit :: "'d driver \<Rightarrow> SQLError \<Rightarrow> 'd mysqldb \<Rightarrow> (int \<times> SQLError) \<times> 'd mysqldb" where
  "MysqlCommit D code s =
     (if \<not> open_f s \<or> \<not> connection s then ((-1, EMPTY_CONNECTION), s)
      else run_unit (drv_commit D (drv s)) code s)"

definition MysqlRollback :: "'d driver \<Rightarrow> bool \<Rightarrow> SQLError \<Rightarrow> 'd mysqldb \<Rightarrow> (int \<times> SQLError) \<times> 'd mysqldb" where
  "MysqlRollback D flag code s =
     (if \<not> open_f s \<or> \<not> connection s then ((-2, EMPTY_CONNECTION), s)
      else run_unit (if flag then drv_rollback_to D (point s) (drv s) else drv_rollback D (drv s)) code s)"

definition SetSavePoint :: "'d driver \<Rightarrow> 'd mysqldb \<Rightarrow> int \<times> 'd mysqldb" where
  "SetSavePoint D s =
     (if \<not> open_f s \<or> \<not> connection s then (-1, s)
      else
        (let name = ''POINT_'' @ show_int (idx s);
             s1 = s\<lparr>idx := idx s + 1\<rparr>
         in case drv_savepoint D name (drv s1) of
              (Inl (SQLException c), d) \<Rightarrow> (c, s1\<lparr>drv := d\<rparr>)
            | (Inl _, d) \<Rightarrow> (-1, s1\<lparr>drv := d\<rparr>)
            | (Inr _, d) \<Rightarrow> (0, s1\<lparr>drv := d, point := Some name\<rparr>)))"

definition BeginTrans :: "'d mysqldb \<Rightarrow> int \<times> 'd mysqldb" where
  "BeginTrans s = (0, s\<lparr>idx := 0\<rparr>)"

text \<open>After a lost connection the transaction calls reconnect and fail.\<close>

definition fail_after_reconnect :: "'d driver \<Rightarrow> (string \<Rightarrow> u64) \<Rightarrow> 'd mysqldb \<Rightarrow> int answer \<times> 'd mysqldb" where
  "fail_after_reconnect D hash s =
     (case reconnects D hash 3 s of (Inl e, s1) \<Rightarrow> (Inl e, s1) | (Inr _, s1) \<Rightarrow> (Inr (-1), s1))"

definition AutoCommit :: "'d driver \<Rightarrow> (string \<Rightarrow> u64) \<Rightarrow> SQLError \<Rightarrow> bool \<Rightarrow> 'd mysqldb \<Rightarrow> int answer \<times> 'd mysqldb" where
  "AutoCommit D hash garbage flag s =
     (case MysqlAutoCommit D flag garbage (s\<lparr>is_begin_trans := \<not> flag\<rparr>) of
        ((r, c), s1) \<Rightarrow>
          (if c \<noteq> MYSQL_SERVER_GONE_AWAY
           then (Inr r, if r \<noteq> 0 then s1\<lparr>is_begin_trans := False\<rparr> else s1)
           else fail_after_reconnect D hash (s1\<lparr>is_begin_trans := False\<rparr>)))"

definition Commit :: "'d driver \<Rightarrow> (string \<Rightarrow> u64) \<Rightarrow> SQLError \<Rightarrow> 'd mysqldb \<Rightarrow> int answer \<times> 'd mysqldb" where
  "Commit D hash garbage s =
     (case MysqlCommit D garbage s of
        ((r, c), s1) \<Rightarrow> (if c \<noteq> MYSQL_SERVER_GONE_AWAY then (Inr r, s1) else fail_after_reconnect D hash s1))"

definition Rollback :: "'d driver \<Rightarrow> (string \<Rightarrow> u64) \<Rightarrow> SQLError \<Rightarrow> bool \<Rightarrow> 'd mysqldb \<Rightarrow> int answer \<times> 'd mysqldb" where
  "Rollback D hash garbage flag s =
     (case MysqlRollback D flag garbage s of
        ((r, c), s1) \<Rightarrow> (if c \<noteq> MYSQL_SERVER_GONE_AWAY then (Inr r, s1) else fail_after_reconnect D hash s1))"

section \<open>What is executed\<close>

text \<open>
  A log of the statements the server executes: an execution is logged whether it succeeds or
  fails, and no other call executes anything.
\<close>

definition logs :: "'d driver \<Rightarrow> ('d \<Rightarrow> string list) \<Rightarrow> bool" where
  "logs D log \<longleftrightarrow>
     (\<forall>q d. log (snd (drv_execute D q d)) = log d @ [q]) \<and>
     (\<forall>c u p d. log (snd (drv_connect D c u p d)) = log d) \<and>
     (\<forall>d. log (snd (drv_valid D d)) = log d) \<and> (\<forall>d. log (drv_close D d) = log d) \<and>
     (\<forall>d. log (snd (drv_statement D d)) = log d)"

lemma logsD:
  assumes "logs D log"
  shows "drv_execute D q d = (a, d') \<Longrightarrow> log d' = log d @ [q]" "drv_connect D c u p d = (b, d') \<Longrightarrow> log d' = log d"
    "drv_valid D d = (b, d') \<Longrightarrow> log d' = log d" "log (drv_close D d) = log d" "drv_statement D d = (b, d') \<Longrightarrow> log d' = log d"
proof -
  show "drv_execute D q d = (a, d') \<Longrightarrow> log d' = log d @ [q]" using assms unfolding logs_def by (metis snd_conv)
  show "drv_connect D c u p d = (b, d') \<Longrightarrow> log d' = log d" using assms unfolding logs_def by (metis snd_conv)
  show "drv_valid D d = (b, d') \<Longrightarrow> log d' = log d" using assms unfolding logs_def by (metis snd_conv)
  show "log (drv_close D d) = log d" using assms unfolding logs_def by blast
  show "drv_statement D d = (b, d') \<Longrightarrow> log d' = log d" using assms unfolding logs_def by (metis snd_conv)
qed

lemma db_open_log:
  "logs D log \<Longrightarrow> db_open D hash addr user passwd db s = (b, s') \<Longrightarrow>
   log (drv s') = log (drv s) \<and> is_begin_trans s' = is_begin_trans s"
  by (auto simp: db_open_def Let_def split: if_splits prod.splits sum.splits bool.splits dest: logsD(2))

lemma Reconnect_db_log:
  assumes "logs D log" "Reconnect_db D hash s = (r, s')"
  shows "log (drv s') = log (drv s) \<and> is_begin_trans s' = is_begin_trans s"
proof (cases "connection s")
  case False
  then show ?thesis
    using assms(2) db_open_log[OF assms(1)] by (auto simp: Reconnect_db_def split: prod.splits)
next
  case True
  show ?thesis
  proof (cases "drv_valid D (drv s)")
    case (Pair v d)
    then have d: "log d = log (drv s)" "log (drv_close D d) = log (drv s)"
      using logsD(3,4)[OF assms(1)] by auto
    show ?thesis
    proof (cases v)
      case (Inl e)
      then show ?thesis using assms(2) True Pair d by (auto simp: Reconnect_db_def)
    next
      case (Inr w)
      let ?s = "s\<lparr>drv := (if w then drv_close D d else d)\<rparr>"
      have "db_open D hash (addr_f ?s) (user_f ?s) (passwd_f ?s) (db_f ?s) ?s = (r = Inr True, s')"
        using assms(2) True Pair Inr by (auto simp: Reconnect_db_def split: prod.splits)
      from db_open_log[OF assms(1) this] show ?thesis using d by auto
    qed
  qed
qed

lemma reconnects_log:
  assumes "logs D log" "reconnects D hash k s = (r, s')"
  shows "log (drv s') = log (drv s) \<and> is_begin_trans s' = is_begin_trans s"
  using assms(2)
proof (induction k arbitrary: s)
  case (Suc k)
  obtain r1 s1 where r1: "Reconnect_db D hash s = (r1, s1)" by fastforce
  from Reconnect_db_log[OF assms(1) this] Suc show ?case
    using r1 by (cases r1) (auto split: bool.splits)
qed simp

lemma MysqlExec_log:
  assumes "logs D log" "MysqlExec D sql s = ((n, c), s')"
  shows "is_begin_trans s' = is_begin_trans s \<and>
    (\<exists>j \<le> 1. log (drv s') = log (drv s) @ replicate j sql \<and> (c = SUCCESS \<longrightarrow> j = 1))"
proof -
  have e: "error_of x \<noteq> SUCCESS" for x by (cases x) auto
  have "is_begin_trans s' = is_begin_trans s \<and>
      (log (drv s') = log (drv s) \<and> c \<noteq> SUCCESS \<or> log (drv s') = log (drv s) @ [sql])"
    using assms e
    by (auto simp: MysqlExec_def logs_def prod.case_eq_if split: if_splits sum.splits bool.splits)
  then show ?thesis by (auto intro: exI[of _ 0] exI[of _ 1])
qed

text \<open>
  C33. \<open>Exec\<close> has the server execute a statement at most twice, and at most once within a
  transaction; it reports success only for a statement that has been executed.
\<close>

theorem exec_runs_at_most_twice:
  assumes "logs D log" "db_Exec D hash sql s = (r, s')"
  shows "\<exists>k. log (drv s') = log (drv s) @ replicate k sql \<and> k \<le> (if is_begin_trans s then 1 else 2) \<and>
    (r = Inr (n, SUCCESS) \<longrightarrow> 1 \<le> k)"
proof -
  obtain n1 c1 s1 where s1: "MysqlExec D sql s = ((n1, c1), s1)" by (metis prod.collapse)
  obtain j where j: "log (drv s1) = log (drv s) @ replicate j sql" "j \<le> 1" "c1 = SUCCESS \<longrightarrow> j = 1"
    "is_begin_trans s1 = is_begin_trans s"
    using MysqlExec_log[OF assms(1) s1] by blast
  show ?thesis
  proof (cases "c1 = MYSQL_SERVER_GONE_AWAY")
    case False
    then have "r = Inr (n1, c1)" "s' = s1" using assms(2) s1 by (auto simp: db_Exec_def with_retry_def)
    then show ?thesis using j by (auto intro!: exI[of _ j])
  next
    case True
    obtain q s2 where s2: "reconnects D hash 3 s1 = (q, s2)" by fastforce
    note l = reconnects_log[OF assms(1) s2]
    consider (stop) "log (drv s') = log (drv s2)" "r \<noteq> Inr (n, SUCCESS)"
      | (again) n3 c3 where "\<not> is_begin_trans s2" "MysqlExec D sql s2 = ((n3, c3), s')" "r = Inr (n3, c3)"
      using assms(2) s1 s2 True
      by (auto simp: db_Exec_def with_retry_def split: sum.splits bool.splits if_splits prod.splits)
    then show ?thesis
    proof cases
      case stop
      then show ?thesis using j l by (auto intro!: exI[of _ j])
    next
      case again
      obtain i where i: "log (drv s') = log (drv s2) @ replicate i sql" "i \<le> 1" "c3 = SUCCESS \<longrightarrow> i = 1"
        using MysqlExec_log[OF assms(1) again(2)] by blast
      then have "log (drv s') = log (drv s) @ replicate (j + i) sql" using j l by (simp add: replicate_add)
      then show ?thesis using again(1,3) i j l by (intro exI[of _ "j + i"]) auto
    qed
  qed
qed

text \<open>A server that is gone at the first statement and back after one reconnection.\<close>

definition flaky :: "(nat \<times> string list) driver" where
  "flaky = \<lparr>drv_instance = True, drv_connect = \<lambda>_ _ _ (k, l). (Inr True, (0, l)), drv_valid = \<lambda>d. (Inr False, d),
     drv_close = \<lambda>d. d, drv_statement = \<lambda>d. (Inr True, d),
     drv_execute = \<lambda>q (k, l). (if k = 0 then Inr 1 else Inl (SQLException 2006), (k, l @ [q])),
     drv_prepare = \<lambda>_ d. (Inr True, d), drv_query = \<lambda>_ d. (Inr True, d), drv_autocommit = \<lambda>_ d. (Inr (), d),
     drv_savepoint = \<lambda>_ d. (Inr (), d), drv_commit = \<lambda>d. (Inr (), d), drv_rollback = \<lambda>d. (Inr (), d),
     drv_rollback_to = \<lambda>_ d. (Inr (), d)\<rparr>"

definition flaky_db :: "(nat \<times> string list) mysqldb" where
  "flaky_db = (new_mysqldb 0 (1, []))\<lparr>addr_f := ''h'', user_f := ''u'', passwd_f := ''p'', open_f := True, connection := True\<rparr>"

theorem exec_runs_at_most_twice_witness:
  "\<exists>k. snd (drv (snd (db_Exec flaky (\<lambda>_. 0) ''q'' flaky_db))) = snd (drv flaky_db) @ replicate k ''q'' \<and> k \<le> 2"
proof -
  have "logs flaky snd" by (simp add: logs_def flaky_def split_beta)
  moreover obtain r s' where e: "db_Exec flaky (\<lambda>_. 0) ''q'' flaky_db = (r, s')" by fastforce
  ultimately have "\<exists>k. snd (drv s') = snd (drv flaky_db) @ replicate k ''q'' \<and>
      k \<le> (if is_begin_trans flaky_db then 1 else 2) \<and> (r = Inr (1, SUCCESS) \<longrightarrow> 1 \<le> k)"
    by (rule exec_runs_at_most_twice)
  moreover have "\<not> is_begin_trans flaky_db" by (simp add: flaky_db_def new_mysqldb_def)
  ultimately show ?thesis by (auto simp: e)
qed

text \<open>
  \<open>Commit\<close> reads an error code that a successful commit never sets: whether a commit that
  has succeeded is reported as such depends on what happens to be in the variable.
\<close>

theorem commit_result_is_garbage:
  assumes "IsOpen s" "fst (drv_commit D (drv s)) = Inr ()"
  shows "fst (Commit D hash garbage s) = Inr 0 \<longleftrightarrow> garbage \<noteq> MYSQL_SERVER_GONE_AWAY"
proof -
  obtain d where "drv_commit D (drv s) = (Inr (), d)" using assms(2) by (cases "drv_commit D (drv s)") auto
  moreover have "fst (fail_after_reconnect D hash x) \<noteq> Inr 0" for x
    by (auto simp: fail_after_reconnect_def split: prod.splits sum.splits)
  ultimately show ?thesis using assms(1) by (simp add: Commit_def MysqlCommit_def IsOpen_def run_unit_def)
qed

theorem commit_result_is_garbage_witness:
  "fst (Commit flaky (\<lambda>_. 0) MYSQL_SERVER_GONE_AWAY flaky_db) = Inr 0 \<longleftrightarrow>
     MYSQL_SERVER_GONE_AWAY \<noteq> MYSQL_SERVER_GONE_AWAY"
  by (rule commit_result_is_garbage) (simp_all add: IsOpen_def flaky_def flaky_db_def new_mysqldb_def)

text \<open>A connection that could not be opened again is still said to be open.\<close>

lemma failed_reconnect_is_open:
  assumes "Reconnect_db D hash s = (Inr False, s')" "IsOpen s" shows "IsOpen s'"
  using assms
  by (auto simp: Reconnect_db_def db_open_def IsOpen_def Let_def split: prod.splits sum.splits if_splits bool.splits)

end
