(* ===== verification/ConnPool.thy ===== *)
theory ConnPool
  imports Prelude
begin

text \<open>
  The contract of a pool of connections: connections are taken from it and given back, and the
  clients only give back what they hold. The pools of the database and of Redis are two
  instances.
\<close>

text \<open>A state of the pool with the connections its clients hold, after some calls.\<close>

inductive pool_run ::
  "('s \<Rightarrow> ('c option \<times> 's) option) \<Rightarrow> ('c \<Rightarrow> 's \<Rightarrow> 's option) \<Rightarrow> 's \<Rightarrow> 's \<Rightarrow> 'c list \<Rightarrow> bool"
  for get put s0 where
  start: "pool_run get put s0 s0 []"
| take_some: "pool_run get put s0 s h \<Longrightarrow> get s = Some (Some c, s') \<Longrightarrow> pool_run get put s0 s' (c # h)"
| take_none: "pool_run get put s0 s h \<Longrightarrow> get s = Some (None, s') \<Longrightarrow> pool_run get put s0 s' h"
| give: "pool_run get put s0 s h \<Longrightarrow> c \<in> set h \<Longrightarrow> put c s = Some s' \<Longrightarrow> pool_run get put s0 s' (remove1 c h)"

locale conn_pool =
  fixes get :: "'s \<Rightarrow> ('c option \<times> 's) option" and put :: "'c \<Rightarrow> 's \<Rightarrow> 's option"
    and inv :: "'c list \<Rightarrow> 's \<Rightarrow> bool"
  assumes get_ok: "inv h s \<Longrightarrow> \<exists>r s'. get s = Some (r, s') \<and> (case r of None \<Rightarrow> inv h s' | Some c \<Rightarrow> inv (c # h) s')"
    and put_ok: "inv h s \<Longrightarrow> c \<in> set h \<Longrightarrow> \<exists>s'. put c s = Some s' \<and> inv (remove1 c h) s'"
begin

lemma run_inv: "pool_run get put s0 s h \<Longrightarrow> inv [] s0 \<Longrightarrow> inv h s"
proof (induction rule: pool_run.induct)
  case (take_some s h c s')
  then show ?case using get_ok[of h s] by auto
next
  case (take_none s h s')
  then show ?case using get_ok[of h s] by auto
next
  case (give s h c s')
  then show ?case using put_ok[of h s c] by auto
qed

text \<open>No call fails, and what is held can always be given back.\<close>

lemma run_not_stuck:
  assumes "pool_run get put s0 s h" "inv [] s0"
  shows "get s \<noteq> None" "c \<in> set h \<Longrightarrow> put c s \<noteq> None"
  using get_ok[OF run_inv[OF assms]] put_ok[OF run_inv[OF assms]] by force+

end

end
