(* ===== verification/DbMan.thy ===== *)
theory DbMan
  imports MysqlDb ConnPool "HOL-Library.Multiset"
begin

text \<open>
  The pool of database connections, \<^verbatim>\<open>src/database/src/dbman.cpp\<close>, and the proxy in front of
  it, \<^verbatim>\<open>src/database/src/dbproxy.cpp\<close>. A \<^verbatim>\<open>BaseDBPtr\<close> is a number; \<open>sn\<close> gives the serial
  number \<^verbatim>\<open>GetDbSn\<close> of a connection, which is that of its database. The main pool and the
  backup pools are the lists \<open>db_pool\<close> and \<open>backup_pool\<close>. The call of \<^verbatim>\<open>front\<close> on an empty
  pool is \<open>None\<close>.
\<close>

section \<open>The pool\<close>

record dbman =
  db_pool :: "nat list"
  backup_pool :: "nat list list"
  check_running :: bool
  active_running :: bool

definition MAX_POOL_SIZE :: int where "MAX_POOL_SIZE = 100"

definition new_dbman :: dbman where
  "new_dbman = \<lparr>db_pool = [], backup_pool = [], check_running = False, active_running = False\<rparr>"

definition Release :: "dbman \<Rightarrow> dbman" where
  "Release s = s\<lparr>db_pool := [], backup_pool := [], check_running := False, active_running := False\<rparr>"

text \<open>The last connection of the pool is the one the monitor uses.\<close>

definition GetDB :: "dbman \<Rightarrow> nat option \<times> dbman" where
  "GetDB s =
     (if length (db_pool s) = 0 then (None, s)
      else if 2 \<le> length (db_pool s) then (Some (hd (db_pool s)), s\<lparr>db_pool := tl (db_pool s)\<rparr>)
      else (None, s))"

definition insert_before_last :: "nat \<Rightarrow> nat list \<Rightarrow> nat list" where
  "insert_before_last c xs = butlast xs @ [c, last xs]"

text \<open>The loop over the backup pools works on a copy of each: only its reading of \<^verbatim>\<open>front\<close> is left.\<close>

fun search_backups :: "(nat \<Rightarrow> u64) \<Rightarrow> u64 \<Rightarrow> nat list list \<Rightarrow> unit option" where
  "search_backups sn i [] = Some ()"
| "search_backups sn i (p # ps) = (if p = [] then None else if sn (hd p) = i then Some () else search_backups sn i ps)"

definition PushDB :: "(nat \<Rightarrow> u64) \<Rightarrow> nat option \<Rightarrow> dbman \<Rightarrow> dbman option" where
  "PushDB sn db s =
     (case db of
        None \<Rightarrow> Some s
      | Some c \<Rightarrow>
          (if db_pool s = [] then None
           else if sn (hd (db_pool s)) = sn c
           then Some (s\<lparr>db_pool := insert_before_last c (db_pool s)\<rparr>)
           else map_option (\<lambda>_. s) (search_backups sn (sn c) (backup_pool s))))"

definition SwapDBPool :: "dbman \<Rightarrow> dbman" where
  "SwapDBPool s =
     (if backup_pool s = [] then s
      else
        (let bs = backup_pool s @ [db_pool s]
         in s\<lparr>db_pool := hd bs, backup_pool := tl bs\<rparr>))"

section \<open>Initialisation\<close>

record db_config =
  driverName :: string
  cfg_addr :: string
  cfg_user :: string
  cfg_passwd :: string
  cfg_db :: string
  pool_size :: int

text \<open>
  \<open>opens k\<close> says whether the \<open>k\<close>-th attempt to open a connection succeeds, and \<open>k\<close> is also
  the number of the connection; the result is the pool and the number of attempts made so far.
\<close>

definition init_pool :: "(nat \<Rightarrow> bool) \<Rightarrow> db_config \<Rightarrow> int \<Rightarrow> nat \<Rightarrow> nat list \<times> nat" where
  "init_pool opens c requested k =
     (if driverName c = [] \<or> cfg_addr c = [] \<or> cfg_user c = [] \<or> cfg_passwd c = [] then ([], k)
      else
        (let n = nat (if requested \<le> 0 \<or> requested > MAX_POOL_SIZE then MAX_POOL_SIZE else requested)
         in if driverName c = ''mysql'' then (filter opens [k..<k + n], k + n) else ([], k)))"

fun init_pools :: "(nat \<Rightarrow> bool) \<Rightarrow> db_config list \<Rightarrow> nat \<Rightarrow> nat list list" where
  "init_pools opens [] k = []"
| "init_pools opens (c # cs) k =
     (case init_pool opens c (pool_size c + 1) k of
        (p, k') \<Rightarrow> (if p \<noteq> [] then [p] else []) @ init_pools opens cs k')"

text \<open>The first pool that could be opened is the main one. The two threads are started in any case.\<close>

definition dbman_Init :: "(nat \<Rightarrow> bool) \<Rightarrow> db_config list \<Rightarrow> dbman \<Rightarrow> bool \<times> dbman" where
  "dbman_Init opens cs s =
     (if cs = [] then (False, s)
      else
        (let ps = init_pools opens cs 0;
             s1 = (if ps = [] then s else s\<lparr>db_pool := hd ps, backup_pool := backup_pool s @ tl ps\<rparr>)
         in (True, s1\<lparr>check_running := True, active_running := (db_pool s1 \<noteq> [])\<rparr>)))"

section \<open>The monitor\<close>

text \<open>
  What the monitor finds in one turn: whether its connection is valid, the results of its five
  attempts to reconnect, and whether the query on the connection it then uses succeeds.
\<close>

record probe =
  valid_p :: bool
  reconnect_p :: "bool list"
  query_p :: bool

definition monitor_query :: "bool \<Rightarrow> dbman \<Rightarrow> nat \<Rightarrow> (dbman \<times> nat) option" where
  "monitor_query ok s db =
     (if ok then Some (s, db)
      else if backup_pool s = [] then None
      else Some (SwapDBPool s, last (db_pool (SwapDBPool s))))"

definition monitor_turn :: "probe \<Rightarrow> dbman \<Rightarrow> nat \<Rightarrow> (dbman \<times> nat) option" where
  "monitor_turn p s db =
     (if \<not> valid_p p
      then (if True \<in> set (take 5 (reconnect_p p)) then Some (s, db)
            else if backup_pool s = [] then None
            else monitor_query (query_p p) (SwapDBPool s) (last (db_pool (SwapDBPool s))))
      else monitor_query (query_p p) s db)"

text \<open>
  \<open>ActivePool\<close> queries the first \<open>n\<close> connections of a pool and tries up to five times to reconnect
  one that fails; the result is the connections it used and whether each then works. The
  keep-alive pass leaves out the last connection of the main pool.
\<close>

fun ActivePool :: "(nat \<Rightarrow> bool) \<Rightarrow> (nat \<Rightarrow> bool list) \<Rightarrow> nat list \<Rightarrow> nat \<Rightarrow> (nat \<times> bool) list option" where
  "ActivePool query_ok again pool 0 = Some []"
| "ActivePool query_ok again [] (Suc n) = None"
| "ActivePool query_ok again (c # cs) (Suc n) =
     map_option ((#) (c, query_ok c \<or> True \<in> set (take 5 (again c)))) (ActivePool query_ok again cs n)"

fun active_backups :: "(nat \<Rightarrow> bool) \<Rightarrow> (nat \<Rightarrow> bool list) \<Rightarrow> nat list list \<Rightarrow> (nat \<times> bool) list option" where
  "active_backups query_ok again [] = Some []"
| "active_backups query_ok again (p # ps) =
     (case ActivePool query_ok again p (length p) of
        None \<Rightarrow> None
      | Some r \<Rightarrow> map_option ((@) r) (active_backups query_ok again ps))"

definition active_pass :: "(nat \<Rightarrow> bool) \<Rightarrow> (nat \<Rightarrow> bool list) \<Rightarrow> dbman \<Rightarrow> (nat \<times> bool) list option" where
  "active_pass query_ok again s =
     (case ActivePool query_ok again (db_pool s) (size_sub (length (db_pool s)) 1) of
        None \<Rightarrow> None
      | Some r \<Rightarrow> map_option ((@) r) (active_backups query_ok again (backup_pool s)))"

text \<open>\<^verbatim>\<open>DBHolder\<close> takes a connection when it is constructed and gives it back when it is destroyed.\<close>

definition db_holder :: "(nat \<Rightarrow> u64) \<Rightarrow> (nat option \<Rightarrow> dbman \<Rightarrow> 'r \<times> dbman) \<Rightarrow> dbman \<Rightarrow> ('r \<times> dbman) option" where
  "db_holder sn use s =
     (case GetDB s of (db, s1) \<Rightarrow> (case use db s1 of (r, s2) \<Rightarrow> map_option (Pair r) (PushDB sn db s2)))"

section \<open>The proxy\<close>

text \<open>\<^verbatim>\<open>GetDB(times--)\<close> passes the number of attempts on as it is.\<close>

partial_function (option) proxy_GetDB :: "int \<Rightarrow> dbman \<Rightarrow> (nat option \<times> dbman) option" where
  "proxy_GetDB n s =
     (if n \<le> 0 then Some (None, s)
      else case GetDB s of
             (Some c, s') \<Rightarrow> Some (Some c, s')
           | (None, s') \<Rightarrow> proxy_GetDB n s')"

datatype SQL_OPER_TYPE = QUERY | SELECT | DELETE | UPDATE

fun get_sql_flag :: "SQL_OPER_TYPE \<Rightarrow> string" where
  "get_sql_flag QUERY = ''query''"
| "get_sql_flag SELECT = ''select''"
| "get_sql_flag DELETE = ''delete''"
| "get_sql_flag UPDATE = ''update''"

text \<open>
  \<open>CheckSql\<close> trims the statement in place. The comparison reads the terminating zero at most.
\<close>

fun differs :: "string \<Rightarrow> string \<Rightarrow> bool" where
  "differs [] s = False"
| "differs (f # fs) [] = True"
| "differs (f # fs) (c # cs) = (c_tolower f \<noteq> c_tolower c \<or> differs fs cs)"

definition CheckSql :: "string \<Rightarrow> SQL_OPER_TYPE \<Rightarrow> bool \<times> string" where
  "CheckSql sql t =
     (let s = std_ltrim sql in (differs (std_rtrim (std_ltrim (get_sql_flag t))) s, s))"

text \<open>
  The tasks of the proxy take a connection, use it and give it back; \<open>use\<close> is the operation on
  the connection. \<open>slow\<close> says that the task takes more than 3 seconds; the future's destructor
  then still waits for it.
\<close>

definition proxy_task ::
  "(nat \<Rightarrow> u64) \<Rightarrow> 'r \<Rightarrow> (nat \<Rightarrow> 'r \<times> SQLError) \<Rightarrow> bool \<Rightarrow> dbman \<Rightarrow> (('r \<times> SQLError) \<times> dbman) option" where
  "proxy_task sn failed use slow s =
     (case proxy_GetDB 3 s of
        None \<Rightarrow> None
      | Some (None, s1) \<Rightarrow> Some ((failed, if slow then TIMEOUT else EMPTY_CONNECTION), s1)
      | Some (Some c, s1) \<Rightarrow>
          (case PushDB sn (Some c) s1 of
             None \<Rightarrow> None
           | Some s2 \<Rightarrow> Some (if slow then (failed, TIMEOUT) else use c, s2)))"

definition proxy_Exec ::
  "(nat \<Rightarrow> u64) \<Rightarrow> (string \<Rightarrow> nat \<Rightarrow> int \<times> SQLError) \<Rightarrow> bool \<Rightarrow> string \<Rightarrow> dbman \<Rightarrow> ((int \<times> SQLError) \<times> dbman) option" where
  "proxy_Exec sn exec slow sql s =
     (case CheckSql sql SELECT of
        (ok, sql') \<Rightarrow> (if \<not> ok then Some ((-1, SQL_ERROR), s) else proxy_task sn (-1) (exec sql') slow s))"

definition proxy_Prepared ::
  "(nat \<Rightarrow> u64) \<Rightarrow> (string \<Rightarrow> nat \<Rightarrow> bool \<times> SQLError) \<Rightarrow> bool \<Rightarrow> string \<Rightarrow> dbman \<Rightarrow> ((bool \<times> SQLError) \<times> dbman) option" where
  "proxy_Prepared sn prepare slow sql s = proxy_task sn False (prepare sql) slow s"

definition proxy_Query ::
  "(nat \<Rightarrow> u64) \<Rightarrow> (string \<Rightarrow> nat \<Rightarrow> bool \<times> SQLError) \<Rightarrow> bool \<Rightarrow> string \<Rightarrow> dbman \<Rightarrow> ((bool \<times> SQLError) \<times> dbman) option" where
  "proxy_Query sn query slow sql s = proxy_task sn False (query sql) slow s"

section \<open>Nothing is lost\<close>

lemma mset_insert_before_last: "xs \<noteq> [] \<Longrightarrow> mset (insert_before_last c xs) = add_mset c (mset xs)"
  by (cases xs rule: rev_cases) (simp_all add: insert_before_last_def)

lemma last_insert_before_last [simp]: "last (insert_before_last c xs) = last xs" "insert_before_last c xs \<noteq> []"
  by (simp_all add: insert_before_last_def)

text \<open>
  Connections of one database: the pool and what is held make up the connections there were, and
  the monitor's stays last.
\<close>

definition one_database :: "(nat \<Rightarrow> u64) \<Rightarrow> u64 \<Rightarrow> nat multiset \<Rightarrow> nat \<Rightarrow> nat list \<Rightarrow> dbman \<Rightarrow> bool" where
  "one_database sn i M mon h s \<longleftrightarrow> db_pool s \<noteq> [] \<and> last (db_pool s) = mon \<and> mset (db_pool s) + mset h = M \<and>
     (\<forall>c \<in># M. sn c = i)"

interpretation main_pool: conn_pool "\<lambda>s. Some (GetDB s)" "\<lambda>c. PushDB sn (Some c)" "one_database sn i M mon" for sn i M mon
proof (unfold_locales, goal_cases)
  case (1 h s)
  show ?case
  proof (cases "2 \<le> length (db_pool s)")
    case True
    then obtain c d xs where "db_pool s = c # d # xs"
      by (metis Suc_le_length_iff numeral_2_eq_2)
    then show ?thesis using 1 True by (auto simp: GetDB_def one_database_def)
  next
    case False
    then show ?thesis using 1 by (auto simp: GetDB_def one_database_def)
  qed
next
  case (2 h s c)
  then have m: "db_pool s \<noteq> []" "mset (db_pool s) + mset h = M" "\<forall>c \<in># M. sn c = i" by (simp_all add: one_database_def)
  have "c \<in># M" "hd (db_pool s) \<in># M" using m(1,2) 2(2) by (auto simp flip: m(2))
  then have "sn (hd (db_pool s)) = sn c" using m(3) by simp
  then have "PushDB sn (Some c) s = Some (s\<lparr>db_pool := insert_before_last c (db_pool s)\<rparr>)" using m(1) by (simp add: PushDB_def)
  then show ?case using 2 m by (auto simp: one_database_def mset_insert_before_last)
qed


definition demo_dbman :: dbman where
  "demo_dbman = new_dbman\<lparr>db_pool := [0, 1, 2], backup_pool := [[3, 4]]\<rparr>"


section \<open>Swapping the pools\<close>

definition all_connections :: "dbman \<Rightarrow> nat multiset" where
  "all_connections s = mset (db_pool s) + sum_list (map mset (backup_pool s))"

lemma swap_keeps_connections: "all_connections (SwapDBPool s) = all_connections s"
  by (cases "backup_pool s") (simp_all add: SwapDBPool_def all_connections_def)

lemma search_backups_total: "\<forall>p \<in> set ps. p \<noteq> [] \<Longrightarrow> search_backups sn i ps = Some ()"
  by (induction ps) auto

text \<open>
  A connection that is taken before the pools are swapped and given back afterwards is lost:
  the pool of its database, now a backup, is searched as a copy.
\<close>

theorem connection_lost_by_swap:
  assumes "GetDB s = (Some c, s1)" "backup_pool s = p # ps" "list_all (\<lambda>q. q \<noteq> []) (p # ps)" "sn (hd p) \<noteq> sn c"
  shows "\<exists>s2. PushDB sn (Some c) (SwapDBPool s1) = Some s2 \<and> all_connections s2 = all_connections s - {#c#}"
proof -
  have g: "c = hd (db_pool s)" "s1 = s\<lparr>db_pool := tl (db_pool s)\<rparr>" "2 \<le> length (db_pool s)"
    using assms(1) by (auto simp: GetDB_def split: if_splits)
  then have ne: "tl (db_pool s) \<noteq> []" "db_pool s \<noteq> []" by (cases "db_pool s"; force)+
  have sw: "SwapDBPool s1 = s1\<lparr>db_pool := p, backup_pool := ps @ [tl (db_pool s)]\<rparr>"
    using assms(2) g(2) by (simp add: SwapDBPool_def)
  have "search_backups sn (sn c) (ps @ [tl (db_pool s)]) = Some ()"
    using search_backups_total[of "ps @ [tl (db_pool s)]"] assms(3) ne(1) by (simp add: list_all_iff)
  then have "PushDB sn (Some c) (SwapDBPool s1) = Some (SwapDBPool s1)"
    using assms(3,4) unfolding sw by (simp add: PushDB_def)
  moreover have "all_connections s1 = all_connections s - {#c#}"
    using g ne(2) by (cases "db_pool s") (simp_all add: all_connections_def)
  ultimately show ?thesis using swap_keeps_connections[of s1] by simp
qed

theorem connection_lost_by_swap_witness:
  "\<exists>s2. PushDB (\<lambda>c. if c < 3 then 1 else 2) (Some 0) (SwapDBPool (snd (GetDB demo_dbman))) = Some s2 \<and>
     all_connections s2 = all_connections demo_dbman - {#0#}"
  by (rule connection_lost_by_swap[where p = "[3, 4]" and ps = "[]"]) (simp_all add: demo_dbman_def GetDB_def new_dbman_def)

section \<open>The threads together\<close>

text \<open>
  Clients that take and give back connections and turns of the monitor, in any order. The run
  carries what the clients hold and the connection the monitor uses.
\<close>

inductive db_run :: "(nat \<Rightarrow> u64) \<Rightarrow> dbman \<Rightarrow> dbman \<Rightarrow> nat list \<Rightarrow> nat \<Rightarrow> bool" for sn s0 where
  start: "db_run sn s0 s0 [] (last (db_pool s0))"
| take_some: "db_run sn s0 s h m \<Longrightarrow> GetDB s = (Some c, s') \<Longrightarrow> db_run sn s0 s' (c # h) m"
| take_none: "db_run sn s0 s h m \<Longrightarrow> GetDB s = (None, s') \<Longrightarrow> db_run sn s0 s' h m"
| give: "db_run sn s0 s h m \<Longrightarrow> c \<in> set h \<Longrightarrow> PushDB sn (Some c) s = Some s' \<Longrightarrow> db_run sn s0 s' (remove1 c h) m"
| monitor: "db_run sn s0 s h m \<Longrightarrow> monitor_turn p s m = Some (s', m') \<Longrightarrow> db_run sn s0 s' h m'"

definition pools :: "dbman \<Rightarrow> nat list list" where
  "pools s = db_pool s # backup_pool s"

definition pools_ok :: "dbman \<Rightarrow> dbman \<Rightarrow> nat list \<Rightarrow> nat \<Rightarrow> bool" where
  "pools_ok s0 s h m \<longleftrightarrow> [] \<notin> set (pools s) \<and> mset (concat (pools s)) + mset h \<subseteq># mset (concat (pools s0)) \<and>
     mset (map last (pools s)) = mset (map last (pools s0)) \<and> m = last (db_pool s)"

lemma distinct_sub_mset:
  assumes "mset xs \<subseteq># mset ys" "distinct ys"
  shows "distinct xs"
proof -
  obtain N where "mset ys = mset xs + N" using assms(1) by (auto simp: mset_subset_eq_exists_conv)
  moreover obtain zs where "N = mset zs" using ex_mset by metis
  ultimately have "distinct (xs @ zs)" using assms(2) mset_eq_imp_distinct_iff[of ys "xs @ zs"] by simp
  then show ?thesis by simp
qed

lemma GetDB_some: "GetDB s = (Some c, s') \<Longrightarrow> \<exists>d xs. db_pool s = c # d # xs \<and> s' = s\<lparr>db_pool := d # xs\<rparr>"
  by (cases "db_pool s"; cases "tl (db_pool s)") (auto simp: GetDB_def split: if_splits)

lemma GetDB_none: "GetDB s = (None, s') \<Longrightarrow> s' = s"
  by (auto simp: GetDB_def split: if_splits)

lemma pools_swap: "\<exists>k. pools (SwapDBPool s) = rotate k (pools s)"
proof (cases "backup_pool s")
  case Nil
  then show ?thesis by (intro exI[of _ 0]) (simp add: SwapDBPool_def)
next
  case (Cons b bs)
  then show ?thesis by (intro exI[of _ 1]) (simp add: SwapDBPool_def pools_def)
qed

lemma pools_ok_swap: "pools_ok s0 s h m \<Longrightarrow> pools_ok s0 (SwapDBPool s) h (last (db_pool (SwapDBPool s)))"
proof -
  assume ok: "pools_ok s0 s h m"
  obtain k where k: "pools (SwapDBPool s) = rotate k (pools s)" using pools_swap by blast
  have "mset (concat (rotate k ps)) = mset (concat ps)" "mset (map last (rotate k ps)) = mset (map last ps)" for ps :: "nat list list"
  proof (induction k)
    case (Suc k)
    have r: "mset (concat (rotate1 qs)) = mset (concat qs)" "mset (map last (rotate1 qs)) = mset (map last qs)" for qs :: "nat list list"
      by (cases qs; simp)+
    case 1 show ?case using Suc(1) r(1)[of "rotate k ps"] by simp
    case 2 show ?case using Suc(2) r(2)[of "rotate k ps"] by simp
  qed simp_all
  then show ?thesis using ok by (simp only: pools_ok_def k set_rotate) simp
qed

lemma pools_ok_turn:
  assumes "pools_ok s0 s h m" "monitor_turn p s m = Some (s', m')"
  shows "pools_ok s0 s' h m'"
proof -
  have q: "pools_ok s0 t h n \<Longrightarrow> monitor_query b t n = Some (s', m') \<Longrightarrow> pools_ok s0 s' h m'" for b t n
    using pools_ok_swap[of s0 t h n] by (auto simp: monitor_query_def split: if_splits)
  show ?thesis
    using assms q[OF assms(1)] q[OF pools_ok_swap[OF assms(1)]] by (auto simp: monitor_turn_def split: if_splits)
qed

lemma pools_ok_push:
  assumes "pools_ok s0 s h m" "c \<in> set h"
  shows "\<exists>s'. PushDB sn (Some c) s = Some s' \<and> pools_ok s0 s' (remove1 c h) m"
proof (cases "sn (hd (db_pool s)) = sn c")
  case True
  have ne: "db_pool s \<noteq> []" using assms(1) by (auto simp: pools_ok_def pools_def)
  obtain H where H: "mset h = add_mset c H" using assms(2) multi_member_split[of c "mset h"] by auto
  have "insert_before_last c (db_pool s) \<noteq> []" "[] \<noteq> insert_before_last c (db_pool s)"
    by (metis last_insert_before_last(2))+
  then have "pools_ok s0 (s\<lparr>db_pool := insert_before_last c (db_pool s)\<rparr>) (remove1 c h) m"
    using assms(1) by (auto simp: pools_ok_def pools_def mset_insert_before_last H)
  then show ?thesis using True ne by (simp add: PushDB_def)
next
  case False
  have "search_backups sn (sn c) (backup_pool s) = Some ()"
    using assms(1) by (intro search_backups_total) (auto simp: pools_ok_def pools_def)
  then have "PushDB sn (Some c) s = Some s" using False assms(1) by (auto simp: PushDB_def pools_ok_def pools_def)
  moreover have "mset (concat (pools s)) + mset (remove1 c h) \<subseteq># mset (concat (pools s0))"
  proof (rule subset_mset.order_trans)
    show "mset (concat (pools s)) + mset (remove1 c h) \<subseteq># mset (concat (pools s)) + mset h"
      by (rule subset_mset.add_left_mono) simp
    show "mset (concat (pools s)) + mset h \<subseteq># mset (concat (pools s0))" using assms(1) by (simp add: pools_ok_def)
  qed
  then have "pools_ok s0 s (remove1 c h) m" using assms(1) unfolding pools_ok_def by blast
  ultimately show ?thesis by blast
qed

lemma ActivePool_total: "n \<le> length p \<Longrightarrow> \<exists>r. ActivePool q a p n = Some r \<and> map fst r = take n p"
  by (induction q a p n rule: ActivePool.induct) auto

lemma active_backups_total: "\<exists>r. active_backups q a ps = Some r \<and> map fst r = concat ps"
proof (induction ps)
  case (Cons p ps)
  then show ?case using ActivePool_total[of "length p" p q a] by auto
qed simp

lemma active_pass_total:
  assumes "db_pool s \<noteq> []" "length (db_pool s) < size_max"
  shows "\<exists>r. active_pass q a s = Some r \<and> map fst r = butlast (db_pool s) @ concat (backup_pool s)"
proof -
  have n: "size_sub (length (db_pool s)) 1 = length (db_pool s) - 1"
    using assms by (intro size_sub_small) (auto simp: Suc_le_eq)
  show ?thesis
    using ActivePool_total[of "length (db_pool s) - 1" "db_pool s" q a] active_backups_total[of q a "backup_pool s"]
    by (auto simp: active_pass_def n[simplified] butlast_conv_take)
qed

text \<open>The keep-alive fails when the pools were released, and so does giving back.\<close>

lemma after_release: "active_pass q a (Release s) = None" "PushDB sn (Some c) (Release s) = None"
proof -
  have "size_sub 0 1 \<noteq> 0" by (simp add: size_sub_def size_max_def)
  then obtain n where "size_sub 0 1 = Suc n" using not0_implies_Suc by blast
  then show "active_pass q a (Release s) = None" by (simp add: active_pass_def Release_def)
qed (simp add: PushDB_def Release_def)

lemma db_run_ok:
  assumes "db_run sn s0 s h m" "[] \<notin> set (pools s0)"
  shows "pools_ok s0 s h m"
  using assms(1)
proof (induction rule: db_run.induct)
  case start
  then show ?case using assms(2) by (simp add: pools_ok_def)
next
  case (take_some s h m c s')
  then show ?case using GetDB_some[of s c s'] by (auto simp: pools_ok_def pools_def)
next
  case (take_none s h m s')
  then show ?case using GetDB_none[of s s'] by simp
next
  case (give s h m c s')
  then show ?case using pools_ok_push[of s0 s h m c sn] by auto
next
  case (monitor s h m p s' m')
  then show ?case using pools_ok_turn by blast
qed

text \<open>
  C23. Whatever the clients and the monitor do, and with the pools swapped at any time, no
  connection is held twice or held and in a pool, none of the monitor's connections is handed
  out, the monitor uses the last one of the main pool, and giving back never fails; a keep-alive
  pass in between uses no connection that a client or the monitor has.
\<close>

theorem db_threads_safe:
  assumes "db_run sn s0 s h m" "[] \<notin> set (pools s0)" "distinct (concat (pools s0))"
    and "length (concat (pools s0)) < size_max"
  shows "distinct (concat (pools s) @ h) \<and> set (map last (pools s0)) \<inter> set h = {} \<and> m = last (db_pool s) \<and>
    set h \<subseteq> {c. PushDB sn (Some c) s \<noteq> None} \<and>
    (\<exists>used. active_pass query_ok again s = Some used \<and> fst ` set used \<inter> insert m (set h) = {})"
proof -
  note ok = db_run_ok[OF assms(1,2)]
  have sub: "mset (concat (pools s) @ h) \<subseteq># mset (concat (pools s0))" using ok by (simp add: pools_ok_def)
  then have d: "distinct (concat (pools s) @ h)"
    using assms(3) by (rule distinct_sub_mset)
  have "set (map last (pools s0)) = set (map last (pools s))"
    using ok mset_eq_setD[of "map last (pools s)" "map last (pools s0)"] by (simp add: pools_ok_def)
  also have "\<dots> \<subseteq> set (concat (pools s))"
  proof
    fix x assume "x \<in> set (map last (pools s))"
    then obtain q where q: "q \<in> set (pools s)" "x = last q" by auto
    then have "q \<noteq> []" using ok by (auto simp: pools_ok_def)
    then show "x \<in> set (concat (pools s))" using q last_in_set[of q] by (auto intro: bexI[of _ q])
  qed
  finally have "set (map last (pools s0)) \<inter> set h = {}" using d by auto
  moreover have "set h \<subseteq> {c. PushDB sn (Some c) s \<noteq> None}"
    using pools_ok_push[OF ok, of _ sn] by auto
  moreover have "\<exists>used. active_pass query_ok again s = Some used \<and> fst ` set used \<inter> insert m (set h) = {}"
  proof -
    have ne: "db_pool s \<noteq> []" and m: "m = last (db_pool s)" using ok by (auto simp: pools_ok_def pools_def)
    have "length (concat (pools s) @ h) \<le> length (concat (pools s0))"
      using size_mset_mono[OF sub] by (simp only: size_mset)
    then have "length (db_pool s) < size_max" using assms(4) by (simp add: pools_def)
    then obtain r where r: "active_pass query_ok again s = Some r"
        "map fst r = butlast (db_pool s) @ concat (backup_pool s)"
      using active_pass_total[OF ne] by blast
    have "distinct (butlast (db_pool s) @ [m] @ concat (backup_pool s) @ h)"
      using d append_butlast_last_id[OF ne] m by (metis append.assoc concat.simps(2) pools_def)
    then have "set (map fst r) \<inter> insert m (set h) = {}" unfolding r(2) by auto
    then show ?thesis using r(1) by auto
  qed
  ultimately show ?thesis using d ok by (simp add: pools_ok_def)
qed

theorem db_threads_safe_witness:
  "distinct (concat (pools (SwapDBPool (snd (GetDB demo_dbman)))) @ [0])"
proof -
  have "db_run (\<lambda>_. 0) demo_dbman (snd (GetDB demo_dbman)) [0] 2"
    using db_run.take_some[OF db_run.start, of demo_dbman 0 "snd (GetDB demo_dbman)" "\<lambda>_. 0"]
    by (simp add: demo_dbman_def GetDB_def new_dbman_def)
  then have "db_run (\<lambda>_. 0) demo_dbman (SwapDBPool (snd (GetDB demo_dbman))) [0] 4"
    by (rule db_run.monitor[where p = "\<lparr>valid_p = False, reconnect_p = [], query_p = True\<rparr>"])
      (simp add: monitor_turn_def monitor_query_def demo_dbman_def GetDB_def new_dbman_def SwapDBPool_def)
  from db_threads_safe[OF this, THEN conjunct1] show ?thesis
    by (simp add: pools_def demo_dbman_def new_dbman_def size_max_def)
qed

section \<open>Waiting for a connection\<close>

lemma proxy_GetDB_no_result: "proxy_GetDB n s = Some y \<Longrightarrow> length (db_pool s) < 2 \<longrightarrow> \<not> 0 < n"
proof (rule proxy_GetDB.raw_induct[where P = "\<lambda>n s y. length (db_pool s) < 2 \<longrightarrow> \<not> 0 < n"], goal_cases)
  case (1 f n s y)
  show ?case
  proof
    assume l: "length (db_pool s) < 2"
    then have "GetDB s = (None, s)" by (auto simp: GetDB_def)
    then show "\<not> 0 < n" using 1 l by (auto split: if_splits)
  qed
qed

lemma proxy_GetDB_diverges: "length (db_pool s) < 2 \<Longrightarrow> 0 < n \<Longrightarrow> proxy_GetDB n s = None"
  using proxy_GetDB_no_result[of n s] by (cases "proxy_GetDB n s") auto

text \<open>
  While the pool has no connection to spare, a query through the proxy never returns: the
  three attempts are endless, and the limit of 3 seconds waits for the task as well.
\<close>

theorem proxy_waits_for_ever:
  assumes "length (db_pool s) < 2"
  shows "proxy_Query sn query slow sql s = None \<and> proxy_Prepared sn prepare slow sql s = None \<and>
    (fst (CheckSql sql SELECT) \<longrightarrow> proxy_Exec sn exec slow sql s = None)"
  using proxy_GetDB_diverges[OF assms, of 3]
  by (simp add: proxy_Query_def proxy_Prepared_def proxy_Exec_def proxy_task_def split_beta)

theorem proxy_waits_for_ever_witness:
  "proxy_Query (\<lambda>_. 0) (\<lambda>_ _. (True, SUCCESS)) True ''select 1'' (new_dbman\<lparr>db_pool := [0]\<rparr>) = None"
  by (rule proxy_waits_for_ever[THEN conjunct1]) (simp add: new_dbman_def)

text \<open>With a connection to spare the proxy answers and gives it back.\<close>

lemma proxy_Query_answers:
  assumes "2 \<le> length (db_pool s)" "\<forall>c \<in> set (db_pool s). sn c = i"
  shows "\<exists>s'. proxy_Query sn query False sql s = Some (query sql (hd (db_pool s)), s') \<and>
    mset (db_pool s') = mset (db_pool s)"
proof -
  obtain c d xs where p: "db_pool s = c # d # xs" using assms(1) by (metis Suc_le_length_iff numeral_2_eq_2)
  have "proxy_GetDB 3 s = Some (Some c, s\<lparr>db_pool := d # xs\<rparr>)"
    by (subst proxy_GetDB.simps) (simp add: GetDB_def p)
  then show ?thesis
    using assms(2) p mset_insert_before_last[of "d # xs" c] by (simp add: proxy_Query_def proxy_task_def PushDB_def)
qed

end
