(* ===== verification/RedisMng.thy ===== *)
theory RedisMng
  imports ConnPool "HOL-Library.Multiset"
begin

text \<open>
  The pools of Redis connections, \<^verbatim>\<open>src/redis/redis_mng.cpp\<close> and \<^verbatim>\<open>redis_mng.h\<close> (a copy of both
  is under \<^verbatim>\<open>src/utils\<close>): one pool per database, taking and giving back a connection, and the
  proxy that does both. A Redis object is a number with the options it was made with; pools,
  entries of a queue and objects may be null. Indexing past the vector of pools is \<open>None\<close>.
\<close>

section \<open>State\<close>

record redis_config =
  rhost :: string
  rport :: int
  rpasswd :: string
  master_name :: string
  rdb :: int
  connect_timeout :: int
  socket_timeout :: int
  rpool_size :: int

record sentinel_config =
  shost :: string
  sport :: int
  spasswd :: string

record sentinel_ops =
  ops_password :: string
  ops_nodes :: "(string \<times> int) list"
  ops_timeouts :: "int \<times> int"

text \<open>
  Where a Redis object connects to: host, port and \<^verbatim>\<open>keep_alive\<close> of a direct connection, or the
  sentinels, the name of the master and whether the role is \<^verbatim>\<open>MASTER\<close>.
\<close>

datatype redis_source = Direct string int bool | ViaSentinel sentinel_ops string bool

record redis =
  redis_id :: nat
  redis_source :: redis_source
  redis_passwd :: string
  redis_timeouts :: "int \<times> int"
  redis_db :: int
  redis_conns :: int

type_synonym real_redis = "(bool \<times> redis option) option"

record redis_pool =
  totalsize :: int
  usesize :: int
  idlesize :: int
  redis_queue :: "real_redis list"

record redis_mng =
  sentinel_configs :: "sentinel_config list"
  sentinel :: "sentinel_ops option"
  rcfg :: redis_config
  redis_conn_pool :: "redis_pool option list"
  next_redis :: nat

definition MAX_DB_SIZE :: nat where "MAX_DB_SIZE = 16"

definition empty_pool :: redis_pool where
  "empty_pool = \<lparr>totalsize = 0, usesize = 0, idlesize = 0, redis_queue = []\<rparr>"

definition redis_timeouts_of :: "redis_config \<Rightarrow> int \<times> int" where
  "redis_timeouts_of c = (connect_timeout c, socket_timeout c)"

definition make_sentinel :: "sentinel_config list \<Rightarrow> redis_config \<Rightarrow> sentinel_ops" where
  "make_sentinel cs c = \<lparr>ops_password = spasswd (cs ! 0), ops_nodes = map (\<lambda>v. (shost v, sport v)) cs,
     ops_timeouts = redis_timeouts_of c\<rparr>"

definition redis_Init :: "sentinel_config list \<Rightarrow> redis_config \<Rightarrow> redis_mng \<Rightarrow> redis_mng" where
  "redis_Init cs c s =
     s\<lparr>sentinel_configs := cs, sentinel := (if length cs \<noteq> 0 then Some (make_sentinel cs c) else sentinel s), rcfg := c,
       redis_conn_pool := redis_conn_pool s @ replicate 16 (Some empty_pool)\<rparr>"

section \<open>Taking a connection\<close>

definition real_db :: "redis_mng \<Rightarrow> int \<Rightarrow> int" where
  "real_db s db = (if db = -1 then rdb (rcfg s) else db)"

definition set_pool :: "int \<Rightarrow> redis_pool \<Rightarrow> redis_mng \<Rightarrow> redis_mng" where
  "set_pool i p s = s\<lparr>redis_conn_pool := (redis_conn_pool s)[nat i := Some p]\<rparr>"

text \<open>A null pool is replaced by a new one.\<close>

definition GetRedisPool :: "redis_mng \<Rightarrow> int \<Rightarrow> (redis_pool \<times> redis_mng) option" where
  "GetRedisPool s i =
     (if nat i < length (redis_conn_pool s)
      then (case redis_conn_pool s ! nat i of
              Some p \<Rightarrow> Some (p, s)
            | None \<Rightarrow> Some (empty_pool, set_pool i empty_pool s))
      else None)"

text \<open>
  The scan of the queue: the first connection of the role, and the queue and total that are left;
  null entries met on the way are dropped.
\<close>

fun scan_queue :: "bool \<Rightarrow> int \<Rightarrow> real_redis list \<Rightarrow> redis option \<times> real_redis list \<times> int" where
  "scan_queue master n [] = (None, [], n)"
| "scan_queue master n (Some (m, Some r) # es) =
     (if m = master then (Some r, es, n)
      else case scan_queue master n es of (x, es', t) \<Rightarrow> (x, Some (m, Some r) # es', t))"
| "scan_queue master n (Some (m, None) # es) = scan_queue master (n - 1) es"
| "scan_queue master n (None # es) = scan_queue master (n - 1) es"

definition make_redis :: "redis_source \<Rightarrow> int \<Rightarrow> redis_mng \<Rightarrow> redis \<times> redis_mng" where
  "make_redis src i s =
     (\<lparr>redis_id = next_redis s, redis_source = src, redis_passwd = rpasswd (rcfg s),
        redis_timeouts = redis_timeouts_of (rcfg s), redis_db = i, redis_conns = rpool_size (rcfg s)\<rparr>,
      s\<lparr>next_redis := next_redis s + 1\<rparr>)"

definition direct_source :: "bool \<Rightarrow> redis_mng \<Rightarrow> redis_source" where
  "direct_source keep_alive s = Direct (rhost (rcfg s)) (rport (rcfg s)) keep_alive"

text \<open>The body \<open>GetRedis\<close> and \<open>GetRedis2\<close> share; they differ in how a connection is made.\<close>

definition get_from_pool :: "redis_source \<Rightarrow> bool \<Rightarrow> int \<Rightarrow> redis_mng \<Rightarrow> (redis option \<times> redis_mng) option" where
  "get_from_pool src master db s =
     (let i = real_db s db
      in if i > 16 \<or> i < 0 then Some (None, s)
         else case GetRedisPool s i of
                None \<Rightarrow> None
              | Some (p, s0) \<Rightarrow>
                  (case scan_queue master (totalsize p) (redis_queue p) of
                     (Some r, q, t) \<Rightarrow>
                       Some (Some r, set_pool i (p\<lparr>totalsize := t, usesize := usesize p + 1,
                                                  idlesize := idlesize p - 1, redis_queue := q\<rparr>) s0)
                   | (None, q, t) \<Rightarrow>
                       (let p1 = p\<lparr>totalsize := t, redis_queue := q\<rparr>
                        in if t \<ge> rpool_size (rcfg s0) * 5 then Some (None, set_pool i p1 s0)
                           else case make_redis src i s0 of
                                  (r, s1) \<Rightarrow>
                                    Some (Some r, set_pool i (p1\<lparr>totalsize := t + 1, usesize := usesize p + 1,
                                                               idlesize := 0\<rparr>) s1))))"

definition GetRedis2 :: "bool \<Rightarrow> int \<Rightarrow> redis_mng \<Rightarrow> (redis option \<times> redis_mng) option" where
  "GetRedis2 master db s = get_from_pool (direct_source True s) master db s"

definition GetRedis :: "bool \<Rightarrow> int \<Rightarrow> redis_mng \<Rightarrow> (redis option \<times> redis_mng) option" where
  "GetRedis master db s =
     (case sentinel s of
        None \<Rightarrow> GetRedis2 master db s
      | Some ops \<Rightarrow> get_from_pool (ViaSentinel ops (master_name (rcfg s)) master) master db s)"

section \<open>Giving a connection back\<close>

text \<open>
  An invalid connection is replaced; behind a sentinel always by one to the master, and a direct
  one by one without \<^verbatim>\<open>keep_alive\<close>.
\<close>

definition spare_source :: "redis_mng \<Rightarrow> redis_source" where
  "spare_source s =
     (case sentinel s of Some ops \<Rightarrow> ViaSentinel ops (master_name (rcfg s)) True | None \<Rightarrow> direct_source False s)"

definition GiveBack :: "redis option \<Rightarrow> bool \<Rightarrow> bool \<Rightarrow> int \<Rightarrow> redis_mng \<Rightarrow> (int \<times> redis_mng) option" where
  "GiveBack r master isvalid db s =
     (let i = real_db s db
      in if i > 16 \<or> i < 0 then Some (-1, s)
         else
           (let (r1, s1) =
              (if isvalid then (r, s)
               else case make_redis (spare_source s) i s of (x, s') \<Rightarrow> (Some x, s'))
            in case GetRedisPool s1 i of
                 None \<Rightarrow> None
               | Some (p, s2) \<Rightarrow>
                   Some (0, set_pool i (p\<lparr>redis_queue := redis_queue p @ [Some (master, r1)],
                                         idlesize := idlesize p + 1, usesize := usesize p - 1\<rparr>) s2)))"

section \<open>The proxy\<close>

record redis_proxy =
  isvalid_f :: bool
  master_f :: bool
  db_id :: int
  ptr :: "redis option"

definition RedisMngProxy :: "bool \<Rightarrow> int \<Rightarrow> redis_mng \<Rightarrow> (redis_proxy \<times> redis_mng) option" where
  "RedisMngProxy master db s =
     map_option (\<lambda>(r, s1). (\<lparr>isvalid_f = True, master_f = master, db_id = db, ptr = r\<rparr>, s1)) (GetRedis master db s)"

definition SetInvalid :: "redis_proxy \<Rightarrow> redis_proxy" where
  "SetInvalid p = p\<lparr>isvalid_f := False\<rparr>"

definition destroy_proxy :: "redis_proxy \<Rightarrow> redis_mng \<Rightarrow> redis_mng option" where
  "destroy_proxy p s = map_option snd (GiveBack (ptr p) (master_f p) (isvalid_f p \<and> ptr p \<noteq> None) (db_id p) s)"

definition proxy_eq :: "redis_proxy \<Rightarrow> redis_proxy \<Rightarrow> bool" where
  "proxy_eq p q = (ptr p = ptr q)"

definition proxy_neq :: "redis_proxy \<Rightarrow> redis_proxy \<Rightarrow> bool" where
  "proxy_neq p q = (ptr p \<noteq> ptr q)"

definition proxy_is_null :: "redis_proxy \<Rightarrow> bool" where
  "proxy_is_null p = (ptr p = None)"

definition proxy_not_null :: "redis_proxy \<Rightarrow> bool" where
  "proxy_not_null p = (ptr p \<noteq> None)"

section \<open>The pool of one database\<close>

definition queued :: "real_redis list \<Rightarrow> redis list" where
  "queued q = map (\<lambda>e. the (snd (the e))) q"

definition no_nulls :: "real_redis list \<Rightarrow> bool" where
  "no_nulls q \<longleftrightarrow> (\<forall>e \<in> set q. \<exists>m r. e = Some (m, Some r))"

lemma scan_queue_spec:
  assumes "no_nulls q"
  shows "case scan_queue master n q of
      (Some r, q', t) \<Rightarrow> t = n \<and> no_nulls q' \<and> mset (queued q) = add_mset r (mset (queued q')) \<and> length q = Suc (length q')
    | (None, q', t) \<Rightarrow> t = n \<and> q' = q"
  using assms
proof (induction q)
  case (Cons e q)
  then obtain m r where "e = Some (m, Some r)" by (auto simp: no_nulls_def)
  then show ?case using Cons by (auto simp: no_nulls_def queued_def split: prod.splits option.splits)
qed simp

text \<open>
  Counting is right while the clients hold \<open>h\<close>: the total is what is queued and what is held, it
  stays within the limit, and no connection is in two places.
\<close>

definition pool_at :: "redis_mng \<Rightarrow> nat \<Rightarrow> redis_pool" where
  "pool_at s n = (case redis_conn_pool s ! n of None \<Rightarrow> empty_pool | Some p \<Rightarrow> p)"

definition pool_ok :: "int \<Rightarrow> redis_mng \<Rightarrow> redis list \<Rightarrow> redis_mng \<Rightarrow> bool" where
  "pool_ok db s0 h s \<longleftrightarrow> rcfg s = rcfg s0 \<and> sentinel s = sentinel s0 \<and>
     length (redis_conn_pool s) = length (redis_conn_pool s0) \<and>
     (let p = pool_at s (nat (real_db s db))
      in no_nulls (redis_queue p) \<and> usesize p = int (length h) \<and>
         totalsize p = int (length h) + int (length (redis_queue p)) \<and>
         totalsize p \<le> max 0 (rpool_size (rcfg s) * 5) \<and>
         distinct (map redis_id (queued (redis_queue p) @ h)) \<and>
         (\<forall>r \<in> set (queued (redis_queue p) @ h). redis_id r < next_redis s))"

lemma pool_okD:
  assumes "pool_ok db s0 h s" "p = pool_at s (nat (real_db s0 db))"
  shows "rcfg s = rcfg s0" "sentinel s = sentinel s0" "length (redis_conn_pool s) = length (redis_conn_pool s0)"
    "real_db s db = real_db s0 db" "no_nulls (redis_queue p)" "usesize p = int (length h)"
    "totalsize p = int (length h) + int (length (redis_queue p))" "totalsize p \<le> max 0 (rpool_size (rcfg s0) * 5)"
    "distinct (map redis_id (queued (redis_queue p) @ h))" "\<forall>r \<in> set (queued (redis_queue p) @ h). redis_id r < next_redis s"
proof -
  show c: "rcfg s = rcfg s0" using assms(1) by (simp add: pool_ok_def)
  then show r: "real_db s db = real_db s0 db" by (simp add: real_db_def)
  show "sentinel s = sentinel s0" "length (redis_conn_pool s) = length (redis_conn_pool s0)"
    "no_nulls (redis_queue p)" "usesize p = int (length h)"
    "totalsize p = int (length h) + int (length (redis_queue p))" "totalsize p \<le> max 0 (rpool_size (rcfg s0) * 5)"
    "distinct (map redis_id (queued (redis_queue p) @ h))" "\<forall>r \<in> set (queued (redis_queue p) @ h). redis_id r < next_redis s"
    using assms r c by (simp_all add: pool_ok_def Let_def)
qed

lemma pool_okI:
  assumes "rcfg s = rcfg s0" "sentinel s = sentinel s0" "length (redis_conn_pool s) = length (redis_conn_pool s0)"
    "pool_at s (nat (real_db s0 db)) = p" "no_nulls (redis_queue p)" "usesize p = int (length h)"
    "totalsize p = int (length h) + int (length (redis_queue p))" "totalsize p \<le> max 0 (rpool_size (rcfg s0) * 5)"
    "distinct (map redis_id (queued (redis_queue p) @ h))" "\<forall>r \<in> set (queued (redis_queue p) @ h). redis_id r < next_redis s"
  shows "pool_ok db s0 h s"
proof -
  have "real_db s db = real_db s0 db" using assms(1) by (simp add: real_db_def)
  then show ?thesis using assms by (simp add: pool_ok_def Let_def)
qed

lemma set_pool_simps [frame_simps]:
  "rcfg (set_pool i p s) = rcfg s" "sentinel (set_pool i p s) = sentinel s" "next_redis (set_pool i p s) = next_redis s"
  "length (redis_conn_pool (set_pool i p s)) = length (redis_conn_pool s)"
  "nat i < length (redis_conn_pool s) \<Longrightarrow> pool_at (set_pool i p s) (nat i) = p"
  by (simp_all add: set_pool_def pool_at_def)

lemma GetRedisPool_spec:
  assumes "nat i < length (redis_conn_pool s)"
  shows "\<exists>s1. GetRedisPool s i = Some (pool_at s (nat i), s1) \<and> rcfg s1 = rcfg s \<and> sentinel s1 = sentinel s \<and>
    next_redis s1 = next_redis s \<and> (\<forall>q. set_pool i q s1 = set_pool i q s) \<and>
    (\<forall>q n. set_pool i q (s1\<lparr>next_redis := n\<rparr>) = set_pool i q (s\<lparr>next_redis := n\<rparr>))"
  using assms by (cases "redis_conn_pool s ! nat i") (simp_all add: GetRedisPool_def pool_at_def set_pool_def)

lemma distinct_ids_mset:
  "distinct (map redis_id xs) \<longleftrightarrow> distinct (map redis_id ys)" if "mset xs = mset ys"
  using that by (metis mset_eq_imp_distinct_iff mset_map)

lemma get_from_pool_ok:
  assumes "pool_ok db s0 h s" "0 \<le> real_db s0 db" "real_db s0 db < int (length (redis_conn_pool s0))" "real_db s0 db \<le> 16"
  shows "\<exists>r s'. get_from_pool src master db s = Some (r, s') \<and>
    (case r of None \<Rightarrow> pool_ok db s0 h s' | Some c \<Rightarrow> pool_ok db s0 (c # h) s')"
proof -
  let ?i = "real_db s0 db"
  define p where "p = pool_at s (nat ?i)"
  note d = pool_okD[OF assms(1) p_def]
  have n: "nat ?i < length (redis_conn_pool s)" using assms(2,3) d(3) by linarith
  obtain s2 where pool: "GetRedisPool s (real_db s db) = Some (p, s2)" and s2: "rcfg s2 = rcfg s"
    "next_redis s2 = next_redis s" "\<And>q. set_pool ?i q s2 = set_pool ?i q s"
    "\<And>q k. set_pool ?i q (s2\<lparr>next_redis := k\<rparr>) = set_pool ?i q (s\<lparr>next_redis := k\<rparr>)"
    using GetRedisPool_spec[OF n] d(4) unfolding p_def by auto
  have idx: "\<not> (real_db s db > 16 \<or> real_db s db < 0)" using assms(2,4) d(4) by simp
  obtain x q t where sq: "scan_queue master (totalsize p) (redis_queue p) = (x, q, t)" by (metis prod_cases3)
  note sp = scan_queue_spec[OF d(5), where master = master and n = "totalsize p", unfolded sq]
  show ?thesis
  proof (cases x)
    case (Some r)
    let ?p = "p\<lparr>totalsize := t, usesize := usesize p + 1, idlesize := idlesize p - 1, redis_queue := q\<rparr>"
    have f: "t = totalsize p" "no_nulls q" "mset (queued (redis_queue p)) = add_mset r (mset (queued q))"
      "length (redis_queue p) = Suc (length q)"
      using sp Some by simp_all
    have m: "mset (queued (redis_queue p) @ h) = mset (queued q @ r # h)" using f(3) by simp
    have "distinct (map redis_id (queued q @ r # h))" using d(9) distinct_ids_mset[OF m] by blast
    moreover have "\<forall>x \<in> set (queued q @ r # h). redis_id x < next_redis s"
      using d(10) mset_eq_setD[OF m] by blast
    ultimately have "pool_ok db s0 (r # h) (set_pool ?i ?p s)"
      using d n f by (intro pool_okI[where p = ?p]) (simp_all add: frame_simps)
    then show ?thesis
      using pool idx sq Some d(4) s2 by (simp add: get_from_pool_def Let_def)
  next
    case None
    then have f: "t = totalsize p" "q = redis_queue p" using sp by simp_all
    show ?thesis
    proof (cases "t \<ge> rpool_size (rcfg s) * 5")
      case True
      have "pool_ok db s0 h (set_pool ?i (p\<lparr>totalsize := t, redis_queue := q\<rparr>) s)"
        using d n f by (intro pool_okI[where p = "p\<lparr>totalsize := t, redis_queue := q\<rparr>"]) (simp_all add: frame_simps)
      then show ?thesis using pool idx sq None True d(4) s2 by (simp add: get_from_pool_def Let_def)
    next
      case False
      obtain r where r: "make_redis src ?i s2 = (r, s2\<lparr>next_redis := next_redis s + 1\<rparr>)" "redis_id r = next_redis s"
        using s2 by (simp add: make_redis_def)
      define s1 where s1: "s1 = s\<lparr>next_redis := next_redis s + 1\<rparr>"
      let ?p = "p\<lparr>redis_queue := q, totalsize := t + 1, usesize := usesize p + 1, idlesize := 0\<rparr>"
      have lt: "\<forall>x \<in> set (queued q @ h). redis_id x < next_redis s" using d(10) f(2) by simp
      have "redis_id r \<notin> set (map redis_id (queued q @ h))" using lt r(2) by fastforce
      then have dist: "distinct (map redis_id (queued q @ r # h))" using d(9) f(2) by auto
      have below: "\<forall>x \<in> set (queued q @ r # h). redis_id x < next_redis s1" using lt r(2) s1 by (auto simp: less_Suc_eq)
      have "pool_ok db s0 (r # h) (set_pool ?i ?p s1)"
        using d n f False s1 dist below by (intro pool_okI[where p = ?p]) (simp_all add: frame_simps)
      then show ?thesis using pool idx sq None False r(1) d(4) s2 s1 by (simp add: get_from_pool_def Let_def)
    qed
  qed
qed

text \<open>The databases the pools are made for.\<close>

definition db_in_range :: "int \<Rightarrow> redis_mng \<Rightarrow> bool" where
  "db_in_range db s \<longleftrightarrow> 0 \<le> real_db s db \<and> real_db s db < int (length (redis_conn_pool s)) \<and> real_db s db \<le> 16"

definition give_valid :: "bool \<Rightarrow> int \<Rightarrow> redis \<Rightarrow> redis_mng \<Rightarrow> redis_mng option" where
  "give_valid master db r s = map_option snd (GiveBack (Some r) master True db s)"

interpretation redis_pool: conn_pool "GetRedis master db" "give_valid master db"
  "\<lambda>h s. db_in_range db s0 \<and> pool_ok db s0 h s" for master db s0
proof (unfold_locales, goal_cases)
  case (1 h s)
  obtain src where src: "GetRedis master db s = get_from_pool src master db s"
    by (cases "sentinel s") (auto simp: GetRedis_def GetRedis2_def)
  have rg: "db_in_range db s0" "pool_ok db s0 h s" using 1 by auto
  then obtain r s' where "get_from_pool src master db s = Some (r, s')"
    "case r of None \<Rightarrow> pool_ok db s0 h s' | Some c \<Rightarrow> pool_ok db s0 (c # h) s'"
    using get_from_pool_ok[OF rg(2), of src master] by (auto simp: db_in_range_def)
  then show ?case unfolding src using rg(1) by (cases r) auto
next
  case (2 h s c)
  let ?i = "real_db s0 db"
  define p where "p = pool_at s (nat ?i)"
  have ok: "pool_ok db s0 h s" and rg: "db_in_range db s0" using 2(1) by auto
  note d = pool_okD[OF ok p_def]
  have n: "nat ?i < length (redis_conn_pool s)" using rg d(3) by (auto simp: db_in_range_def)
  let ?p = "p\<lparr>redis_queue := redis_queue p @ [Some (master, Some c)], idlesize := idlesize p + 1, usesize := usesize p - 1\<rparr>"
  have m: "mset (queued (redis_queue p) @ h) = mset (queued (redis_queue ?p) @ remove1 c h)"
    using 2(2) by (simp add: queued_def)
  have len: "length h = Suc (length (remove1 c h))" using 2(2) length_pos_if_in_set[of c h] by (simp add: length_remove1)
  have dist: "distinct (map redis_id (queued (redis_queue ?p) @ remove1 c h))" using d(9) distinct_ids_mset[OF m] by blast
  have below: "\<forall>x \<in> set (queued (redis_queue ?p) @ remove1 c h). redis_id x < next_redis s"
    using d(10) mset_eq_setD[OF m] by blast
  have "pool_ok db s0 (remove1 c h) (set_pool ?i ?p s)"
    using d n len dist below
    by (intro pool_okI[where p = ?p]) (simp_all add: frame_simps no_nulls_def)
  moreover have "give_valid master db c s = Some (set_pool ?i ?p s)"
    using rg d(4) GetRedisPool_spec[OF n] by (auto simp: give_valid_def GiveBack_def Let_def db_in_range_def p_def)
  ultimately show ?case using rg by blast
qed


definition demo_config :: redis_config where
  "demo_config = \<lparr>rhost = ''h'', rport = 6379, rpasswd = [], master_name = ''m'', rdb = 0, connect_timeout = 100,
     socket_timeout = 100, rpool_size = 1\<rparr>"

definition demo_mng :: redis_mng where
  "demo_mng = redis_Init [] demo_config \<lparr>sentinel_configs = [], sentinel = None, rcfg = demo_config, redis_conn_pool = [], next_redis = 0\<rparr>"


text \<open>
  A proxy that gets no connection adds one all the same when it is destroyed: the pool that
  was full grows by one, which is not counted, and the number in use drops.
\<close>

theorem failed_proxy_grows_pool:
  assumes "RedisMngProxy master db s = Some (x, s1)" "ptr x = None" "db_in_range db s"
    and "p = pool_at s1 (nat (real_db s db))"
  shows "\<exists>s2 p2. destroy_proxy x s1 = Some s2 \<and> pool_at s2 (nat (real_db s db)) = p2 \<and>
    length (redis_queue p2) = length (redis_queue p) + 1 \<and> totalsize p2 = totalsize p \<and> usesize p2 = usesize p - 1"
proof -
  have g: "GetRedis master db s = Some (None, s1)" "x = \<lparr>isvalid_f = True, master_f = master, db_id = db, ptr = None\<rparr>"
    using assms(1,2) by (auto simp: RedisMngProxy_def)
  obtain src where "get_from_pool src master db s = Some (None, s1)"
    using g(1) by (auto simp: GetRedis_def GetRedis2_def split: option.splits)
  then have f: "real_db s1 db = real_db s db" "length (redis_conn_pool s1) = length (redis_conn_pool s)"
    by (auto simp: get_from_pool_def GetRedisPool_def Let_def real_db_def frame_simps split: if_splits option.splits prod.splits)
  let ?i = "real_db s db"
  have n: "nat ?i < length (redis_conn_pool s1)" using assms(3) f(2) by (auto simp: db_in_range_def)
  define r where "r = fst (make_redis (spare_source s1) ?i s1)"
  have d: "destroy_proxy x s1 = Some (set_pool ?i (p\<lparr>redis_queue := redis_queue p @ [Some (master, Some r)],
      idlesize := idlesize p + 1, usesize := usesize p - 1\<rparr>) (s1\<lparr>next_redis := next_redis s1 + 1\<rparr>))"
    using assms(3,4) f n g(2)
    by (cases "redis_conn_pool s1 ! nat ?i")
      (auto simp: r_def destroy_proxy_def GiveBack_def Let_def make_redis_def GetRedisPool_def db_in_range_def pool_at_def set_pool_def)
  show ?thesis unfolding d using n by (simp add: frame_simps)
qed

definition full_mng :: redis_mng where
  "full_mng = demo_mng\<lparr>rcfg := demo_config\<lparr>rpool_size := 0\<rparr>\<rparr>"

theorem failed_proxy_grows_pool_witness:
  "\<exists>s2 p2. destroy_proxy (fst (the (RedisMngProxy True 0 full_mng))) (snd (the (RedisMngProxy True 0 full_mng))) = Some s2 \<and>
     pool_at s2 (nat (real_db full_mng 0)) = p2 \<and> length (redis_queue p2) = 0 + 1 \<and> totalsize p2 = 0"
proof -
  have r: "RedisMngProxy True 0 full_mng = Some (\<lparr>isvalid_f = True, master_f = True, db_id = 0, ptr = None\<rparr>, full_mng)"
    by (simp add: RedisMngProxy_def GetRedis_def GetRedis2_def get_from_pool_def full_mng_def demo_mng_def redis_Init_def
        demo_config_def real_db_def GetRedisPool_def empty_pool_def set_pool_def numeral_eq_Suc Let_def)
  have p: "pool_at full_mng (nat (real_db full_mng 0)) = empty_pool" "db_in_range 0 full_mng"
    by (simp_all add: full_mng_def demo_mng_def redis_Init_def real_db_def db_in_range_def pool_at_def)
  show ?thesis
    using failed_proxy_grows_pool[OF r _ p(2) p(1)[symmetric]] r by (auto simp: empty_pool_def)
qed

text \<open>
  Behind a sentinel a spare connection is one to the master, also when it is entered as one to
  a replica; and a direct one is made without the \<^verbatim>\<open>keep_alive\<close> of those that \<open>GetRedis2\<close> makes.
\<close>

lemma spare_of_replica:
  assumes "GiveBack r False False db s = Some (0, s')" "db_in_range db s"
  shows "\<exists>x. last (redis_queue (pool_at s' (nat (real_db s db)))) = Some (False, Some x) \<and>
    redis_source x = spare_source s \<and>
    (case redis_source x of ViaSentinel _ _ m \<Rightarrow> m | Direct _ _ keep_alive \<Rightarrow> \<not> keep_alive)"
  using assms
  by (auto simp: GiveBack_def Let_def make_redis_def db_in_range_def GetRedisPool_def pool_at_def set_pool_def
      spare_source_def direct_source_def split: option.splits if_splits)

text \<open>Database 16 passes the check of the range but has no pool.\<close>

lemma database_16_has_no_pool: "length (redis_conn_pool s) = MAX_DB_SIZE \<Longrightarrow> GetRedis master 16 s = None"
  by (cases "sentinel s")
    (simp_all add: GetRedis_def GetRedis2_def get_from_pool_def real_db_def GetRedisPool_def MAX_DB_SIZE_def)

end
