(* ===== verification/Simulation.thy ===== *)
theory Simulation
  imports Main
begin

text \<open>
  The contract of a component with an abstract specification: every operation of its interface
  does to the abstraction of the state what the specification does, and keeps the invariant.
  A client that knows only the contract can then follow the specification through any sequence
  of operations. \<open>SubPub\<close> and \<open>Metric\<close> interpret it.
\<close>

locale simulation =
  fixes step :: "'o \<Rightarrow> 's \<Rightarrow> 's" and spec :: "'o \<Rightarrow> 'a \<Rightarrow> 'a" and view :: "'s \<Rightarrow> 'a" and inv :: "'s \<Rightarrow> bool"
  assumes inv_step: "inv s \<Longrightarrow> inv (step op s)"
    and view_step: "inv s \<Longrightarrow> view (step op s) = spec op (view s)"
begin

lemma run_inv: "inv s \<Longrightarrow> inv (fold step ops s)"
  by (induction ops arbitrary: s) (simp_all add: inv_step)

lemma view_run: "inv s \<Longrightarrow> view (fold step ops s) = fold spec ops (view s)"
  by (induction ops arbitrary: s) (simp_all add: inv_step view_step)

end

end
