(* ===== verification/SubPub.thy ===== *)
theory SubPub
  imports Prelude Simulation "HOL-Library.AList"
begin

text \<open>
  The subscription tables of \<^verbatim>\<open>src/include/subpub_man.h\<close>: a topic with its subscribers by
  key and for the whole topic (\<open>topics\<close>), and the manager of all topics (\<open>subman\<close>), with the
  abstract specification that a manager is a relation.

  The unordered maps are association lists with distinct keys; the order in which a loop visits
  them is the parameter \<open>iter\<close> where it can be seen. A \<^verbatim>\<open>std::set\<close> is a set, visited in
  increasing order. The subscriber and the key are type parameters with their printing
  functions. The calls hold the mutex of the topic, so each is one step.
\<close>

section \<open>A topic\<close>

record ('k, 's) topics =
  topic_id :: u64
  key_subers :: "('k \<times> 's set) list"
  topic_subers :: "'s set"

definition Topics :: "u64 \<Rightarrow> ('k, 's) topics" where
  "Topics topic = \<lparr>topic_id = topic, key_subers = [], topic_subers = {}\<rparr>"

definition addTopicSuber :: "'s \<Rightarrow> ('k, 's) topics \<Rightarrow> ('k, 's) topics" where
  "addTopicSuber st t = t\<lparr>topic_subers := insert st (topic_subers t)\<rparr>"

definition addSubscriber :: "'k \<Rightarrow> 's \<Rightarrow> ('k, 's) topics \<Rightarrow> ('k, 's) topics" where
  "addSubscriber key st t =
     (case map_of (key_subers t) key of
        Some ss \<Rightarrow> t\<lparr>key_subers := AList.update key (insert st ss) (key_subers t)\<rparr>
      | None \<Rightarrow> t\<lparr>key_subers := key_subers t @ [(key, {st})]\<rparr>)"

definition removeSubscriber_key :: "'k \<Rightarrow> 's \<Rightarrow> ('k, 's) topics \<Rightarrow> ('k, 's) topics" where
  "removeSubscriber_key key st t =
     (case map_of (key_subers t) key of
        Some ss \<Rightarrow> t\<lparr>key_subers := AList.update key (ss - {st}) (key_subers t)\<rparr>
      | None \<Rightarrow> t)"

definition removeSubscriber :: "'s \<Rightarrow> ('k, 's) topics \<Rightarrow> ('k, 's) topics" where
  "removeSubscriber st t =
     t\<lparr>topic_subers := topic_subers t - {st}, key_subers := map (\<lambda>(k, ss). (k, ss - {st})) (key_subers t)\<rparr>"

definition topics_subers :: "'k \<Rightarrow> ('k, 's) topics \<Rightarrow> 's set" where
  "topics_subers key t =
     (case map_of (key_subers t) key of
        None \<Rightarrow> topic_subers t
      | Some ss \<Rightarrow> (if topic_subers t = {} then ss else ss \<union> topic_subers t))"

text \<open>The report: \<open>comma_list\<close> is the inner loop that separates the subscribers.\<close>

definition endl :: string where "endl = [CHR 0x0A]"

definition dashes :: string where "dashes = replicate 32 CHR ''-''"

definition comma_list :: "('s::linorder \<Rightarrow> string) \<Rightarrow> 's set \<Rightarrow> string" where
  "comma_list show_s ss =
     foldl (\<lambda>ks j. (if ks \<noteq> [] then ks @ '', '' else ks) @ show_s j) [] (sorted_list_of_set ss)"

definition topics_dumpSubers ::
  "(('k \<times> 's set) list \<Rightarrow> ('k \<times> 's set) list) \<Rightarrow> ('k \<Rightarrow> string) \<Rightarrow> ('s::linorder \<Rightarrow> string) \<Rightarrow>
   ('k, 's) topics \<Rightarrow> string" where
  "topics_dumpSubers iter show_k show_s t =
     dashes @ endl @
     concat (map (\<lambda>(k, ss). ''  <Key, Suber>:['' @ show_k k @ ''] <==> ['' @ comma_list show_s ss @ '']'' @ endl)
       (iter (key_subers t))) @
     (if topic_subers t \<noteq> {}
      then ''  <Topic, Suber>:['' @ show_int (sint (topic_id t)) @ ''] <==> ['' @
           comma_list show_s (topic_subers t) @ '']'' @ endl
      else []) @
     dashes @ endl"

section \<open>The manager\<close>

record ('k, 's) subman =
  topic_table :: "(u64 \<times> ('k, 's) topics) list"

definition SubManager :: "('k, 's) subman" where
  "SubManager = \<lparr>topic_table = []\<rparr>"

definition get_topic :: "u64 \<Rightarrow> bool \<Rightarrow> ('k, 's) subman \<Rightarrow> ('k, 's) topics option \<times> ('k, 's) subman" where
  "get_topic topic create m =
     (case map_of (topic_table m) topic of
        Some t \<Rightarrow> (Some t, m)
      | None \<Rightarrow>
          (if create then (Some (Topics topic), m\<lparr>topic_table := AList.update topic (Topics topic) (topic_table m)\<rparr>)
           else (None, m)))"

text \<open>The call \<^verbatim>\<open>t->f(...)\<close> on the object the shared pointer of \<^verbatim>\<open>get\<close> points to.\<close>

definition on_topic ::
  "u64 \<Rightarrow> bool \<Rightarrow> (('k, 's) topics \<Rightarrow> ('k, 's) topics) \<Rightarrow> ('k, 's) subman \<Rightarrow> ('k, 's) subman" where
  "on_topic topic create f m =
     (case get_topic topic create m of
        (None, m1) \<Rightarrow> m1
      | (Some t, m1) \<Rightarrow> m1\<lparr>topic_table := AList.update topic (f t) (topic_table m1)\<rparr>)"

definition Subscribe :: "u64 \<Rightarrow> 'k \<Rightarrow> 's \<Rightarrow> ('k, 's) subman \<Rightarrow> ('k, 's) subman" where
  "Subscribe topic key st = on_topic topic True (addSubscriber key st)"

definition SubscribeTopic :: "u64 \<Rightarrow> 's \<Rightarrow> ('k, 's) subman \<Rightarrow> ('k, 's) subman" where
  "SubscribeTopic topic st = on_topic topic True (addTopicSuber st)"

definition UnsubscribeTopic :: "u64 \<Rightarrow> 's \<Rightarrow> ('k, 's) subman \<Rightarrow> ('k, 's) subman" where
  "UnsubscribeTopic topic st = on_topic topic True (removeSubscriber st)"

definition Unsubscribe_key :: "u64 \<Rightarrow> 'k \<Rightarrow> 's \<Rightarrow> ('k, 's) subman \<Rightarrow> ('k, 's) subman" where
  "Unsubscribe_key topic key st = on_topic topic False (removeSubscriber_key key st)"

definition Unsubscribe :: "'s \<Rightarrow> ('k, 's) subman \<Rightarrow> ('k, 's) subman" where
  "Unsubscribe st m = m\<lparr>topic_table := map (\<lambda>(i, t). (i, removeSubscriber st t)) (topic_table m)\<rparr>"

definition subman_subers :: "u64 \<Rightarrow> 'k \<Rightarrow> ('k, 's) subman \<Rightarrow> 's set" where
  "subman_subers topic key m =
     (case fst (get_topic topic False m) of None \<Rightarrow> {} | Some t \<Rightarrow> topics_subers key t)"

definition subman_dumpSubers ::
  "((u64 \<times> ('k, 's) topics) list \<Rightarrow> (u64 \<times> ('k, 's) topics) list) \<Rightarrow>
   (('k \<times> 's set) list \<Rightarrow> ('k \<times> 's set) list) \<Rightarrow> ('k \<Rightarrow> string) \<Rightarrow> ('s::linorder \<Rightarrow> string) \<Rightarrow>
   ('k, 's) subman \<Rightarrow> string" where
  "subman_dumpSubers iter_t iter show_k show_s m =
     concat (map (\<lambda>(i, t). topics_dumpSubers iter show_k show_s t) (iter_t (topic_table m)))"

section \<open>The specification\<close>

text \<open>A manager is two relations: who is subscribed to which key, and who to which topic.\<close>

record ('k, 's) subs =
  by_key :: "(u64 \<times> 'k \<times> 's) set"
  by_topic :: "(u64 \<times> 's) set"

datatype ('k, 's) sub_op =
    Sub u64 'k 's
  | Sub_topic u64 's
  | Unsub_topic u64 's
  | Unsub_key u64 'k 's
  | Unsub_all 's

fun sub_step :: "('k, 's) sub_op \<Rightarrow> ('k, 's) subman \<Rightarrow> ('k, 's) subman" where
  "sub_step (Sub t k s) = Subscribe t k s"
| "sub_step (Sub_topic t s) = SubscribeTopic t s"
| "sub_step (Unsub_topic t s) = UnsubscribeTopic t s"
| "sub_step (Unsub_key t k s) = Unsubscribe_key t k s"
| "sub_step (Unsub_all s) = Unsubscribe s"

fun sub_spec :: "('k, 's) sub_op \<Rightarrow> ('k, 's) subs \<Rightarrow> ('k, 's) subs" where
  "sub_spec (Sub t k s) a = a\<lparr>by_key := insert (t, k, s) (by_key a)\<rparr>"
| "sub_spec (Sub_topic t s) a = a\<lparr>by_topic := insert (t, s) (by_topic a)\<rparr>"
| "sub_spec (Unsub_topic t s) a =
     a\<lparr>by_key := {(t', k, s'). (t', k, s') \<in> by_key a \<and> (t', s') \<noteq> (t, s)}, by_topic := by_topic a - {(t, s)}\<rparr>"
| "sub_spec (Unsub_key t k s) a = a\<lparr>by_key := by_key a - {(t, k, s)}\<rparr>"
| "sub_spec (Unsub_all s) a =
     a\<lparr>by_key := {(t', k, s'). (t', k, s') \<in> by_key a \<and> s' \<noteq> s}, by_topic := {(t', s'). (t', s') \<in> by_topic a \<and> s' \<noteq> s}\<rparr>"

definition key_set :: "'k \<Rightarrow> ('k, 's) topics \<Rightarrow> 's set" where
  "key_set k t = (case map_of (key_subers t) k of None \<Rightarrow> {} | Some ss \<Rightarrow> ss)"

definition topic_of :: "u64 \<Rightarrow> ('k, 's) subman \<Rightarrow> ('k, 's) topics" where
  "topic_of i m = (case map_of (topic_table m) i of None \<Rightarrow> Topics i | Some t \<Rightarrow> t)"

definition subs_of :: "('k, 's) subman \<Rightarrow> ('k, 's) subs" where
  "subs_of m = \<lparr>by_key = {(i, k, s). s \<in> key_set k (topic_of i m)},
                by_topic = {(i, s). s \<in> topic_subers (topic_of i m)}\<rparr>"

lemma map_of_snd: "map_of (map (\<lambda>(k, v). (k, f v)) xs) k = map_option f (map_of xs k)"
  by (induction xs) auto

lemma key_set_ops [simp]:
  "key_set k (Topics i) = {}"
  "key_set k (addTopicSuber s t) = key_set k t"
  "key_set k (addSubscriber k' s t) = (if k = k' then insert s (key_set k t) else key_set k t)"
  "key_set k (removeSubscriber_key k' s t) = (if k = k' then key_set k t - {s} else key_set k t)"
  "key_set k (removeSubscriber s t) = key_set k t - {s}"
  by (auto simp: key_set_def Topics_def addTopicSuber_def addSubscriber_def removeSubscriber_key_def
      removeSubscriber_def map_of_snd update_conv' map_add_def split: option.splits)

lemma topic_subers_ops [simp]:
  "topic_subers (Topics i) = {}"
  "topic_subers (addTopicSuber s t) = insert s (topic_subers t)"
  "topic_subers (addSubscriber k s t) = topic_subers t"
  "topic_subers (removeSubscriber_key k s t) = topic_subers t"
  "topic_subers (removeSubscriber s t) = topic_subers t - {s}"
  by (simp_all add: Topics_def addTopicSuber_def addSubscriber_def removeSubscriber_key_def
      removeSubscriber_def split: option.splits)

text \<open>
  The three branches of \<open>topics_subers\<close> are one union: a key that was emptied again counts as
  one without subscribers.
\<close>

lemma topics_subers_eq: "topics_subers k t = key_set k t \<union> topic_subers t"
  by (auto simp: topics_subers_def key_set_def split: option.splits)

lemma subman_subers_eq: "subman_subers i k m = key_set k (topic_of i m) \<union> topic_subers (topic_of i m)"
  by (auto simp: subman_subers_def get_topic_def topic_of_def topics_subers_eq split: option.splits)

lemma topic_of_on_topic:
  "topic_of i (on_topic j c f m) =
     (if i = j \<and> (c \<or> map_of (topic_table m) j \<noteq> None) then f (topic_of i m) else topic_of i m)"
  by (auto simp: topic_of_def on_topic_def get_topic_def update_conv' split: option.splits)

lemma topic_of_Unsubscribe:
  "key_set k (topic_of i (Unsubscribe s m)) = key_set k (topic_of i m) - {s}"
  "topic_subers (topic_of i (Unsubscribe s m)) = topic_subers (topic_of i m) - {s}"
  by (auto simp: topic_of_def Unsubscribe_def map_of_snd split: option.splits)

lemma topic_of_new [simp]: "topic_of i SubManager = Topics i"
  by (simp add: topic_of_def SubManager_def)

lemma subs_of_step: "subs_of (sub_step op m) = sub_spec op (subs_of m)"
proof (cases op)
  case (Unsub_key t k s)
  have "key_set k' (topic_of i (Unsubscribe_key t k s m)) =
      key_set k' (topic_of i m) - (if i = t \<and> k' = k then {s} else {})" for i k'
    by (auto simp: Unsubscribe_key_def topic_of_on_topic) (auto simp: topic_of_def)
  moreover have "topic_subers (topic_of i (Unsubscribe_key t k s m)) = topic_subers (topic_of i m)" for i
    by (simp add: Unsubscribe_key_def topic_of_on_topic)
  ultimately show ?thesis using Unsub_key by (auto simp: subs_of_def split: if_splits)
qed (auto simp: subs_of_def Subscribe_def SubscribeTopic_def UnsubscribeTopic_def topic_of_on_topic
    topic_of_Unsubscribe split: if_splits)

interpretation subscriptions: simulation sub_step sub_spec subs_of "\<lambda>_. True"
  by unfold_locales (simp_all add: subs_of_step)

lemma subs_of_new [simp]: "subs_of SubManager = \<lparr>by_key = {}, by_topic = {}\<rparr>"
  by (simp add: subs_of_def)

text \<open>
  C10. After any sequence of calls on a new manager, \<^verbatim>\<open>subers(topic, key)\<close> is exactly the
  set of those who, following the calls as changes of a relation, are subscribed to the key or
  to the topic.
\<close>

theorem subers_follow_the_calls:
  "subman_subers t k (fold sub_step ops SubManager) =
     {s. (t, k, s) \<in> by_key (fold sub_spec ops \<lparr>by_key = {}, by_topic = {}\<rparr>) \<or>
         (t, s) \<in> by_topic (fold sub_spec ops \<lparr>by_key = {}, by_topic = {}\<rparr>)}"
proof -
  have "subs_of (fold sub_step ops SubManager) = fold sub_spec ops \<lparr>by_key = {}, by_topic = {}\<rparr>"
    using subscriptions.view_run[where s = SubManager and ops = ops] by simp
  from this[symmetric] show ?thesis by (auto simp: subman_subers_eq subs_of_def)
qed

text \<open>Taking back a subscription to a key does not take back one to the whole topic.\<close>

lemma unsubscribe_key_keeps_topic:
  "s \<in> subman_subers t k (Unsubscribe_key t k s (SubscribeTopic t s m))"
  by (auto simp: subman_subers_eq Unsubscribe_key_def SubscribeTopic_def topic_of_on_topic)

text \<open>A query does not enter the topic into the table, but \<^verbatim>\<open>UnsubscribeTopic\<close> does.\<close>

lemma unsubscribe_topic_creates:
  "map_of (topic_table m) t = None \<Longrightarrow> map_of (topic_table (UnsubscribeTopic t s m)) t \<noteq> None"
  by (simp add: UnsubscribeTopic_def on_topic_def get_topic_def update_conv')

end
