(* ===== verification/StringAssist.thy ===== *)
theory StringAssist
  imports Prelude
begin

text \<open>
  The string helpers of \<^verbatim>\<open>src/include/string_assist.h\<close> and the ones of the same purpose in
  \<^verbatim>\<open>src/include/util.h\<close>: replacing, splitting, case, hexadecimal digits, trimming and URLs.
  Reference definitions (\<open>replace_all\<close>, \<open>split_at\<close>, \<open>unhex\<close>) say what they are for.

  The model of \<^verbatim>\<open>replace\<close> is a partial function: \<open>None\<close> means that the loop does not end.
  An exception of the string library is the left value of a sum. The classification functions
  are those of the C locale.
\<close>

section \<open>Replacing\<close>

text \<open>The largest length of a string of the GNU library, past which \<^verbatim>\<open>length_error\<close> is thrown.\<close>

definition str_max :: nat where "str_max = 2 ^ 63 - 1"

datatype str_error = Length_error | Out_of_range

definition str_replace :: "nat \<Rightarrow> nat \<Rightarrow> string \<Rightarrow> string \<Rightarrow> str_error + string" where
  "str_replace pos n new s =
     (if str_max < length s - min n (length s - pos) + length new then Inl Length_error
      else Inr (take pos s @ new @ drop (pos + n) s))"

partial_function (option) replace_loop ::
  "string \<Rightarrow> string \<Rightarrow> nat \<Rightarrow> string \<Rightarrow> (str_error + string) option" where
  "replace_loop old new pos str =
     (if pos = npos then Some (Inr str)
      else
        (let p = str_find str old pos
         in if p = npos then Some (Inr str)
            else case str_replace p (length old) new str of
                   Inl e \<Rightarrow> Some (Inl e)
                 | Inr str1 \<Rightarrow> replace_loop old new (size_add p (length new)) str1))"

definition replace_str :: "string \<Rightarrow> string \<Rightarrow> string \<Rightarrow> (str_error + string) option" where
  "replace_str str old_val new_val = replace_loop old_val new_val 0 str"

text \<open>What it is for: every occurrence, from the left and without overlaps, is replaced.\<close>

fun replace_all :: "string \<Rightarrow> string \<Rightarrow> string \<Rightarrow> string" where
  "replace_all old new [] = []"
| "replace_all old new (c # cs) =
     (if old \<noteq> [] \<and> take (length old) (c # cs) = old
      then new @ replace_all old new (drop (length old - 1) cs)
      else c # replace_all old new cs)"

section \<open>Splitting\<close>

text \<open>
  \<^verbatim>\<open>StringAssist::split\<close>: after a separator character the search goes on \<^verbatim>\<open>sepr.size()\<close>
  characters further. The subtraction in \<^verbatim>\<open>if (index - last > 0)\<close> is of unsigned numbers.
\<close>

function split_loop :: "string \<Rightarrow> string \<Rightarrow> nat \<Rightarrow> nat \<Rightarrow> string list \<Rightarrow> str_error + string list" where
  "split_loop str sepr step from_pos elems =
     (let index = find_first_of str sepr from_pos
      in if index \<noteq> npos \<and> 0 < step
         then (case substr str from_pos (size_sub index from_pos) of
                 None \<Rightarrow> Inl Out_of_range
               | Some w \<Rightarrow> split_loop str sepr step (index + step) (elems @ [w]))
         else if 0 < size_sub index from_pos
              then (case substr str from_pos (size_sub index from_pos) of
                      None \<Rightarrow> Inl Out_of_range
                    | Some w \<Rightarrow> Inr (elems @ [w]))
              else Inr elems)"
  by pat_completeness auto
termination
proof (relation "measure (\<lambda>(str, sepr, step, from_pos, elems). length str - from_pos)", goal_cases)
  case (2 str sepr step from_pos elems index w)
  then show ?case using find_first_of_bounds(1,2)[of str sepr from_pos] by (auto intro!: diff_less_mono2)
qed simp

declare split_loop.simps [simp del]

text \<open>
  With an empty separator \<^verbatim>\<open>find_first_of\<close> finds nothing, so the condition \<open>0 < step\<close>, which
  makes the model total, never decides.
\<close>

definition assist_split :: "string \<Rightarrow> string \<Rightarrow> str_error + string list" where
  "assist_split str sepr = (if length str = 0 then Inr [] else split_loop str sepr (length sepr) 0 [])"

text \<open>\<^verbatim>\<open>util::split\<close> goes on one character after the separator, and appends to the result.\<close>

definition util_split :: "string \<Rightarrow> string \<Rightarrow> string list \<Rightarrow> str_error + string list" where
  "util_split s delim ret = split_loop s delim 1 0 ret"

fun split_at :: "char set \<Rightarrow> string \<Rightarrow> string list" where
  "split_at D [] = [[]]"
| "split_at D (c # cs) =
     (if c \<in> D then [] # split_at D cs else (c # hd (split_at D cs)) # tl (split_at D cs))"

section \<open>Case, hexadecimal digits, trimming\<close>

definition to_upper :: "string \<Rightarrow> string" where "to_upper str = map c_toupper str"

definition to_lower :: "string \<Rightarrow> string" where "to_lower str = map c_tolower str"

text \<open>\<^verbatim>\<open>util::toUp\<close> does the conversion by hand.\<close>

definition toUp :: "string \<Rightarrow> string" where
  "toUp d = map (\<lambda>c. if 97 \<le> (of_char c :: nat) \<and> (of_char c :: nat) \<le> 122
                     then char_of ((of_char c :: nat) - (97 - 65)) else c) d"

definition hex_chars :: string where "hex_chars = ''0123456789abcdef''"

definition to_hex :: "string \<Rightarrow> string" where
  "to_hex str = concat (map (\<lambda>c. [hex_chars ! (drop_bit 4 (of_char c :: nat)), hex_chars ! (take_bit 4 (of_char c :: nat))]) str)"

definition ltrim :: "string \<Rightarrow> string" where "ltrim str = std_ltrim str"

definition rtrim :: "string \<Rightarrow> string" where "rtrim str = std_rtrim str"

definition trim :: "string \<Rightarrow> string" where "trim str = ltrim (rtrim str)"

section \<open>URLs\<close>

text \<open>The result, and the three values written through the references.\<close>

definition ParseUrl :: "string \<Rightarrow> bool \<times> string \<times> string \<Rightarrow> bool \<times> bool \<times> string \<times> string" where
  "ParseUrl url old =
     (if url = [] then (False, old)
      else
        (let is_ssl = (str_find url ''ssl://'' 0 \<noteq> npos);
             pos = find_last_of url ''/'';
             pos2 = find_last_of url '':''
         in case substr url (size_add pos 1) (size_sub (size_sub pos2 pos) 1) of
              None \<Rightarrow> (False, is_ssl, snd old)
            | Some host \<Rightarrow>
                (case substr url (size_add pos2 1) npos of
                   None \<Rightarrow> (False, is_ssl, host, snd (snd old))
                 | Some port \<Rightarrow> (True, is_ssl, host, port))))"

section \<open>Replacing is replacing all occurrences\<close>

definition occurs_at :: "string \<Rightarrow> string \<Rightarrow> nat \<Rightarrow> bool" where
  "occurs_at s pat i \<longleftrightarrow> i + length pat \<le> length s \<and> take (length pat) (drop i s) = pat"

lemma str_find_step:
  assumes "pos \<le> length s"
  shows "str_find s pat pos = (if occurs_at s pat pos then pos else str_find s pat (Suc pos))"
proof -
  have "[pos..<Suc (length s)] = pos # [Suc pos..<Suc (length s)]" using assms by (simp add: upt_conv_Cons)
  then show ?thesis by (simp add: str_find_def occurs_at_def)
qed

lemma str_find_past: "length s < pos \<Longrightarrow> str_find s pat pos = npos"
  by (simp add: str_find_def)

lemma occurs_at_append: "occurs_at (a @ b) pat (length a) \<longleftrightarrow> take (length pat) b = pat"
  by (auto simp: occurs_at_def) (metis length_take min.absorb_iff2 min.commute)

lemma replace_loop_skip:
  assumes "pos < length s" "length s < npos" "\<not> occurs_at s old pos"
  shows "replace_loop old new pos s = replace_loop old new (Suc pos) s"
  using assms str_find_step[of pos s old] by (subst (1 2) replace_loop.simps) simp

lemma replace_all_longer:
  "length old \<le> length new \<Longrightarrow> length s \<le> length (replace_all old new s)"
proof (induction old new s rule: replace_all.induct)
  case (2 old new c cs)
  show ?case
  proof (cases "old \<noteq> [] \<and> take (length old) (c # cs) = old")
    case True
    then have "length (c # cs) \<le> length old + length (drop (length old - 1) cs)" by (cases old) auto
    then show ?thesis using 2 True by simp
  qed (use 2 in auto)
qed simp

lemma replace_loop_spec:
  assumes "old \<noteq> []" "length (done_part @ rest) \<le> str_max" "length (done_part @ replace_all old new rest) \<le> str_max"
  shows "replace_loop old new (length done_part) (done_part @ rest) = Some (Inr (done_part @ replace_all old new rest))"
  using assms
proof (induction old new rest arbitrary: done_part rule: replace_all.induct)
  case (1 old new)
  then show ?case
    by (subst replace_loop.simps) (simp add: str_find_step[of "length done_part"] str_find_past occurs_at_def)
next
  case (2 old new c cs)
  have small: "length (done_part @ c # cs) < npos" using 2(4) by (simp add: str_max_def npos_def)
  show ?case
  proof (cases "take (length old) (c # cs) = old")
    case True
    let ?rest = "drop (length old - 1) cs"
    have split: "c # cs = old @ ?rest"
      using True 2(3) by (metis append_take_drop_id drop_Cons' length_0_conv)
    have at: "str_find (done_part @ c # cs) old (length done_part) = length done_part"
      using True by (subst str_find_step) (simp_all only: occurs_at_append length_append le_add1 if_True refl)
    have all: "replace_all old new (c # cs) = new @ replace_all old new ?rest" using True 2(3) by simp
    have len: "length (done_part @ new @ ?rest) \<le> str_max"
    proof (cases "length old \<le> length new")
      case True
      then have "length ?rest \<le> length (replace_all old new ?rest)" by (rule replace_all_longer)
      then show ?thesis using 2(5) all by simp
    next
      case False
      then show ?thesis using 2(4) arg_cong[OF split, of length] by simp
    qed
    have rep: "str_replace (length done_part) (length old) new (done_part @ c # cs) = Inr (done_part @ new @ ?rest)"
      using len by (simp only: split) (simp add: str_replace_def)
    have pos: "size_add (length done_part) (length new) = length (done_part @ new)"
      using len by (simp add: str_max_def size_max_def)
    have "replace_loop old new (length done_part) (done_part @ c # cs) =
        replace_loop old new (length (done_part @ new)) ((done_part @ new) @ ?rest)"
      using small by (subst replace_loop.simps) (simp only: at rep pos Let_def sum.case append_assoc, simp)
    also have "\<dots> = Some (Inr ((done_part @ new) @ replace_all old new ?rest))"
      using 2(1)[of "done_part @ new"] True 2(3) len 2(5) all by simp
    finally show ?thesis using all by simp
  next
    case False
    then have "\<not> occurs_at (done_part @ c # cs) old (length done_part)" by (simp only: occurs_at_append simp_thms)
    then have "replace_loop old new (length done_part) (done_part @ c # cs) =
        replace_loop old new (length (done_part @ [c])) ((done_part @ [c]) @ cs)"
      using replace_loop_skip[of "length done_part" "done_part @ c # cs"] small by simp
    also have "\<dots> = Some (Inr ((done_part @ [c]) @ replace_all old new cs))"
      using False 2(2)[of "done_part @ [c]"] 2(3-5) by simp
    finally show ?thesis using False by simp
  qed
qed

text \<open>With nothing to look for, every turn finds it again and makes the string longer.\<close>

lemma replace_turn_empty:
  assumes ih: "\<And>old new pos s r. loop old new pos s = Some r \<Longrightarrow>
      old = [] \<longrightarrow> pos \<le> length s \<longrightarrow> length s \<le> str_max \<longrightarrow> r = Inl Length_error"
    and turn: "(if pos = npos then Some (Inr s)
      else let p = str_find s old pos in
        if p = npos then Some (Inr s)
        else case str_replace p (length old) new s of Inl e \<Rightarrow> Some (Inl e)
             | Inr str1 \<Rightarrow> loop old new (size_add p (length new)) str1) = Some r"
    and pre: "old = []" "pos \<le> length s" "length s \<le> str_max"
  shows "r = Inl Length_error"
proof -
  have "str_find s old pos = pos" "pos \<noteq> npos"
    using pre by (auto simp: str_find_step occurs_at_def str_max_def npos_def)
  then have body: "(case str_replace pos 0 new s of Inl e \<Rightarrow> Some (Inl e)
      | Inr str1 \<Rightarrow> loop old new (size_add pos (length new)) str1) = Some r"
    using turn pre(1) by simp
  show ?thesis
  proof (cases "str_max < length s + length new")
    case True
    then show ?thesis using body by (simp add: str_replace_def)
  next
    case False
    then have "loop old new (pos + length new) (take pos s @ new @ drop pos s) = Some r"
      using body pre(2) by (simp add: str_replace_def str_max_def size_max_def)
    then show ?thesis using ih[of old new "pos + length new"] pre False by simp
  qed
qed

lemma replace_loop_empty:
  assumes "replace_loop old new pos s = Some r" "old = []" "pos \<le> length s" "length s \<le> str_max"
  shows "r = Inl Length_error"
proof -
  have "old = [] \<longrightarrow> pos \<le> length s \<longrightarrow> length s \<le> str_max \<longrightarrow> r = Inl Length_error"
  proof (rule replace_loop.raw_induct[where P = "\<lambda>old new pos s r.
      old = [] \<longrightarrow> pos \<le> length s \<longrightarrow> length s \<le> str_max \<longrightarrow> r = Inl Length_error", OF _ assms(1)], goal_cases)
    case step: (1 loop old new pos s r)
    show ?case
    proof (intro impI)
      assume pre: "old = []" "pos \<le> length s" "length s \<le> str_max"
      show "r = Inl Length_error" using step pre by (rule replace_turn_empty)
    qed
  qed
  then show ?thesis using assms(2-4) by blast
qed

text \<open>
  C31. \<^verbatim>\<open>StringAssist::replace\<close> ends and replaces every occurrence of a non-empty string, from
  the left and without overlaps, if the strings fit; for the empty string it never returns one.
\<close>

theorem replace_replaces_all:
  assumes "length s \<le> str_max" "length (replace_all old new s) \<le> str_max"
  shows "if old = [] then \<forall>t. replace_str s old new \<noteq> Some (Inr t)
    else replace_str s old new = Some (Inr (replace_all old new s))"
proof (cases "old = []")
  case True
  have "replace_str s old new \<noteq> Some (Inr t)" for t
    using replace_loop_empty[of old new 0 s "Inr t"] True assms(1) by (auto simp: replace_str_def)
  then show ?thesis using True by simp
next
  case False
  then show ?thesis using replace_loop_spec[of old "[]" s new] assms by (simp add: replace_str_def)
qed

theorem replace_replaces_all_witness:
  "replace_str ''aXbXX'' ''X'' ''--'' = Some (Inr ''a--b----'')"
  using replace_replaces_all[of "''aXbXX''" "''X''" "''--''"] by (simp add: str_max_def)

section \<open>Splitting is splitting at the separators\<close>

lemma split_at_append:
  "set w \<inter> D = {} \<Longrightarrow> split_at D (w @ rest) = (w @ hd (split_at D rest)) # tl (split_at D rest)"
proof (induction w)
  case Nil
  then show ?case by (cases rest) simp_all
qed auto

lemma split_loop_spec:
  assumes "length s < npos" "from_pos \<le> length s"
  shows "split_loop s d 1 from_pos elems = Inr (elems @ split_at (set d) (drop from_pos s))"
  using assms(2)
proof (induction "length s - from_pos" arbitrary: from_pos elems rule: less_induct)
  case less
  let ?i = "find_first_of s d from_pos"
  show ?case
  proof (cases "?i = npos")
    case True
    have "set (drop from_pos s) \<inter> set d = {}"
      using find_first_of_npos[OF assms(1), of d from_pos] True by (force simp: in_set_conv_nth)
    then have "split_at (set d) (drop from_pos s) = [drop from_pos s]"
      using split_at_append[of "drop from_pos s" "set d" "[]"] by simp
    moreover have "size_sub npos from_pos = npos - from_pos"
      using less(2) assms(1) by (simp add: npos_def size_max_def)
    ultimately show ?thesis
      using True less(2) assms(1) by (subst split_loop.simps) (simp add: substr_def)
  next
    case False
    note b = find_first_of_bounds[OF False]
    let ?w = "take (?i - from_pos) (drop from_pos s)"
    have parts: "drop from_pos s = ?w @ s ! ?i # drop (Suc ?i) s"
      using b(1,2) by (metis (no_types, lifting) Cons_nth_drop_Suc append_take_drop_id drop_drop le_add_diff_inverse2)
    have "set ?w \<inter> set d = {}"
      using b(1,2,4) by (force simp: in_set_conv_nth)
    then have "split_at (set d) (drop from_pos s) = ?w # split_at (set d) (drop (Suc ?i) s)"
      using b(3) by (subst parts, subst split_at_append) simp_all
    moreover have "size_sub ?i from_pos = ?i - from_pos"
      using b(1,2) assms(1) by (simp add: npos_def size_max_def)
    moreover have "split_loop s d 1 (Suc ?i) (elems @ [?w]) = Inr ((elems @ [?w]) @ split_at (set d) (drop (Suc ?i) s))"
      using b(1,2) by (intro less(1)) auto
    ultimately show ?thesis
      using False less(2) by (subst split_loop.simps) (simp add: substr_def Let_def)
  qed
qed

lemma util_split_eq: "length s < npos \<Longrightarrow> util_split s d ret = Inr (ret @ split_at (set d) s)"
  using split_loop_spec[of s 0 d ret] by (simp add: util_split_def)

lemma assist_split_eq:
  "length s < npos \<Longrightarrow> s \<noteq> [] \<Longrightarrow> assist_split s [c] = Inr (split_at {c} s)"
  using split_loop_spec[of s 0 "[c]" "[]"] by (simp add: assist_split_def)

fun join :: "string \<Rightarrow> string list \<Rightarrow> string" where
  "join sep [] = []"
| "join sep [w] = w"
| "join sep (w # ws) = w @ sep @ join sep ws"

lemma split_at_ne [simp]: "split_at D s \<noteq> []"
  by (cases s) auto

lemma join_Cons: "ws \<noteq> [] \<Longrightarrow> join sep (w # ws) = w @ sep @ join sep ws"
  by (cases ws) auto

lemma split_at_join:
  "ws \<noteq> [] \<Longrightarrow> list_all (\<lambda>w. c \<notin> set w) ws \<Longrightarrow> split_at {c} (join [c] ws) = ws"
proof (induction "[c]" ws rule: join.induct)
  case (2 w)
  then show ?case using split_at_append[of w "{c}" "[]"] by simp
next
  case (3 w v vs)
  then show ?case using split_at_append[of w "{c}" "c # join [c] (v # vs)"] by simp
qed simp

lemma join_split_at: "join [c] (split_at {c} s) = s \<and> list_all (\<lambda>w. c \<notin> set w) (split_at {c} s)"
proof (induction s)
  case (Cons x xs)
  obtain w ws where "split_at {c} xs = w # ws" by (cases "split_at {c} xs") auto
  then show ?case using Cons by (cases ws) auto
qed simp

text \<open>
  Splitting at one separator character is undone by joining with it, and splitting undoes
  joining: empty words are kept, also the last one. Only the empty string has no word.
\<close>

theorem split_round_trip:
  assumes "length s < npos" "length (join [c] ws) < npos" "join [c] ws \<noteq> []" "list_all (\<lambda>w. c \<notin> set w) ws"
  shows "assist_split (join [c] ws) [c] = Inr ws \<and>
    (\<exists>vs. assist_split s [c] = Inr vs \<and> join [c] vs = s \<and> list_all (\<lambda>w. c \<notin> set w) vs)"
proof -
  have "ws \<noteq> []" using assms(3) by auto
  then have "assist_split (join [c] ws) [c] = Inr ws"
    using assist_split_eq[OF assms(2,3), of c] split_at_join[OF _ assms(4)] by simp
  moreover have "\<exists>vs. assist_split s [c] = Inr vs \<and> join [c] vs = s \<and> list_all (\<lambda>w. c \<notin> set w) vs"
    using assist_split_eq[OF assms(1), of c] join_split_at[of c s]
    by (cases "s = []") (auto simp: assist_split_def)
  ultimately show ?thesis by blast
qed

theorem split_round_trip_witness:
  "assist_split ''a,,b,'' '','' = Inr [''a'', [], ''b'', []]"
  using split_round_trip[of "[]" "CHR '',''" "[''a'', [], ''b'', []]"] by (simp add: npos_def)

text \<open>
  A separator of two characters is searched as a set of characters but skipped as a string: a
  character after the separator is lost, and at the end of the string the next word starts
  outside it.
\<close>

lemma split_two_characters:
  "assist_split ''a;bc'' ''; '' = Inr [''a'', ''c'']" "assist_split ''a;'' ''; '' = Inl Out_of_range"
  by (simp_all add: assist_split_def split_loop.simps find_first_of_def substr_def npos_def size_max_def
      size_sub_def upt_rec)

section \<open>Hexadecimal digits and trimming\<close>

definition hex_val :: "char \<Rightarrow> nat" where
  "hex_val c = (if is_digit c then of_char c - 48 else of_char c - 87)"

fun unhex :: "string \<Rightarrow> string" where
  "unhex (a # b # cs) = char_of (16 * hex_val a + hex_val b) # unhex cs"
| "unhex cs = []"

lemma hex_chars_val: "n < 16 \<Longrightarrow> hex_val (hex_chars ! n) = n"
proof -
  have "list_all (\<lambda>n. hex_val (hex_chars ! n) = n) [0..<16]" by code_simp
  then show "n < 16 \<Longrightarrow> hex_val (hex_chars ! n) = n" by (simp add: list_all_iff)
qed

lemma to_hex_simps [simp]:
  "to_hex [] = []"
  "to_hex (c # cs) =
     hex_chars ! ((of_char c :: nat) div 16) # hex_chars ! ((of_char c :: nat) mod 16) # to_hex cs"
  by (simp_all add: to_hex_def drop_bit_eq_div take_bit_eq_mod)

text \<open>
  \<^verbatim>\<open>to_hex\<close> writes two of the sixteen digits for each byte, from which the string can be
  read back.
\<close>

theorem to_hex_round_trip:
  "unhex (to_hex s) = s \<and> length (to_hex s) = 2 * length s \<and> set (to_hex s) \<subseteq> set hex_chars"
proof (induction s)
  case (Cons c cs)
  have "(of_char c :: nat) div 16 < 16" by (rule less_mult_imp_div_less) simp
  moreover have "hex_chars ! n \<in> set hex_chars" if "n < 16" for n
    using that by (intro nth_mem) (simp add: hex_chars_def)
  ultimately show ?case using Cons by (simp add: hex_chars_val)
qed simp

lemma dropWhile_parts: "\<exists>a. s = a @ dropWhile P s \<and> list_all P a"
  by (rule exI[of _ "takeWhile P s"]) (auto simp: list_all_iff dest: set_takeWhileD)

lemma ltrim_parts: "\<exists>a. s = a @ ltrim s \<and> list_all is_space a"
  unfolding ltrim_def std_ltrim_def by (rule dropWhile_parts)

lemma rtrim_parts: "\<exists>b. s = rtrim s @ b \<and> list_all is_space b"
proof -
  obtain a where "rev s = a @ dropWhile is_space (rev s)" "list_all is_space a"
    using dropWhile_parts[of "rev s" is_space] by blast
  then have "s = rtrim s @ rev a" "list_all is_space (rev a)"
    unfolding rtrim_def std_rtrim_def by (metis rev_append rev_rev_ident, simp add: list_all_iff)
  then show ?thesis by blast
qed

lemma rtrim_last: "rtrim s \<noteq> [] \<Longrightarrow> \<not> is_space (last (rtrim s))"
  using hd_dropWhile[of is_space "rev s"] by (auto simp: rtrim_def std_rtrim_def last_rev)

lemma trim_spec:
  "(\<exists>a b. s = a @ trim s @ b \<and> list_all is_space (a @ b)) \<and>
   (trim s \<noteq> [] \<longrightarrow> \<not> is_space (hd (trim s)) \<and> \<not> is_space (last (trim s)))"
proof -
  obtain b where b: "s = rtrim s @ b" "list_all is_space b" using rtrim_parts by blast
  obtain a where a: "rtrim s = a @ trim s" "list_all is_space a" using ltrim_parts[of "rtrim s"] by (auto simp: trim_def)
  have "s = a @ trim s @ b" using a(1) b(1) by (metis append.assoc)
  moreover have "\<not> is_space (hd (trim s))" if "trim s \<noteq> []"
    using hd_dropWhile[of is_space "rtrim s"] that by (auto simp: trim_def ltrim_def std_ltrim_def)
  moreover have "\<not> is_space (last (trim s))" if "trim s \<noteq> []"
    using rtrim_last[of s] a(1) that by simp
  ultimately show ?thesis using a(2) b(2) by (simp del: list_all_append add: list_all_iff) blast
qed

lemma toUp_is_to_upper: "toUp s = to_upper s"
  by (simp add: toUp_def to_upper_def c_toupper_def)

section \<open>URLs\<close>

lemma find_last_of_snoc: "find_last_of (s @ [x]) cs = (if x \<in> set cs then length s else find_last_of s cs)"
proof -
  have "find (\<lambda>i. (s @ [x]) ! i \<in> set cs) (rev [0..<length s]) = find (\<lambda>i. s ! i \<in> set cs) (rev [0..<length s])"
    by (rule find_cong) (simp_all add: nth_append)
  then show ?thesis by (simp add: find_last_of_def)
qed

lemma find_last_of_none: "set s \<inter> set cs = {} \<Longrightarrow> find_last_of s cs = npos"
  by (induction s rule: rev_induct) (auto simp: find_last_of_snoc, simp add: find_last_of_def)

lemma find_last_of_at: "c \<in> set cs \<Longrightarrow> set b \<inter> set cs = {} \<Longrightarrow> find_last_of (a @ c # b) cs = length a"
proof (induction b rule: rev_induct)
  case (snoc x xs)
  then show ?case using find_last_of_snoc[of "a @ c # xs" x cs] by simp
qed (simp add: find_last_of_snoc)

lemma occurs_atD: "occurs_at s pat i \<Longrightarrow> k < length pat \<Longrightarrow> i + k < length s \<and> s ! (i + k) = pat ! k"
  unfolding occurs_at_def by (metis add_less_cancel_left dual_order.trans less_imp_le_nat linorder_not_le nth_drop
      nth_take order_less_le_trans trans_le_add1)

lemma str_find_npos: "(\<And>i. \<not> occurs_at s pat i) \<Longrightarrow> str_find s pat pos = npos"
  unfolding str_find_def occurs_at_def[symmetric] by (auto simp: find_Some_iff split: option.splits)

lemma no_ssl:
  assumes "CHR ''/'' \<notin> set rest" "pre = ''tcp://'' \<or> pre = []"
  shows "str_find (pre @ rest) ''ssl://'' 0 = npos"
proof (rule str_find_npos)
  fix i
  show "\<not> occurs_at (pre @ rest) ''ssl://'' i"
  proof
    assume o: "occurs_at (pre @ rest) ''ssl://'' i"
    have slash: "i + 5 < length (pre @ rest) \<and> (pre @ rest) ! (i + 5) = CHR ''/''" using occurs_atD[OF o, of 5] by simp
    have "i + 5 < length pre"
    proof (rule ccontr)
      assume "\<not> i + 5 < length pre"
      then have "CHR ''/'' \<in> set rest"
        using slash nth_mem[of "i + 5 - length pre" rest] by (auto simp: nth_append)
      then show False using assms(1) by simp
    qed
    then have "i = 0" "pre = ''tcp://''" using assms(2) by auto
    then show False using occurs_atD[OF o, of 0] by simp
  qed
qed

text \<open>
  \<^verbatim>\<open>ParseUrl\<close> takes apart \<^verbatim>\<open>ssl://host:port\<close>, \<^verbatim>\<open>tcp://host:port\<close> and
  \<^verbatim>\<open>host:port\<close>, and says whether the scheme is \<^verbatim>\<open>ssl\<close>.
\<close>

theorem ParseUrl_reads_back:
  assumes "scheme \<in> {''ssl://'', ''tcp://'', []}" "CHR ''/'' \<notin> set (host @ port)" "CHR '':'' \<notin> set port"
    and "length (scheme @ host @ '':'' @ port) < npos"
  shows "ParseUrl (scheme @ host @ '':'' @ port) old = (True, scheme = ''ssl://'', host, port)"
proof -
  let ?url = "scheme @ host @ '':'' @ port"
  have colon: "find_last_of ?url '':'' = length (scheme @ host)"
    using find_last_of_at[of "CHR '':''" "'':''" port "scheme @ host"] assms(3) by simp
  have pos: "size_add (find_last_of ?url ''/'') 1 = length scheme"
  proof (cases "scheme = []")
    case True
    then show ?thesis using find_last_of_none[of ?url "''/''"] assms(2) by simp
  next
    case False
    then obtain a where a: "scheme = a @ ''/''" "length a = 5" using assms(1) by auto
    then have "find_last_of ?url ''/'' = 5"
      using find_last_of_at[of "CHR ''/''" "''/''" "host @ '':'' @ port" a] assms(2) by simp
    then show ?thesis using a by (simp add: size_max_def)
  qed
  have len: "size_sub (size_sub (length (scheme @ host)) (find_last_of ?url ''/'')) 1 = length host"
  proof (cases "scheme = []")
    case True
    then have "find_last_of ?url ''/'' = npos" using find_last_of_none[of ?url "''/''"] assms(2) by simp
    then show ?thesis using True assms(4) by (simp add: size_sub_def npos_def size_max_def mod_if)
  next
    case False
    then have "length scheme = 6" using assms(1) by auto
    then have "find_last_of ?url ''/'' = 5"
      using pos assms(4) find_last_of_bounds(1)[of ?url "''/''"]
      by (cases "find_last_of ?url ''/'' = npos") (simp_all add: size_add_def npos_def size_max_def)
    then show ?thesis using \<open>length scheme = 6\<close> assms(4) by (simp add: npos_def size_max_def)
  qed
  have ssl: "(str_find ?url ''ssl://'' 0 \<noteq> npos) = (scheme = ''ssl://'')"
  proof (cases "scheme = ''ssl://''")
    case True
    then show ?thesis by (subst str_find_step) (simp_all add: occurs_at_def npos_def)
  next
    case False
    then show ?thesis using no_ssl[of "host @ '':'' @ port" scheme] assms(1,2) by auto
  qed
  have add: "size_add (length (scheme @ host)) 1 = Suc (length (scheme @ host))"
    using assms(4) by (simp add: npos_def size_max_def)
  show ?thesis
    unfolding ParseUrl_def Let_def colon pos len ssl add
    using assms(4) by (simp add: substr_def)
qed

theorem ParseUrl_reads_back_witness:
  "ParseUrl ''ssl://172.24.13.81:9001'' (False, [], []) = (True, True, ''172.24.13.81'', ''9001'')"
  using ParseUrl_reads_back[of "''ssl://''" "''172.24.13.81''" "''9001''" "(False, [], [])"] by (simp add: npos_def)

text \<open>Without a port the colon of the scheme is taken for the one before the port.\<close>

lemma ParseUrl_without_port:
  "ParseUrl ''tcp://h'' (False, [], []) = (True, False, ''h'', ''//h'')"
  by (simp add: ParseUrl_def str_find_def find_last_of_def substr_def size_add_def size_sub_def npos_def size_max_def
      upt_rec)

end
