(* ===== verification/Util.thy ===== *)
theory Util
  imports StringAssist "HOL-Library.List_Lexorder"
begin

text \<open>
  The rest of \<^verbatim>\<open>src/include/util.h\<close>: shell commands and what etcd answers to them, paths and
  directories, lists given on a command line, and the identity of a TCP connection.

  The shell (\<open>popen\<close>) is a function from the command to its output, \<open>None\<close> when it cannot be
  started. The file system is a state with two operations (\<open>dirs\<close>). A read or write outside a
  buffer or a vector is \<open>None\<close>.
\<close>

section \<open>Shell commands\<close>

type_synonym shell = "string \<Rightarrow> string option"

definition eol :: char where "eol = CHR 0x0A"

definition BUF_SIZE :: nat where "BUF_SIZE = 1024"

text \<open>\<^verbatim>\<open>fgets\<close> takes at most \<open>BUF_SIZE - 1\<close> characters, up to the first end of a line.\<close>

definition fgets_chunk :: "string \<Rightarrow> string" where
  "fgets_chunk s =
     take (BUF_SIZE - 1) (takeWhile (\<lambda>c. c \<noteq> eol) s @ (if eol \<in> set s then [eol] else []))"

lemma fgets_chunk_less: "s \<noteq> [] \<Longrightarrow> 0 < length (fgets_chunk s)"
  by (cases s) (auto simp: fgets_chunk_def BUF_SIZE_def)

function fgets_all :: "string \<Rightarrow> string list" where
  "fgets_all s = (if s = [] then [] else fgets_chunk s # fgets_all (drop (length (fgets_chunk s)) s))"
  by pat_completeness auto
termination
  by (relation "measure length") (auto intro!: diff_less fgets_chunk_less)

declare fgets_all.simps [simp del]

text \<open>Of each piece that was read the last character is dropped: the end of the line, if it is one.\<close>

definition shell_system :: "shell \<Rightarrow> string \<Rightarrow> string list \<Rightarrow> int \<times> string list" where
  "shell_system popen cmd result =
     (case popen (cmd @ '' 2>&1'') of
        None \<Rightarrow> (-1, result)
      | Some out \<Rightarrow>
          (0, result @ map butlast (filter (\<lambda>d. d \<noteq> []) (map (takeWhile (\<lambda>c. c \<noteq> CHR 0x00)) (fgets_all out)))))"

section \<open>etcd\<close>

definition get_cmd :: "string \<Rightarrow> string \<Rightarrow> string" where
  "get_cmd endpoints key = ''etcdctl --endpoints='' @ endpoints @ '' get --prefix '' @ key"

definition put_cmd :: "string \<Rightarrow> string \<Rightarrow> string \<Rightarrow> string" where
  "put_cmd endpoints key val = ''etcdctl --endpoints='' @ endpoints @ '' put '' @ key @ '' '' @ val"

definition members_cmd :: "string \<Rightarrow> string" where
  "members_cmd endpoints = ''etcdctl --endpoints='' @ endpoints @ '' member list''"

fun odds :: "string list \<Rightarrow> string list" where
  "odds (k # v # rest) = v # odds rest"
| "odds rest = []"

definition host_of_value :: "string \<Rightarrow> (string \<times> string) option" where
  "host_of_value v =
     (let pos = find_last_of v ''/'';
          tmp_str = (if pos \<noteq> npos then drop (pos + 1) v else v);
          pos2 = str_find tmp_str '':'' 0
      in if pos2 \<noteq> npos then Some (take pos2 tmp_str, drop (pos2 + 1) tmp_str) else None)"

definition get_master_host_from_etcd ::
  "shell \<Rightarrow> string \<Rightarrow> string \<Rightarrow> (string \<times> string) list \<Rightarrow> bool \<times> (string \<times> string) list" where
  "get_master_host_from_etcd popen endpoints key host =
     (let (ret, result) = shell_system popen (get_cmd endpoints key) []
      in if ret \<noteq> 0 then (False, host)
         else if length result < 2 then (False, host)
         else (True, host @ List.map_filter host_of_value (odds result)))"

definition set_key_to_etcd :: "shell \<Rightarrow> string \<Rightarrow> string \<Rightarrow> string \<Rightarrow> bool" where
  "set_key_to_etcd popen endpoints key val =
     (let (ret, result) = shell_system popen (put_cmd endpoints key val) []
      in if ret \<noteq> 0 then False else result \<noteq> [] \<and> hd result = ''OK'')"

text \<open>The result is \<open>None\<close> if splitting a line throws; the flag is \<^verbatim>\<open>full_endpoints.size()\<close>.\<close>

fun member_loop :: "string list \<Rightarrow> string \<Rightarrow> (bool \<times> string) option" where
  "member_loop [] full_endpoints = Some (full_endpoints \<noteq> [], full_endpoints)"
| "member_loop (line # rest) full_endpoints =
     (case util_split line '','' [] of
        Inl _ \<Rightarrow> None
      | Inr tmp \<Rightarrow>
          (if length tmp \<noteq> 6 then Some (False, full_endpoints)
           else member_loop rest
                  ((if full_endpoints \<noteq> [] then full_endpoints @ '','' else full_endpoints) @ trim (tmp ! 4))))"

definition get_full_endpoints_etcd :: "shell \<Rightarrow> string \<Rightarrow> string \<Rightarrow> (bool \<times> string) option" where
  "get_full_endpoints_etcd popen endpoints full_endpoints =
     (let (ret, result) = shell_system popen (members_cmd endpoints) []
      in if ret \<noteq> 0 then Some (False, full_endpoints) else member_loop result full_endpoints)"

section \<open>Paths and directories\<close>

record 'f dirs =
  accessible :: "string \<Rightarrow> 'f \<Rightarrow> bool"
  make_dir :: "string \<Rightarrow> 'f \<Rightarrow> bool \<times> 'f"

definition ensure_dir :: "'f dirs \<Rightarrow> string \<Rightarrow> 'f \<Rightarrow> bool \<times> 'f" where
  "ensure_dir D p fs = (if accessible D p fs then (True, fs) else make_dir D p fs)"

text \<open>The loop visits the prefixes of the path; whether a directory could be made is not looked at.\<close>

definition mkdir_p :: "'f dirs \<Rightarrow> string \<Rightarrow> 'f \<Rightarrow> int \<times> 'f" where
  "mkdir_p D path fs =
     (0, fold (\<lambda>k fs. if k = length path \<or> path ! k = CHR ''/'' \<or> path ! k = CHR 0x5C
                      then snd (ensure_dir D (take k path) fs) else fs) [1..<Suc (length path)] fs)"

text \<open>\<^verbatim>\<open>CreateDir\<close> copies the path into an array of 100 characters and adds a slash.\<close>

primrec create_loop :: "'f dirs \<Rightarrow> string \<Rightarrow> nat list \<Rightarrow> 'f \<Rightarrow> int \<times> 'f" where
  "create_loop D dir_path [] fs = (0, fs)"
| "create_loop D dir_path (i # is) fs =
     (if dir_path ! i = CHR ''/'' \<and> 0 < i
      then (case ensure_dir D (take i dir_path) fs of
              (True, fs1) \<Rightarrow> create_loop D dir_path is fs1
            | (False, fs1) \<Rightarrow> (-1, fs1))
      else create_loop D dir_path is fs)"

definition CreateDir :: "'f dirs \<Rightarrow> string \<Rightarrow> 'f \<Rightarrow> (int \<times> 'f) option" where
  "CreateDir D pszDir fs =
     (if pszDir = [] then None
      else
        (let dir_path = (if last pszDir \<noteq> CHR ''/'' then pszDir @ ''/'' else pszDir)
         in if 100 < length dir_path + 1 then None
            else Some (create_loop D dir_path [0..<length dir_path] fs)))"

text \<open>
  The loop of \<^verbatim>\<open>get_clean_path\<close>: at \<^verbatim>\<open>..\<close> it erases the element before the iterator and goes
  on at the element after the erased one, which is the \<^verbatim>\<open>..\<close> itself.
\<close>

function clean_loop :: "string list \<Rightarrow> nat \<Rightarrow> string list option" where
  "clean_loop vec it =
     (if it < length vec
      then (if vec ! it = ''.'' then clean_loop (take it vec @ drop (it + 1) vec) it
            else if vec ! it = ''..''
            then (if it = 0 then None else clean_loop (take (it - 1) vec @ drop it vec) (it - 1))
            else clean_loop vec (it + 1))
      else Some vec)"
  by pat_completeness auto
termination
  by (relation "measure (\<lambda>(vec, it). 2 * length vec - it)") auto

declare clean_loop.simps [simp del]

definition get_clean_path :: "string \<Rightarrow> string \<Rightarrow> (int \<times> string) option" where
  "get_clean_path path clean_path =
     (case util_split path ''/'' [] of
        Inl _ \<Rightarrow> None
      | Inr vec \<Rightarrow> map_option (\<lambda>vec. (0, clean_path @ join ''/'' vec)) (clean_loop vec 0))"

definition get_full_path :: "string \<Rightarrow> string \<Rightarrow> int \<times> string" where
  "get_full_path dir path = (0, (if dir \<noteq> [] then dir @ ''/'' else dir) @ path)"

text \<open>
  The entries of a directory: names with their type, 8 for a file and 4 for a directory. The
  message about a directory that cannot be opened is written into an array of 1024 characters.
\<close>

definition open_error :: "string \<Rightarrow> string" where
  "open_error cate_dir = ''Open dir '' @ cate_dir @ '' error...'' @ [eol]"

definition get_files :: "(string \<Rightarrow> (string \<times> nat) list option) \<Rightarrow> string \<Rightarrow> bool \<Rightarrow> string list option" where
  "get_files opendir cate_dir getDir =
     (case opendir cate_dir of
        None \<Rightarrow> (if 1024 < length (open_error cate_dir) + 1 then None else Some [])
      | Some es \<Rightarrow>
          Some (sort_key (map (of_char :: char \<Rightarrow> nat))
            (map fst (filter (\<lambda>(n, t). n \<noteq> ''.'' \<and> n \<noteq> ''..'' \<and> (t = 8 \<and> \<not> getDir \<or> t = 4 \<and> getDir)) es))))"

text \<open>The names are in order, and a name that is too long for the message is the only failure.\<close>

lemma get_files_some:
  "opendir d = Some es \<Longrightarrow> \<exists>fs. get_files opendir d getDir = Some fs \<and> sorted (map (map (of_char :: char \<Rightarrow> nat)) fs) \<and>
     set fs = {n. (n, if getDir then 4 else 8) \<in> set es \<and> n \<noteq> ''.'' \<and> n \<noteq> ''..''}"
  by (auto simp: get_files_def image_iff)

lemma get_files_overflow: "get_files opendir d getDir = None \<longleftrightarrow> opendir d = None \<and> 1004 < length d"
  by (auto simp: get_files_def open_error_def split: option.splits)

section \<open>Lists on a command line\<close>

text \<open>
  \<^verbatim>\<open>iss >> value\<close> for an \<^verbatim>\<open>int\<close>: a value that does not fit makes the stream fail.
\<close>

definition read_int32 :: "string \<Rightarrow> (int \<times> string) option" where
  "read_int32 s =
     (case scan_int s of
        None \<Rightarrow> None
      | Some (v, rest) \<Rightarrow> (if - (2 ^ 31) \<le> v \<and> v < 2 ^ 31 then Some (v, rest) else None))"

definition replace_char :: "char \<Rightarrow> char \<Rightarrow> string \<Rightarrow> string" where
  "replace_char old new s = map (\<lambda>c. if c = old then new else c) s"

text \<open>The reading loops, for any type with its reader; \<open>None\<close> is a loop that does not end.\<close>

partial_function (option) read_all ::
  "(string \<Rightarrow> ('t \<times> string) option) \<Rightarrow> string \<Rightarrow> 't list \<Rightarrow> 't list option" where
  "read_all rd s params =
     (case rd s of None \<Rightarrow> Some params | Some (v, rest) \<Rightarrow> read_all rd rest (params @ [v]))"

definition input_vec :: "(string \<Rightarrow> ('t \<times> string) option) \<Rightarrow> string \<Rightarrow> char \<Rightarrow> 't list option" where
  "input_vec rd a sep = read_all rd (replace_char sep (CHR '' '') a) []"

definition input_set :: "(string \<Rightarrow> ('t \<times> string) option) \<Rightarrow> string \<Rightarrow> char \<Rightarrow> 't set option" where
  "input_set rd a sep = map_option set (read_all rd (replace_char sep (CHR '' '') a) [])"

text \<open>\<^verbatim>\<open>map::insert\<close> keeps the value that is there.\<close>

partial_function (option) read_map ::
  "(string \<Rightarrow> ('k \<times> string) option) \<Rightarrow> (string \<Rightarrow> ('v \<times> string) option) \<Rightarrow> string \<Rightarrow> ('k \<times> 'v) list \<Rightarrow>
   ('k \<times> 'v) list option" where
  "read_map rk rv s params =
     (case rk s of
        None \<Rightarrow> Some params
      | Some (k, s1) \<Rightarrow>
          (case rv s1 of
             None \<Rightarrow> Some params
           | Some (v, s2) \<Rightarrow> read_map rk rv s2 (if map_of params k = None then params @ [(k, v)] else params)))"

definition input_map ::
  "(string \<Rightarrow> ('k \<times> string) option) \<Rightarrow> (string \<Rightarrow> ('v \<times> string) option) \<Rightarrow> string \<Rightarrow> char \<Rightarrow> char \<Rightarrow>
   ('k \<times> 'v) list option" where
  "input_map rk rv a sep_entry sep_kv =
     read_map rk rv (replace_char sep_kv (CHR '' '') (replace_char sep_entry (CHR '' '') a)) []"

section \<open>Scheduling\<close>

text \<open>
  The calls to the operating system, with \<open>max_prio\<close> its highest priority. A processor set is the
  set of the bits of \<^verbatim>\<open>cpu_set_t\<close>, which has 1024; a number outside is not entered.
\<close>

datatype sched_call = Sched_setscheduler int int | Pthread_setschedparam int

definition set_rt_process :: "int \<Rightarrow> int \<Rightarrow> sched_call list" where
  "set_rt_process pid max_prio = [Sched_setscheduler pid max_prio]"

definition set_rt_thread :: "int \<Rightarrow> int \<Rightarrow> sched_call list" where
  "set_rt_thread pid max_prio = [Sched_setscheduler pid max_prio, Pthread_setschedparam max_prio]"

definition bind_current_thread :: "(int set \<Rightarrow> int) \<Rightarrow> int \<Rightarrow> bool" where
  "bind_current_thread setaffinity cpud_id =
     (let cpus = (if 0 \<le> cpud_id \<and> cpud_id < 1024 then {cpud_id} else {})
      in if setaffinity cpus < 0 then False else True)"

text \<open>\<^verbatim>\<open>pthread_setaffinity_np\<close> returns 0 or a positive error number, so a failure is reported as success.\<close>

lemma bind_never_fails: "(\<And>cpus. 0 \<le> setaffinity cpus) \<Longrightarrow> bind_current_thread setaffinity c"
  by (simp add: bind_current_thread_def not_less)

section \<open>The identity of a connection\<close>

text \<open>
  The ports are the 16-bit fields of the socket addresses, in network byte order.
  \<^verbatim>\<open>sin_port << 16\<close> is computed in \<^verbatim>\<open>int\<close> and then added to a 64-bit number: it is sign-extended.
\<close>

definition get_tcp_id :: "u32 \<times> u16 \<Rightarrow> u16 \<Rightarrow> u64" where
  "get_tcp_id peer sock_port =
     push_bit 32 (ucast (fst peer)) + scast (push_bit 16 (ucast (snd peer) :: u32)) + ucast sock_port"

definition tcp_id_ip :: "u64 \<Rightarrow> u32" where
  "tcp_id_ip tcp_id = ucast (drop_bit 32 tcp_id)"

definition get_tcp_name :: "(u32 \<Rightarrow> string) \<Rightarrow> u64 \<Rightarrow> string" where
  "get_tcp_name inet_ntop tcp_id =
     (let peer_port = uint (drop_bit 48 (push_bit 32 tcp_id));
          sock_port = uint (drop_bit 48 (push_bit 48 tcp_id))
      in inet_ntop (tcp_id_ip tcp_id) @ '':'' @ show_int peer_port @ ''-'' @ show_int sock_port)"

section \<open>Clean paths\<close>

lemma clean_loop_spec:
  assumes "it \<le> length vec" "\<forall>w \<in> set (take it vec). w \<noteq> ''.'' \<and> w \<noteq> ''..''"
  shows "clean_loop vec it =
    (if ''..'' \<in> set (drop it vec) then None else Some (filter (\<lambda>w. w \<noteq> ''.'') vec))"
  using assms
proof (induction vec it rule: clean_loop.induct)
  case (1 vec it)
  show ?case
  proof (cases "it < length vec")
    case False
    then show ?thesis using 1(4,5) by (subst clean_loop.simps) (auto intro!: filter_True[symmetric])
  next
    case True
    then have dr: "drop it vec = vec ! it # drop (it + 1) vec" by (simp add: Cons_nth_drop_Suc)
    have tk: "vec = take it vec @ vec ! it # drop (it + 1) vec" using True by (simp add: id_take_nth_drop)
    consider (dot) "vec ! it = ''.''" | (up) "vec ! it = ''..''" | (word) "vec ! it \<noteq> ''.''" "vec ! it \<noteq> ''..''" by blast
    then show ?thesis
    proof cases
      case dot
      have "filter (\<lambda>w. w \<noteq> ''.'') vec = filter (\<lambda>w. w \<noteq> ''.'') (take it vec @ drop (it + 1) vec)"
        by (subst tk) (simp add: dot)
      then show ?thesis using 1(1)[OF True dot] 1(5) True dot dr
        by (subst clean_loop.simps) (simp add: drop_append)
    next
      case up
      show ?thesis
      proof (cases "it = 0")
        case True
        then have "''..'' \<in> set vec" using up \<open>it < length vec\<close> nth_mem[of 0 vec] by simp
        then show ?thesis using True up \<open>it < length vec\<close> by (subst clean_loop.simps) simp
      next
        case False
        let ?v = "take (it - 1) vec @ drop it vec"
        have "drop (it - 1) ?v = drop it vec" using True by simp
        moreover have "set (take (it - 1) ?v) \<subseteq> set (take it vec)"
          using True set_take_subset_set_take[of "it - 1" it vec] by simp
        moreover have "it - 1 \<le> length ?v" using True by simp
        moreover have "vec ! it \<noteq> ''.''" using up by simp
        ultimately have "clean_loop ?v (it - 1) = None"
          using 1(2)[OF True _ up False] 1(5) up dr by auto
        then show ?thesis using True up False dr by (subst clean_loop.simps) simp
      qed
    next
      case word
      have "set (take (it + 1) vec) = insert (vec ! it) (set (take it vec))"
        using True by (simp add: take_Suc_conv_app_nth)
      then show ?thesis using 1(3)[OF True] 1(5) True word dr by (subst clean_loop.simps) auto
    qed
  qed
qed

text \<open>
  C32. \<^verbatim>\<open>get_clean_path\<close> drops the \<^verbatim>\<open>.\<close> elements of a path; a path with an element
  \<^verbatim>\<open>..\<close> anywhere makes it erase elements back to the front and then one before the front.
\<close>

theorem get_clean_path_spec:
  assumes "length path < npos"
  shows "get_clean_path path out =
    (if ''..'' \<in> set (split_at {CHR ''/''} path) then None
     else Some (0, out @ join ''/'' (filter (\<lambda>w. w \<noteq> ''.'') (split_at {CHR ''/''} path))))"
  using util_split_eq[OF assms, of "''/''" "[]"] clean_loop_spec[of 0]
  by (simp add: get_clean_path_def)

theorem get_clean_path_spec_witness:
  "get_clean_path ''/a/./b'' [] = Some (0, ''/a/b'') \<and> get_clean_path ''/a/b/../c'' [] = None"
  using get_clean_path_spec[of "''/a/./b''" "[]"] get_clean_path_spec[of "''/a/b/../c''" "[]"]
  by (simp add: npos_def)

section \<open>Connection identities\<close>

lemma len64: "2 ^ LENGTH(64) = (2 ^ 64 :: int)"
  by simp

lemma uint_port_int:
  "uint (push_bit 16 (ucast p :: u32)) = uint (p :: u16) * 2 ^ 16"
proof -
  have "uint p < 65536" using uint_lt2p[of p] by simp
  moreover have "uint (ucast p :: u32) = uint p"
    using \<open>uint p < 65536\<close> by (simp add: unsigned_ucast_eq take_bit_int_eq_self)
  ultimately show ?thesis by (simp add: push_bit_eq_mult uint_word_ariths)
qed

lemma sint_port_int:
  "sint (push_bit 16 (ucast p :: u32)) =
     (if uint (p :: u16) < 2 ^ 15 then uint p * 2 ^ 16 else uint p * 2 ^ 16 - 2 ^ 32)"
proof -
  define x where "x = uint p"
  have x: "0 \<le> x" "x < 65536" using uint_lt2p[of p] by (simp_all add: x_def)
  have m: "(x * 65536 + 2147483648) mod 4294967296 =
      (if x < 32768 then x * 65536 + 2147483648 else x * 65536 + 2147483648 - 4294967296)"
  proof (cases "x < 32768")
    case False
    then show ?thesis
      using x minus_mod_self2[of "x * 65536 + 2147483648" "4294967296 :: int"] by (simp add: mod_pos_pos_trivial)
  qed (use x in \<open>simp add: mod_pos_pos_trivial\<close>)
  show ?thesis
    unfolding sint_uint uint_port_int signed_take_bit_eq_take_bit_shift x_def[symmetric] take_bit_eq_mod
    using m by simp
qed

lemma uint_tcp_id:
  "uint (get_tcp_id (ip, p) q) =
     (uint ip * 2 ^ 32 + uint p * 2 ^ 16 + uint q - (if uint p < 2 ^ 15 then 0 else 2 ^ 32)) mod 2 ^ 64"
proof -
  have q: "uint (ucast q :: u64) = uint q" and ip: "uint (ucast ip :: u64) = uint ip"
    using uint_lt2p[of q] uint_lt2p[of ip] by (simp_all add: unsigned_ucast_eq take_bit_int_eq_self)
  have sh: "uint (push_bit 32 (ucast ip :: u64)) = uint ip * 2 ^ 32 mod 2 ^ 64"
    unfolding unsigned_push_bit_eq ip by (simp add: push_bit_eq_mult take_bit_eq_mod)
  have s: "uint (scast (push_bit 16 (ucast p :: u32)) :: u64) = sint (push_bit 16 (ucast p :: u32)) mod 2 ^ 64"
    by (simp only: scast_eq uint_word_of_int len64)
  have "uint (get_tcp_id (ip, p) q) = (uint ip * 2 ^ 32 + sint (push_bit 16 (ucast p :: u32)) + uint q) mod 2 ^ 64"
    unfolding get_tcp_id_def fst_conv snd_conv uint_word_ariths sh s q len64 by (simp only: mod_simps)
  moreover have "uint ip * 2 ^ 32 + sint (push_bit 16 (ucast p :: u32)) + uint q =
      uint ip * 2 ^ 32 + uint p * 2 ^ 16 + uint q - (if uint p < 2 ^ 15 then 0 else 2 ^ 32)"
    unfolding sint_port_int by simp
  ultimately show ?thesis by (simp only:)
qed

text \<open>The identity is three fields, the first of which may have been lowered by one.\<close>

lemma low_field: "0 \<le> b \<Longrightarrow> b < 2 ^ 32 \<Longrightarrow> (a * 2 ^ 32 + b) mod 2 ^ 64 = (a mod 2 ^ 32) * 2 ^ 32 + (b :: int)"
proof -
  assume b: "0 \<le> b" "b < 2 ^ 32"
  have "(a * 2 ^ 32 + b) mod (2 ^ 32 * 2 ^ 32) = 2 ^ 32 * ((a * 2 ^ 32 + b) div 2 ^ 32 mod 2 ^ 32) + (a * 2 ^ 32 + b) mod 2 ^ 32"
    by (rule zmod_zmult2_eq) simp
  moreover have "(a * 2 ^ 32 + b) div 2 ^ 32 = a" "(a * 2 ^ 32 + b) mod 2 ^ 32 = b"
    using b by (simp_all add: div_pos_pos_trivial mod_pos_pos_trivial)
  ultimately show ?thesis by simp
qed

definition lowered_ip :: "u32 \<Rightarrow> u16 \<Rightarrow> u32" where
  "lowered_ip ip p = (if uint p < 2 ^ 15 then ip else ip - 1)"

lemma tcp_id_fields:
  "uint (get_tcp_id (ip, p) q) = uint (lowered_ip ip p) * 2 ^ 32 + (uint p * 2 ^ 16 + uint q)"
proof -
  define a where "a = uint ip - (if uint p < 2 ^ 15 then 0 else 1)"
  have b: "0 \<le> uint p * 2 ^ 16 + uint q" "uint p * 2 ^ 16 + uint q < 2 ^ 32"
    using uint_lt2p[of p] uint_lt2p[of q] by simp_all
  have id: "uint ip * 2 ^ 32 + uint p * 2 ^ 16 + uint q - (if uint p < 2 ^ 15 then 0 else 2 ^ 32) =
      a * 2 ^ 32 + (uint p * 2 ^ 16 + uint q)"
    by (simp add: a_def)
  have ip: "a mod 2 ^ 32 = uint (lowered_ip ip p)"
    using uint_lt2p[of ip] by (simp add: a_def lowered_ip_def uint_word_ariths)
  show ?thesis unfolding uint_tcp_id id low_field[OF b] ip ..
qed

lemma take_bit_uint_u64: "take_bit LENGTH(64) (uint w) = uint w" for w :: u64
  using uint_lt2p[of w] by (intro take_bit_int_eq_self) simp_all

lemma uint_drop_bit_u64: "uint (drop_bit n w) = uint w div 2 ^ n" for w :: u64
  unfolding unsigned_drop_bit_eq take_bit_uint_u64 by (rule drop_bit_eq_div)

lemma uint_push_bit_u64: "uint (push_bit n w) = uint w * 2 ^ n mod 2 ^ 64" for w :: u64
  unfolding unsigned_push_bit_eq by (simp only: push_bit_eq_mult take_bit_eq_mod len64)

lemma tcp_id_ip_eq: "tcp_id_ip (get_tcp_id (ip, p) q) = lowered_ip ip p"
proof (rule word_uint_eqI)
  have b: "0 \<le> uint p * 2 ^ 16 + uint q" "uint p * 2 ^ 16 + uint q < 2 ^ 32"
    using uint_lt2p[of p] uint_lt2p[of q] by simp_all
  have "uint (drop_bit 32 (get_tcp_id (ip, p) q)) = uint (lowered_ip ip p)"
    unfolding uint_drop_bit_u64 tcp_id_fields using b by (simp add: div_pos_pos_trivial)
  then show "uint (tcp_id_ip (get_tcp_id (ip, p) q)) = uint (lowered_ip ip p)"
    using uint_lt2p[of "lowered_ip ip p"] by (simp add: tcp_id_ip_def unsigned_ucast_eq take_bit_int_eq_self)
qed

lemma tcp_id_port_fields:
  "uint (drop_bit 48 (push_bit 32 (get_tcp_id (ip, p) q))) = uint p"
  "uint (drop_bit 48 (push_bit 48 (get_tcp_id (ip, p) q))) = uint q"
proof -
  define a x y where "a = uint (lowered_ip ip p)" and "x = uint p" and "y = uint q"
  have r: "0 \<le> x" "x < 2 ^ 16" "0 \<le> y" "y < 2 ^ 16"
    using uint_lt2p[of p] uint_lt2p[of q] by (simp_all add: x_def y_def)
  have w: "uint (get_tcp_id (ip, p) q) = a * 2 ^ 32 + (x * 2 ^ 16 + y)"
    by (simp add: tcp_id_fields a_def x_def y_def)
  have "(a * 2 ^ 32 + (x * 2 ^ 16 + y)) * 2 ^ 32 = (x * 2 ^ 16 + y) * 2 ^ 32 + a * 2 ^ 64"
    by (simp add: distrib_right)
  then have "(a * 2 ^ 32 + (x * 2 ^ 16 + y)) * 2 ^ 32 mod 2 ^ 64 = (x * 2 ^ 16 + y) * 2 ^ 32"
    using r by (simp only: mod_mult_self1) (simp add: mod_pos_pos_trivial)
  then show "uint (drop_bit 48 (push_bit 32 (get_tcp_id (ip, p) q))) = uint p"
    unfolding uint_drop_bit_u64 uint_push_bit_u64 w using r by (simp add: x_def)
  have "(a * 2 ^ 32 + (x * 2 ^ 16 + y)) * 2 ^ 48 = y * 2 ^ 48 + (a * 2 ^ 16 + x) * 2 ^ 64"
    by (simp add: distrib_right)
  then have "(a * 2 ^ 32 + (x * 2 ^ 16 + y)) * 2 ^ 48 mod 2 ^ 64 = y * 2 ^ 48"
    using r by (simp only: mod_mult_self1) (simp add: mod_pos_pos_trivial)
  then show "uint (drop_bit 48 (push_bit 48 (get_tcp_id (ip, p) q))) = uint q"
    unfolding uint_drop_bit_u64 uint_push_bit_u64 w using r by (simp add: y_def)
qed

text \<open>
  The name of a connection shows the two port fields of its identity, but the address is
  one too low whenever the field of the remote port is \<open>2 ^ 15\<close> or more.
\<close>

theorem tcp_name_of_id:
  "get_tcp_name ntop (get_tcp_id (ip, p) q) =
     ntop (if uint p < 2 ^ 15 then ip else ip - 1) @ '':'' @ show_int (uint p) @ ''-'' @ show_int (uint q)"
  by (simp add: get_tcp_name_def tcp_id_ip_eq tcp_id_port_fields lowered_ip_def)

section \<open>Directories\<close>

text \<open>What \<^verbatim>\<open>mkdir\<close> promises: the directory is there afterwards, and none goes away.\<close>

definition dirs_ok :: "'f dirs \<Rightarrow> bool" where
  "dirs_ok D \<longleftrightarrow> (\<forall>p fs fs'. make_dir D p fs = (True, fs') \<longrightarrow> accessible D p fs') \<and>
     (\<forall>p q fs. accessible D q fs \<longrightarrow> accessible D q (snd (make_dir D p fs)))"

lemma ensure_dir_ok:
  assumes "dirs_ok D" "ensure_dir D p fs = (b, fs')"
  shows "b \<Longrightarrow> accessible D p fs'" "accessible D q fs \<Longrightarrow> accessible D q fs'"
  using assms by (auto simp: ensure_dir_def dirs_ok_def split: if_splits) (metis snd_conv)

lemma create_loop_spec:
  assumes "dirs_ok D" "create_loop D path is fs = (r, fs')"
  shows "(r = 0 \<or> r = -1) \<and> (\<forall>q. accessible D q fs \<longrightarrow> accessible D q fs') \<and>
    (r = 0 \<longrightarrow> (\<forall>i \<in> set is. 0 < i \<and> path ! i = CHR ''/'' \<longrightarrow> accessible D (take i path) fs'))"
  using assms(2)
proof (induction "is" arbitrary: fs)
  case (Cons i "is")
  obtain b fs1 where e: "ensure_dir D (take i path) fs = (b, fs1)" by (cases "ensure_dir D (take i path) fs")
  note ok = ensure_dir_ok[OF assms(1) e]
  show ?case
  proof (cases "path ! i = CHR ''/'' \<and> 0 < i")
    case False
    then show ?thesis using Cons by auto
  next
    case True
    then show ?thesis using Cons.prems Cons.IH[of fs1] e ok by (cases b) auto
  qed
qed simp

lemma CreateDir_spec:
  assumes "dirs_ok D"
  shows "case CreateDir D path fs of
      None \<Rightarrow> path = [] \<or> 100 \<le> length path + (if last path = CHR ''/'' then 0 else 1)
    | Some (r, fs') \<Rightarrow> path \<noteq> [] \<and> length path + (if last path = CHR ''/'' then 0 else 1) < 100 \<and> (r = 0 \<or> r = -1) \<and>
        (r = 0 \<longrightarrow> (\<forall>i. 0 < i \<and> i < length path \<and> path ! i = CHR ''/'' \<longrightarrow> accessible D (take i path) fs') \<and>
           (last path \<noteq> CHR ''/'' \<longrightarrow> accessible D path fs'))"
proof (cases "CreateDir D path fs")
  case None
  then show ?thesis by (auto simp: CreateDir_def Let_def split: if_splits)
next
  case (Some x)
  obtain r fs' where x: "x = (r, fs')" by (cases x)
  define dp where "dp = (if last path \<noteq> CHR ''/'' then path @ ''/'' else path)"
  have ne: "path \<noteq> []" and len: "length dp < 100" and loop: "create_loop D dp [0..<length dp] fs = (r, fs')"
    using Some x by (auto simp: CreateDir_def Let_def dp_def split: if_splits)
  note spec = create_loop_spec[OF assms loop]
  have "accessible D (take i path) fs'" if "r = 0" "0 < i" "i < length path" "path ! i = CHR ''/''" for i
  proof -
    have "i < length dp" "dp ! i = CHR ''/''" "take i dp = take i path"
      using that by (auto simp: dp_def nth_append)
    then show ?thesis using spec that(1,2) by (auto simp: atLeast0LessThan)
  qed
  moreover have "accessible D path fs'" if "r = 0" "last path \<noteq> CHR ''/''"
  proof -
    have "length path < length dp" "dp ! length path = CHR ''/''" "take (length path) dp = path"
      using that by (auto simp: dp_def)
    then show ?thesis using spec that(1) ne by (auto simp: atLeast0LessThan)
  qed
  moreover have "length path + (if last path = CHR ''/'' then 0 else 1) < 100"
    using len by (auto simp: dp_def)
  ultimately show ?thesis using Some x ne spec by auto
qed

text \<open>
  \<^verbatim>\<open>CreateDir\<close> writes outside its buffer exactly for the empty path and for one that with
  its slash has 100 characters or more. Otherwise, when it returns 0, every directory on the
  way and the path itself are there.
\<close>

theorem CreateDir_creates:
  assumes "dirs_ok D"
  shows "case CreateDir D path fs of
      None \<Rightarrow> path = [] \<or> 100 \<le> length path + (if last path = CHR ''/'' then 0 else 1)
    | Some (r, fs') \<Rightarrow> path \<noteq> [] \<and> length path + (if last path = CHR ''/'' then 0 else 1) < 100 \<and> (r = 0 \<or> r = -1) \<and>
        (r = 0 \<longrightarrow> (\<forall>i. 0 < i \<and> i < length path \<and> path ! i = CHR ''/'' \<longrightarrow> accessible D (take i path) fs') \<and>
           (last path \<noteq> CHR ''/'' \<longrightarrow> accessible D path fs'))"
  using CreateDir_spec[OF assms] .

theorem CreateDir_creates_witness:
  "case CreateDir \<lparr>accessible = \<lambda>p fs. p \<in> fs, make_dir = \<lambda>p fs. (True, insert p fs)\<rparr> ''/a/b'' {} of
     None \<Rightarrow> False | Some (r, fs') \<Rightarrow> r = 0 \<and> ''/a'' \<in> fs' \<and> ''/a/b'' \<in> fs'"
  using CreateDir_creates[of "\<lparr>accessible = \<lambda>p fs. p \<in> fs, make_dir = \<lambda>p fs. (True, insert p fs)\<rparr>" "''/a/b''" "{}"]
  by (auto simp: dirs_ok_def CreateDir_def ensure_dir_def upt_rec split: option.splits)

section \<open>Numbers on a command line\<close>

lemma scan_int_spaces: "scan_int (CHR '' '' # s) = scan_int s"
  by (simp add: scan_int_def is_space_def)

lemma show_int_chars: "c \<in> set (show_int i) \<Longrightarrow> is_digit c \<or> c = CHR ''-''"
  using show_nat_digits[of "nat i"] show_nat_digits[of "nat (- i)"] by (auto simp: show_int_def split: if_splits)

lemma read_all_ints:
  assumes "list_all (\<lambda>i. - (2 ^ 31) \<le> i \<and> i < 2 ^ 31) xs"
  shows "read_all read_int32 (concat (map (\<lambda>i. CHR '' '' # show_int i) xs)) ps = Some (ps @ xs)"
  using assms
proof (induction xs arbitrary: ps)
  case Nil
  have "read_int32 [] = None" by (simp add: read_int32_def scan_int_def)
  then show ?case by (subst read_all.simps) simp
next
  case (Cons x xs)
  let ?rest = "concat (map (\<lambda>i. CHR '' '' # show_int i) xs)"
  have "?rest = [] \<or> \<not> is_digit (hd ?rest)" by (cases xs) (simp_all add: is_digit_def)
  then have "scan_int (CHR '' '' # show_int x @ ?rest) = Some (x, ?rest)"
    using scan_int_show_int scan_int_spaces by metis
  then have "read_int32 (CHR '' '' # show_int x @ ?rest) = Some (x, ?rest)"
    using Cons.prems by (simp add: read_int32_def)
  then show ?case using Cons by (subst read_all.simps) simp
qed

lemma read_all_first_space: "read_all read_int32 (CHR '' '' # s) ps = read_all read_int32 s ps"
proof -
  have "read_int32 (CHR '' '' # s) = read_int32 s" by (simp add: read_int32_def scan_int_spaces)
  then show ?thesis by (subst (1 2) read_all.simps) simp
qed

lemma replace_char_join:
  assumes "\<not> is_digit sep" "sep \<noteq> CHR ''-''" "xs \<noteq> []"
  shows "CHR '' '' # replace_char sep (CHR '' '') (join [sep] (map show_int xs)) =
    concat (map (\<lambda>i. CHR '' '' # show_int i) xs)"
  using assms(3)
proof (induction xs rule: list_nonempty_induct)
  have id: "replace_char sep (CHR '' '') (show_int i) = show_int i" for i
    unfolding replace_char_def using show_int_chars[of _ i] assms(1,2) by (intro map_idI) auto
  case (single x)
  then show ?case using id by simp
next
  have id: "replace_char sep (CHR '' '') (show_int i) = show_int i" for i
    unfolding replace_char_def using show_int_chars[of _ i] assms(1,2) by (intro map_idI) auto
  case (cons x xs)
  then show ?case using id[of x] by (simp add: join_Cons replace_char_def)
qed

text \<open>
  A list of \<^verbatim>\<open>int\<close> printed with a separator that is no digit and no minus sign is read
  back by \<^verbatim>\<open>input_vec<int>\<close>.
\<close>

theorem input_vec_reads_back:
  assumes "list_all (\<lambda>i. - (2 ^ 31) \<le> i \<and> i < 2 ^ 31) xs" "\<not> is_digit sep" "sep \<noteq> CHR ''-''"
  shows "input_vec read_int32 (join [sep] (map show_int xs)) sep = Some xs"
proof (cases "xs = []")
  case True
  then show ?thesis using read_all_ints[of "[]" "[]"] by (simp add: input_vec_def replace_char_def)
next
  case False
  then show ?thesis
    using read_all_ints[OF assms(1), of "[]"] replace_char_join[OF assms(2,3)] read_all_first_space
    by (metis append_Nil input_vec_def)
qed

theorem input_vec_reads_back_witness:
  "input_vec read_int32 (join '','' (map show_int [-3, 0, 2147483647])) (CHR '','') = Some [-3, 0, 2147483647]"
  using input_vec_reads_back[of "[-3, 0, 2147483647]" "CHR '',''"] by (simp add: is_digit_def)

section \<open>What a shell prints\<close>

definition line_ok :: "string \<Rightarrow> bool" where
  "line_ok l \<longleftrightarrow> eol \<notin> set l \<and> CHR 0x00 \<notin> set l \<and> length l + 1 < BUF_SIZE"

definition print_lines :: "string list \<Rightarrow> string" where
  "print_lines ls = concat (map (\<lambda>l. l @ [eol]) ls)"

lemma takeWhile_line: "c \<notin> set l \<Longrightarrow> takeWhile (\<lambda>x. x \<noteq> c) (l @ c # rest) = l" "c \<notin> set l \<Longrightarrow> takeWhile (\<lambda>x. x \<noteq> c) l = l"
  by (induction l) auto

lemma fgets_chunk_line: "line_ok l \<Longrightarrow> fgets_chunk (l @ eol # rest) = l @ [eol]"
  by (auto simp: fgets_chunk_def line_ok_def takeWhile_line take_Cons split: nat.splits)

lemma fgets_all_lines: "list_all line_ok ls \<Longrightarrow> fgets_all (print_lines ls) = map (\<lambda>l. l @ [eol]) ls"
proof (induction ls)
  case Nil
  then show ?case by (simp add: fgets_all.simps print_lines_def)
next
  case (Cons l ls)
  then have "fgets_chunk (print_lines (l # ls)) = l @ [eol]"
    using fgets_chunk_line[of l "print_lines ls"] by (simp add: print_lines_def)
  then show ?case using Cons by (subst fgets_all.simps) (simp add: print_lines_def)
qed

lemma shell_system_lines:
  assumes "popen (cmd @ '' 2>&1'') = Some (print_lines ls)" "list_all line_ok ls"
  shows "shell_system popen cmd result = (0, result @ ls)"
proof -
  have c: "takeWhile (\<lambda>c. c \<noteq> CHR 0x00) (l @ [eol]) = l @ [eol]" if "line_ok l" for l
    using that by (auto simp: line_ok_def eol_def takeWhile_eq_all_conv)
  have "filter (\<lambda>d. d \<noteq> []) (map (takeWhile (\<lambda>c. c \<noteq> CHR 0x00)) (map (\<lambda>l. l @ [eol]) ls)) = map (\<lambda>l. l @ [eol]) ls"
    using assms(2) c by (induction ls) auto
  then show ?thesis
    using assms by (simp add: shell_system_def fgets_all_lines o_def del: filter.simps)
qed

text \<open>A line of 1023 characters or more is read in pieces, of which the first loses a character of the line.\<close>

lemma shell_system_long_line:
  assumes "popen (cmd @ '' 2>&1'') = Some (l @ [eol])" "eol \<notin> set l" "CHR 0x00 \<notin> set l" "length l = BUF_SIZE - 1"
  shows "shell_system popen cmd [] = (0, [butlast l, []])"
proof -
  have "fgets_chunk (l @ [eol]) = l" "fgets_chunk [eol] = [eol]"
    using assms(2,4) takeWhile_line(1)[OF assms(2), of "[]"] by (simp_all add: fgets_chunk_def BUF_SIZE_def)
  then have "fgets_all (l @ [eol]) = [l, [eol]]"
    using fgets_all.simps[of "l @ [eol]"] fgets_all.simps[of "[eol]"] fgets_all.simps[of "[]"] by simp
  moreover have "l \<noteq> []" using assms(4) by (auto simp: BUF_SIZE_def)
  ultimately show ?thesis using assms(1) by (simp add: shell_system_def eol_def takeWhile_line(2)[OF assms(3)])
qed

section \<open>Hosts and endpoints known to etcd\<close>

lemma str_find_char:
  "CHR '':'' \<notin> set h \<Longrightarrow> length h < npos \<Longrightarrow> str_find (h @ CHR '':'' # p) '':'' 0 = length h"
proof -
  assume h: "CHR '':'' \<notin> set h" "length h < npos"
  have "str_find (h @ CHR '':'' # p) '':'' (length h - k) = length h" if "k \<le> length h" for k
    using that
  proof (induction k)
    case 0
    then show ?case by (subst str_find_step) (simp_all add: occurs_at_def)
  next
    case (Suc k)
    then have "h ! (length h - Suc k) \<noteq> CHR '':''" using h(1) by (metis diff_Suc_less length_greater_0_conv list.size(3) nth_mem zero_less_Suc less_le_trans not_less_eq_eq zero_order(1))
    moreover have "length h - Suc k < length h" using Suc.prems by simp
    ultimately have "\<not> occurs_at (h @ CHR '':'' # p) '':'' (length h - Suc k)"
      using Suc.prems occurs_atD[of "h @ CHR '':'' # p" "'':''" "length h - Suc k" 0] by (auto simp: nth_append)
    moreover have "Suc (length h - Suc k) = length h - k" using Suc.prems by simp
    ultimately show ?case using Suc by (subst str_find_step) simp_all
  qed
  from this[of "length h"] show ?thesis by simp
qed

lemma host_of_value_eq:
  assumes "CHR ''/'' \<notin> set (h @ p)" "CHR '':'' \<notin> set h" "pre = [] \<or> (\<exists>q. pre = q @ ''/'')"
    and "length (pre @ h @ '':'' @ p) < npos"
  shows "host_of_value (pre @ h @ '':'' @ p) = Some (h, p)"
proof -
  let ?v = "pre @ h @ '':'' @ p"
  have "(if find_last_of ?v ''/'' \<noteq> npos then drop (find_last_of ?v ''/'' + 1) ?v else ?v) = h @ '':'' @ p"
    using assms(3)
  proof
    assume "pre = []"
    then show ?thesis using find_last_of_none[of ?v "''/''"] assms(1) by simp
  next
    assume "\<exists>q. pre = q @ ''/''"
    then obtain q where q: "pre = q @ ''/''" by blast
    then have "find_last_of ?v ''/'' = length q"
      using find_last_of_at[of "CHR ''/''" "''/''" "h @ '':'' @ p" q] assms(1) by simp
    then show ?thesis using q assms(4) by simp
  qed
  moreover have "str_find (h @ '':'' @ p) '':'' 0 = length h" using str_find_char[OF assms(2), of p] assms(4) by simp
  moreover have "length h \<noteq> npos" using assms(4) by simp
  ultimately show ?thesis unfolding host_of_value_def Let_def by (simp only: if_True simp_thms) simp
qed

text \<open>The answer to \<^verbatim>\<open>get --prefix\<close>: keys and values in turn.\<close>

definition kv_lines :: "(string \<times> string \<times> string) list \<Rightarrow> string list" where
  "kv_lines es = concat (map (\<lambda>(k, h, p). [k, h @ '':'' @ p]) es)"

definition entry_ok :: "string \<times> string \<times> string \<Rightarrow> bool" where
  "entry_ok = (\<lambda>(k, h, p). line_ok k \<and> line_ok (h @ '':'' @ p) \<and> CHR ''/'' \<notin> set (h @ p) \<and> CHR '':'' \<notin> set h)"

lemma odds_kv_lines: "odds (kv_lines es) = map (\<lambda>(k, h, p). h @ '':'' @ p) es"
  by (induction es) (auto simp: kv_lines_def)

lemma hosts_of_kv:
  assumes "list_all entry_ok es"
  shows "List.map_filter host_of_value (map (\<lambda>(k, h, p). h @ '':'' @ p) es) = map snd es"
  using assms
proof (induction es)
  case (Cons e es)
  obtain k h p where e: "e = (k, h, p)" by (cases e)
  have "host_of_value (h @ '':'' @ p) = Some (h, p)"
    using host_of_value_eq[of h p "[]"] Cons.prems e by (auto simp: entry_ok_def line_ok_def BUF_SIZE_def npos_def)
  then show ?case using Cons e by (simp add: map_filter_simps)
qed (simp add: map_filter_simps)

definition lists_hosts :: "shell \<Rightarrow> string \<Rightarrow> string \<Rightarrow> (string \<times> string \<times> string) list \<Rightarrow> bool" where
  "lists_hosts popen endpoints key es \<longleftrightarrow>
     popen (get_cmd endpoints key @ '' 2>&1'') = Some (print_lines (kv_lines es)) \<and> list_all entry_ok es \<and> es \<noteq> []"

lemma get_master_host_spec:
  assumes "lists_hosts popen endpoints key es"
  shows "get_master_host_from_etcd popen endpoints key host = (True, host @ map snd es)"
proof -
  have ok: "list_all entry_ok es" "es \<noteq> []" using assms by (simp_all add: lists_hosts_def)
  have "list_all line_ok (kv_lines es)" using ok(1) by (induction es) (auto simp: kv_lines_def entry_ok_def)
  then have "shell_system popen (get_cmd endpoints key) [] = (0, kv_lines es)"
    using shell_system_lines[of popen "get_cmd endpoints key" "kv_lines es" "[]"] assms by (simp add: lists_hosts_def)
  moreover have "2 \<le> length (kv_lines es)" using ok(2) by (cases es) (auto simp: kv_lines_def)
  ultimately show ?thesis
    using hosts_of_kv[OF ok(1)] by (simp add: get_master_host_from_etcd_def odds_kv_lines)
qed

text \<open>The answer to \<^verbatim>\<open>member list\<close>: six fields a line, the fifth of which is the endpoint.\<close>

definition member_ok :: "string list \<Rightarrow> bool" where
  "member_ok fs \<longleftrightarrow> length fs = 6 \<and> list_all (\<lambda>f. CHR '','' \<notin> set f) fs \<and> trim (fs ! 4) \<noteq> [] \<and> line_ok (join '','' fs)"

lemma split_member: "member_ok fs \<Longrightarrow> util_split (join '','' fs) '','' [] = Inr fs"
  using split_at_join[of fs "CHR '',''"] util_split_eq[of "join '','' fs" "'',''" "[]"]
  by (cases fs) (simp_all add: member_ok_def line_ok_def BUF_SIZE_def npos_def)

lemma join_snoc_left: "u \<noteq> [] \<Longrightarrow> join sep ((u @ sep @ v) # ws) = join sep (u # v # ws)"
  by (cases ws) simp_all

lemma member_loop_spec:
  assumes "list_all member_ok ms"
  shows "member_loop (map (join '','') ms) full =
    (let r = join '','' ((if full = [] then [] else [full]) @ map (\<lambda>f. trim (f ! 4)) ms) in Some (r \<noteq> [], r))"
  using assms
proof (induction ms arbitrary: full)
  case (Cons m ms)
  have "trim (m ! 4) \<noteq> []" "length m = 6" using Cons.prems by (simp_all add: member_ok_def)
  then show ?case
    using Cons.IH Cons.prems split_member[of m] join_snoc_left[of full "'',''" "trim (m ! 4)"]
    by (simp add: Let_def)
qed simp

lemma join_nonempty: "ws \<noteq> [] \<Longrightarrow> hd ws \<noteq> [] \<Longrightarrow> join sep ws \<noteq> []"
  by (induction sep ws rule: join.induct) auto

definition lists_members :: "shell \<Rightarrow> string \<Rightarrow> string list list \<Rightarrow> bool" where
  "lists_members popen endpoints ms \<longleftrightarrow>
     popen (members_cmd endpoints @ '' 2>&1'') = Some (print_lines (map (join '','') ms)) \<and> list_all member_ok ms \<and> ms \<noteq> []"

definition endpoints_of :: "string list list \<Rightarrow> string" where
  "endpoints_of ms = join '','' (map (\<lambda>f. trim (f ! 4)) ms)"

lemma get_full_endpoints_spec:
  assumes "lists_members popen endpoints ms"
  shows "get_full_endpoints_etcd popen endpoints [] = Some (True, endpoints_of ms)"
proof -
  have ok: "list_all member_ok ms" "ms \<noteq> []" using assms by (simp_all add: lists_members_def)
  then have "list_all line_ok (map (join '','') ms)" by (auto simp: list_all_iff member_ok_def)
  then have "shell_system popen (members_cmd endpoints) [] = (0, map (join '','') ms)"
    using shell_system_lines[of popen "members_cmd endpoints" "map (join '','') ms" "[]"] assms
    by (simp add: lists_members_def)
  moreover have "endpoints_of ms \<noteq> []"
    unfolding endpoints_of_def using ok by (intro join_nonempty) (auto simp: member_ok_def hd_map list_all_iff)
  ultimately show ?thesis
    using member_loop_spec[OF ok(1), of "[]"] by (simp add: get_full_endpoints_etcd_def Let_def endpoints_of_def)
qed

end
