(* ===== verification/EtcdHosts.thy ===== *)
theory EtcdHosts
  imports Tcp Util
begin

text \<open>
  The TCP client of \<open>Tcp\<close> over the etcd functions of \<open>Util\<close>: the three entries of its network
  that \<^verbatim>\<open>src/tcp/src/event_client.cpp\<close> and \<^verbatim>\<open>event_server.cpp\<close> call are the ones
  of \<^verbatim>\<open>util.h\<close>, on a shell. The caller passes an empty string and an empty list for the results.
\<close>

definition etcd_net :: "shell \<Rightarrow> net \<Rightarrow> net" where
  "etcd_net popen n =
     n\<lparr>full_endpoints := (\<lambda>e. case get_full_endpoints_etcd popen e [] of Some (True, f) \<Rightarrow> Some f | _ \<Rightarrow> None),
       master_host := (\<lambda>e k. case get_master_host_from_etcd popen e k [] of (True, hs) \<Rightarrow> Some hs | _ \<Rightarrow> None),
       set_key := set_key_to_etcd popen\<rparr>"

lemma etcd_net_rest [simp]:
  "resolver_ok (etcd_net popen n) = resolver_ok n" "reachable (etcd_net popen n) = reachable n"
  "candidate (etcd_net popen n) = candidate n"
  by (simp_all add: etcd_net_def resolver_ok_def reachable_def candidate_def fun_eq_iff)

lemma offered_by_etcd:
  assumes "lists_members popen (etcd_endpoints (cparams c)) ms" "lists_hosts popen (endpoints_of ms) (hostkey (cparams c)) es"
    and "etcd_endpoints (cparams c) \<noteq> []" "hostkey (cparams c) \<noteq> []"
  shows "offered (etcd_net popen n) c = map snd es"
proof -
  have f: "full_endpoints (etcd_net popen n) (etcd_endpoints (cparams c)) = Some (endpoints_of ms)"
    using get_full_endpoints_spec[OF assms(1)] by (simp add: etcd_net_def)
  have m: "master_host (etcd_net popen n) (endpoints_of ms) (hostkey (cparams c)) = Some (map snd es)"
    using get_master_host_spec[OF assms(2), of "[]"] by (simp add: etcd_net_def)
  show ?thesis using assms(3,4) by (simp add: offered_def f m)
qed


text \<open>Two hosts under the key, of which the first was used last.\<close>

definition demo_member :: "string list" where
  "demo_member = [''i'', '' started'', '' n'', '' http://e:2'', '' http://e:1'', '' false'']"

definition demo_shell :: shell where
  "demo_shell cmd =
     Some (print_lines (if cmd = members_cmd ''e:1'' @ '' 2>&1'' then [join '','' demo_member]
                        else kv_lines [(''k/0'', ''a'', ''80''), (''k/1'', ''c'', ''80'')]))"

definition etcd_client :: client where
  "etcd_client = new_client\<lparr>cparams := no_params\<lparr>hostkey := ''k'', etcd_endpoints := ''e:1''\<rparr>,
     etcd_last_hosts := (''a'', ''80'')\<rparr>"


end
