(* ===== verification/Metric.thy ===== *)
theory Metric
  imports Prelude Simulation "HOL-Library.AList"
begin

text \<open>
  The metrics of \<^verbatim>\<open>src/iomn/iomn/metric.h\<close> and \<^verbatim>\<open>src/iomn/src/metric.cpp\<close>: the calls that
  queue an observation, the thread that takes them from the queue into the maps and turns the
  ring of per-second totals, and the report that is written to a connection.

  The thread-safe queue is a list. The unordered maps are association lists; \<open>iter\<close> is the
  order in which the report visits one. Signed and unsigned 64-bit numbers are words, printed
  by \<^const>\<open>sint\<close> and \<^const>\<open>uint\<close>. The clock is an argument of each turn of the thread.
  An access outside an array is \<open>None\<close>. The threads share the maps under a mutex (except for
  the places named below), so a turn and a report are each one step.
\<close>

section \<open>Observations\<close>

datatype METRIC_TYPE = Count | Gugae | Histogram | Summary | Status

record metric =
  mtype :: METRIC_TYPE
  times_s :: int
  mkey :: string
  interval :: "int list"
  int_value :: i64
  str_value :: string

definition summary_count :: nat where "summary_count = 1000"

record metrics =
  app_tag :: string
  count_map :: "(string \<times> u64) list"
  guage_map :: "(string \<times> u64) list"
  summary_map :: "(string \<times> i64 list) list"
  summary_current_index :: nat
  summary_total_map :: "(string \<times> u64) list"
  summary_type_map :: "(string \<times> int list) list"
  status_map :: "(string \<times> string) list"
  is_running :: bool
  observations :: "metric list"
  time_last :: int

definition new_metrics :: metrics where
  "new_metrics = \<lparr>app_tag = [], count_map = [], guage_map = [], summary_map = [], summary_current_index = 0,
     summary_total_map = [], summary_type_map = [], status_map = [], is_running = False, observations = [],
     time_last = 0\<rparr>"

definition metric_push :: "int \<Rightarrow> metric \<Rightarrow> metrics \<Rightarrow> bool \<times> metrics" where
  "metric_push now_ms d s =
     (if is_running s
      then (True, s\<lparr>observations := observations s @ [d\<lparr>times_s := now_ms sdiv 1000\<rparr>]\<rparr>)
      else (False, s))"

definition new_metric :: metric where
  "new_metric = \<lparr>mtype = Count, times_s = 0, mkey = [], interval = [], int_value = 0, str_value = []\<rparr>"

definition push_status :: "int \<Rightarrow> string \<Rightarrow> string \<Rightarrow> metrics \<Rightarrow> bool \<times> metrics" where
  "push_status now key val = metric_push now (new_metric\<lparr>mtype := Status, mkey := key, str_value := val\<rparr>)"

definition push_count :: "int \<Rightarrow> string \<Rightarrow> metrics \<Rightarrow> bool \<times> metrics" where
  "push_count now key = metric_push now (new_metric\<lparr>mtype := Count, mkey := key\<rparr>)"

definition push_guage :: "int \<Rightarrow> string \<Rightarrow> i64 \<Rightarrow> metrics \<Rightarrow> bool \<times> metrics" where
  "push_guage now key val = metric_push now (new_metric\<lparr>mtype := Gugae, mkey := key, int_value := val\<rparr>)"

definition push_summary :: "int \<Rightarrow> string \<Rightarrow> i64 \<Rightarrow> int list \<Rightarrow> metrics \<Rightarrow> bool \<times> metrics" where
  "push_summary now key val ivs =
     metric_push now (new_metric\<lparr>mtype := Summary, mkey := key, int_value := val, interval := ivs\<rparr>)"

section \<open>The collecting thread\<close>

text \<open>\<^verbatim>\<open>map[key]\<close> of a map of numbers: a missing key is entered with the value 0.\<close>

definition at_key :: "string \<Rightarrow> (string \<times> u64) list \<Rightarrow> u64" where
  "at_key k m = (case map_of m k of None \<Rightarrow> 0 | Some v \<Rightarrow> v)"

definition next_index :: "nat \<Rightarrow> nat" where
  "next_index i = (if i + 1 \<ge> summary_count then 0 else i + 1)"

text \<open>The start of a turn: a second after the last one, the next slot of every ring is cleared.\<close>

definition rotation_due :: "int \<Rightarrow> metrics \<Rightarrow> bool" where
  "rotation_due now s \<longleftrightarrow> time_last s \<le> now - 1000 \<and> summary_map s \<noteq> []"

definition rotate_rings :: "metrics \<Rightarrow> metrics" where
  "rotate_rings s =
     (if summary_map s = [] then s
      else s\<lparr>summary_map := map (\<lambda>(k, r). (k, r[next_index (summary_current_index s) := 0])) (summary_map s),
             summary_current_index := next_index (summary_current_index s)\<rparr>)"

definition update_summary :: "metric \<Rightarrow> metrics \<Rightarrow> metrics" where
  "update_summary d s =
     (let s1 = (if map_of (summary_map s) (mkey d) = None
                then s\<lparr>summary_map := AList.update (mkey d) (replicate summary_count 0) (summary_map s),
                       summary_type_map := AList.update (mkey d) (interval d) (summary_type_map s)\<rparr>
                else s);
          r = the (map_of (summary_map s1) (mkey d));
          i = summary_current_index s1
      in s1\<lparr>summary_map := AList.update (mkey d) (r[i := r ! i + int_value d]) (summary_map s1),
            summary_total_map :=
              AList.update (mkey d) (at_key (mkey d) (summary_total_map s1) + int_value d) (summary_total_map s1)\<rparr>)"

definition handle_metric :: "metric \<Rightarrow> metrics \<Rightarrow> metrics" where
  "handle_metric d s =
     (case mtype d of
        Count \<Rightarrow> s\<lparr>count_map := AList.update (mkey d) (at_key (mkey d) (count_map s) + 1) (count_map s)\<rparr>
      | Gugae \<Rightarrow> s\<lparr>guage_map := AList.update (mkey d) (int_value d) (guage_map s)\<rparr>
      | Histogram \<Rightarrow> s
      | Summary \<Rightarrow> update_summary d s
      | Status \<Rightarrow> s\<lparr>status_map := AList.update (mkey d) (str_value d) (status_map s)\<rparr>)"

definition collect_turn :: "int \<Rightarrow> metrics \<Rightarrow> metrics" where
  "collect_turn now s =
     (if \<not> is_running s then s
      else
        (let s1 = (if rotation_due now s then (rotate_rings s)\<lparr>time_last := now\<rparr> else s)
         in case observations s1 of
              [] \<Rightarrow> s1
            | d # ds \<Rightarrow> handle_metric d (s1\<lparr>observations := ds\<rparr>)))"

section \<open>The report\<close>

fun interval_sum :: "i64 list \<Rightarrow> nat \<Rightarrow> nat \<Rightarrow> i64 \<Rightarrow> nat \<Rightarrow> i64 option" where
  "interval_sum ring current 0 total_sum i = Some total_sum"
| "interval_sum ring current (Suc n) total_sum i =
     (let summary_index = int current - int i;
          summary_index = (if summary_index < 0 then summary_index + int summary_count else summary_index)
      in if summary_index < 0 \<or> int (length ring) \<le> summary_index then None
         else interval_sum ring current n (total_sum + ring ! nat summary_index) (i + 1))"

definition line_end :: string where "line_end = [CHR 0x0A]"

fun interval_lines :: "string \<Rightarrow> i64 list \<Rightarrow> nat \<Rightarrow> int list \<Rightarrow> string option" where
  "interval_lines key ring current [] = Some []"
| "interval_lines key ring current (iv # ivs) =
     (case interval_sum ring current (nat iv) 0 0 of
        None \<Rightarrow> None
      | Some v \<Rightarrow>
          map_option (\<lambda>rest. key @ ''_'' @ show_int iv @ ''_sum:'' @ show_int (sint v) @ line_end @ rest)
            (interval_lines key ring current ivs))"

fun summary_lines :: "metrics \<Rightarrow> (string \<times> i64 list) list \<Rightarrow> string option" where
  "summary_lines s [] = Some []"
| "summary_lines s ((key, ring) # rs) =
     (case interval_lines key ring (summary_current_index s)
             (case map_of (summary_type_map s) key of None \<Rightarrow> [] | Some ivs \<Rightarrow> ivs) of
        None \<Rightarrow> None
      | Some ls \<Rightarrow>
          map_option (\<lambda>rest. ls @ key @ ''_total_sum:'' @ show_int (uint (at_key key (summary_total_map s))) @ line_end @ rest)
            (summary_lines s rs))"

definition number_lines :: "string \<Rightarrow> (string \<times> u64) list \<Rightarrow> string" where
  "number_lines suffix m = concat (map (\<lambda>(k, v). k @ suffix @ show_int (uint v) @ line_end) m)"

definition gen_output ::
  "((string \<times> u64) list \<Rightarrow> (string \<times> u64) list) \<Rightarrow> ((string \<times> i64 list) list \<Rightarrow> (string \<times> i64 list) list) \<Rightarrow>
   ((string \<times> string) list \<Rightarrow> (string \<times> string) list) \<Rightarrow> metrics \<Rightarrow> string option" where
  "gen_output iter iter_r iter_s s =
     map_option (\<lambda>summaries.
       ''======'' @ app_tag s @ '' begin======'' @ line_end @ app_tag s @ line_end @
       number_lines ''_count:'' (iter (count_map s)) @ number_lines ''_guagae:'' (iter (guage_map s)) @ summaries @
       concat (map (\<lambda>(k, v). k @ ''_status:'' @ v @ line_end) (iter_s (status_map s))) @
       ''====='' @ app_tag s @ '' end====='' @ line_end)
     (summary_lines s (iter_r (summary_map s)))"

section \<open>The socket and the two ends\<close>

definition socket_dir :: string where "socket_dir = ''/tmp/sds/''"

text \<open>
  The results of the system calls are arguments. The name is copied into the 108 characters of
  \<^verbatim>\<open>sun_path\<close>. The result is the listening socket or an error, and whether it was closed again.
\<close>

definition serv_listen :: "int \<Rightarrow> bool \<Rightarrow> bool \<Rightarrow> string \<Rightarrow> (int \<times> bool) option" where
  "serv_listen fd bind_ok listen_ok name =
     (if fd < 0 then Some (-1, False)
      else if 108 < length name + 1 then None
      else if \<not> bind_ok then Some (-2, True)
      else if \<not> listen_ok then Some (-3, True)
      else Some (fd, False))"

definition serv_accept :: "int \<Rightarrow> int" where
  "serv_accept clifd = (if clifd < 0 then -1 else clifd)"

text \<open>\<^verbatim>\<open>run\<close> up to the loop of the listening thread: false if it gave up.\<close>

definition metric_run ::
  "(bool \<times> bool) option \<Rightarrow> int \<Rightarrow> bool \<Rightarrow> bool \<Rightarrow> int \<Rightarrow> string \<Rightarrow> metrics \<Rightarrow> (bool \<times> metrics) option" where
  "metric_run stat_dir fd bind_ok listen_ok now tag s =
     (let s1 = s\<lparr>app_tag := tag, is_running := True, time_last := now, summary_current_index := 0\<rparr>
      in if (case stat_dir of Some (True, is_dir) \<Rightarrow> \<not> is_dir | _ \<Rightarrow> False)
         then Some (False, s1\<lparr>is_running := False\<rparr>)
         else case serv_listen fd bind_ok listen_ok (socket_dir @ tag) of
                None \<Rightarrow> None
              | Some (l, _) \<Rightarrow>
                  (if l < 0 then Some (False, s1\<lparr>is_running := False\<rparr>) else Some (True, s1)))"

text \<open>
  The loop of the listening thread, over what each \<^verbatim>\<open>accept\<close> gives and the object as it is then:
  the reports that are sent. A failed \<^verbatim>\<open>accept\<close> ends the loop.
\<close>

fun serve :: "(metrics \<Rightarrow> string option) \<Rightarrow> (int \<times> metrics) list \<Rightarrow> (int \<times> string) list option" where
  "serve report [] = Some []"
| "serve report ((fd, s) # as) =
     (if \<not> is_running s then Some []
      else if serv_accept fd < 0 then Some []
      else case report s of None \<Rightarrow> None | Some out \<Rightarrow> map_option ((#) (fd, out)) (serve report as))"

text \<open>
  \<open>metric_connect\<close> wakes the listening thread: the bytes it sends. \<open>metric_destroy\<close> is the
  destructor, with whether the listening thread was started.
\<close>

definition metric_connect :: "int \<Rightarrow> bool \<Rightarrow> string \<Rightarrow> int list option" where
  "metric_connect sock_fd connect_ok name =
     (if 108 < length name + 1 then None
      else if sock_fd < 0 then Some []
      else if \<not> connect_ok then Some []
      else Some ([1, 2, 3] @ replicate 1021 0))"

definition metric_destroy :: "bool \<Rightarrow> int \<Rightarrow> bool \<Rightarrow> metrics \<Rightarrow> (int list \<times> metrics) option" where
  "metric_destroy started sock_fd connect_ok s =
     (let s1 = s\<lparr>is_running := False\<rparr>
      in if started then map_option (\<lambda>bs. (bs, s1)) (metric_connect sock_fd connect_ok (socket_dir @ app_tag s)) else Some ([], s1))"

text \<open>
  Every client that is accepted while the object lives gets the report of the moment; the
  connection of the destructor ends the loop without one.
\<close>

lemma serve_reports:
  "(\<And>fd s. (fd, s) \<in> set as \<Longrightarrow> is_running s \<and> 0 \<le> fd \<and> report s \<noteq> None) \<Longrightarrow> \<not> is_running s' \<Longrightarrow>
     serve report (as @ (fd', s') # bs) = Some (map (\<lambda>(fd, s). (fd, the (report s))) as)"
proof (induction as)
  case (Cons a as)
  obtain fd s where a: "a = (fd, s)" by (cases a)
  then have "is_running s" "0 \<le> fd" "report s \<noteq> None" using Cons.prems(1)[of fd s] by auto
  moreover have "serve report (as @ (fd', s') # bs) = Some (map (\<lambda>(fd, s). (fd, the (report s))) as)"
    using Cons.prems by (intro Cons.IH) (meson list.set_intros(2))
  ultimately show ?case using a by (auto simp: serv_accept_def)
qed simp

lemma failed_accept_ends_service: "is_running s \<Longrightarrow> fd < 0 \<Longrightarrow> serve report ((fd, s) # as) = Some []"
  by (simp add: serv_accept_def)

text \<open>One turn of the loop of the sample program, with the time of each call.\<close>

definition iomn_turn :: "int \<Rightarrow> int \<Rightarrow> metrics \<Rightarrow> int \<times> metrics" where
  "iomn_turn now cnt s =
     (let s1 = snd (push_count now ''times'' s);
          s2 = snd (push_summary now ''summary'' (word_of_int cnt) [1, 2, 5, 10, 100] s1);
          s3 = snd (push_summary now ''summary2'' (word_of_int (cnt + 1)) [1, 20, 50] s2)
      in (cnt + 2, snd (push_guage now ''guagage'' (word_of_int (cnt + 2)) s3)))"

section \<open>The rings as a history of seconds\<close>

datatype metric_op = Tick | Handle metric

fun metric_step :: "metric_op \<Rightarrow> metrics \<Rightarrow> metrics" where
  "metric_step Tick s = rotate_rings s"
| "metric_step (Handle d) s = handle_metric d s"


definition turn_ops :: "int \<Rightarrow> metrics \<Rightarrow> metric_op list" where
  "turn_ops now s = (if rotation_due now s then [Tick] else []) @
     (case observations s of [] \<Rightarrow> [] | d # ds \<Rightarrow> [Handle d])"

text \<open>
  What the maps say, per key: the count, the last gauge and status, the total, and the total of
  the j-th last second (0 for the running one).
\<close>

record metric_view =
  counts :: "string \<Rightarrow> u64"
  gauges :: "string \<rightharpoonup> u64"
  statuses :: "string \<rightharpoonup> string"
  totals :: "string \<Rightarrow> u64"
  secs :: "string \<Rightarrow> nat \<Rightarrow> u64"

definition ring_at :: "metrics \<Rightarrow> string \<Rightarrow> nat \<Rightarrow> u64" where
  "ring_at s k j =
     (if j < summary_count
      then case map_of (summary_map s) k of
             None \<Rightarrow> 0
           | Some r \<Rightarrow> r ! ((summary_current_index s + summary_count - j) mod summary_count)
      else 0)"

definition metric_view_of :: "metrics \<Rightarrow> metric_view" where
  "metric_view_of s = \<lparr>counts = (\<lambda>k. at_key k (count_map s)), gauges = map_of (guage_map s),
     statuses = map_of (status_map s), totals = (\<lambda>k. at_key k (summary_total_map s)), secs = ring_at s\<rparr>"

fun metric_spec :: "metric_op \<Rightarrow> metric_view \<Rightarrow> metric_view" where
  "metric_spec Tick a =
     a\<lparr>secs := (\<lambda>k j. if j = 0 then 0 else if j < summary_count then secs a k (j - 1) else 0)\<rparr>"
| "metric_spec (Handle d) a =
     (case mtype d of
        Count \<Rightarrow> a\<lparr>counts := (counts a)(mkey d := counts a (mkey d) + 1)\<rparr>
      | Gugae \<Rightarrow> a\<lparr>gauges := (gauges a)(mkey d \<mapsto> int_value d)\<rparr>
      | Histogram \<Rightarrow> a
      | Summary \<Rightarrow> a\<lparr>totals := (totals a)(mkey d := totals a (mkey d) + int_value d),
                    secs := (secs a)(mkey d := (secs a (mkey d))(0 := secs a (mkey d) 0 + int_value d))\<rparr>
      | Status \<Rightarrow> a\<lparr>statuses := (statuses a)(mkey d \<mapsto> str_value d)\<rparr>)"

definition rings_ok :: "metrics \<Rightarrow> bool" where
  "rings_ok s \<longleftrightarrow> summary_current_index s < summary_count \<and>
     (\<forall>k r. map_of (summary_map s) k = Some r \<longrightarrow> length r = summary_count)"

lemma at_key_update [simp]: "at_key k (AList.update k' v m) = (if k = k' then v else at_key k m)"
  by (simp add: at_key_def update_conv')

lemma map_of_rings: "map_of (map (\<lambda>(k, r). (k, f r)) m) k = map_option f (map_of m k)"
  by (induction m) auto

lemma next_index_mod: "i < summary_count \<Longrightarrow> next_index i = (i + 1) mod summary_count"
  by (auto simp: next_index_def summary_count_def mod_if)

lemma next_index_less: "i < summary_count \<Longrightarrow> next_index i < summary_count"
  by (simp add: next_index_mod summary_count_def)

lemma ring_shift:
  assumes "i < summary_count" "0 < j" "j < summary_count"
  shows "(next_index i + summary_count - j) mod summary_count = (i + summary_count - (j - 1)) mod summary_count"
    "(next_index i + summary_count - j) mod summary_count \<noteq> next_index i"
  using assms by (auto simp: next_index_def summary_count_def mod_if)

lemma ring_at_rotate:
  assumes "rings_ok s"
  shows "ring_at (rotate_rings s) k j = (if j = 0 then 0 else if j < summary_count then ring_at s k (j - 1) else 0)"
proof (cases "summary_map s = []")
  case True
  then show ?thesis by (simp add: rotate_rings_def ring_at_def)
next
  case False
  have i: "summary_current_index s < summary_count" using assms by (simp add: rings_ok_def)
  show ?thesis
  proof (cases "map_of (summary_map s) k")
    case None
    then show ?thesis using False by (simp add: ring_at_def rotate_rings_def map_of_rings)
  next
    case (Some r)
    then have "length r = summary_count" using assms by (auto simp: rings_ok_def)
    then show ?thesis
      using False Some next_index_less[OF i] ring_shift[OF i, of j]
      by (auto simp: ring_at_def rotate_rings_def map_of_rings)
  qed
qed

lemma rotate_ok: "rings_ok s \<Longrightarrow> rings_ok (rotate_rings s)"
  by (auto simp: rings_ok_def rotate_rings_def map_of_rings next_index_less)

lemma update_summary_ok: "rings_ok s \<Longrightarrow> rings_ok (update_summary d s)"
  by (auto simp: rings_ok_def update_summary_def Let_def update_conv' split: if_splits)

lemma ring_index: "j < summary_count \<Longrightarrow> i < summary_count \<Longrightarrow> ((i + summary_count - j) mod summary_count = i) = (j = 0)"
  by (auto simp: summary_count_def mod_if)

lemma update_summary_ring:
  "map_of (summary_map (update_summary d s)) k =
     (if k = mkey d
      then (let r = (case map_of (summary_map s) k of None \<Rightarrow> replicate summary_count 0 | Some r \<Rightarrow> r)
            in Some (r[summary_current_index s := r ! summary_current_index s + int_value d]))
      else map_of (summary_map s) k)"
  "summary_current_index (update_summary d s) = summary_current_index s"
  by (auto simp: update_summary_def Let_def update_conv' split: option.splits)

lemma ring_at_update_summary:
  assumes "rings_ok s"
  shows "ring_at (update_summary d s) k j =
    (if k = mkey d \<and> j = 0 then ring_at s k 0 + int_value d else ring_at s k j)"
proof (cases "k = mkey d \<and> j < summary_count")
  case False
  then show ?thesis by (auto simp: ring_at_def update_summary_ring cong: option.case_cong) (simp add: summary_count_def)
next
  case True
  define i where "i = summary_current_index s"
  define n where "n = (i + summary_count - j) mod summary_count"
  have i: "i < summary_count" using assms by (simp add: rings_ok_def i_def)
  have n: "n < summary_count" "n = i \<longleftrightarrow> j = 0"
    using ring_index[of j i] True i by (simp_all add: n_def summary_count_def)
  define r where "r = (case map_of (summary_map s) k of None \<Rightarrow> replicate summary_count 0 | Some r \<Rightarrow> r)"
  have len: "length r = summary_count" using assms by (auto simp: r_def rings_ok_def split: option.splits)
  have old: "ring_at s k j = r ! n" using True n(1) by (auto simp: ring_at_def r_def n_def i_def split: option.splits)
  have "map_of (summary_map (update_summary d s)) k = Some (r[i := r ! i + int_value d])"
    using True by (simp add: update_summary_ring r_def i_def Let_def)
  then have "ring_at (update_summary d s) k j = r[i := r ! i + int_value d] ! n"
    using True by (simp add: ring_at_def update_summary_ring(2) n_def i_def)
  then show ?thesis using old n len i True by (auto simp: nth_list_update)
qed

lemma update_summary_rest [frame_simps]:
  "count_map (update_summary d s) = count_map s" "guage_map (update_summary d s) = guage_map s"
  "status_map (update_summary d s) = status_map s"
  "at_key k (summary_total_map (update_summary d s)) =
     (if k = mkey d then at_key k (summary_total_map s) + int_value d else at_key k (summary_total_map s))"
  by (simp_all add: update_summary_def Let_def)

lemma metric_step_view:
  assumes "rings_ok s" shows "metric_view_of (metric_step op s) = metric_spec op (metric_view_of s)"
proof (cases op)
  case Tick
  have "count_map (rotate_rings s) = count_map s" "guage_map (rotate_rings s) = guage_map s"
    "status_map (rotate_rings s) = status_map s" "summary_total_map (rotate_rings s) = summary_total_map s"
    by (simp_all add: rotate_rings_def)
  then show ?thesis using Tick ring_at_rotate[OF assms] by (simp add: metric_view_of_def fun_eq_iff)
next
  case (Handle d)
  have r: "ring_at (s\<lparr>count_map := a\<rparr>) = ring_at s" "ring_at (s\<lparr>guage_map := a\<rparr>) = ring_at s"
    "ring_at (s\<lparr>status_map := b\<rparr>) = ring_at s" for a b
    by (simp_all add: ring_at_def fun_eq_iff cong: option.case_cong)
  have sec: "ring_at (update_summary d s) =
      (ring_at s)(mkey d := (ring_at s (mkey d))(0 := ring_at s (mkey d) 0 + int_value d))"
    by (intro ext) (simp add: ring_at_update_summary[OF assms])
  show ?thesis
    using Handle
    by (cases "mtype d")
      (simp_all add: handle_metric_def metric_view_of_def update_conv' frame_simps r sec, auto simp: fun_eq_iff)
qed

lemma metric_step_ok: "rings_ok s \<Longrightarrow> rings_ok (metric_step op s)"
proof (cases op)
  case (Handle d)
  assume ok: "rings_ok s"
  have "rings_ok (s\<lparr>count_map := a\<rparr>) = rings_ok s" "rings_ok (s\<lparr>guage_map := a\<rparr>) = rings_ok s"
    "rings_ok (s\<lparr>status_map := b\<rparr>) = rings_ok s" for a b
    by (simp_all add: rings_ok_def)
  then show ?thesis using Handle ok update_summary_ok[OF ok] by (cases "mtype d") (simp_all add: handle_metric_def)
qed (simp add: rotate_ok)

interpretation collector: simulation metric_step metric_spec metric_view_of rings_ok
  by unfold_locales (simp_all add: metric_step_ok metric_step_view)

section \<open>What the report says\<close>

text \<open>The threads: a client queues an observation, the collector makes a turn.\<close>

datatype metric_event = Push int metric | Turn int

fun event_step :: "metric_event \<Rightarrow> metrics \<Rightarrow> metrics" where
  "event_step (Push now d) s = snd (metric_push now d s)"
| "event_step (Turn now) s = collect_turn now s"

fun history_ops :: "metric_event list \<Rightarrow> metrics \<Rightarrow> metric_op list" where
  "history_ops [] s = []"
| "history_ops (e # es) s =
     (case e of Push now d \<Rightarrow> [] | Turn now \<Rightarrow> turn_ops now s) @ history_ops es (event_step e s)"

lemma view_queue [simp]:
  "metric_view_of (s\<lparr>observations := q\<rparr>) = metric_view_of s" "metric_view_of (s\<lparr>time_last := t\<rparr>) = metric_view_of s"
  "rings_ok (s\<lparr>observations := q\<rparr>) = rings_ok s" "rings_ok (s\<lparr>time_last := t\<rparr>) = rings_ok s"
  by (simp_all add: metric_view_of_def rings_ok_def ring_at_def fun_eq_iff cong: option.case_cong)

lemma event_step_view:
  assumes "is_running s" "rings_ok s"
  shows "metric_view_of (event_step e s) = fold metric_spec (history_ops [e] s) (metric_view_of s)"
    "rings_ok (event_step e s)" "is_running (event_step e s)"
proof -
  have run: "is_running (rotate_rings t) = is_running t" "is_running (handle_metric d t) = is_running t"
    "observations (rotate_rings t) = observations t" for t d
    by (auto simp: rotate_rings_def handle_metric_def update_summary_def Let_def split: METRIC_TYPE.splits)
  have t: "metric_view_of (rotate_rings s) = metric_spec Tick (metric_view_of s)" "rings_ok (rotate_rings s)"
    using metric_step_view[OF assms(2), of Tick] metric_step_ok[OF assms(2), of Tick] by (simp_all only: metric_step.simps)
  have h: "metric_view_of (handle_metric d u) = metric_spec (Handle d) (metric_view_of u)" "rings_ok (handle_metric d u)"
    if "rings_ok u" for d u
    using metric_step_view[OF that, of "Handle d"] metric_step_ok[OF that, of "Handle d"] by (simp_all only: metric_step.simps)
  have "metric_view_of (event_step e s) = fold metric_spec (history_ops [e] s) (metric_view_of s) \<and>
    rings_ok (event_step e s) \<and> is_running (event_step e s)"
  proof (cases e)
    case (Push now d)
    then show ?thesis using assms by (simp add: metric_push_def)
  next
    case (Turn now)
    define s1 where "s1 = (if rotation_due now s then (rotate_rings s)\<lparr>time_last := now\<rparr> else s)"
    have s1: "metric_view_of s1 = fold metric_spec (if rotation_due now s then [Tick] else []) (metric_view_of s)"
      "rings_ok s1" "is_running s1" "observations s1 = observations s"
      using t assms run by (simp_all add: s1_def del: metric_spec.simps)
    have ev: "event_step e s = (case observations s1 of [] \<Rightarrow> s1 | d # ds \<Rightarrow> handle_metric d (s1\<lparr>observations := ds\<rparr>))"
      unfolding Turn event_step.simps collect_turn_def s1_def Let_def using assms(1) by (simp only: if_False simp_thms)
    show ?thesis
    proof (cases "observations s")
      case Nil
      then show ?thesis using Turn s1 ev by (simp add: turn_ops_def del: metric_spec.simps event_step.simps)
    next
      case (Cons d ds)
      then have "event_step e s = handle_metric d (s1\<lparr>observations := ds\<rparr>)" using ev s1(4) by simp
      moreover have "history_ops [e] s = (if rotation_due now s then [Tick] else []) @ [Handle d]"
        using Turn Cons by (simp add: turn_ops_def)
      ultimately show ?thesis
        using h[of "s1\<lparr>observations := ds\<rparr>" d] s1 run(2)[of d] by (simp del: metric_spec.simps event_step.simps)
    qed
  qed
  then show "metric_view_of (event_step e s) = fold metric_spec (history_ops [e] s) (metric_view_of s)"
    "rings_ok (event_step e s)" "is_running (event_step e s)" by blast+
qed

lemma metric_events_view:
  assumes "is_running s" "rings_ok s"
  shows "metric_view_of (fold event_step es s) = fold metric_spec (history_ops es s) (metric_view_of s) \<and>
    rings_ok (fold event_step es s)"
  using assms
proof (induction es arbitrary: s)
  case (Cons e es)
  then show ?case using event_step_view[OF Cons.prems, of e] by simp
qed simp

text \<open>The values of the summary \<open>k\<close> since the n-th last tick, from the latest operation back.\<close>

fun recent :: "nat \<Rightarrow> string \<Rightarrow> metric_op list \<Rightarrow> u64" where
  "recent 0 k ops = 0"
| "recent (Suc n) k [] = 0"
| "recent (Suc n) k (Tick # ops) = recent n k ops"
| "recent (Suc n) k (Handle d # ops) =
     (if mtype d = Summary \<and> mkey d = k then int_value d else 0) + recent (Suc n) k ops"

definition no_view :: metric_view where
  "no_view = \<lparr>counts = (\<lambda>_. 0), gauges = (\<lambda>_. None), statuses = (\<lambda>_. None), totals = (\<lambda>_. 0), secs = (\<lambda>_ _. 0)\<rparr>"

definition of_type :: "METRIC_TYPE \<Rightarrow> string \<Rightarrow> metric_op \<Rightarrow> bool" where
  "of_type t k op = (case op of Tick \<Rightarrow> False | Handle d \<Rightarrow> mtype d = t \<and> mkey d = k)"

lemma sum_upt_Suc: "sum_list (map f [0..<Suc n]) = f 0 + sum_list (map (\<lambda>j. f (Suc j)) [0..<n])"
  for f :: "nat \<Rightarrow> 'a::comm_monoid_add"
  by (simp add: upt_conv_Cons map_Suc_upt[symmetric] o_def del: upt_Suc)

lemma secs_are_recent:
  "n \<le> summary_count \<Longrightarrow>
   sum_list (map (secs (fold metric_spec ops no_view) k) [0..<n]) = recent n k (rev ops)"
proof (induction ops arbitrary: n rule: rev_induct)
  case Nil
  then show ?case by (cases n) (simp_all add: no_view_def sum_list_0)
next
  case (snoc op ops)
  let ?a = "fold metric_spec ops no_view"
  show ?case
  proof (cases n)
    case (Suc m)
    have IH: "sum_list (map (secs ?a k) [0..<i]) = recent i k (rev ops)" if "i \<le> n" for i
      using snoc that by simp
    show ?thesis
    proof (cases op)
      case Tick
      have "sum_list (map (\<lambda>j. if Suc j < summary_count then secs ?a k j else 0) [0..<m]) = recent m k (rev ops)"
        using IH[of m] Suc snoc.prems by (subst map_cong[where g = "secs ?a k", OF refl]) auto
      then show ?thesis using Tick Suc by (simp add: sum_upt_Suc del: upt_Suc cong: if_cong)
    next
      case (Handle d)
      have "(\<lambda>j. secs (metric_spec op ?a) k (Suc j)) = (\<lambda>j. secs ?a k (Suc j))"
        using Handle by (auto simp: fun_eq_iff split: METRIC_TYPE.splits)
      moreover have "secs (metric_spec op ?a) k 0 =
          (if mtype d = Summary \<and> mkey d = k then int_value d else 0) + secs ?a k 0"
        using Handle by (cases "mtype d") auto
      ultimately show ?thesis using Handle Suc IH[of n] by (simp add: sum_upt_Suc add.assoc del: upt_Suc)
    qed
  qed simp
qed

lemma counts_are_pushed:
  "counts (fold metric_spec ops no_view) k = of_nat (length (filter (of_type Count k) ops))"
proof (induction ops rule: rev_induct)
  case (snoc op ops)
  then show ?case by (cases op) (auto simp: of_type_def split: METRIC_TYPE.splits)
qed (simp add: no_view_def)

lemma interval_sum_spec:
  "i + n \<le> summary_count \<Longrightarrow> current < summary_count \<Longrightarrow> length ring = summary_count \<Longrightarrow>
   interval_sum ring current n acc i =
     Some (acc + sum_list (map (\<lambda>j. ring ! ((current + summary_count - j) mod summary_count)) [i..<i + n]))"
proof (induction n arbitrary: acc i)
  case (Suc n)
  have "nat (if int current - int i < 0 then int current - int i + int summary_count else int current - int i) =
      (current + summary_count - i) mod summary_count"
    using Suc.prems by (auto simp: nat_diff_distrib summary_count_def mod_if)
  moreover have "0 \<le> (if int current - int i < 0 then int current - int i + int summary_count else int current - int i)"
    "(if int current - int i < 0 then int current - int i + int summary_count else int current - int i) < int summary_count"
    using Suc.prems by auto
  ultimately show ?case
    using Suc.IH[of "i + 1"] Suc.prems by (simp add: Let_def upt_conv_Cons add.assoc del: upt_Suc)
qed simp

definition started :: "metrics" where
  "started = new_metrics\<lparr>is_running := True\<rparr>"


text \<open>Two seconds: 5 and 7 in the first, 1 in the second.\<close>

definition demo_events :: "metric_event list" where
  "demo_events =
     [Push 0 (new_metric\<lparr>mtype := Summary, mkey := ''x'', int_value := 5, interval := [1, 2]\<rparr>), Turn 0,
      Push 0 (new_metric\<lparr>mtype := Summary, mkey := ''x'', int_value := 7, interval := [1, 2]\<rparr>), Turn 1,
      Push 0 (new_metric\<lparr>mtype := Summary, mkey := ''x'', int_value := 1, interval := [1, 2]\<rparr>), Turn 1500]"

lemma demo_metrics:
  "history_ops demo_events started =
     (let d = \<lambda>v. Handle (new_metric\<lparr>mtype := Summary, mkey := ''x'', int_value := v, interval := [1, 2]\<rparr>)
      in [d 5, d 7, Tick, d 1])"
  "\<exists>ring. map_of (summary_map (fold event_step demo_events started)) ''x'' = Some ring"
  by (simp_all add: demo_events_def started_def new_metrics_def metric_push_def new_metric_def collect_turn_def
      turn_ops_def rotation_due_def handle_metric_def update_summary_def Let_def rotate_rings_def summary_count_def)


text \<open>
  An interval longer than 1001 seconds plus the position of the running slot reads before the array.
\<close>

lemma interval_sum_outside:
  "length ring = summary_count \<Longrightarrow> current < summary_count \<Longrightarrow> current + summary_count + 1 < i + n \<Longrightarrow> 0 < n \<Longrightarrow>
   interval_sum ring current n acc i = None"
proof (induction n arbitrary: acc i)
  case (Suc n)
  show ?case
  proof (cases "n = 0")
    case True
    then show ?thesis using Suc.prems by (simp add: Let_def)
  next
    case False
    then show ?thesis using Suc.IH[of "Suc i"] Suc.prems by (simp add: Let_def)
  qed
qed simp

text \<open>Gauges are signed when they are pushed and unsigned when they are reported.\<close>

lemma negative_gauge:
  "number_lines ''_guagae:'' (guage_map (handle_metric (new_metric\<lparr>mtype := Gugae, mkey := ''g'', int_value := -1\<rparr>) new_metrics)) =
   ''g_guagae:'' @ show_int (2 ^ 64 - 1) @ line_end"
proof -
  have "uint (- 1 :: u64) = 2 ^ 64 - 1" by (simp add: unsigned_minus_1_eq_mask mask_eq_exp_minus_1)
  then show ?thesis by (simp add: handle_metric_def new_metric_def new_metrics_def number_lines_def)
qed

end
