(* ===== verification/UseMysql.thy ===== *)
theory UseMysql
  imports MysqlDb "HOL-Library.Sublist"
begin

text \<open>
  The sample \<^verbatim>\<open>src/use_mysql/main.cpp\<close>: a worker that keeps one MySQL connection, with a thread
  that checks it and a thread that executes queued statements, and the reading of its
  configuration.

  The connector and the JSON library are records of the calls the sample makes. A call of the
  connector answers with a value or one of the exceptions of \<open>MysqlDb\<close>. \<open>None\<close> is what ends the
  program: an exception nobody catches, a thread object destroyed while its thread runs, and a
  use of the member \<^verbatim>\<open>conn_\<close> before it is set, which is the pointer \<open>Garbage\<close>. A turn of a thread
  holds the mutex and is one step.
\<close>

section \<open>Configuration\<close>

record mysql_info =
  url_f :: string
  account_f :: string
  pass_f :: string
  data_base_f :: string

record mysql_base =
  log_level :: int
  log_dir :: string

record config_opt =
  base_f :: mysql_base
  dbinfo_f :: mysql_info

definition default_opt :: config_opt where
  "default_opt = \<lparr>base_f = \<lparr>log_level = 1, log_dir = ''./logs''\<rparr>,
     dbinfo_f = \<lparr>url_f = ''tcp://172.24.13.178:3306'', account_f = ''chronos'', pass_f = ''chronos'',
                 data_base_f = ''yctest''\<rparr>\<rparr>"

record 'j json_lib =
  json_parse :: "string \<Rightarrow> 'j option"
  json_contains :: "'j \<Rightarrow> string \<Rightarrow> bool"
  json_at :: "'j \<Rightarrow> string \<Rightarrow> 'j option"
  json_string :: "'j \<Rightarrow> string option"
  json_int :: "'j \<Rightarrow> int option"

datatype read_result = Read_true | Read_exit int | Read_throws

definition member_string :: "'j json_lib \<Rightarrow> 'j \<Rightarrow> string \<Rightarrow> string option" where
  "member_string J j k = Option.bind (json_at J j k) (json_string J)"

definition read_mysql :: "'j json_lib \<Rightarrow> 'j \<Rightarrow> config_opt \<Rightarrow> config_opt option" where
  "read_mysql J cfg opts =
     (if \<not> json_contains J cfg ''mysql'' then Some opts
      else case json_at J cfg ''mysql'' of
             None \<Rightarrow> None
           | Some m \<Rightarrow>
               (case (member_string J m ''host'', member_string J m ''account'', member_string J m ''password'',
                      member_string J m ''database'') of
                  (Some h, Some a, Some p, Some d) \<Rightarrow>
                    Some (opts\<lparr>dbinfo_f := \<lparr>url_f = h, account_f = a, pass_f = p, data_base_f = d\<rparr>\<rparr>)
                | _ \<Rightarrow> None))"

definition read_base :: "'j json_lib \<Rightarrow> 'j \<Rightarrow> config_opt \<Rightarrow> config_opt option" where
  "read_base J cfg opts =
     (if \<not> json_contains J cfg ''base'' then Some opts
      else case json_at J cfg ''base'' of
             None \<Rightarrow> None
           | Some b \<Rightarrow>
               (case (member_string J b ''log_dir'', Option.bind (json_at J b ''log_level'') (json_int J)) of
                  (Some d, Some l) \<Rightarrow> Some (opts\<lparr>base_f := \<lparr>log_level = l, log_dir = d\<rparr>\<rparr>)
                | _ \<Rightarrow> None))"

text \<open>The second part of the result is the parameter \<^verbatim>\<open>opts\<close>, a copy of the caller's options.\<close>

definition ReadConfig :: "'j json_lib \<Rightarrow> string \<Rightarrow> config_opt \<Rightarrow> read_result \<times> config_opt" where
  "ReadConfig J content opts =
     (case json_parse J content of
        None \<Rightarrow> (Read_exit (-1), opts)
      | Some cfg \<Rightarrow>
          (case read_mysql J cfg opts of
             None \<Rightarrow> (Read_throws, opts)
           | Some o1 \<Rightarrow>
               (case read_base J cfg o1 of None \<Rightarrow> (Read_throws, o1) | Some o2 \<Rightarrow> (Read_true, o2))))"

section \<open>The worker\<close>

record 'd sql_lib =
  lib_instance :: "bool answer"
  lib_connect :: "string \<Rightarrow> string \<Rightarrow> string \<Rightarrow> 'd \<Rightarrow> bool answer \<times> 'd"
  lib_schema :: "string \<Rightarrow> 'd \<Rightarrow> unit answer \<times> 'd"
  lib_valid :: "'d \<Rightarrow> bool answer \<times> 'd"
  lib_close :: "'d \<Rightarrow> unit answer \<times> 'd"
  lib_prepare :: "string \<Rightarrow> 'd \<Rightarrow> bool answer \<times> 'd"
  lib_query :: "string \<Rightarrow> 'd \<Rightarrow> unit answer \<times> 'd"
  lib_update :: "string \<Rightarrow> 'd \<Rightarrow> int answer \<times> 'd"

datatype pointer = Garbage | Null | Live

record 'd worker =
  wdbinfo :: mysql_info
  wexit :: bool
  wthreads :: bool
  draining :: bool
  conn :: pointer
  wdriver :: bool
  sql_queue :: "string list"
  check_count :: int
  wlib :: 'd

definition new_worker :: "'d \<Rightarrow> 'd worker" where
  "new_worker d = \<lparr>wdbinfo = dbinfo_f default_opt, wexit = False, wthreads = False, draining = False, conn = Garbage, wdriver = False, sql_queue = [],
     check_count = 0, wlib = d\<rparr>"

text \<open>A handler for \<^verbatim>\<open>std::exception\<close> lets other exceptions through.\<close>

definition is_std :: "exn \<Rightarrow> bool" where "is_std e = (e \<noteq> OtherException)"

definition DisConnect :: "'d sql_lib \<Rightarrow> bool \<Rightarrow> 'd worker \<Rightarrow> (unit answer \<times> 'd worker) option" where
  "DisConnect L destroy s =
     (case conn s of
        Garbage \<Rightarrow> None
      | Null \<Rightarrow> Some (Inr (), if destroy then s\<lparr>wdriver := False\<rparr> else s)
      | Live \<Rightarrow>
          (case lib_close L (wlib s) of
             (Inl e, d) \<Rightarrow> Some (Inl e, s\<lparr>wlib := d\<rparr>)
           | (Inr _, d) \<Rightarrow>
               Some (Inr (), (if destroy then s\<lparr>wdriver := False\<rparr> else s)\<lparr>wlib := d, conn := Null\<rparr>)))"

definition worker_Connect :: "'d sql_lib \<Rightarrow> 'd worker \<Rightarrow> (bool \<times> 'd worker) option" where
  "worker_Connect L s =
     (case lib_connect L (url_f (wdbinfo s)) (account_f (wdbinfo s)) (pass_f (wdbinfo s)) (wlib s) of
        (Inl e, d) \<Rightarrow> (if is_std e then Some (False, s\<lparr>wlib := d\<rparr>) else None)
      | (Inr False, d) \<Rightarrow> Some (False, s\<lparr>wlib := d, conn := Null\<rparr>)
      | (Inr True, d) \<Rightarrow>
          (case lib_schema L (data_base_f (wdbinfo s)) d of
             (Inl e, d1) \<Rightarrow> (if is_std e then Some (False, s\<lparr>wlib := d1, conn := Live\<rparr>) else None)
           | (Inr _, d1) \<Rightarrow> Some (True, s\<lparr>wlib := d1, conn := Live\<rparr>)))"

definition worker_Init :: "'d sql_lib \<Rightarrow> mysql_info \<Rightarrow> 'd worker \<Rightarrow> (bool \<times> 'd worker) option" where
  "worker_Init L info s =
     (case lib_instance L of
        Inl e \<Rightarrow>
          (if is_std e
           then (case DisConnect L False (s\<lparr>wdbinfo := info\<rparr>) of Some (Inr _, s1) \<Rightarrow> Some (True, s1) | _ \<Rightarrow> None)
           else None)
      | Inr False \<Rightarrow> Some (False, s\<lparr>wdbinfo := info, wdriver := False\<rparr>)
      | Inr True \<Rightarrow>
          map_option (\<lambda>(b, s1). (b, s1\<lparr>wthreads := b\<rparr>)) (worker_Connect L (s\<lparr>wdbinfo := info, wdriver := True\<rparr>)))"

text \<open>
  The destructor ends the checking thread and disconnects; an exception in it ends the program. It
  does not join the updating thread, whose object must not be destroyed while it runs.
\<close>

definition destroy_worker :: "'d sql_lib \<Rightarrow> 'd worker \<Rightarrow> 'd worker option" where
  "destroy_worker L s =
     (case DisConnect L True (s\<lparr>wexit := True\<rparr>) of
        Some (Inr _, s1) \<Rightarrow> (if wthreads s then None else Some s1)
      | _ \<Rightarrow> None)"

text \<open>The test \<^verbatim>\<open>conn_ && conn_->isValid()\<close>.\<close>

definition conn_valid :: "'d sql_lib \<Rightarrow> 'd worker \<Rightarrow> (bool answer \<times> 'd worker) option" where
  "conn_valid L s =
     (case conn s of
        Garbage \<Rightarrow> None
      | Null \<Rightarrow> Some (Inr False, s)
      | Live \<Rightarrow> (case lib_valid L (wlib s) of (a, d) \<Rightarrow> Some (a, s\<lparr>wlib := d\<rparr>)))"

text \<open>\<^verbatim>\<open>catch (std::exception& e)\<close> at the end of a turn.\<close>

definition caught :: "'a answer \<times> 'd worker \<Rightarrow> 'd worker option" where
  "caught r = (case r of (Inl e, s) \<Rightarrow> (if is_std e then Some s else None) | (Inr _, s) \<Rightarrow> Some s)"

definition check_turn :: "'d sql_lib \<Rightarrow> 'd worker \<Rightarrow> 'd worker option" where
  "check_turn L s =
     (if wexit s then Some s
      else case conn_valid L s of
             None \<Rightarrow> None
           | Some (Inl e, s1) \<Rightarrow> caught (Inl e :: unit answer, s1)
           | Some (Inr True, s1) \<Rightarrow>
               (let s2 = s1\<lparr>check_count := check_count s1 + 1\<rparr>
                in if check_count s2 > 1000
                   then (case lib_prepare L ''select 1 = 1;'' (wlib s2) of
                           (Inl e, d) \<Rightarrow> caught (Inl e :: unit answer, s2\<lparr>check_count := 0, wlib := d\<rparr>)
                         | (Inr False, d) \<Rightarrow> Some (s2\<lparr>check_count := 0, wlib := d\<rparr>)
                         | (Inr True, d) \<Rightarrow>
                             (case lib_query L ''select 1 = 1;'' d of
                                (a, d1) \<Rightarrow> caught (a, s2\<lparr>check_count := 0, wlib := d1\<rparr>)))
                   else Some s2)
           | Some (Inr False, s1) \<Rightarrow>
               (case DisConnect L False s1 of
                  None \<Rightarrow> None
                | Some (Inl e, s2) \<Rightarrow> caught (Inl e :: unit answer, s2)
                | Some (Inr _, s2) \<Rightarrow> map_option snd (worker_Connect L s2)))"

text \<open>
  A turn of the outer loop enters the inner one, which looks at the queue and not at \<^verbatim>\<open>exit_\<close>; a
  statement for which the connection is not valid is not put back.
\<close>

definition update_turn :: "'d sql_lib \<Rightarrow> 'd worker \<Rightarrow> 'd worker option" where
  "update_turn L s =
     (if \<not> draining s then Some (if wexit s then s else s\<lparr>draining := True\<rparr>)
      else case sql_queue s of
             [] \<Rightarrow> Some (s\<lparr>draining := False\<rparr>)
           | sql # rest \<Rightarrow>
               (case conn_valid L (s\<lparr>sql_queue := rest\<rparr>) of
                  None \<Rightarrow> None
                | Some (Inl e, s1) \<Rightarrow> caught (Inl e :: unit answer, s1)
                | Some (Inr False, s1) \<Rightarrow> Some s1
                | Some (Inr True, s1) \<Rightarrow>
                    (case lib_prepare L sql (wlib s1) of
                       (Inl e, d) \<Rightarrow> caught (Inl e :: unit answer, s1\<lparr>wlib := d\<rparr>)
                     | (Inr False, d) \<Rightarrow> Some (s1\<lparr>wlib := d\<rparr>)
                     | (Inr True, d) \<Rightarrow>
                         (case lib_update L sql d of (a, d1) \<Rightarrow> caught (a, s1\<lparr>wlib := d1\<rparr>)))))"

definition OnMsg :: "string \<Rightarrow> 'd worker \<Rightarrow> 'd worker" where
  "OnMsg sql s = s\<lparr>sql_queue := sql_queue s @ [sql]\<rparr>"

text \<open>
  The start of \<^verbatim>\<open>main\<close>: the exit code, or the running worker. \<^verbatim>\<open>ReadConfig\<close> has a copy of the
  options, so the ones given to \<^verbatim>\<open>SlogInit\<close> and \<^verbatim>\<open>Init\<close> are those from before.
\<close>

definition use_mysql_main :: "'j json_lib \<Rightarrow> 'd sql_lib \<Rightarrow> string \<Rightarrow> 'd \<Rightarrow> (int + config_opt \<times> 'd worker) option" where
  "use_mysql_main J L content d =
     (let opts = default_opt
      in case ReadConfig J content opts of
           (Read_exit c, _) \<Rightarrow> Some (Inl c)
         | (Read_throws, _) \<Rightarrow> None
         | (Read_true, _) \<Rightarrow>
             (case worker_Init L (dbinfo_f opts) (new_worker d) of
                None \<Rightarrow> None
              | Some (False, s) \<Rightarrow> map_option (\<lambda>_. Inl (-1)) (destroy_worker L s)
              | Some (True, s) \<Rightarrow> Some (Inr (opts, s))))"

section \<open>The configuration file is read for nothing\<close>

lemma Connect_dbinfo: "worker_Connect L s = Some (b, s') \<Longrightarrow> wdbinfo s' = wdbinfo s"
  by (auto simp: worker_Connect_def split: prod.splits sum.splits bool.splits if_splits)

lemma Init_dbinfo:
  assumes "worker_Init L info s = Some (b, s')" shows "wdbinfo s' = info"
proof (cases "lib_instance L")
  case (Inl e)
  then show ?thesis
    using assms by (auto simp: worker_Init_def DisConnect_def split: if_splits option.splits prod.splits sum.splits pointer.splits)
next
  case (Inr i)
  then show ?thesis
    using assms by (cases i) (auto simp: worker_Init_def dest: Connect_dbinfo)
qed

text \<open>
  Whatever the configuration file says, the worker that \<^verbatim>\<open>main\<close> starts has the built-in
  database address and account, and the logger the built-in directory and level, although
  \<^verbatim>\<open>ReadConfig\<close> has stored the values of the file into its own copy.
\<close>

theorem config_file_is_ignored:
  assumes "use_mysql_main J L content d = Some (Inr (opts, s))"
  shows "opts = default_opt \<and> wdbinfo s = dbinfo_f default_opt \<and>
    (\<forall>cfg m h a p n. json_parse J content = Some cfg \<and> json_contains J cfg ''mysql'' \<and> json_at J cfg ''mysql'' = Some m \<and>
       member_string J m ''host'' = Some h \<and> member_string J m ''account'' = Some a \<and>
       member_string J m ''password'' = Some p \<and> member_string J m ''database'' = Some n \<longrightarrow>
       dbinfo_f (snd (ReadConfig J content default_opt)) = \<lparr>url_f = h, account_f = a, pass_f = p, data_base_f = n\<rparr>)"
proof (intro conjI allI impI)
  show "opts = default_opt" "wdbinfo s = dbinfo_f default_opt"
    using assms
    by (auto simp: use_mysql_main_def Let_def split: prod.splits read_result.splits option.splits bool.splits
        dest: Init_dbinfo)
qed (auto simp: ReadConfig_def read_mysql_def read_base_def split: option.splits)

definition one_json :: "string json_lib" where
  "one_json = \<lparr>json_parse = Some, json_contains = \<lambda>_ _. True, json_at = \<lambda>_ k. Some k, json_string = Some,
     json_int = \<lambda>_. Some 0\<rparr>"

definition demo_lib :: "string list sql_lib" where
  "demo_lib = \<lparr>lib_instance = Inr True, lib_connect = \<lambda>u a p d. (Inr True, d), lib_schema = \<lambda>n d. (Inr (), d),
     lib_valid = \<lambda>d. (Inr True, d), lib_close = \<lambda>d. (Inr (), d), lib_prepare = \<lambda>q d. (Inr True, d),
     lib_query = \<lambda>q d. (Inr (), d), lib_update = \<lambda>q d. (Inr 1, d @ [q])\<rparr>"

definition demo_worker :: "string list worker" where
  "demo_worker = (new_worker [])\<lparr>wthreads := True, wdriver := True, conn := Live\<rparr>"

lemma demo_main: "use_mysql_main one_json demo_lib ''{}'' [] = Some (Inr (default_opt, demo_worker))"
  by (simp add: use_mysql_main_def ReadConfig_def read_mysql_def read_base_def member_string_def one_json_def
      worker_Init_def worker_Connect_def demo_lib_def demo_worker_def new_worker_def Let_def)

theorem config_file_is_ignored_witness:
  "wdbinfo demo_worker = dbinfo_f default_opt \<and>
   dbinfo_f (snd (ReadConfig one_json ''{}'' default_opt)) =
     \<lparr>url_f = ''host'', account_f = ''account'', pass_f = ''password'', data_base_f = ''database''\<rparr>"
  using config_file_is_ignored[OF demo_main] by (simp add: one_json_def member_string_def)

text \<open>A connector that cannot connect at first makes the destructor use \<^verbatim>\<open>conn_\<close>, which was never set.\<close>

lemma failed_start_crashes:
  assumes "lib_instance L = Inr True" "\<And>u a p d. lib_connect L u a p d = (Inl StdException, d)"
    and "fst (ReadConfig J content default_opt) = Read_true"
  shows "use_mysql_main J L content d = None"
  using assms
  by (auto simp: use_mysql_main_def worker_Init_def worker_Connect_def new_worker_def destroy_worker_def DisConnect_def
      is_std_def Let_def split: prod.splits)

text \<open>
  The connector's instance may throw: then \<^verbatim>\<open>Init\<close> uses \<^verbatim>\<open>conn_\<close>, which was never set. And a
  worker whose threads run cannot be destroyed.
\<close>

lemma failed_instance_crashes:
  "lib_instance L = Inl StdException \<Longrightarrow> worker_Init L info (new_worker d) = None"
  by (simp add: worker_Init_def is_std_def DisConnect_def new_worker_def)

lemma running_worker_not_destroyed: "wthreads s \<Longrightarrow> destroy_worker L s = None"
  by (auto simp: destroy_worker_def split: option.splits prod.splits sum.splits)

section \<open>Statements are executed in order, at most once\<close>

definition lib_logs :: "'d sql_lib \<Rightarrow> ('d \<Rightarrow> string list) \<Rightarrow> bool" where
  "lib_logs L log \<longleftrightarrow>
     (\<forall>q d. log (snd (lib_update L q d)) = log d @ [q]) \<and>
     (\<forall>u a p d. log (snd (lib_connect L u a p d)) = log d) \<and> (\<forall>n d. log (snd (lib_schema L n d)) = log d) \<and>
     (\<forall>d. log (snd (lib_valid L d)) = log d) \<and> (\<forall>d. log (snd (lib_close L d)) = log d) \<and>
     (\<forall>q d. log (snd (lib_prepare L q d)) = log d) \<and> (\<forall>q d. log (snd (lib_query L q d)) = log d)"

lemma lib_logsD:
  assumes "lib_logs L log"
  shows "lib_update L q d = (r, d') \<Longrightarrow> log d' = log d @ [q]" "lib_connect L u a p d = (b, d') \<Longrightarrow> log d' = log d"
    "lib_schema L n d = (x, d') \<Longrightarrow> log d' = log d" "lib_valid L d = (b, d') \<Longrightarrow> log d' = log d"
    "lib_close L d = (x, d') \<Longrightarrow> log d' = log d" "lib_prepare L q d = (b, d') \<Longrightarrow> log d' = log d"
    "lib_query L q d = (x, d') \<Longrightarrow> log d' = log d"
  using assms unfolding lib_logs_def by (metis snd_conv)+

datatype worker_event = Msg string | Check | Update

fun worker_step :: "'d sql_lib \<Rightarrow> worker_event \<Rightarrow> 'd worker \<Rightarrow> 'd worker option" where
  "worker_step L (Msg q) s = Some (OnMsg q s)"
| "worker_step L Check s = check_turn L s"
| "worker_step L Update s = update_turn L s"

fun worker_run :: "'d sql_lib \<Rightarrow> worker_event list \<Rightarrow> 'd worker \<Rightarrow> 'd worker option" where
  "worker_run L [] s = Some s"
| "worker_run L (e # es) s = Option.bind (worker_step L e s) (worker_run L es)"

fun messages :: "worker_event list \<Rightarrow> string list" where
  "messages [] = []"
| "messages (Msg q # es) = q # messages es"
| "messages (_ # es) = messages es"

lemma caught_same: "caught (a, s) = Some s' \<Longrightarrow> s' = s"
  by (auto simp: caught_def split: sum.splits if_splits)

lemma conn_valid_same:
  assumes "lib_logs L log" "conn_valid L s = Some (a, s')"
  shows "log (wlib s') = log (wlib s)" "sql_queue s' = sql_queue s" "conn s' = conn s" "wexit s' = wexit s"
  using assms(2) lib_logsD(4)[OF assms(1)] by (auto simp: conn_valid_def split: pointer.splits prod.splits)

lemma DisConnect_same:
  assumes "lib_logs L log" "DisConnect L b s = Some (a, s')"
  shows "log (wlib s') = log (wlib s) \<and> sql_queue s' = sql_queue s"
  using assms(2) lib_logsD(5)[OF assms(1)] by (auto simp: DisConnect_def split: pointer.splits prod.splits sum.splits)

lemma Connect_same:
  assumes "lib_logs L log" "worker_Connect L s = Some (a, s')"
  shows "log (wlib s') = log (wlib s) \<and> sql_queue s' = sql_queue s"
  using assms(2) lib_logsD(2,3)[OF assms(1)]
  by (auto simp: worker_Connect_def split: prod.splits sum.splits bool.splits if_splits; metis)

lemma check_turn_same:
  assumes "lib_logs L log" "check_turn L s = Some s'"
  shows "log (wlib s') = log (wlib s) \<and> sql_queue s' = sql_queue s"
proof (cases "conn_valid L s")
  case (Some x)
  obtain a s1 where x: "x = (a, s1)" by (cases x)
  note same = conn_valid_same(1,2)[OF assms(1) Some[unfolded x]]
  show ?thesis
  proof (cases a)
    case (Inl e)
    then show ?thesis using assms(2) Some x same by (auto simp: check_turn_def split: if_splits dest: caught_same)
  next
    case (Inr v)
    show ?thesis
    proof (cases v)
      case True
      then show ?thesis
        using assms(2) Some x Inr same lib_logsD(6,7)[OF assms(1)]
        by (auto simp: check_turn_def Let_def split: if_splits prod.splits sum.splits bool.splits dest!: caught_same)
    next
      case False
      then show ?thesis
        using assms(2) Some x Inr same
        by (auto simp: check_turn_def split: if_splits option.splits sum.splits prod.splits
            dest!: caught_same DisConnect_same[OF assms(1)] Connect_same[OF assms(1)])
    qed
  qed
qed (use assms(2) in \<open>auto simp: check_turn_def split: if_splits\<close>)

lemma update_turn_log:
  assumes "lib_logs L log" "update_turn L s = Some s'"
  shows "(log (wlib s') = log (wlib s) \<and> (sql_queue s' = sql_queue s \<or> sql_queue s' = tl (sql_queue s))) \<or>
    (\<exists>q. sql_queue s = q # sql_queue s' \<and> log (wlib s') = log (wlib s) @ [q])"
proof (cases "draining s")
  case True
  show ?thesis
  proof (cases "sql_queue s")
    case (Cons q rest)
    obtain a s1 where v: "conn_valid L (s\<lparr>sql_queue := rest\<rparr>) = Some (a, s1)"
      using assms(2) Cons True by (cases "conn_valid L (s\<lparr>sql_queue := rest\<rparr>)") (auto simp: update_turn_def)
    note same = conn_valid_same(1,2)[OF assms(1) v]
    show ?thesis
      using assms(2) Cons True v same lib_logsD(1,6)[OF assms(1)]
      by (cases a) (auto simp: update_turn_def split: sum.splits bool.splits prod.splits dest!: caught_same)
  qed (use assms(2) True in \<open>auto simp: update_turn_def\<close>)
qed (use assms(2) in \<open>auto simp: update_turn_def\<close>)

lemma worker_run_subseq:
  assumes "lib_logs L log" "worker_run L es s = Some s'"
  shows "\<exists>ex. log (wlib s') = log (wlib s) @ ex \<and> subseq (ex @ sql_queue s') (sql_queue s @ messages es)"
  using assms(2)
proof (induction es arbitrary: s)
  case (Cons e es)
  then obtain s1 where s1: "worker_step L e s = Some s1" "worker_run L es s1 = Some s'"
    by (auto simp: bind_eq_Some_conv)
  from Cons.IH[OF this(2)] obtain ex where
    ex: "log (wlib s') = log (wlib s1) @ ex" "subseq (ex @ sql_queue s') (sql_queue s1 @ messages es)" by blast
  have tl: "subseq (tl xs @ ys) (xs @ ys)" for xs ys :: "string list" by (cases xs) auto
  show ?case
  proof (cases e)
    case (Msg q)
    then show ?thesis using s1 ex by (auto simp: OnMsg_def)
  next
    case Check
    then show ?thesis using s1 ex check_turn_same[OF assms(1), of s s1] by auto
  next
    case Update
    with s1 have "update_turn L s = Some s1" by simp
    from update_turn_log[OF assms(1) this] show ?thesis
    proof (elim disjE conjE exE)
      assume "log (wlib s1) = log (wlib s)" "sql_queue s1 = sql_queue s"
      then show ?thesis using ex Update by auto
    next
      assume "log (wlib s1) = log (wlib s)" "sql_queue s1 = tl (sql_queue s)"
      then show ?thesis using ex Update subseq_order.order_trans[OF ex(2)] tl by auto
    next
      fix q assume "sql_queue s = q # sql_queue s1" "log (wlib s1) = log (wlib s) @ [q]"
      then show ?thesis using ex Update by (intro exI[of _ "q # ex"]) auto
    qed
  qed
qed auto

text \<open>A connector whose connection stays valid and whose statements can be prepared.\<close>

definition reliable :: "'d sql_lib \<Rightarrow> bool" where
  "reliable L \<longleftrightarrow> (\<forall>d. fst (lib_valid L d) = Inr True) \<and> (\<forall>q d. fst (lib_prepare L q d) = Inr True)"

lemma reliableD:
  assumes "reliable L"
  shows "lib_valid L d = (a, d') \<Longrightarrow> a = Inr True" "lib_prepare L q d = (a, d') \<Longrightarrow> a = Inr True"
  using assms unfolding reliable_def by (metis fst_conv)+

lemma caught_fields: "caught (a, s) = Some s' \<Longrightarrow> conn s' = conn s \<and> wexit s' = wexit s"
  by (drule caught_same) simp

lemma check_turn_valid:
  assumes "conn_valid L s = Some (Inr True, s1)" "check_turn L s = Some s'"
  shows "conn s' = (if wexit s then conn s else conn s1) \<and> wexit s' = (if wexit s then True else wexit s1)"
proof (cases "wexit s")
  case False
  obtain a d where p: "lib_prepare L ''select 1 = 1;'' (wlib s1) = (a, d)" by fastforce
  obtain b d1 where q: "lib_query L ''select 1 = 1;'' d = (b, d1)" by fastforce
  show ?thesis
    using assms False p q
    by (cases a) (auto simp: check_turn_def Let_def split: if_splits bool.splits dest: caught_fields)
qed (use assms(2) in \<open>simp add: check_turn_def\<close>)

lemma worker_step_reliable:
  assumes "lib_logs L log" "reliable L" "conn s = Live" "\<not> wexit s" "worker_step L e s = Some s'"
  shows "conn s' = Live \<and> \<not> wexit s' \<and>
    (\<exists>ex. log (wlib s') = log (wlib s) @ ex \<and> ex @ sql_queue s' = sql_queue s @ messages [e])"
proof (cases e)
  case (Msg q)
  then show ?thesis using assms by (auto simp: OnMsg_def)
next
  case Check
  obtain d where d: "conn_valid L s = Some (Inr True, s\<lparr>wlib := d\<rparr>)"
    using assms(3) reliableD(1)[OF assms(2)] by (cases "lib_valid L (wlib s)") (auto simp: conn_valid_def)
  then have "conn s' = Live" "\<not> wexit s'"
    using check_turn_valid[OF d] assms(3-5) Check by simp_all
  then show ?thesis using check_turn_same[OF assms(1), of s s'] assms(5) Check by auto
next
  case Update
  consider (out) "\<not> draining s" | (Nil) "draining s" "sql_queue s = []" | (Cons) q rest where "draining s" "sql_queue s = q # rest"
    by (cases "sql_queue s") auto
  then show ?thesis
  proof cases
    case out
    then show ?thesis using assms(3-5) Update by (auto simp: update_turn_def)
  next
    case Nil
    then show ?thesis using assms(3-5) Update by (auto simp: update_turn_def)
  next
    case Cons
    obtain d where d: "conn_valid L (s\<lparr>sql_queue := rest\<rparr>) = Some (Inr True, s\<lparr>sql_queue := rest, wlib := d\<rparr>)"
      using assms(3) reliableD(1)[OF assms(2)] by (cases "lib_valid L (wlib s)") (auto simp: conn_valid_def)
    then have ld: "log d = log (wlib s)" using conn_valid_same(1)[OF assms(1) d] by simp
    obtain d1 where d1: "lib_prepare L q d = (Inr True, d1)"
      using reliableD(2)[OF assms(2)] by (cases "lib_prepare L q d") auto
    obtain a d2 where d2: "lib_update L q d1 = (a, d2)" by (cases "lib_update L q d1")
    have "s' = s\<lparr>sql_queue := rest, wlib := d2\<rparr>"
      using assms(4,5) Update Cons d d1 d2 by (auto simp: update_turn_def dest!: caught_same)
    moreover have "log d2 = log (wlib s) @ [q]" using lib_logsD(1,6)[OF assms(1)] d1 d2 ld by auto
    ultimately show ?thesis using assms(3,4) Cons Update by auto
  qed
qed

lemma worker_run_reliable:
  assumes "lib_logs L log" "reliable L" "worker_run L es s = Some s'" "conn s = Live" "\<not> wexit s"
  shows "\<exists>ex. log (wlib s') = log (wlib s) @ ex \<and> ex @ sql_queue s' = sql_queue s @ messages es"
  using assms(3-5)
proof (induction es arbitrary: s)
  case (Cons e es)
  then obtain s1 where s1: "worker_step L e s = Some s1" "worker_run L es s1 = Some s'"
    by (auto simp: bind_eq_Some_conv)
  from worker_step_reliable[OF assms(1,2) Cons.prems(2,3) s1(1)] obtain x where
    x: "conn s1 = Live" "\<not> wexit s1" "log (wlib s1) = log (wlib s) @ x" "x @ sql_queue s1 = sql_queue s @ messages [e]"
    by blast
  from Cons.IH[OF s1(2) x(1,2)] obtain y where
    y: "log (wlib s') = log (wlib s1) @ y" "y @ sql_queue s' = sql_queue s1 @ messages es" by blast
  have "messages (e # es) = messages [e] @ messages es" by (cases e) auto
  then have "(x @ y) @ sql_queue s' = sql_queue s @ messages (e # es)" using x(4) y(2) by (metis append.assoc)
  then show ?case using x(3) y(1) by auto
qed auto



text \<open>A statement taken from the queue while there is no connection is lost.\<close>

lemma statement_lost:
  "conn s = Null \<Longrightarrow> draining s \<Longrightarrow> sql_queue s = q # rest \<Longrightarrow> update_turn L s = Some (s\<lparr>sql_queue := rest\<rparr>)"
  by (simp add: update_turn_def conn_valid_def)

end
