(* ===== verification/Cron.thy ===== *)
theory Cron
  imports Util
begin

text \<open>
  Three sample programs: the task runner \<^verbatim>\<open>src/sample_cron/main.cpp\<close>, the copy of a file by
  \<^verbatim>\<open>sendfile\<close> in \<^verbatim>\<open>src/file_test/zero_copy.cpp\<close>, and the spin lock of
  \<^verbatim>\<open>src/utils/spin_lock.h\<close> with the exception class next to it.

  The file and the clock are arguments; the commands a turn hands to the shell are its result.
\<close>

section \<open>The task runner\<close>

record task =
  minute :: int
  hour :: int
  command :: string

text \<open>\<^verbatim>\<open>std::getline\<close> until the end of the file.\<close>

function getlines :: "string \<Rightarrow> string list" where
  "getlines s =
     (if s = [] then []
      else takeWhile (\<lambda>c. c \<noteq> CHR 0x0A) s # getlines (drop (Suc (length (takeWhile (\<lambda>c. c \<noteq> CHR 0x0A) s))) s))"
  by pat_completeness auto
termination
  by (relation "measure length") auto

declare getlines.simps [simp del]

definition parse_task :: "string \<Rightarrow> task option" where
  "parse_task line =
     (case read_int32 line of
        None \<Rightarrow> None
      | Some (m, r1) \<Rightarrow>
          (case read_int32 r1 of
             None \<Rightarrow> None
           | Some (h, r2) \<Rightarrow> Some \<lparr>minute = m, hour = h, command = r2\<rparr>))"

text \<open>A file that cannot be opened has no lines.\<close>

definition readTasks :: "string option \<Rightarrow> task list" where
  "readTasks content = List.map_filter parse_task (case content of None \<Rightarrow> [] | Some s \<Rightarrow> getlines s)"

definition task_due :: "int \<Rightarrow> int \<Rightarrow> task \<Rightarrow> bool" where
  "task_due tm_hour tm_min t \<longleftrightarrow>
     hour t = tm_hour \<and> minute t = tm_min \<or> minute t = -1 \<and> hour t = tm_hour \<or> minute t = -1 \<and> hour t = -1"

definition executeTask :: "(string \<Rightarrow> int) \<Rightarrow> string \<Rightarrow> string option" where
  "executeTask sys cmd =
     (if sys cmd \<noteq> 0 then Some (''Task execution failed with exit code: '' @ show_int (sys cmd)) else None)"

text \<open>
  A turn of the main loop: the commands that are run, the messages about those that failed, and
  the time of the next turn, which starts a minute after the commands have ended.
\<close>

definition cron_turn ::
  "(int \<Rightarrow> int \<times> int) \<Rightarrow> (string \<Rightarrow> int) \<Rightarrow> (task list \<Rightarrow> int) \<Rightarrow> task list \<Rightarrow> int \<Rightarrow> string list \<times> string list \<times> int" where
  "cron_turn localtime sys duration tasks now =
     (case localtime now of
        (h, m) \<Rightarrow>
          (let due = filter (task_due h m) tasks
           in (map command due, List.map_filter (executeTask sys) (map command due), now + duration due + 60)))"

primrec cron_times ::
  "(int \<Rightarrow> int \<times> int) \<Rightarrow> (string \<Rightarrow> int) \<Rightarrow> (task list \<Rightarrow> int) \<Rightarrow> task list \<Rightarrow> int \<Rightarrow> nat \<Rightarrow> int" where
  "cron_times localtime sys duration tasks start 0 = start"
| "cron_times localtime sys duration tasks start (Suc n) =
     snd (snd (cron_turn localtime sys duration tasks (cron_times localtime sys duration tasks start n)))"

lemma getlines_line: "CHR 0x0A \<notin> set l \<Longrightarrow> getlines (l @ CHR 0x0A # rest) = l # getlines rest"
  by (subst getlines.simps) (simp add: takeWhile_line)

definition task_line :: "task \<Rightarrow> string" where
  "task_line t = show_int (minute t) @ '' '' @ show_int (hour t) @ command t"

definition task_ok :: "task \<Rightarrow> bool" where
  "task_ok t \<longleftrightarrow> - (2 ^ 31) \<le> minute t \<and> minute t < 2 ^ 31 \<and> - (2 ^ 31) \<le> hour t \<and> hour t < 2 ^ 31 \<and>
     CHR 0x0A \<notin> set (command t) \<and> (command t = [] \<or> \<not> is_digit (hd (command t)))"

lemma parse_task_line: "task_ok t \<Longrightarrow> parse_task (task_line t) = Some t"
  using scan_int_show_int[of "'' '' @ show_int (hour t) @ command t" "minute t"]
    scan_int_show_int[of "command t" "hour t"]
  by (simp add: parse_task_def task_line_def read_int32_def task_ok_def scan_int_spaces is_digit_def)

lemma task_line_no_eol: "task_ok t \<Longrightarrow> CHR 0x0A \<notin> set (task_line t)"
proof -
  have "CHR 0x0A \<notin> set (show_int i)" for i
    using show_int_chars[of "CHR 0x0A" i] by (auto simp: is_digit_def)
  then show "task_ok t \<Longrightarrow> CHR 0x0A \<notin> set (task_line t)" by (simp add: task_line_def task_ok_def)
qed

text \<open>
  A list of tasks written one a line, with the minute, the hour and the command, is read
  back as it is.
\<close>

theorem readTasks_reads_back:
  assumes "list_all task_ok ts"
  shows "readTasks (Some (concat (map (\<lambda>t. task_line t @ [CHR 0x0A]) ts))) = ts"
  using assms
proof (induction ts)
  case Nil
  then show ?case by (simp add: readTasks_def getlines.simps map_filter_simps)
next
  case (Cons t ts)
  then show ?case
    using getlines_line[OF task_line_no_eol[of t]] parse_task_line[of t]
    by (simp add: readTasks_def map_filter_simps)
qed

theorem readTasks_reads_back_witness:
  "readTasks (Some (concat (map (\<lambda>t. task_line t @ [CHR 0x0A])
     [\<lparr>minute = 30, hour = 8, command = '' ls''\<rparr>, \<lparr>minute = -1, hour = -1, command = '' date''\<rparr>]))) =
   [\<lparr>minute = 30, hour = 8, command = '' ls''\<rparr>, \<lparr>minute = -1, hour = -1, command = '' date''\<rparr>]"
  by (rule readTasks_reads_back) (simp add: task_ok_def is_digit_def)

text \<open>
  The pause does not take the time of the commands into account: when they take a second, a
  minute is passed over within an hour, and with it the tasks of that minute.
\<close>

lemma cron_passes_over_a_minute:
  assumes "\<And>due. duration due = 1"
  shows "\<exists>n < 60. cron_times lt sys duration ts start (Suc n) div 60 = cron_times lt sys duration ts start n div 60 + 2"
proof -
  have t: "cron_times lt sys duration ts start n = start + 61 * int n" for n
    by (induction n) (simp_all add: cron_turn_def assms Let_def split: prod.splits)
  define n where "n = nat ((59 - start) mod 60)"
  have n: "int n = (59 - start) mod 60" by (simp add: n_def)
  have "n < 60" using n pos_mod_bound[of 60 "59 - start"] by linarith
  have "59 - start = 60 * ((59 - start) div 60) + int n" unfolding n by simp
  then have z: "start + 61 * int n = 59 + 60 * (int n - (59 - start) div 60)" by (simp add: algebra_simps)
  have "(start + 61 * int n + 61) div 60 = (start + 61 * int n) div 60 + 2" unfolding z by simp
  then show ?thesis using \<open>n < 60\<close> by (intro exI[of _ n]) (simp only: t, simp add: algebra_simps)
qed

text \<open>A task with a minute and any hour (\<^verbatim>\<open>-1\<close>) never runs.\<close>

lemma minute_without_hour: "minute t \<noteq> -1 \<Longrightarrow> hour t = -1 \<Longrightarrow> 0 \<le> h \<Longrightarrow> \<not> task_due h m t"
  by (simp add: task_due_def)

section \<open>Copying a file\<close>

text \<open>
  The results of \<^verbatim>\<open>open\<close>, \<^verbatim>\<open>fstat\<close>, the second \<^verbatim>\<open>open\<close> and \<^verbatim>\<open>sendfile\<close>; the exit code and the
  descriptors that are closed.
\<close>

definition zero_copy :: "int \<Rightarrow> int \<Rightarrow> int \<Rightarrow> int \<Rightarrow> int \<times> int list" where
  "zero_copy inputFd stat_r outputFd sentBytes =
     (if inputFd = -1 then (1, [])
      else if stat_r = -1 then (1, [inputFd])
      else if outputFd = -1 then (1, [inputFd])
      else if sentBytes = -1 then (1, [inputFd, outputFd])
      else (0, [inputFd, outputFd]))"

lemma zero_copy_closes:
  "set (snd (zero_copy i st out n)) =
     {fd. fd \<noteq> -1 \<and> (fd = i \<or> i \<noteq> -1 \<and> st \<noteq> -1 \<and> fd = out)}"
  by (auto simp: zero_copy_def)

text \<open>A transfer of fewer bytes than the file has ends with success.\<close>

lemma zero_copy_short: "i \<noteq> -1 \<Longrightarrow> out \<noteq> -1 \<Longrightarrow> fst (zero_copy i 0 out 0) = 0"
  by (simp add: zero_copy_def)

section \<open>The spin lock\<close>

text \<open>
  The flag is set and tested in one step. A thread is outside, spinning in \<^verbatim>\<open>lock\<close>, or inside.
\<close>

datatype spin_pc = Outside | Spinning | Inside

record spin =
  flag_set :: bool
  pc :: "nat \<Rightarrow> spin_pc"

definition new_spin :: spin where
  "new_spin = \<lparr>flag_set = False, pc = (\<lambda>_. Outside)\<rparr>"

definition test_and_set :: "spin \<Rightarrow> bool \<times> spin" where
  "test_and_set s = (flag_set s, s\<lparr>flag_set := True\<rparr>)"

definition lock_turn :: "nat \<Rightarrow> spin \<Rightarrow> spin" where
  "lock_turn i s =
     (case test_and_set s of
        (True, s1) \<Rightarrow> s1\<lparr>pc := (pc s1)(i := Spinning)\<rparr>
      | (False, s1) \<Rightarrow> s1\<lparr>pc := (pc s1)(i := Inside)\<rparr>)"

definition spin_unlock :: "nat \<Rightarrow> spin \<Rightarrow> spin" where
  "spin_unlock i s = s\<lparr>flag_set := False, pc := (pc s)(i := Outside)\<rparr>"

text \<open>The threads call \<^verbatim>\<open>unlock\<close> only inside.\<close>

inductive spin_next :: "spin \<Rightarrow> spin \<Rightarrow> bool" where
  lock: "pc s i \<noteq> Inside \<Longrightarrow> spin_next s (lock_turn i s)"
| unlock: "pc s i = Inside \<Longrightarrow> spin_next s (spin_unlock i s)"

inductive spin_reachable :: "spin \<Rightarrow> bool" where
  start: "spin_reachable new_spin"
| step: "spin_reachable s \<Longrightarrow> spin_next s s' \<Longrightarrow> spin_reachable s'"

lemma spin_invariant:
  "spin_reachable s \<Longrightarrow> if flag_set s then \<exists>!i. pc s i = Inside else \<forall>i. pc s i \<noteq> Inside"
proof (induction rule: spin_reachable.induct)
  case start
  then show ?case by (simp add: new_spin_def)
next
  case (step s s')
  from step(2) show ?case
  proof (cases rule: spin_next.cases)
    case (lock i)
    then show ?thesis using step.IH by (auto simp: lock_turn_def test_and_set_def split: if_splits)
  next
    case (unlock i)
    then have "\<exists>!i. pc s i = Inside" using step.IH by (auto split: if_splits)
    then show ?thesis using unlock by (auto simp: spin_unlock_def)
  qed
qed

text \<open>
  At most one thread is inside the lock, and when none is, the next turn of any thread that
  wants to enter lets it in.
\<close>

theorem spin_lock_exclusive:
  assumes "spin_reachable s"
  shows "(pc s i = Inside \<and> pc s j = Inside \<longrightarrow> i = j) \<and>
    ((\<forall>k. pc s k \<noteq> Inside) \<longrightarrow> pc (lock_turn i s) i = Inside)"
  using spin_invariant[OF assms] by (auto simp: lock_turn_def test_and_set_def split: if_splits)

theorem spin_lock_exclusive_witness: "pc (lock_turn 3 (spin_unlock 1 (lock_turn 1 new_spin))) 3 = Inside"
proof -
  have "pc (lock_turn 1 new_spin) 1 = Inside" by (simp add: lock_turn_def test_and_set_def new_spin_def)
  then have "spin_next (lock_turn 1 new_spin) (spin_unlock 1 (lock_turn 1 new_spin))" by (rule spin_next.unlock)
  moreover have "spin_next new_spin (lock_turn 1 new_spin)" by (rule spin_next.lock) (simp add: new_spin_def)
  ultimately have "spin_reachable (spin_unlock 1 (lock_turn 1 new_spin))"
    using spin_reachable.start spin_reachable.step by blast
  from spin_lock_exclusive[OF this, of 3]
  show ?thesis by (simp add: lock_turn_def test_and_set_def new_spin_def spin_unlock_def)
qed

text \<open>The exception class: what it says.\<close>

definition lh_what :: "string \<Rightarrow> string" where
  "lh_what message = (if message = [] then ''default exception.'' else message)"

end
