(* ===== verification/ZkLock.thy ===== *)
theory ZkLock
  imports Prelude "HOL-Library.Char_ord" "HOL-Library.List_Lexorder"
begin

text \<open>
  The two ZooKeeper samples, \<^verbatim>\<open>src/zk_test/zklock.cpp\<close> (a lock) and
  \<^verbatim>\<open>src/zk_test/zkfind.cpp\<close> (a service registration). The service is the record \<open>zookeeper\<close> of
  the calls they make, on a state of its own; names are compared byte by byte. Reading the
  list of children outside its bounds is \<open>None\<close>.
\<close>

record 'z zookeeper =
  zoo_init :: bool
  zoo_create :: "string \<Rightarrow> string \<Rightarrow> bool \<Rightarrow> bool \<Rightarrow> 'z \<Rightarrow> (int \<times> string) \<times> 'z"
  zoo_get_children :: "string \<Rightarrow> 'z \<Rightarrow> (int \<times> string list) \<times> 'z"
  zoo_awget :: "string \<Rightarrow> 'z \<Rightarrow> int \<times> 'z"
  zoo_awget_children :: "string \<Rightarrow> 'z \<Rightarrow> int \<times> 'z"
  zoo_delete :: "string \<Rightarrow> 'z \<Rightarrow> int \<times> 'z"
  zoo_close :: "'z \<Rightarrow> 'z"

definition ZOK :: int where "ZOK = 0"
definition ZNODEEXISTS :: int where "ZNODEEXISTS = -110"

section \<open>The lock\<close>

text \<open>The loop over the children for the smallest name.\<close>

definition smallest_node :: "string list \<Rightarrow> string" where
  "smallest_node nodes = foldl (\<lambda>smallest n. if n < smallest then n else smallest) (hd nodes) nodes"

definition acquireLock :: "'z zookeeper \<Rightarrow> string \<Rightarrow> 'z \<Rightarrow> (bool \<times> 'z) option" where
  "acquireLock Z lockPath z =
     (case zoo_create Z lockPath ''lock-'' True True z of
        ((ret, buff), z1) \<Rightarrow>
          (if ret \<noteq> 0 then Some (False, z1)
           else case zoo_get_children Z ''/locks'' z1 of
                  ((rc, nodes), z2) \<Rightarrow>
                    (if rc \<noteq> ZOK then Some (False, z2)
                     else if nodes = [] then None
                     else if buff = ''/locks/'' @ smallest_node nodes then Some (True, z2)
                     else if length nodes < 2 then None
                     else map_option (\<lambda>z3. (False, z3))
                            (Some (snd (zoo_awget Z (''/locks/'' @ nodes ! (length nodes - 2)) z2))))))"

text \<open>The watcher reports the lock as acquired when the watched node is created, event type 1.\<close>

definition lockWatcher :: "int \<Rightarrow> string option" where
  "lockWatcher type = (if type = 1 then Some ''Lock acquired!'' else None)"

text \<open>The exit code, whether the lock was held, and the result of releasing it.\<close>

definition zklock_main :: "'z zookeeper \<Rightarrow> 'z \<Rightarrow> (int \<times> bool \<times> int option \<times> 'z) option" where
  "zklock_main Z z =
     (if \<not> zoo_init Z then Some (-1, False, None, z)
      else case zoo_create Z ''/locks'' [] False False z of
             ((rc, _), z1) \<Rightarrow>
               (if rc \<noteq> ZOK \<and> rc \<noteq> ZNODEEXISTS then Some (-1, False, None, z1)
                else case acquireLock Z ''/locks/lock'' z1 of
                       None \<Rightarrow> None
                     | Some (False, z2) \<Rightarrow> Some (0, False, None, zoo_close Z z2)
                     | Some (True, z2) \<Rightarrow>
                         (case zoo_delete Z ''/locks/lock'' z2 of (d, z3) \<Rightarrow> Some (0, True, Some d, zoo_close Z z3))))"

section \<open>The service registration\<close>

definition service_path :: string where
  "service_path = ''/services/'' @ ''my-service'' @ ''-'' @ ''192.168.1.100'' @ '':'' @ show_int 8080"

text \<open>What the watcher prints on a change of the children, event type 4.\<close>

definition serviceWatcher :: "'z zookeeper \<Rightarrow> int \<Rightarrow> string \<Rightarrow> 'z \<Rightarrow> string option \<times> 'z" where
  "serviceWatcher Z type path z =
     (if type = 4
      then (case zoo_get_children Z path z of
              ((rc, nodes), z1) \<Rightarrow>
                (if rc = ZOK
                 then (Some (''Available service instances: '' @ concat (map (\<lambda>n. n @ '' '') nodes)), z1)
                 else (None, z1)))
      else (None, z))"

definition watchServices :: "'z zookeeper \<Rightarrow> string \<Rightarrow> 'z \<Rightarrow> bool \<times> 'z" where
  "watchServices Z basePath z = (case zoo_awget_children Z basePath z of (rc, z1) \<Rightarrow> (rc = ZOK, z1))"

definition zkfind_main :: "'z zookeeper \<Rightarrow> 'z \<Rightarrow> int \<times> 'z" where
  "zkfind_main Z z =
     (if \<not> zoo_init Z then (-1, z)
      else case zoo_create Z service_path [] True False z of
             ((rc, _), z1) \<Rightarrow> (if rc \<noteq> ZOK then (-1, z1) else (0, zoo_close Z (snd (watchServices Z ''/services'' z1)))))"

section \<open>At most one holder\<close>

lemma smallest_node_le:
  "(x :: string) \<in> insert a (set xs) \<Longrightarrow> foldl (\<lambda>s n. if n < s then n else s) a xs \<le> x"
proof (induction xs arbitrary: a x)
  case (Cons y ys)
  have start: "foldl (\<lambda>s n. if n < s then n else s) c ys \<le> c" for c :: string by (rule Cons.IH) simp
  show ?case
  proof (cases "y < a")
    case True
    then have "foldl (\<lambda>s n. if n < s then n else s) y ys \<le> a" using start[of y] by simp
    then show ?thesis using Cons True start[of y] by auto
  next
    case False
    then have "foldl (\<lambda>s n. if n < s then n else s) a ys \<le> y" using start[of a] by simp
    then show ?thesis using Cons False start[of a] by auto
  qed
qed simp

lemma smallest_node_in: "foldl (\<lambda>s n. if n < s then n else s) a xs \<in> insert a (set xs)"
proof (induction xs arbitrary: a)
  case (Cons y ys)
  then show ?case using Cons[of y] Cons[of a] by auto
qed simp

lemma smallest_node_min:
  assumes "nodes \<noteq> []" shows "smallest_node nodes \<in> set nodes" "x \<in> set nodes \<Longrightarrow> smallest_node nodes \<le> x"
  using assms smallest_node_in[of "hd nodes" nodes] smallest_node_le[of x "hd nodes" nodes]
  by (auto simp: smallest_node_def)

text \<open>
  What ZooKeeper promises: a sequential node gets a new name, larger than those that were given
  before, and the children are listed in any order.
\<close>

definition zk_ok :: "'z zookeeper \<Rightarrow> ('z \<Rightarrow> string set) \<Rightarrow> bool" where
  "zk_ok Z kids \<longleftrightarrow>
     (\<forall>z b z1. zoo_create Z ''/locks/lock'' ''lock-'' True True z = ((0, b), z1) \<longrightarrow>
        (\<exists>name. b = ''/locks/'' @ name \<and> kids z1 = insert name (kids z) \<and> (\<forall>k \<in> kids z. k < name))) \<and>
     (\<forall>z ns z1. zoo_get_children Z ''/locks'' z = ((0, ns), z1) \<longrightarrow> set ns = kids z \<and> kids z1 = kids z) \<and>
     (\<forall>p z. kids (snd (zoo_awget Z p z)) = kids z)"

lemma zk_okD:
  assumes "zk_ok Z kids"
  shows "zoo_create Z ''/locks/lock'' ''lock-'' True True z = ((0, b), z1) \<Longrightarrow>
      \<exists>name. b = ''/locks/'' @ name \<and> kids z1 = insert name (kids z) \<and> (\<forall>k \<in> kids z. k < name)"
    "zoo_get_children Z ''/locks'' z = ((0, ns), z1) \<Longrightarrow> set ns = kids z \<and> kids z1 = kids z"
  using assms unfolding zk_ok_def by blast+

lemma acquireLock_holds:
  assumes "zk_ok Z kids" "acquireLock Z ''/locks/lock'' z = Some (True, z')"
  shows "kids z = {} \<and> kids z' \<noteq> {}"
proof -
  obtain b z1 ns z2 where c: "zoo_create Z ''/locks/lock'' ''lock-'' True True z = ((0, b), z1)"
    and g: "zoo_get_children Z ''/locks'' z1 = ((0, ns), z2)" and b: "b = ''/locks/'' @ smallest_node ns" "ns \<noteq> []" "z' = z2"
    using assms(2) by (auto simp: acquireLock_def ZOK_def split: prod.splits if_splits)
  obtain name where n: "b = ''/locks/'' @ name" "kids z1 = insert name (kids z)" "\<forall>k \<in> kids z. k < name"
    using zk_okD(1)[OF assms(1) c] by blast
  have s: "set ns = kids z1" "kids z2 = kids z1" using zk_okD(2)[OF assms(1) g] by auto
  have "name = smallest_node ns" using b(1) n(1) by simp
  then have "\<forall>k \<in> kids z. name \<le> k" using smallest_node_min(2)[OF b(2)] s(1) n(2) by auto
  then have "kids z = {}" using n(3) by fastforce
  then show ?thesis using s n(2) b(3) by auto
qed

text \<open>
  Once a client has got the lock, no attempt of another client succeeds as long as there is
  a node left under \<^verbatim>\<open>/locks\<close>, whatever else happens in between.
\<close>

theorem lock_is_exclusive:
  assumes "zk_ok Z kids" "acquireLock Z ''/locks/lock'' z = Some (True, z1)" "kids z1 \<subseteq> kids z2"
  shows "acquireLock Z ''/locks/lock'' z2 \<noteq> Some (True, z3)"
  using acquireLock_holds[OF assms(1,2)] acquireLock_holds[OF assms(1), of z2 z3] assms(3) by auto

text \<open>A service whose only children are numbered by their length.\<close>

definition unary_zk :: "nat zookeeper" where
  "unary_zk = \<lparr>zoo_init = True, zoo_create = \<lambda>p v e q n. ((0, ''/locks/'' @ replicate n (CHR ''x'')), n + 1),
     zoo_get_children = \<lambda>p n. ((0, map (\<lambda>i. replicate i (CHR ''x'')) [0..<n]), n), zoo_awget = \<lambda>p n. (0, n),
     zoo_awget_children = \<lambda>p n. (0, n), zoo_delete = \<lambda>p n. (-101, n), zoo_close = \<lambda>n. n\<rparr>"

lemma replicate_less: "i < n \<Longrightarrow> replicate i (x :: char) < replicate n x"
proof (induction i arbitrary: n)
  case 0
  then show ?case by (cases n) auto
next
  case (Suc i)
  then show ?case by (cases n) auto
qed

theorem lock_is_exclusive_witness:
  "acquireLock unary_zk ''/locks/lock'' 0 = Some (True, 1) \<and> acquireLock unary_zk ''/locks/lock'' 1 \<noteq> Some (True, 2)"
proof -
  let ?kids = "\<lambda>n. (\<lambda>i. replicate i (CHR ''x'')) ` {..<n}"
  have ok: "zk_ok unary_zk ?kids"
    by (auto simp: zk_ok_def unary_zk_def lessThan_Suc replicate_less)
  have "acquireLock unary_zk ''/locks/lock'' 0 = Some (True, 1)"
    by (simp add: acquireLock_def unary_zk_def ZOK_def smallest_node_def)
  moreover from lock_is_exclusive[OF ok this, of 1 2]
  have "acquireLock unary_zk ''/locks/lock'' 1 \<noteq> Some (True, 2)" by simp
  ultimately show ?thesis by blast
qed

text \<open>
  The lock is released under the name it was asked for, not the one it got: a service that has
  no node of that name keeps the lock's node until the session is closed.
\<close>

lemma lock_not_released:
  assumes "zoo_init Z" "fst (fst (zoo_create Z ''/locks'' [] False False z)) = 0"
    and "acquireLock Z ''/locks/lock'' (snd (zoo_create Z ''/locks'' [] False False z)) = Some (True, z1)"
    and "zoo_delete Z ''/locks/lock'' z1 = (-101, z1)"
  shows "zklock_main Z z = Some (0, True, Some (-101), zoo_close Z z1)"
  using assms by (auto simp: zklock_main_def ZOK_def split: prod.splits)

text \<open>With two children the node that is watched can be the client's own.\<close>

lemma watches_itself:
  assumes "zoo_create Z ''/locks/lock'' ''lock-'' True True z = ((0, ''/locks/b''), z1)"
    and "zoo_get_children Z ''/locks'' z1 = ((0, [''b'', ''a'']), z2)"
  shows "acquireLock Z ''/locks/lock'' z = Some (False, snd (zoo_awget Z ''/locks/b'' z2))"
proof -
  have "smallest_node [''b'', ''a''] = ''a''" by (simp add: smallest_node_def less_char_def)
  then show ?thesis using assms by (simp add: acquireLock_def ZOK_def)
qed

end
