(* ===== verification/EventLoop.thy ===== *)
theory EventLoop
  imports Tcp
begin

text \<open>
  The event loop of \<^verbatim>\<open>src/tcp/src/event_wrapper.cpp\<close>: the wrapper object, the static callbacks
  that hand an event to the virtual functions of the object, and the loop with its stop flag.

  The virtual functions are the record \<open>handlers\<close>; they may change the user's part of the object
  and may call \<open>wrapper_Stop\<close>. The events libevent delivers are a list; what it has read from the
  socket of a connection and the object has not yet taken is \<open>inputs\<close>. The socket options are
  what is passed to \<^verbatim>\<open>setsockopt\<close>. A null event base handed to libevent, or one that was
  freed, is \<open>None\<close>.
\<close>

record 'u wrapper =
  is_running :: bool
  use_thread :: bool
  has_base :: bool
  base_freed :: bool
  default_event :: bool
  loop_exit :: bool
  wparams :: connection_params
  ssl_errors :: "int list"
  inputs :: "nat \<Rightarrow> byte list"
  user_part :: 'u

record 'u handlers =
  h_accept :: "nat \<Rightarrow> 'u wrapper \<Rightarrow> 'u wrapper"
  h_read :: "nat \<Rightarrow> 'u wrapper \<Rightarrow> 'u wrapper"
  h_write :: "nat \<Rightarrow> 'u wrapper \<Rightarrow> 'u wrapper"
  h_event :: "nat \<Rightarrow> bev_event set \<Rightarrow> 'u wrapper \<Rightarrow> 'u wrapper"
  h_loop :: "'u wrapper \<Rightarrow> 'u wrapper"

definition EventWrapper :: "bool \<Rightarrow> bool \<Rightarrow> 'u \<Rightarrow> 'u wrapper option" where
  "EventWrapper threads base_new u =
     (if threads \<and> \<not> base_new then None
      else Some \<lparr>is_running = True, use_thread = threads, has_base = base_new, base_freed = False, default_event = False, loop_exit = False,
                 wparams = no_params, ssl_errors = [], inputs = (\<lambda>_. []), user_part = u\<rparr>)"

definition wrapper_Stop :: "'u wrapper \<Rightarrow> 'u wrapper" where
  "wrapper_Stop w = w\<lparr>is_running := False\<rparr>"

definition OnExit :: "'u wrapper \<Rightarrow> 'u wrapper" where
  "OnExit w = (if \<not> is_running w then w\<lparr>default_event := False, loop_exit := True\<rparr> else w)"

definition setParams :: "connection_params \<Rightarrow> 'u wrapper \<Rightarrow> 'u wrapper" where
  "setParams p w = w\<lparr>wparams := p\<rparr>"

section \<open>Callbacks\<close>

definition TimeoutCallback :: "'u handlers \<Rightarrow> 'u wrapper \<Rightarrow> 'u wrapper" where
  "TimeoutCallback H w = OnExit (h_loop H w)"

definition ReadCallback :: "'u handlers \<Rightarrow> nat \<Rightarrow> 'u wrapper \<Rightarrow> 'u wrapper" where
  "ReadCallback H b w = h_read H b w"

definition WriteCallback :: "'u handlers \<Rightarrow> nat \<Rightarrow> 'u wrapper \<Rightarrow> 'u wrapper" where
  "WriteCallback H b w = h_write H b w"

text \<open>
  On an error the pending errors of the TLS session are taken off and logged, up to the first 0;
  without TLS they are not asked for.
\<close>

definition EventCallback :: "'u handlers \<Rightarrow> nat \<Rightarrow> bev_event set \<Rightarrow> 'u wrapper \<Rightarrow> 'u wrapper" where
  "EventCallback H b events w =
     (let w1 = (if (BEV_EOF \<in> events \<or> BEV_ERROR \<in> events \<or> BEV_READING \<in> events \<or> BEV_WRITING \<in> events) \<and> is_ssl (wparams w)
                then w\<lparr>ssl_errors := tl (dropWhile (\<lambda>e. e \<noteq> 0) (ssl_errors w))\<rparr> else w)
      in h_event H b events w1)"

datatype socket_option = TCP_NODELAY | SO_KEEPALIVE | TCP_KEEPIDLE | TCP_KEEPINTVL | TCP_KEEPCNT

definition SetTcpNoDelay :: "(socket_option \<Rightarrow> int \<Rightarrow> int) \<Rightarrow> int" where
  "SetTcpNoDelay setsockopt = setsockopt TCP_NODELAY 1"

text \<open>The results of the four calls are not looked at.\<close>

definition SetKeepAlive :: "int \<Rightarrow> int \<Rightarrow> int \<Rightarrow> int \<Rightarrow> (socket_option \<times> int) list \<times> int" where
  "SetKeepAlive keepAlive keepIdle keepInterval keepCount =
     ([(SO_KEEPALIVE, keepAlive), (TCP_KEEPIDLE, keepIdle), (TCP_KEEPINTVL, keepInterval), (TCP_KEEPCNT, keepCount)], 0)"

section \<open>The loop\<close>

text \<open>The timer gives timeouts for as long as it is there: until \<open>OnExit\<close> takes it away.\<close>

datatype loop_event =
  Timeout | Accepted nat | Readable nat "byte list" | Writable nat | Happened nat "bev_event set"

fun deliver :: "'u handlers \<Rightarrow> loop_event \<Rightarrow> 'u wrapper \<Rightarrow> 'u wrapper" where
  "deliver H Timeout w = (if default_event w then TimeoutCallback H w else w)"
| "deliver H (Accepted b) w = h_accept H b w"
| "deliver H (Readable b bs) w = ReadCallback H b (w\<lparr>inputs := (inputs w)(b := inputs w b @ bs)\<rparr>)"
| "deliver H (Writable b) w = WriteCallback H b w"
| "deliver H (Happened b es) w = EventCallback H b es w"

text \<open>
  The events come in rounds, those that are active at the same time. A loop that is told to exit
  ends after the round.
\<close>

fun dispatch :: "'u handlers \<Rightarrow> loop_event list list \<Rightarrow> 'u wrapper \<Rightarrow> loop_event list list \<times> 'u wrapper" where
  "dispatch H [] w = ([], w)"
| "dispatch H (r # rs) w = (if loop_exit w then (r # rs, w) else dispatch H rs (fold (deliver H) r w))"

text \<open>
  The rounds that are left when the loop has ended, and the object. The base is freed and the
  object keeps the pointer to it.
\<close>

definition Run :: "'u handlers \<Rightarrow> bool \<Rightarrow> loop_event list list \<Rightarrow> 'u wrapper \<Rightarrow> (loop_event list list \<times> 'u wrapper) option" where
  "Run H event_new rs w =
     (if \<not> has_base w then Some (rs, w)
      else if base_freed w then None
      else case dispatch H rs (w\<lparr>default_event := event_new\<rparr>) of (rest, w1) \<Rightarrow> Some (rest, w1\<lparr>base_freed := True\<rparr>))"

text \<open>Handlers that leave the loop's own fields alone, except for stopping it.\<close>

definition may_stop :: "('u wrapper \<Rightarrow> 'u wrapper) \<Rightarrow> bool" where
  "may_stop f \<longleftrightarrow> (\<forall>w. loop_exit (f w) = loop_exit w \<and> default_event (f w) = default_event w \<and> has_base (f w) = has_base w \<and>
     (is_running (f w) \<longrightarrow> is_running w))"

definition handlers_ok :: "'u handlers \<Rightarrow> bool" where
  "handlers_ok H \<longleftrightarrow> may_stop (h_loop H) \<and> (\<forall>b. may_stop (h_accept H b) \<and> may_stop (h_read H b) \<and> may_stop (h_write H b) \<and> (\<forall>es. may_stop (h_event H b es)))"

lemma may_stopD:
  "may_stop f \<Longrightarrow> loop_exit (f w) = loop_exit w" "may_stop f \<Longrightarrow> is_running (f w) \<Longrightarrow> is_running w"
  "may_stop f \<Longrightarrow> default_event (f w) = default_event w" "may_stop f \<Longrightarrow> has_base (f w) = has_base w"
  by (simp_all add: may_stop_def)

lemma handlers_okD:
  "handlers_ok H \<Longrightarrow> may_stop (h_loop H)" "handlers_ok H \<Longrightarrow> may_stop (h_read H b)"
  "handlers_ok H \<Longrightarrow> may_stop (h_write H b)" "handlers_ok H \<Longrightarrow> may_stop (h_accept H b)" "handlers_ok H \<Longrightarrow> may_stop (h_event H b es)"
  by (simp_all add: handlers_ok_def)

text \<open>What one event does to a stopped loop.\<close>

lemma deliver_exit:
  assumes "handlers_ok H" "\<not> is_running w"
  shows "\<not> is_running (deliver H e w) \<and> has_base (deliver H e w) = has_base w \<and>
    loop_exit (deliver H e w) = (loop_exit w \<or> e = Timeout \<and> default_event w) \<and>
    default_event (deliver H e w) = (default_event w \<and> e \<noteq> Timeout)"
proof (cases e)
  case Timeout
  have "\<not> is_running (h_loop H w)" using may_stopD(2)[OF handlers_okD(1)[OF assms(1)]] assms(2) by blast
  then show ?thesis
    using assms(2) Timeout may_stopD(1,3,4)[OF handlers_okD(1)[OF assms(1)], of w] by (auto simp: TimeoutCallback_def OnExit_def)
next
  case (Accepted b)
  then show ?thesis using may_stopD[OF handlers_okD(4)[OF assms(1), of b], of w] assms(2) by auto
next
  case (Readable b bs)
  then show ?thesis
    using may_stopD[OF handlers_okD(2)[OF assms(1), of b], of "w\<lparr>inputs := (inputs w)(b := inputs w b @ bs)\<rparr>"] assms(2)
    by (auto simp: ReadCallback_def)
next
  case (Writable b)
  then show ?thesis using may_stopD[OF handlers_okD(3)[OF assms(1), of b], of w] assms(2) by (auto simp: WriteCallback_def)
next
  case (Happened b es)
  define w1 where "w1 = (if (BEV_EOF \<in> es \<or> BEV_ERROR \<in> es \<or> BEV_READING \<in> es \<or> BEV_WRITING \<in> es) \<and> is_ssl (wparams w)
      then w\<lparr>ssl_errors := tl (dropWhile (\<lambda>e. e \<noteq> 0) (ssl_errors w))\<rparr> else w)"
  have "loop_exit w1 = loop_exit w" "is_running w1 = is_running w" "default_event w1 = default_event w" "has_base w1 = has_base w"
    by (simp_all add: w1_def)
  moreover have "deliver H e w = h_event H b es w1" using Happened by (simp add: EventCallback_def w1_def Let_def)
  ultimately show ?thesis using may_stopD[OF handlers_okD(5)[OF assms(1), of b es], of w1] Happened assms(2) by auto
qed

lemma round_exit:
  assumes "handlers_ok H" "\<not> is_running w"
  shows "\<not> is_running (fold (deliver H) r w) \<and> has_base (fold (deliver H) r w) = has_base w \<and>
    loop_exit (fold (deliver H) r w) = (loop_exit w \<or> Timeout \<in> set r \<and> default_event w) \<and>
    default_event (fold (deliver H) r w) = (default_event w \<and> Timeout \<notin> set r)"
  using assms(2)
proof (induction r arbitrary: w)
  case (Cons e r)
  note d = deliver_exit[OF assms(1) Cons.prems, of e]
  then show ?case using Cons.IH[of "deliver H e w"] by auto
qed simp

lemma dispatch_exit: "loop_exit w \<Longrightarrow> dispatch H rs w = (rs, w)"
  by (cases rs) simp_all

lemma dispatch_stops:
  assumes "handlers_ok H" "\<not> is_running w" "\<not> loop_exit w" "default_event w" "\<forall>r \<in> set as. Timeout \<notin> set r" "Timeout \<in> set r"
  shows "\<exists>w'. dispatch H (as @ r # bs) w = (bs, w') \<and> loop_exit w' \<and> \<not> default_event w' \<and> has_base w' = has_base w"
  using assms(2-5)
proof (induction as arbitrary: w)
  case Nil
  note e = round_exit[OF assms(1) Nil(1), of r]
  then have "loop_exit (fold (deliver H) r w)" using assms(6) Nil(3) by blast
  then show ?case using e Nil assms(6) dispatch_exit by auto
next
  case (Cons a as)
  note e = round_exit[OF assms(1) Cons.prems(1), of a]
  have "\<not> is_running (fold (deliver H) a w)" "\<not> loop_exit (fold (deliver H) a w)" "default_event (fold (deliver H) a w)"
    using e Cons.prems by auto
  from Cons.IH[OF this] show ?case using e Cons.prems by simp
qed

text \<open>
  C30. Once the object is stopped, the loop ends with the first round that has a timeout: the
  rounds before it and this one are delivered, and none after it; the timer is gone. Running the
  object again is a use of the base that the loop has freed.
\<close>

theorem loop_ends_after_stop:
  assumes "handlers_ok H" "\<forall>r \<in> set as. Timeout \<notin> set r" "Timeout \<in> set r" "has_base w" "\<not> base_freed w" "\<not> loop_exit w"
  shows "\<exists>w'. Run H True (as @ r # bs) (wrapper_Stop w) = Some (bs, w') \<and> loop_exit w' \<and> \<not> default_event w' \<and>
    Run H event_new rs w' = None"
proof -
  let ?w = "(wrapper_Stop w)\<lparr>default_event := True\<rparr>"
  have "\<exists>w'. dispatch H (as @ r # bs) ?w = (bs, w') \<and> loop_exit w' \<and> \<not> default_event w' \<and> has_base w' = has_base ?w"
    using assms(1-3,6) by (intro dispatch_stops) (simp_all add: wrapper_Stop_def)
  then obtain w' where w': "dispatch H (as @ r # bs) ?w = (bs, w')" "loop_exit w'" "\<not> default_event w'" "has_base w'"
    using assms(4) by (auto simp: wrapper_Stop_def)
  have "Run H True (as @ r # bs) (wrapper_Stop w) = Some (bs, w'\<lparr>base_freed := True\<rparr>)"
    using assms(4,5) w'(1) by (simp add: Run_def) (simp add: wrapper_Stop_def)
  then show ?thesis using w' by (intro exI[of _ "w'\<lparr>base_freed := True\<rparr>"]) (simp add: Run_def)
qed

theorem loop_ends_after_stop_witness:
  "\<exists>w. Run \<lparr>h_accept = \<lambda>b w. w, h_read = \<lambda>b w. w, h_write = \<lambda>b w. w, h_event = \<lambda>b es w. w, h_loop = \<lambda>w. w\<rparr> True
     ([[Readable 1 [7]]] @ [Timeout, Writable 2] # [[Readable 2 []]]) (wrapper_Stop (the (EventWrapper True True ()))) =
     Some ([[Readable 2 []]], w)"
proof -
  let ?H = "\<lparr>h_accept = \<lambda>b w. w, h_read = \<lambda>b w. w, h_write = \<lambda>b w. w, h_event = \<lambda>b es w. w, h_loop = \<lambda>w. w\<rparr> :: unit handlers"
  have "\<exists>w'. Run ?H True ([[Readable 1 [7]]] @ [Timeout, Writable 2] # [[Readable 2 []]]) (wrapper_Stop (the (EventWrapper True True ()))) =
      Some ([[Readable 2 []]], w') \<and> loop_exit w' \<and> \<not> default_event w' \<and> Run ?H True [] w' = None"
    by (rule loop_ends_after_stop) (simp_all add: handlers_ok_def may_stop_def EventWrapper_def)
  then show ?thesis by blast
qed

end
