(* ===== verification/LightSema.thy ===== *)
theory LightSema
  imports DateTime
begin

text \<open>
  The semaphore of \<^verbatim>\<open>src/include/lightweightsemaphore.h\<close>: a count in an atomic variable in front
  of a semaphore of the operating system, which is used only when threads have to sleep.

  A thread is where it is in its call (\<open>sema_local\<close>), and \<open>thread_step\<close> is its next access to
  the count or to the system's semaphore; the threads take these steps in any order. The
  argument \<open>b\<close> of a step is what the environment decides: that a weak exchange does not fail
  spuriously, and that a timed wait does not run out. \<^verbatim>\<open>wait\<close> is \<^verbatim>\<open>waitMany\<close> of one, whose code
  it repeats. The count is an integer; it stays within the number of threads below 0 and the
  permits above.
\<close>

section \<open>The program of a thread\<close>

datatype sema_mode = TryOnly | WaitFor int

datatype sema_local =
    Idle
  | TryLoad sema_mode int
  | TryCas sema_mode int int
  | Spin int int nat
  | SpinCas int int nat int
  | FetchSub int int
  | Blocked int int
  | Adjust int
  | AdjustTry int
  | AdjustCas int int
  | MoreLoad int
  | MoreCas int int
  | Signal int
  | Post nat
  | Returned int

text \<open>The calls: where a thread starts.\<close>

definition tryWait :: sema_local where "tryWait = TryLoad TryOnly 1"

definition wait :: sema_local where "wait = TryLoad (WaitFor (-1)) 1"

definition wait_timed :: "int \<Rightarrow> sema_local" where "wait_timed timeout_usecs = TryLoad (WaitFor timeout_usecs) 1"

definition tryWaitMany :: "int \<Rightarrow> sema_local" where "tryWaitMany mx = TryLoad TryOnly mx"

definition waitMany :: "int \<Rightarrow> int \<Rightarrow> sema_local" where "waitMany mx timeout_usecs = TryLoad (WaitFor timeout_usecs) mx"

definition signal_call :: "int \<Rightarrow> sema_local" where "signal_call n = Signal n"

text \<open>What is left of the count when up to \<open>mx\<close> permits are taken.\<close>

definition left_of :: "int \<Rightarrow> int \<Rightarrow> int" where
  "left_of old mx = (if old > mx then old - mx else 0)"

text \<open>After the first permit of \<^verbatim>\<open>waitManyWithPartialSpinning\<close>: the others are tried for.\<close>

definition after_one :: "int \<Rightarrow> sema_local" where
  "after_one mx = (if mx > 1 then MoreLoad (mx - 1) else Returned 1)"

fun try_step :: "nat \<Rightarrow> bool \<Rightarrow> sema_mode \<Rightarrow> int \<Rightarrow> int \<Rightarrow> int \<times> nat \<Rightarrow> sema_local \<times> int \<times> nat" where
  "try_step maxSpins b mode mx old (c, t) =
     (if old > 0
      then (if c = old \<and> b then (Returned (old - left_of old mx), left_of old mx, t) else (TryCas mode mx c, c, t))
      else (case mode of
              TryOnly \<Rightarrow> (Returned 0, c, t)
            | WaitFor tmo \<Rightarrow> (if mx > 0 then (Spin tmo mx maxSpins, c, t) else (Returned 0, c, t))))"

fun spin_step :: "int \<Rightarrow> int \<Rightarrow> nat \<Rightarrow> int \<times> nat \<Rightarrow> sema_local \<times> int \<times> nat" where
  "spin_step tmo mx 0 (c, t) = (FetchSub tmo mx, c, t)"
| "spin_step tmo mx (Suc k) (c, t) = (if c > 0 then (SpinCas tmo mx k c, c, t) else (Spin tmo mx k, c, t))"

text \<open>\<^verbatim>\<open>fetch_sub\<close>, then the system's semaphore when there was nothing to take.\<close>

fun fetch_sub_step :: "int \<Rightarrow> int \<Rightarrow> int \<times> nat \<Rightarrow> sema_local \<times> int \<times> nat" where
  "fetch_sub_step tmo mx (c, t) =
     ((if c > 0 then after_one mx else if tmo = 0 then Adjust mx else Blocked tmo mx), c - 1, t)"

fun blocked_step :: "bool \<Rightarrow> int \<Rightarrow> int \<Rightarrow> int \<times> nat \<Rightarrow> (sema_local \<times> int \<times> nat) option" where
  "blocked_step b tmo mx (c, t) =
     (if b then (if t > 0 then Some (after_one mx, c, t - 1) else None)
      else if tmo > 0 then Some (Adjust mx, c, t) else None)"

text \<open>\<^verbatim>\<open>fetch_add\<close>; the threads to wake are counted in an \<^verbatim>\<open>int\<close>.\<close>

fun signal_step :: "int \<Rightarrow> int \<times> nat \<Rightarrow> sema_local \<times> int \<times> nat" where
  "signal_step n (c, t) =
     (let toRelease = (if - c < n then - c else n)
      in ((if toRelease > 0 then Post (nat (i32 toRelease)) else Returned 0), c + n, t))"

fun thread_step :: "nat \<Rightarrow> bool \<Rightarrow> sema_local \<Rightarrow> int \<times> nat \<Rightarrow> (sema_local \<times> int \<times> nat) option" where
  "thread_step maxSpins b (TryLoad mode mx) (c, t) = Some (TryCas mode mx c, c, t)"
| "thread_step maxSpins b (TryCas mode mx old) (c, t) = Some (try_step maxSpins b mode mx old (c, t))"
| "thread_step maxSpins b (Spin tmo mx k) (c, t) = Some (spin_step tmo mx k (c, t))"
| "thread_step maxSpins b (SpinCas tmo mx k old) (c, t) =
     (if c = old then Some (Returned (old - left_of old mx), left_of old mx, t) else Some (Spin tmo mx k, c, t))"
| "thread_step maxSpins b (FetchSub tmo mx) (c, t) = Some (fetch_sub_step tmo mx (c, t))"
| "thread_step maxSpins b (Blocked tmo mx) (c, t) = blocked_step b tmo mx (c, t)"
| "thread_step maxSpins b (Adjust mx) (c, t) = Some (if c \<ge> 0 then (AdjustTry mx, c, t) else (AdjustCas mx c, c, t))"
| "thread_step maxSpins b (AdjustTry mx) (c, t) = Some (if t > 0 then (after_one mx, c, t - 1) else (Adjust mx, c, t))"
| "thread_step maxSpins b (AdjustCas mx old) (c, t) = Some (if c = old then (Returned 0, c + 1, t) else (Adjust mx, c, t))"
| "thread_step maxSpins b (MoreLoad mx) (c, t) = Some (MoreCas mx c, c, t)"
| "thread_step maxSpins b (MoreCas mx old) (c, t) =
     Some (if old > 0
           then (if c = old \<and> b then (Returned (1 + (old - left_of old mx)), left_of old mx, t) else (MoreCas mx c, c, t))
           else (Returned 1, c, t))"
| "thread_step maxSpins b (Signal n) (c, t) = Some (signal_step n (c, t))"
| "thread_step maxSpins b (Post 0) (c, t) = Some (Returned 0, c, t)"
| "thread_step maxSpins b (Post (Suc n)) (c, t) = Some (Post n, c, t + 1)"
| "thread_step maxSpins b Idle (c, t) = None"
| "thread_step maxSpins b (Returned n) (c, t) = None"

definition availableApprox :: "int \<Rightarrow> int" where
  "availableApprox c = (if c > 0 then c else 0)"

section \<open>The threads together\<close>

text \<open>
  The object and its threads, with the permits that were ever given (initially and by \<^verbatim>\<open>signal\<close>)
  and those that calls have returned.
\<close>

record light_sema =
  m_count :: int
  m_sema :: nat
  locals :: "sema_local list"
  given :: int
  taken :: int

definition new_sema :: "int \<Rightarrow> nat \<Rightarrow> light_sema" where
  "new_sema initialCount n =
     \<lparr>m_count = initialCount, m_sema = 0, locals = replicate n Idle, given = initialCount, taken = 0\<rparr>"

text \<open>The arguments the assertions of the source ask for.\<close>

inductive call_ok :: "sema_local \<Rightarrow> bool" where
  "call_ok tryWait" | "call_ok wait" | "call_ok (wait_timed tmo)"
| "0 \<le> mx \<Longrightarrow> call_ok (tryWaitMany mx)" | "0 \<le> mx \<Longrightarrow> call_ok (waitMany mx tmo)" | "0 \<le> n \<Longrightarrow> call_ok (signal_call n)"

fun signalled :: "sema_local \<Rightarrow> int" where
  "signalled (Signal n) = n"
| "signalled _ = 0"

inductive sema_run :: "nat \<Rightarrow> int \<Rightarrow> nat \<Rightarrow> light_sema \<Rightarrow> bool" for maxSpins initialCount n where
  start: "sema_run maxSpins initialCount n (new_sema initialCount n)"
| call: "sema_run maxSpins initialCount n s \<Longrightarrow> i < n \<Longrightarrow> locals s ! i = Idle \<Longrightarrow> call_ok l \<Longrightarrow>
    sema_run maxSpins initialCount n (s\<lparr>locals := (locals s)[i := l]\<rparr>)"
| run: "sema_run maxSpins initialCount n s \<Longrightarrow> i < n \<Longrightarrow>
    thread_step maxSpins b (locals s ! i) (m_count s, m_sema s) = Some (l', c', t') \<Longrightarrow>
    sema_run maxSpins initialCount n
      (s\<lparr>m_count := c', m_sema := t', locals := (locals s)[i := l'], given := given s + signalled (locals s ! i)\<rparr>)"
| return: "sema_run maxSpins initialCount n s \<Longrightarrow> i < n \<Longrightarrow> locals s ! i = Returned r \<Longrightarrow>
    sema_run maxSpins initialCount n (s\<lparr>locals := (locals s)[i := Idle], taken := taken s + r\<rparr>)"

section \<open>Permits are neither lost nor made up\<close>

text \<open>The permits a thread has got, whether it sleeps or is about to, and the threads it still has to wake.\<close>

fun held :: "sema_local \<Rightarrow> int" where
  "held (Returned n) = n"
| "held (MoreLoad _) = 1"
| "held (MoreCas _ _) = 1"
| "held _ = 0"

fun waiting :: "sema_local \<Rightarrow> int" where
  "waiting (Blocked _ _) = 1"
| "waiting (Adjust _) = 1"
| "waiting (AdjustTry _) = 1"
| "waiting (AdjustCas _ _) = 1"
| "waiting _ = 0"

fun posting :: "sema_local \<Rightarrow> int" where
  "posting (Post n) = int n"
| "posting _ = 0"

fun local_ok :: "sema_local \<Rightarrow> bool" where
  "local_ok (TryLoad _ mx) = (0 \<le> mx)"
| "local_ok (TryCas _ mx _) = (0 \<le> mx)"
| "local_ok (Spin _ mx _) = (0 < mx)"
| "local_ok (SpinCas _ mx _ old) = (0 < mx \<and> 0 < old)"
| "local_ok (FetchSub _ mx) = (0 < mx)"
| "local_ok (Blocked _ mx) = (0 < mx)"
| "local_ok (Adjust mx) = (0 < mx)"
| "local_ok (AdjustTry mx) = (0 < mx)"
| "local_ok (AdjustCas mx old) = (0 < mx \<and> old < 0)"
| "local_ok (MoreLoad mx) = (0 < mx)"
| "local_ok (MoreCas mx _) = (0 < mx)"
| "local_ok (Signal n) = (0 \<le> n)"
| "local_ok (Returned n) = (0 \<le> n)"
| "local_ok _ = True"

lemma left_of_bounds: "0 < old \<Longrightarrow> 0 \<le> mx \<Longrightarrow> 0 \<le> left_of old mx \<and> left_of old mx \<le> old"
  by (simp add: left_of_def)

lemma after_one_simps [simp]:
  "held (after_one mx) = 1" "waiting (after_one mx) = 0" "posting (after_one mx) = 0" "0 < mx \<Longrightarrow> local_ok (after_one mx)"
  by (simp_all add: after_one_def)

lemma i32_fits: "0 \<le> x \<Longrightarrow> x < 2 ^ 31 \<Longrightarrow> i32 x = x"
  by (simp add: i32_def)

text \<open>One step keeps both sums.\<close>

lemma thread_step_counts:
  assumes "thread_step maxSpins b l (c, t) = Some (l', c', t')" "local_ok l" "- c < 2 ^ 31"
  shows "c' - c = signalled l - (held l' - held l) - (waiting l' - waiting l) \<and>
    int t' + posting l' - (int t + posting l) = waiting l' - waiting l - (max 0 (- c') - max 0 (- c)) \<and> local_ok l'"
proof (cases l)
  case (TryCas mode mx old)
  then show ?thesis
    using assms left_of_bounds[of old mx] by (auto split: if_splits sema_mode.splits)
next
  case (Spin tmo mx k)
  then show ?thesis using assms by (cases k) (auto split: if_splits)
next
  case (SpinCas tmo mx k old)
  then show ?thesis using assms left_of_bounds[of old mx] by (auto split: if_splits)
next
  case (MoreCas mx old)
  then show ?thesis using assms left_of_bounds[of old mx] by (auto split: if_splits)
next
  case (Signal n)
  then show ?thesis using assms by (auto simp: Let_def i32_fits split: if_splits)
next
  case (Post n)
  then show ?thesis using assms by (cases n) auto
qed (use assms in \<open>auto split: if_splits\<close>)

abbreviation total_of :: "(sema_local \<Rightarrow> int) \<Rightarrow> light_sema \<Rightarrow> int" where
  "total_of f s \<equiv> sum_list (map f (locals s))"

text \<open>The permits that threads have got, whether their calls have returned or not.\<close>

definition acquired :: "light_sema \<Rightarrow> int" where
  "acquired s = taken s + total_of held s"

definition sema_inv :: "nat \<Rightarrow> light_sema \<Rightarrow> bool" where
  "sema_inv n s \<longleftrightarrow> length (locals s) = n \<and> list_all local_ok (locals s) \<and>
     m_count s = given s - acquired s - total_of waiting s \<and>
     int (m_sema s) + total_of posting s = total_of waiting s - max 0 (- m_count s)"

lemma sum_list_set:
  "i < length xs \<Longrightarrow> sum_list (map f (xs[i := x])) = sum_list (map f xs) + f x - (f (xs ! i) :: int)"
  by (induction xs arbitrary: i) (auto split: nat.splits)

lemma list_all_set: "list_all P xs \<Longrightarrow> P x \<Longrightarrow> list_all P (xs[i := x])"
  using set_update_subset_insert[of xs i x] by (auto simp: list_all_iff)

lemma sum_list_all_zero: "(\<And>l. l \<in> set ls \<Longrightarrow> f l = 0) \<Longrightarrow> sum_list (map f ls) = (0 :: int)"
  by (induction ls) auto

lemma posting_nonneg: "0 \<le> posting l"
  by (cases l) auto

lemma waiting_bounds: "0 \<le> waiting l \<and> waiting l \<le> 1"
  by (cases l) auto

lemma total_posting_nonneg: "0 \<le> total_of posting s"
  by (intro sum_list_nonneg) (auto simp: posting_nonneg)

lemma total_waiting_le: "sum_list (map waiting ls) \<le> int (length ls)"
proof (induction ls)
  case (Cons l ls)
  then show ?case using waiting_bounds[of l] by simp
qed simp

lemma waiting_le_total: "l \<in> set ls \<Longrightarrow> waiting l \<le> sum_list (map waiting ls)"
proof (induction ls)
  case (Cons x xs)
  have "0 \<le> sum_list (map waiting xs)" by (intro sum_list_nonneg) (auto simp: waiting_bounds)
  then show ?case using Cons waiting_bounds[of x] by auto
qed simp

lemma sema_inv_call:
  assumes "sema_inv n s" "i < n" "locals s ! i = Idle" "local_ok l" "held l = 0" "waiting l = 0" "posting l = 0"
  shows "sema_inv n (s\<lparr>locals := (locals s)[i := l]\<rparr>)"
  using assms by (simp add: sema_inv_def acquired_def sum_list_set list_all_set)

lemma sema_inv_step:
  assumes inv: "sema_inv n s" and i: "i < n" and n: "int n < 2 ^ 31"
    and step: "thread_step maxSpins b (locals s ! i) (m_count s, m_sema s) = Some (l', c', t')"
  shows "sema_inv n (s\<lparr>m_count := c', m_sema := t', locals := (locals s)[i := l'], given := given s + signalled (locals s ! i)\<rparr>)"
proof -
  have len: "i < length (locals s)" and ok: "local_ok (locals s ! i)"
    using inv i by (auto simp: sema_inv_def list_all_length)
  have "- m_count s < 2 ^ 31"
    using inv total_posting_nonneg[of s] total_waiting_le[of "locals s"] n by (auto simp: sema_inv_def)
  note c = thread_step_counts[OF step ok this]
  let ?s = "s\<lparr>m_count := c', m_sema := t', locals := (locals s)[i := l'], given := given s + signalled (locals s ! i)\<rparr>"
  have sums: "total_of f ?s = total_of f s + f l' - f (locals s ! i)" for f
    using sum_list_set[OF len] by simp
  have m: "m_count s = given s - (taken s + total_of held s) - total_of waiting s"
    and t: "int (m_sema s) + total_of posting s = total_of waiting s - max 0 (- m_count s)"
    using inv by (simp_all only: sema_inv_def acquired_def)
  have "m_count ?s = given ?s - (taken ?s + total_of held ?s) - total_of waiting ?s"
    unfolding sums using c m by simp
  moreover have "int (m_sema ?s) + total_of posting ?s = total_of waiting ?s - max 0 (- m_count ?s)"
    unfolding sums using c t by (simp del: max.absorb1 max.absorb2)
  ultimately show ?thesis
    using inv c by (simp only: sema_inv_def acquired_def) (simp add: list_all_set)
qed

lemma sema_run_inv:
  assumes "sema_run maxSpins c0 n s" "0 \<le> c0" "int n < 2 ^ 31"
  shows "sema_inv n s"
  using assms(1)
proof (induction rule: sema_run.induct)
  case start
  then show ?case using assms(2) by (simp add: sema_inv_def new_sema_def acquired_def sum_list_replicate list_all_iff)
next
  case (call s i l)
  from call(4) have "local_ok l \<and> held l = 0 \<and> waiting l = 0 \<and> posting l = 0"
    by (cases rule: call_ok.cases) (auto simp: tryWait_def wait_def wait_timed_def tryWaitMany_def waitMany_def signal_call_def)
  then show ?case using call by (intro sema_inv_call) auto
next
  case (run s i b l' c' t')
  then show ?case using sema_inv_step[OF run.IH run(2) assms(3) run(3)] by simp
next
  case (return s i r)
  then have "i < length (locals s)" by (simp add: sema_inv_def)
  then show ?case using return by (simp add: sema_inv_def acquired_def sum_list_set list_all_set)
qed

lemma permits_counted:
  assumes "sema_run maxSpins initialCount n s" "0 \<le> initialCount" "n < 2 ^ 31"
  shows "acquired s \<le> given s \<and>
    ((\<exists>tmo mx. Blocked tmo mx \<in> set (locals s)) \<and> m_sema s = 0 \<and> (\<forall>k. Post k \<notin> set (locals s)) \<longrightarrow> acquired s = given s)"
proof -
  have inv: "sema_inv n s" using sema_run_inv[OF assms(1,2)] assms(3) by simp
  then have "acquired s \<le> given s" using total_posting_nonneg[of s] by (auto simp: sema_inv_def)
  moreover have "acquired s = given s"
    if b: "Blocked tmo mx \<in> set (locals s)" and z: "m_sema s = 0" "\<forall>k. Post k \<notin> set (locals s)" for tmo mx
  proof -
    have "1 \<le> total_of waiting s"
      using waiting_le_total[OF b] by simp
    moreover have "posting l = 0" if "l \<in> set (locals s)" for l using z(2) that by (cases l) auto
    then have "total_of posting s = 0" by (intro sum_list_all_zero) blast
    moreover have "m_count s = given s - acquired s - total_of waiting s"
      and "int (m_sema s) + total_of posting s = total_of waiting s - max 0 (- m_count s)"
      using inv by (simp_all only: sema_inv_def)
    ultimately show ?thesis using z(1) by linarith
  qed
  ultimately show ?thesis by blast
qed

text \<open>
  C14. Whatever the threads do and in whatever order, no more permits are got than were given,
  and a thread sleeps with nobody about to wake it only when every permit that was given
  has been got: no wake-up is lost.
\<close>

theorem semaphore_counts_permits:
  assumes "sema_run maxSpins initialCount n s" "0 \<le> initialCount" "n < 2 ^ 31"
  shows "acquired s \<le> given s \<and>
    ((\<exists>tmo mx. Blocked tmo mx \<in> set (locals s)) \<and> m_sema s = 0 \<and> (\<forall>k. Post k \<notin> set (locals s)) \<longrightarrow> acquired s = given s)"
  by (rule permits_counted[OF assms])

text \<open>A thread that takes the only permit, and a second one that sleeps.\<close>

theorem semaphore_counts_permits_witness:
  "\<exists>s. Blocked (-1) 1 \<in> set (locals s) \<and> m_sema s = 0 \<and> acquired s = given s \<and> given s = 1"
proof -
  define s1 where "s1 = (new_sema 1 2)\<lparr>locals := (locals (new_sema 1 2))[0 := wait]\<rparr>"
  note defs = new_sema_def wait_def left_of_def after_one_def numeral_2_eq_2
  have "sema_run 0 1 2 s1"
    unfolding s1_def by (intro sema_run.call sema_run.start call_ok.intros) (simp_all add: defs)
  then have "sema_run 0 1 2 (s1\<lparr>locals := [TryCas (WaitFor (-1)) 1 1, Idle]\<rparr>)" (is "sema_run _ _ _ ?s2")
    using sema_run.run[of 0 1 2 s1 0 True "TryCas (WaitFor (-1)) 1 1" 1 0] by (simp add: defs s1_def)
  then have "sema_run 0 1 2 (?s2\<lparr>m_count := 0, locals := [Returned 1, Idle]\<rparr>)" (is "sema_run _ _ _ ?s3")
    using sema_run.run[of 0 1 2 ?s2 0 True "Returned 1" 0 0] by (simp add: defs s1_def)
  then have "sema_run 0 1 2 (?s3\<lparr>locals := [Returned 1, wait]\<rparr>)" (is "sema_run _ _ _ ?s4")
    using sema_run.call[of 0 1 2 ?s3 1 wait, OF _ _ _ call_ok.intros(2)] by (simp add: defs s1_def)
  then have "sema_run 0 1 2 (?s4\<lparr>locals := [Returned 1, TryCas (WaitFor (-1)) 1 0]\<rparr>)" (is "sema_run _ _ _ ?s5")
    using sema_run.run[of 0 1 2 ?s4 1 True "TryCas (WaitFor (-1)) 1 0" 0 0] by (simp add: defs s1_def)
  then have "sema_run 0 1 2 (?s5\<lparr>locals := [Returned 1, Spin (-1) 1 0]\<rparr>)" (is "sema_run _ _ _ ?s6")
    using sema_run.run[of 0 1 2 ?s5 1 True "Spin (-1) 1 0" 0 0] by (simp add: defs s1_def)
  then have "sema_run 0 1 2 (?s6\<lparr>locals := [Returned 1, FetchSub (-1) 1]\<rparr>)" (is "sema_run _ _ _ ?s7")
    using sema_run.run[of 0 1 2 ?s6 1 True "FetchSub (-1) 1" 0 0] by (simp add: defs s1_def)
  then have "sema_run 0 1 2 (?s7\<lparr>m_count := -1, locals := [Returned 1, Blocked (-1) 1]\<rparr>)" (is "sema_run _ _ _ ?s8")
    using sema_run.run[of 0 1 2 ?s7 1 True "Blocked (-1) 1" "-1" 0] by (simp add: defs s1_def)
  from semaphore_counts_permits[OF this, THEN conjunct2] have "acquired ?s8 = given ?s8"
    by (auto simp: new_sema_def s1_def)
  then show ?thesis by (intro exI[of _ ?s8]) (simp add: defs s1_def)
qed

end
