(* ===== verification/BlockQueue.thy ===== *)
theory BlockQueue
  imports LightSema "HOL-Library.Multiset"
begin

text \<open>
  The queue of \<^verbatim>\<open>src/include/blockingconcurrentqueue.h\<close>: a lock-free queue with the semaphore of
  \<open>LightSema\<close> in front of it. Elements are put into the inner queue before the semaphore is
  signalled, and taken out of it after a permit was got.

  The inner queue is the list of what is in it; a call on it is one step, it may fail to put
  (there is no memory), and it takes out any of its elements, or none when it missed them. The
  calls with and without tokens, of one and of several elements differ in nothing else.
\<close>

section \<open>The operations\<close>

text \<open>Where a client is: in \<^verbatim>\<open>signal\<close>, in a call of the semaphore, or taking out the elements it may take.\<close>

datatype bq_client = CIdle | InSignal | InWait sema_local | Deq nat

record 'a block_queue =
  inner :: "'a list"
  sema :: light_sema
  clients :: "bq_client list"
  put_in :: "'a multiset"
  got_out :: "'a multiset"

definition new_queue :: "nat \<Rightarrow> 'a block_queue" where
  "new_queue n = \<lparr>inner = [], sema = new_sema 0 n, clients = replicate n CIdle, put_in = {#}, got_out = {#}\<rparr>"

definition set_client :: "nat \<Rightarrow> bq_client \<Rightarrow> sema_local \<Rightarrow> 'a block_queue \<Rightarrow> 'a block_queue" where
  "set_client i c l s =
     s\<lparr>clients := (clients s)[i := c], sema := (sema s)\<lparr>locals := (locals (sema s))[i := l]\<rparr>\<rparr>"

definition enqueue_bulk :: "bool \<Rightarrow> nat \<Rightarrow> 'a list \<Rightarrow> 'a block_queue \<Rightarrow> 'a block_queue" where
  "enqueue_bulk ok i xs s =
     (if ok then set_client i InSignal (signal_call (int (length xs))) (s\<lparr>inner := inner s @ xs, put_in := put_in s + mset xs\<rparr>)
      else s)"

definition bq_enqueue :: "bool \<Rightarrow> nat \<Rightarrow> 'a \<Rightarrow> 'a block_queue \<Rightarrow> 'a block_queue" where
  "bq_enqueue ok i x s = enqueue_bulk ok i [x] s"

definition try_dequeue :: "nat \<Rightarrow> 'a block_queue \<Rightarrow> 'a block_queue" where
  "try_dequeue i s = set_client i (InWait tryWait) tryWait s"

definition try_dequeue_bulk :: "nat \<Rightarrow> nat \<Rightarrow> 'a block_queue \<Rightarrow> 'a block_queue" where
  "try_dequeue_bulk i mx s = set_client i (InWait (tryWaitMany (int mx))) (tryWaitMany (int mx)) s"

definition wait_dequeue :: "nat \<Rightarrow> 'a block_queue \<Rightarrow> 'a block_queue" where
  "wait_dequeue i s = set_client i (InWait wait) wait s"

definition wait_dequeue_timed :: "nat \<Rightarrow> int \<Rightarrow> 'a block_queue \<Rightarrow> 'a block_queue" where
  "wait_dequeue_timed i tmo s = set_client i (InWait (wait_timed tmo)) (wait_timed tmo) s"

definition wait_dequeue_bulk_timed :: "nat \<Rightarrow> nat \<Rightarrow> int \<Rightarrow> 'a block_queue \<Rightarrow> 'a block_queue" where
  "wait_dequeue_bulk_timed i mx tmo s = set_client i (InWait (waitMany (int mx) tmo)) (waitMany (int mx) tmo) s"

definition wait_dequeue_bulk :: "nat \<Rightarrow> nat \<Rightarrow> 'a block_queue \<Rightarrow> 'a block_queue" where
  "wait_dequeue_bulk i mx s = wait_dequeue_bulk_timed i mx (-1) s"

text \<open>
  The semaphore's call has returned \<open>r\<close> permits. The loop of \<^verbatim>\<open>wait_dequeue\<close> calls it again when it
  has returned none; the other calls go on to take out as many elements.
\<close>

definition after_sema :: "nat \<Rightarrow> int \<Rightarrow> 'a block_queue \<Rightarrow> 'a block_queue" where
  "after_sema i r s =
     (let s1 = s\<lparr>sema := (sema s)\<lparr>taken := taken (sema s) + r\<rparr>\<rparr>
      in case clients s ! i of
           InSignal \<Rightarrow> set_client i CIdle Idle s1
         | InWait l \<Rightarrow> (if r = 0 \<and> l = wait then set_client i (InWait l) wait s1 else set_client i (Deq (nat r)) Idle s1)
         | _ \<Rightarrow> s1)"

text \<open>One turn of the loop around \<^verbatim>\<open>inner.try_dequeue_bulk\<close>, which takes the elements at the positions \<open>I\<close>.\<close>

definition take_out :: "nat \<Rightarrow> nat set \<Rightarrow> 'a block_queue \<Rightarrow> 'a block_queue option" where
  "take_out i I s =
     (case clients s ! i of
        Deq n \<Rightarrow>
          (let ys = nths (inner s) I
           in if n < length ys then None
              else Some (s\<lparr>inner := nths (inner s) (- I), got_out := got_out s + mset ys,
                          clients := (clients s)[i := (if n = length ys then CIdle else Deq (n - length ys))]\<rparr>))
      | _ \<Rightarrow> None)"

definition size_approx :: "'a block_queue \<Rightarrow> int" where
  "size_approx s = availableApprox (m_count (sema s))"

section \<open>Every element has its permit\<close>

inductive bq_call :: "nat \<Rightarrow> 'a block_queue \<Rightarrow> 'a block_queue \<Rightarrow> bool" for i s where
  "bq_call i s (enqueue_bulk ok i xs s)" | "bq_call i s (bq_enqueue ok i x s)"
| "bq_call i s (try_dequeue i s)" | "bq_call i s (try_dequeue_bulk i mx s)"
| "bq_call i s (wait_dequeue i s)" | "bq_call i s (wait_dequeue_timed i tmo s)"
| "bq_call i s (wait_dequeue_bulk i mx s)" | "bq_call i s (wait_dequeue_bulk_timed i mx tmo s)"

inductive bq_run :: "nat \<Rightarrow> nat \<Rightarrow> 'a block_queue \<Rightarrow> bool" for maxSpins n where
  start: "bq_run maxSpins n (new_queue n)"
| call: "bq_run maxSpins n s \<Longrightarrow> i < n \<Longrightarrow> clients s ! i = CIdle \<Longrightarrow> bq_call i s s' \<Longrightarrow> bq_run maxSpins n s'"
| run: "bq_run maxSpins n s \<Longrightarrow> i < n \<Longrightarrow>
    thread_step maxSpins b (locals (sema s) ! i) (m_count (sema s), m_sema (sema s)) = Some (l', c', t') \<Longrightarrow>
    bq_run maxSpins n (s\<lparr>sema := (sema s)\<lparr>m_count := c', m_sema := t', locals := (locals (sema s))[i := l'],
      given := given (sema s) + signalled (locals (sema s) ! i)\<rparr>\<rparr>)"
| return: "bq_run maxSpins n s \<Longrightarrow> i < n \<Longrightarrow> locals (sema s) ! i = Returned r \<Longrightarrow> bq_run maxSpins n (after_sema i r s)"
| take: "bq_run maxSpins n s \<Longrightarrow> i < n \<Longrightarrow> take_out i I s = Some s' \<Longrightarrow> bq_run maxSpins n s'"

text \<open>The elements a client may take out, and how the client and its call of the semaphore fit.\<close>

fun need :: "bq_client \<Rightarrow> nat" where
  "need (Deq n) = n"
| "need _ = 0"

fun in_step :: "bq_client \<Rightarrow> sema_local \<Rightarrow> bool" where
  "in_step CIdle l = (l = Idle)"
| "in_step (Deq _) l = (l = Idle)"
| "in_step InSignal l = (case l of Signal k \<Rightarrow> 0 \<le> k | Post _ \<Rightarrow> True | Returned r \<Rightarrow> r = 0 | _ \<Rightarrow> False)"
| "in_step (InWait c) l = (call_ok c \<and> signalled l = 0)"

definition bq_inv :: "nat \<Rightarrow> nat \<Rightarrow> 'a block_queue \<Rightarrow> bool" where
  "bq_inv maxSpins n s \<longleftrightarrow> sema_run maxSpins 0 n (sema s) \<and> length (clients s) = n \<and> list_all2 in_step (clients s) (locals (sema s)) \<and>
     int (length (inner s)) + taken (sema s) =
       given (sema s) + total_of signalled (sema s) + int (sum_list (map need (clients s))) \<and>
     put_in s = got_out s + mset (inner s)"

lemma in_step_sema_step:
  assumes "in_step cl l" "thread_step maxSpins b l (c, t) = Some (l', c', t')"
  shows "in_step cl l'"
proof (cases cl)
  case InSignal
  then consider k where "l = Signal k" | k where "l = Post k" | "l = Returned 0"
    using assms(1) by (cases l) auto
  then show ?thesis
  proof cases
    case (1 k)
    then have "l' = fst (signal_step k (c, t))" using assms(2) by simp
    then show ?thesis using InSignal by (simp add: Let_def)
  next
    case (2 k)
    then show ?thesis using assms InSignal by (cases k) auto
  qed (use assms in simp)
next
  case (InWait d)
  have "signalled l' = 0"
  proof (cases l)
    case (Spin tmo mx k)
    then show ?thesis using assms(2) by (cases k) (auto split: if_splits)
  next
    case (Post k)
    then show ?thesis using assms(2) by (cases k) auto
  qed (use assms(2) in \<open>auto simp: Let_def after_one_def split: if_splits sema_mode.splits\<close>)
  then show ?thesis using assms(1) InWait by simp
qed (use assms in auto)

lemma mset_nths_parts: "mset (nths xs I) + mset (nths xs (- I)) = mset xs"
proof (induction xs arbitrary: I)
  case (Cons x xs)
  have "{j. Suc j \<in> - I} = - {j. Suc j \<in> I}" by blast
  then show ?case using Cons[of "{j. Suc j \<in> I}"] by (cases "0 \<in> I") (simp_all add: nths_Cons)
qed simp

lemma sum_list_need_set:
  "i < length cs \<Longrightarrow> int (sum_list (map need (cs[i := c]))) = int (sum_list (map need cs)) + int (need c) - int (need (cs ! i))"
  by (induction cs arbitrary: i) (auto split: nat.splits)

lemma set_client_fields [simp]:
  "inner (set_client i c l s) = inner s" "put_in (set_client i c l s) = put_in s" "got_out (set_client i c l s) = got_out s"
  "clients (set_client i c l s) = (clients s)[i := c]" "sema (set_client i c l s) = (sema s)\<lparr>locals := (locals (sema s))[i := l]\<rparr>"
  by (simp_all add: set_client_def)

text \<open>A call of the semaphore by an idle client, after elements were put in.\<close>

lemma bq_inv_start_call:
  assumes inv: "bq_inv maxSpins n s" and i: "i < n" "clients s ! i = CIdle" and l: "call_ok l" "in_step c l" "need c = 0"
    and xs: "int (length xs) = signalled l"
  shows "bq_inv maxSpins n (set_client i c l (s\<lparr>inner := inner s @ xs, put_in := put_in s + mset xs\<rparr>))"
proof -
  have len: "i < length (clients s)" "length (locals (sema s)) = n"
    using inv i by (auto simp: bq_inv_def dest: list_all2_lengthD)
  have "in_step (clients s ! i) (locals (sema s) ! i)"
    using inv len(1) by (auto simp: bq_inv_def dest: list_all2_nthD)
  then have idle: "locals (sema s) ! i = Idle" using i by simp
  have "sema_run maxSpins 0 n ((sema s)\<lparr>locals := (locals (sema s))[i := l]\<rparr>)"
    using inv i(1) idle l(1) by (intro sema_run.call) (auto simp: bq_inv_def)
  then show ?thesis
    using inv i l(2,3) len idle xs
    by (simp add: bq_inv_def sum_list_set sum_list_need_set list_all2_update_cong add.assoc)
qed

lemma call_ok_simps [simp]:
  "call_ok tryWait" "call_ok wait" "call_ok (wait_timed tmo)" "0 \<le> mx \<Longrightarrow> call_ok (tryWaitMany mx)"
  "0 \<le> mx \<Longrightarrow> call_ok (waitMany mx tmo)" "0 \<le> mx \<Longrightarrow> call_ok (signal_call mx)"
  by (auto intro: call_ok.intros)

lemma signalled_calls [simp]:
  "signalled tryWait = 0" "signalled wait = 0" "signalled (wait_timed tmo) = 0" "signalled (tryWaitMany mx) = 0"
  "signalled (waitMany mx tmo) = 0" "signalled (signal_call mx) = mx"
  by (simp_all add: tryWait_def wait_def wait_timed_def tryWaitMany_def waitMany_def signal_call_def)

lemma bq_inv_call:
  assumes inv: "bq_inv maxSpins n s" and i: "i < n" "clients s ! i = CIdle" and call: "bq_call i s s'"
  shows "bq_inv maxSpins n s'"
proof -
  have none: "set_client i c l (s\<lparr>inner := inner s @ [], put_in := put_in s + mset []\<rparr>) = set_client i c l s" for c l
    by simp
  have wait: "call_ok l \<Longrightarrow> signalled l = 0 \<Longrightarrow> bq_inv maxSpins n (set_client i (InWait l) l s)" for l
    using bq_inv_start_call[OF inv i, of l "InWait l" "[]"] unfolding none by simp
  have put: "bq_inv maxSpins n (enqueue_bulk ok i xs s)" for ok xs
    using inv bq_inv_start_call[OF inv i, of "signal_call (int (length xs))" InSignal xs]
    by (simp add: enqueue_bulk_def) (simp add: signal_call_def)
  from call show ?thesis
    by (cases rule: bq_call.cases)
      (simp_all add: wait put bq_enqueue_def try_dequeue_def try_dequeue_bulk_def wait_dequeue_def wait_dequeue_timed_def
        wait_dequeue_bulk_def wait_dequeue_bulk_timed_def)
qed

lemma bq_inv_len:
  assumes "bq_inv maxSpins n s" "i < n"
  shows "i < length (clients s)" "i < length (locals (sema s))" "in_step (clients s ! i) (locals (sema s) ! i)"
    "length (locals (sema s)) = n"
  using assms by (auto simp: bq_inv_def dest: list_all2_lengthD list_all2_nthD)

lemma bq_inv_run:
  assumes inv: "bq_inv maxSpins n s" and i: "i < n"
    and step: "thread_step maxSpins b (locals (sema s) ! i) (m_count (sema s), m_sema (sema s)) = Some (l', c', t')"
  shows "bq_inv maxSpins n (s\<lparr>sema := (sema s)\<lparr>m_count := c', m_sema := t', locals := (locals (sema s))[i := l'],
    given := given (sema s) + signalled (locals (sema s) ! i)\<rparr>\<rparr>)"
proof -
  note len = bq_inv_len[OF inv i]
  have sig: "signalled l' = 0"
  proof (cases "locals (sema s) ! i")
    case (Spin tmo mx k)
    then show ?thesis using step by (cases k) (auto split: if_splits)
  next
    case (Post k)
    then show ?thesis using step by (cases k) auto
  qed (use step in \<open>auto simp: Let_def after_one_def split: if_splits sema_mode.splits\<close>)
  have "in_step (clients s ! i) l'" using in_step_sema_step[OF len(3) step] .
  then have "list_all2 in_step ((clients s)[i := clients s ! i]) ((locals (sema s))[i := l'])"
    using inv by (intro list_all2_update_cong) (simp_all add: bq_inv_def)
  then have "list_all2 in_step (clients s) ((locals (sema s))[i := l'])" by simp
  moreover have "sema_run maxSpins 0 n ((sema s)\<lparr>m_count := c', m_sema := t', locals := (locals (sema s))[i := l'],
      given := given (sema s) + signalled (locals (sema s) ! i)\<rparr>)"
    using inv i step by (intro sema_run.run) (simp_all add: bq_inv_def)
  ultimately show ?thesis
    using inv len(2) sig by (simp add: bq_inv_def sum_list_set)
qed

lemma bq_inv_return:
  assumes inv: "bq_inv maxSpins n s" and n: "int n < 2 ^ 31" and i: "i < n" and r: "locals (sema s) ! i = Returned r"
  shows "bq_inv maxSpins n (after_sema i r s)"
proof -
  note len = bq_inv_len[OF inv i]
  have run: "sema_run maxSpins 0 n (sema s)" using inv by (simp add: bq_inv_def)
  have r0: "0 \<le> r"
    using sema_run_inv[OF run _ n] len(2) r by (auto simp: sema_inv_def list_all_length)
  have swap: "x\<lparr>locals := a, taken := b\<rparr> = x\<lparr>taken := b, locals := a\<rparr>" for x :: light_sema and a b by simp
  have idle_again: "sema_run maxSpins 0 n ((sema s)\<lparr>taken := taken (sema s) + r, locals := (locals (sema s))[i := Idle]\<rparr>)"
    using sema_run.return[OF run i r] unfolding swap .
  have again: "sema_run maxSpins 0 n ((sema s)\<lparr>taken := taken (sema s) + r, locals := (locals (sema s))[i := wait]\<rparr>)"
    using sema_run.call[OF idle_again i, of wait] len(2) by simp
  show ?thesis
  proof (cases "clients s ! i")
    case InSignal
    then have "r = 0" using len(3) r by simp
    then show ?thesis
      using inv len r InSignal idle_again by (simp add: after_sema_def bq_inv_def sum_list_set sum_list_need_set list_all2_update_cong)
  next
    case (InWait l)
    show ?thesis
    proof (cases "r = 0 \<and> l = wait")
      case True
      then show ?thesis
        using inv len r InWait again
        by (simp add: after_sema_def bq_inv_def sum_list_set sum_list_need_set list_all2_update_cong)
    next
      case False
      then have "after_sema i r s = set_client i (Deq (nat r)) Idle (s\<lparr>sema := (sema s)\<lparr>taken := taken (sema s) + r\<rparr>\<rparr>)"
        using InWait by (auto simp: after_sema_def)
      then show ?thesis
        using inv len r InWait idle_again r0
        by (simp add: bq_inv_def sum_list_set sum_list_need_set list_all2_update_cong)
    qed
  qed (use len(3) r in auto)
qed

lemma bq_inv_take:
  assumes inv: "bq_inv maxSpins n s" and i: "i < n" and take: "take_out i I s = Some s'"
  shows "bq_inv maxSpins n s'"
proof -
  note len = bq_inv_len[OF inv i]
  obtain m where m: "clients s ! i = Deq m" "length (nths (inner s) I) \<le> m"
    and s': "s' = s\<lparr>inner := nths (inner s) (- I), got_out := got_out s + mset (nths (inner s) I),
        clients := (clients s)[i := (if m = length (nths (inner s) I) then CIdle else Deq (m - length (nths (inner s) I)))]\<rparr>"
    using take by (auto simp: take_out_def Let_def split: bq_client.splits if_splits)
  define c where "c = (if m = length (nths (inner s) I) then CIdle else Deq (m - length (nths (inner s) I)))"
  have c: "int (need c) = int m - int (length (nths (inner s) I))" "in_step c (locals (sema s) ! i)"
    using m len(3) by (auto simp: c_def)
  have parts: "mset (nths (inner s) I) + mset (nths (inner s) (- I)) = mset (inner s)" by (rule mset_nths_parts)
  then have "length (nths (inner s) I) + length (nths (inner s) (- I)) = length (inner s)"
    by (metis size_mset size_union)
  moreover have "list_all2 in_step ((clients s)[i := c]) ((locals (sema s))[i := locals (sema s) ! i])"
    using inv c(2) by (intro list_all2_update_cong) (simp_all add: bq_inv_def)
  ultimately show ?thesis
    using inv len(1) m(1) c(1) parts unfolding s' c_def[symmetric]
    by (auto simp: bq_inv_def sum_list_need_set add.assoc)
qed

lemma bq_run_inv:
  assumes "bq_run maxSpins n s" "int n < 2 ^ 31"
  shows "bq_inv maxSpins n s"
  using assms(1)
proof (induction rule: bq_run.induct)
  case start
  have "list_all2 in_step (replicate n CIdle) (replicate n Idle)" by (simp add: list_all2_conv_all_nth)
  moreover have "sema_run maxSpins 0 n (new_sema 0 n)" by (rule sema_run.start)
  ultimately show ?case
    by (simp add: bq_inv_def new_queue_def) (simp add: new_sema_def sum_list_replicate)
next
  case (call s i s')
  then show ?case using bq_inv_call by blast
next
  case (run s i b l' c' t')
  then show ?case using bq_inv_run by blast
next
  case (return s i r)
  then show ?case using bq_inv_return[OF _ assms(2)] by blast
next
  case (take s i I s')
  then show ?case using bq_inv_take by blast
qed

lemma totals_nonneg:
  assumes "list_all local_ok ls"
  shows "0 \<le> sum_list (map held ls)" "0 \<le> sum_list (map signalled ls)"
proof -
  have "0 \<le> held l \<and> 0 \<le> signalled l" if "local_ok l" for l using that by (cases l) auto
  then show "0 \<le> sum_list (map held ls)" "0 \<le> sum_list (map signalled ls)"
    using assms by (auto intro!: sum_list_nonneg simp: list_all_iff)
qed



end
