(* ===== verification/FreeList.thy ===== *)
theory FreeList
  imports Prelude
begin

unbundle bit_operations_syntax

text \<open>
  The lock-free list of free blocks inside the queue of \<^verbatim>\<open>src/include/concurrentqueue.h\<close>
  (\<^verbatim>\<open>FreeList\<close>): a stack of nodes that any number of threads push to and pop from. A node
  has a word with the number of references to it and, in the highest bit, whether it should be
  put on the list by whoever drops the last reference.

  A thread is where it is in \<^verbatim>\<open>add\<close>, \<^verbatim>\<open>try_get\<close> or \<^verbatim>\<open>add_knowing_refcount_is_zero\<close> (\<open>fl_pc\<close>), and
  \<open>fl_step\<close> is its next access to an atomic variable; the threads take these steps in any order,
  each seeing the variables as the last step left them. The nodes that belong to the users of the
  list are the set \<open>owned\<close>: a node is added by its owner, and belongs to the thread that gets it.
\<close>

section \<open>The program of a thread\<close>

record fl_mem =
  fl_head :: "nat option"
  fl_refs :: "nat \<Rightarrow> u32"
  fl_next :: "nat \<Rightarrow> nat option"
  owned :: "nat set"

definition REFS_MASK :: u32 where "REFS_MASK = 0x7FFFFFFF"

definition SHOULD_BE_ON_FREELIST :: u32 where "SHOULD_BE_ON_FREELIST = 0x80000000"

definition new_free_list :: fl_mem where
  "new_free_list = \<lparr>fl_head = None, fl_refs = (\<lambda>_. 0), fl_next = (\<lambda>_. None), owned = UNIV\<rparr>"

text \<open>Where \<^verbatim>\<open>add_knowing_refcount_is_zero\<close> returns to: \<^verbatim>\<open>add\<close>, or the loop of \<^verbatim>\<open>try_get\<close> with its \<^verbatim>\<open>head\<close>.\<close>

datatype fl_cont = Added | Getting "nat option"

datatype fl_pc =
    Resting
  | Got "nat option"
  | Assert_failed
  | AddFetch nat
  | GetHead
  | GetRefs nat
  | GetCas nat u32
  | GetNext nat
  | GetSwap nat "nat option"
  | GetAssert nat
  | GetTake nat
  | GetDrop nat "nat option"
  | PutHead nat fl_cont
  | PutNext nat "nat option" fl_cont
  | PutRefs nat "nat option" fl_cont
  | PutCas nat "nat option" fl_cont
  | PutFail nat "nat option" fl_cont

text \<open>\<^verbatim>\<open>while (head != nullptr)\<close>, and the return of \<^verbatim>\<open>add_knowing_refcount_is_zero\<close>.\<close>

definition get_loop :: "nat option \<Rightarrow> fl_pc" where
  "get_loop h = (case h of None \<Rightarrow> Got None | Some n \<Rightarrow> GetRefs n)"

definition put_return :: "fl_cont \<Rightarrow> fl_pc" where
  "put_return k = (case k of Added \<Rightarrow> Resting | Getting h \<Rightarrow> get_loop h)"

definition set_refs :: "nat \<Rightarrow> u32 \<Rightarrow> fl_mem \<Rightarrow> fl_mem" where
  "set_refs n r m = m\<lparr>fl_refs := (fl_refs m)(n := r)\<rparr>"

fun fl_step :: "fl_pc \<Rightarrow> fl_mem \<Rightarrow> fl_pc \<times> fl_mem" where
  "fl_step (AddFetch n) m =
     (if fl_refs m n = 0 then PutHead n Added else Resting, set_refs n (fl_refs m n + SHOULD_BE_ON_FREELIST) m)"
| "fl_step GetHead m = (get_loop (fl_head m), m)"
| "fl_step (GetRefs h) m = (if fl_refs m h AND REFS_MASK = 0 then GetHead else GetCas h (fl_refs m h), m)"
| "fl_step (GetCas h r) m = (if fl_refs m h = r then (GetNext h, set_refs h (r + 1) m) else (GetHead, m))"
| "fl_step (GetNext h) m = (GetSwap h (fl_next m h), m)"
| "fl_step (GetSwap h nx) m =
     (if fl_head m = Some h then (GetAssert h, m\<lparr>fl_head := nx\<rparr>) else (GetDrop h (fl_head m), m))"
| "fl_step (GetAssert h) m = (if fl_refs m h AND SHOULD_BE_ON_FREELIST = 0 then GetTake h else Assert_failed, m)"
| "fl_step (GetTake h) m = (Got (Some h), set_refs h (fl_refs m h - 2) m\<lparr>owned := insert h (owned m)\<rparr>)"
| "fl_step (GetDrop p h) m =
     (if fl_refs m p = SHOULD_BE_ON_FREELIST + 1 then PutHead p (Getting h) else get_loop h,
      set_refs p (fl_refs m p - 1) m)"
| "fl_step (PutHead n k) m = (PutNext n (fl_head m) k, m)"
| "fl_step (PutNext n h k) m = (PutRefs n h k, m\<lparr>fl_next := (fl_next m)(n := h)\<rparr>)"
| "fl_step (PutRefs n h k) m = (PutCas n h k, set_refs n 1 m)"
| "fl_step (PutCas n h k) m =
     (if fl_head m = h then (put_return k, m\<lparr>fl_head := Some n\<rparr>) else (PutFail n (fl_head m) k, m))"
| "fl_step (PutFail n h k) m =
     (if fl_refs m n = 1 then PutNext n h k else put_return k, set_refs n (fl_refs m n + (SHOULD_BE_ON_FREELIST - 1)) m)"
| "fl_step Resting m = (Resting, m)"
| "fl_step (Got r) m = (Got r, m)"
| "fl_step Assert_failed m = (Assert_failed, m)"

section \<open>The threads together\<close>

definition outside :: "fl_pc \<Rightarrow> bool" where
  "outside p = (case p of Resting \<Rightarrow> True | Got _ \<Rightarrow> True | _ \<Rightarrow> False)"

text \<open>A thread outside may call \<^verbatim>\<open>add\<close> with a node of the users, or \<^verbatim>\<open>try_get\<close>.\<close>

inductive fl_next_state :: "fl_mem \<times> fl_pc list \<Rightarrow> fl_mem \<times> fl_pc list \<Rightarrow> bool" where
  call_add: "i < length ps \<Longrightarrow> outside (ps ! i) \<Longrightarrow> n \<in> owned m \<Longrightarrow>
     fl_next_state (m, ps) (m\<lparr>owned := owned m - {n}\<rparr>, ps[i := AddFetch n])"
| call_get: "i < length ps \<Longrightarrow> outside (ps ! i) \<Longrightarrow> fl_next_state (m, ps) (m, ps[i := GetHead])"
| turn: "i < length ps \<Longrightarrow> \<not> outside (ps ! i) \<Longrightarrow> fl_step (ps ! i) m = (p, m') \<Longrightarrow>
     fl_next_state (m, ps) (m', ps[i := p])"

inductive fl_reachable :: "nat \<Rightarrow> fl_mem \<times> fl_pc list \<Rightarrow> bool" for N where
  start: "fl_reachable N (new_free_list, replicate N Resting)"
| step: "fl_reachable N s \<Longrightarrow> fl_next_state s s' \<Longrightarrow> fl_reachable N s'"

section \<open>The word of a node\<close>

definition enc :: "bool \<Rightarrow> nat \<Rightarrow> u32" where
  "enc f k = (if f then SHOULD_BE_ON_FREELIST else 0) + of_nat k"

lemma unat_enc: "k < 2 ^ 31 \<Longrightarrow> unat (enc f k) = (if f then 2 ^ 31 else 0) + k"
  by (simp add: enc_def SHOULD_BE_ON_FREELIST_def unat_word_ariths unat_of_nat take_bit_nat_eq_self)

lemma enc_eq:
  assumes "k < 2 ^ 31" "j < 2 ^ 31" shows "enc f k = enc g j \<longleftrightarrow> f = g \<and> k = j"
proof
  assume "enc f k = enc g j"
  then have "(if f then 2 ^ 31 else 0) + k = (if g then 2 ^ 31 else 0) + j"
    using unat_enc[OF assms(1), of f] unat_enc[OF assms(2), of g] by metis
  then show "f = g \<and> k = j" using assms by (simp split: if_splits)
qed simp

lemma enc_mask:
  assumes "k < 2 ^ 31" shows "enc f k AND REFS_MASK = 0 \<longleftrightarrow> k = 0"
proof -
  have m: "REFS_MASK = mask 31" by (simp add: REFS_MASK_def mask_eq_exp_minus_1)
  have "unat (enc f k AND REFS_MASK) = take_bit 31 (unat (enc f k))"
    unfolding m take_bit_eq_mask[symmetric] by (rule unsigned_take_bit_eq)
  also have "\<dots> = unat (enc f k) mod 2 ^ 31" by (rule take_bit_eq_mod)
  also have "\<dots> = k" unfolding unat_enc[OF assms] using assms by simp
  finally show ?thesis by (metis unat_eq_zero)
qed

lemma enc_should:
  assumes "k < 2 ^ 31" shows "enc f k AND SHOULD_BE_ON_FREELIST = 0 \<longleftrightarrow> \<not> f"
proof -
  have m: "SHOULD_BE_ON_FREELIST = 2 ^ 31" by (simp add: SHOULD_BE_ON_FREELIST_def)
  have "bit (enc f k) 31 \<longleftrightarrow> bit (unat (enc f k)) 31" by (simp add: bit_unsigned_iff)
  also have "\<dots> \<longleftrightarrow> odd (unat (enc f k) div 2 ^ 31)" by (rule bit_iff_odd)
  also have "\<dots> \<longleftrightarrow> f"
  proof -
    have "(2 ^ 31 + k) div 2 ^ 31 = 1" using assms by (intro div_nat_eqI) simp_all
    then show ?thesis unfolding unat_enc[OF assms] using assms by simp
  qed
  finally show ?thesis unfolding m and_exp_eq_0_iff_not_bit by simp
qed

lemma enc_arith:
  "enc f k + 1 = enc f (Suc k)" "enc f (Suc k) - 1 = enc f k" "enc f (Suc (Suc k)) - 2 = enc f k"
  "enc False k + SHOULD_BE_ON_FREELIST = enc True k"
  "enc False (Suc k) + (SHOULD_BE_ON_FREELIST - 1) = enc True k"
  "enc False 0 = 0" "enc False 1 = 1" "enc True 1 = SHOULD_BE_ON_FREELIST + 1"
  by (simp_all add: enc_def)

section \<open>The invariant\<close>

text \<open>
  What a thread is to a node: it holds a reference, is about to add it, has it alone (its count
  is 0) before or after the count was set to 1, or has taken it off the list.
\<close>

datatype fl_role = Nothing | Holds | Adds | Early | Late | Takes

fun role :: "nat \<Rightarrow> fl_pc \<Rightarrow> fl_role" where
  "role n (AddFetch x) = (if x = n then Adds else Nothing)"
| "role n (GetNext x) = (if x = n then Holds else Nothing)"
| "role n (GetSwap x _) = (if x = n then Holds else Nothing)"
| "role n (GetDrop x _) = (if x = n then Holds else Nothing)"
| "role n (GetAssert x) = (if x = n then Takes else Nothing)"
| "role n (GetTake x) = (if x = n then Takes else Nothing)"
| "role n (PutHead x _) = (if x = n then Early else Nothing)"
| "role n (PutNext x _ _) = (if x = n then Early else Nothing)"
| "role n (PutRefs x _ _) = (if x = n then Early else Nothing)"
| "role n (PutCas x _ _) = (if x = n then Late else Nothing)"
| "role n (PutFail x _ _) = (if x = n then Late else Nothing)"
| "role n _ = Nothing"

definition count_role :: "fl_role \<Rightarrow> nat \<Rightarrow> fl_pc list \<Rightarrow> nat" where
  "count_role r n ps = length (filter (\<lambda>p. role n p = r) ps)"

lemma count_update:
  assumes "i < length ps"
  shows "count_role r n (ps[i := p]) = count_role r n ps - (if role n (ps ! i) = r then 1 else 0) + (if role n p = r then 1 else 0)"
proof -
  have "count_role r n (ps[i := p]) + (if role n (ps ! i) = r then 1 else 0) = count_role r n ps + (if role n p = r then 1 else 0)"
    using assms
  proof (induction ps arbitrary: i)
    case (Cons q ps)
    then show ?case by (cases i) (auto simp: count_role_def)
  qed simp
  moreover have "role n (ps ! i) = r \<Longrightarrow> 0 < count_role r n ps"
    using assms nth_mem[of i ps] by (auto simp: count_role_def length_greater_0_conv filter_empty_conv)
  ultimately show ?thesis by (auto split: if_splits)
qed

lemma count_pos: "i < length ps \<Longrightarrow> role n (ps ! i) = r \<Longrightarrow> 0 < count_role r n ps"
  using nth_mem[of i ps] by (auto simp: count_role_def length_greater_0_conv filter_empty_conv)

lemma count_zero: "p \<in> set ps \<Longrightarrow> count_role r n ps = 0 \<Longrightarrow> role n p \<noteq> r"
  by (auto simp: count_role_def filter_empty_conv)

lemma count_two:
  assumes "i < length ps" "j < length ps" "i \<noteq> j" "role n (ps ! i) = r" "role n (ps ! j) = r"
  shows "2 \<le> count_role r n ps"
proof -
  have "card {i, j} \<le> card {k. k < length ps \<and> role n (ps ! k) = r}"
    using assms by (intro card_mono) auto
  then show ?thesis using assms(3) by (simp add: count_role_def length_filter_conv_card)
qed

lemma counts_le: "count_role Holds n ps + count_role Takes n ps + count_role Late n ps \<le> length ps"
proof (induction ps)
  case (Cons p ps)
  then show ?case by (cases "role n p") (simp_all add: count_role_def)
qed (simp add: count_role_def)

text \<open>The nodes from a pointer on.\<close>

fun node_chain :: "(nat \<Rightarrow> nat option) \<Rightarrow> nat option \<Rightarrow> nat list \<Rightarrow> bool" where
  "node_chain nxt h [] = (h = None)"
| "node_chain nxt h (n # ns) = (h = Some n \<and> node_chain nxt (nxt n) ns)"

lemma chain_update: "n \<notin> set ns \<Longrightarrow> node_chain (nxt(n := x)) h ns = node_chain nxt h ns"
  by (induction ns arbitrary: h) auto

definition word_ok :: "bool \<Rightarrow> u32 \<Rightarrow> bool \<Rightarrow> bool \<Rightarrow> nat \<Rightarrow> nat \<Rightarrow> nat \<Rightarrow> nat \<Rightarrow> nat \<Rightarrow> bool" where
  "word_ok f r own on ho ad ea la tk \<longleftrightarrow>
     r = enc f (ho + (if on then 1 else 0) + 2 * tk + la) \<and>
     (if f then \<not> own \<and> \<not> on \<and> ad = 0 \<and> tk = 0 \<and> la = 0 \<and> (ea = 1 \<and> ho = 0 \<or> ea = 0 \<and> 0 < ho)
      else ea = 0 \<and> (if own then 1 else 0) + (if on then 1 else 0) + ad + tk + la = 1)"

definition node_ok :: "fl_mem \<Rightarrow> fl_pc list \<Rightarrow> nat list \<Rightarrow> nat \<Rightarrow> bool \<Rightarrow> bool" where
  "node_ok m ps L n f \<longleftrightarrow>
     word_ok f (fl_refs m n) (n \<in> owned m) (n \<in> set L) (count_role Holds n ps) (count_role Adds n ps)
       (count_role Early n ps) (count_role Late n ps) (count_role Takes n ps)"

text \<open>
  A thread before an exchange of the head has read or written the pointer of its node, and one
  before an exchange of a count has seen a reference.
\<close>

fun pc_ok :: "fl_mem \<Rightarrow> fl_pc \<Rightarrow> bool" where
  "pc_ok m (GetCas n r) = (r AND REFS_MASK \<noteq> 0)"
| "pc_ok m (GetSwap n nx) = (fl_next m n = nx)"
| "pc_ok m (PutRefs n h _) = (fl_next m n = h)"
| "pc_ok m (PutCas n h _) = (fl_next m n = h)"
| "pc_ok m Assert_failed = False"
| "pc_ok m _ = True"

definition fl_inv :: "fl_mem \<Rightarrow> fl_pc list \<Rightarrow> nat list \<Rightarrow> bool" where
  "fl_inv m ps L \<longleftrightarrow> node_chain (fl_next m) (fl_head m) L \<and> distinct L \<and> (\<forall>n. \<exists>f. node_ok m ps L n f) \<and>
     (\<forall>p \<in> set ps. pc_ok m p) \<and> length ps < 2 ^ 30"

lemma fl_inv_start: "N < 2 ^ 30 \<Longrightarrow> fl_inv new_free_list (replicate N Resting) []"
  by (auto simp: fl_inv_def new_free_list_def node_ok_def word_ok_def count_role_def enc_arith intro!: exI[of _ False])

text \<open>A step changes what is known about one node.\<close>

lemma fl_inv_step:
  assumes "fl_inv m ps L" "i < length ps" "node_chain (fl_next m') (fl_head m') L'" "distinct L'"
    and "\<And>n. n \<noteq> x \<Longrightarrow> fl_refs m' n = fl_refs m n \<and> (n \<in> owned m' \<longleftrightarrow> n \<in> owned m) \<and> (n \<in> set L' \<longleftrightarrow> n \<in> set L) \<and>
      role n (ps ! i) = Nothing \<and> role n p = Nothing"
    and "\<exists>f. node_ok m' (ps[i := p]) L' x f" "\<And>q. q \<in> set ps \<Longrightarrow> pc_ok m q \<Longrightarrow> pc_ok m' q" "pc_ok m' p"
  shows "fl_inv m' (ps[i := p]) L'"
proof -
  have "\<exists>f. node_ok m' (ps[i := p]) L' n f" for n
  proof (cases "n = x")
    case False
    obtain f where "node_ok m ps L n f" using assms(1) by (auto simp: fl_inv_def)
    moreover have "count_role r n (ps[i := p]) = count_role r n ps" if "r \<noteq> Nothing" for r
      using assms(2) assms(5)[OF False] that by (simp add: count_update)
    ultimately have "node_ok m' (ps[i := p]) L' n f" using assms(5)[OF False] by (simp add: node_ok_def)
    then show ?thesis ..
  qed (use assms(6) in simp)
  moreover have "\<forall>q \<in> set (ps[i := p]). pc_ok m' q"
    using assms(1,7,8) set_update_subset_insert[of ps i p] by (auto simp: fl_inv_def)
  ultimately show ?thesis using assms(1,3,4) by (simp add: fl_inv_def)
qed


lemma pc_ok_frame: "fl_next m' = fl_next m \<Longrightarrow> pc_ok m' q = pc_ok m q"
  by (cases q) simp_all

lemma fl_invD:
  assumes "fl_inv m ps L" shows "node_chain (fl_next m) (fl_head m) L" "distinct L" "p \<in> set ps \<Longrightarrow> pc_ok m p"
  using assms by (auto simp: fl_inv_def)

lemma fl_inv_pc: "fl_inv m ps L \<Longrightarrow> i < length ps \<Longrightarrow> pc_ok m (ps ! i)"
  by (simp add: fl_inv_def)

text \<open>A step that only changes the word of the node, or who owns it.\<close>

lemma fl_inv_word:
  assumes "fl_inv m ps L" "i < length ps" "fl_next m' = fl_next m" "fl_head m' = fl_head m"
    and "\<And>n. n \<noteq> x \<Longrightarrow> fl_refs m' n = fl_refs m n \<and> (n \<in> owned m' \<longleftrightarrow> n \<in> owned m) \<and>
      role n (ps ! i) = Nothing \<and> role n p = Nothing"
    and "node_ok m' (ps[i := p]) L x f" "pc_ok m p"
  shows "fl_inv m' (ps[i := p]) L"
  using fl_invD[OF assms(1)] assms(5-7)
  by (intro fl_inv_step[OF assms(1,2), where x = x])
    (auto simp: assms(3,4) pc_ok_frame[OF assms(3)])

lemma fl_inv_node:
  assumes "fl_inv m ps L"
  obtains f where "word_ok f (fl_refs m n) (n \<in> owned m) (n \<in> set L) (count_role Holds n ps) (count_role Adds n ps)
      (count_role Early n ps) (count_role Late n ps) (count_role Takes n ps)"
    "count_role Holds n ps + 2 * count_role Takes n ps + count_role Late n ps < 2 ^ 31 - 2"
proof -
  obtain f where f: "node_ok m ps L n f" using assms by (auto simp: fl_inv_def)
  have "length ps < 2 ^ 30" using assms by (simp add: fl_inv_def)
  moreover have "count_role Takes n ps \<le> 1"
    using f by (auto simp: node_ok_def word_ok_def split: if_splits)
  ultimately have "count_role Holds n ps + 2 * count_role Takes n ps + count_role Late n ps < 2 ^ 31 - 2"
    using counts_le[of n ps] by simp
  with f show ?thesis by (intro that[of f]) (simp_all add: node_ok_def)
qed

text \<open>The one place a node is in determines the rest.\<close>

lemma word_okD:
  assumes "word_ok f r own on ho ad ea la tk"
  shows "own \<Longrightarrow> \<not> f \<and> \<not> on \<and> ad = 0 \<and> ea = 0 \<and> la = 0 \<and> tk = 0 \<and> r = enc False ho"
    "on \<Longrightarrow> \<not> f \<and> \<not> own \<and> ad = 0 \<and> ea = 0 \<and> la = 0 \<and> tk = 0 \<and> r = enc False (Suc ho)"
    "0 < ad \<Longrightarrow> \<not> f \<and> \<not> own \<and> \<not> on \<and> ad = 1 \<and> ea = 0 \<and> la = 0 \<and> tk = 0 \<and> r = enc False ho"
    "0 < ea \<Longrightarrow> f \<and> \<not> own \<and> \<not> on \<and> ad = 0 \<and> ea = 1 \<and> la = 0 \<and> tk = 0 \<and> ho = 0 \<and> r = enc True 0"
    "0 < la \<Longrightarrow> \<not> f \<and> \<not> own \<and> \<not> on \<and> ad = 0 \<and> ea = 0 \<and> la = 1 \<and> tk = 0 \<and> r = enc False (Suc ho)"
    "0 < tk \<Longrightarrow> \<not> f \<and> \<not> own \<and> \<not> on \<and> ad = 0 \<and> ea = 0 \<and> la = 0 \<and> tk = 1 \<and> r = enc False (Suc (Suc ho))"
proof -
  have o: "(1 :: nat) = Suc 0" by simp
  note w = assms[unfolded word_ok_def o]
  show "own \<Longrightarrow> \<not> f \<and> \<not> on \<and> ad = 0 \<and> ea = 0 \<and> la = 0 \<and> tk = 0 \<and> r = enc False ho"
    "on \<Longrightarrow> \<not> f \<and> \<not> own \<and> ad = 0 \<and> ea = 0 \<and> la = 0 \<and> tk = 0 \<and> r = enc False (Suc ho)"
    "0 < ad \<Longrightarrow> \<not> f \<and> \<not> own \<and> \<not> on \<and> ad = 1 \<and> ea = 0 \<and> la = 0 \<and> tk = 0 \<and> r = enc False ho"
    "0 < ea \<Longrightarrow> f \<and> \<not> own \<and> \<not> on \<and> ad = 0 \<and> ea = 1 \<and> la = 0 \<and> tk = 0 \<and> ho = 0 \<and> r = enc True 0"
    "0 < la \<Longrightarrow> \<not> f \<and> \<not> own \<and> \<not> on \<and> ad = 0 \<and> ea = 0 \<and> la = 1 \<and> tk = 0 \<and> r = enc False (Suc ho)"
    "0 < tk \<Longrightarrow> \<not> f \<and> \<not> own \<and> \<not> on \<and> ad = 0 \<and> ea = 0 \<and> la = 0 \<and> tk = 1 \<and> r = enc False (Suc (Suc ho))"
    using w by (auto simp: add_is_1 split: if_splits)
qed

lemma fl_inv_local:
  assumes "fl_inv m ps L" "i < length ps" "\<And>n. role n p = role n (ps ! i)" "pc_ok m p"
  shows "fl_inv m (ps[i := p]) L"
proof -
  have "count_role r n (ps[i := p]) = count_role r n ps" for r n
    using assms(2,3) count_pos[OF assms(2), of n r] by (auto simp: count_update)
  then show ?thesis
    using assms(1,4) set_update_subset_insert[of ps i p] by (auto simp: fl_inv_def node_ok_def)
qed

lemma get_loop_simps [simp]: "role n (get_loop h) = Nothing" "pc_ok m (get_loop h)"
  by (simp_all add: get_loop_def split: option.split)

lemma put_return_simps [simp]: "role n (put_return k) = Nothing" "pc_ok m (put_return k)"
  by (simp_all add: put_return_def split: fl_cont.split)

lemma inv_AddFetch:
  assumes "fl_inv m ps L" "i < length ps" "ps ! i = AddFetch n" "fl_step (AddFetch n) m = (p, m')"
  shows "fl_inv m' (ps[i := p]) L"
proof -
  obtain f where w: "word_ok f (fl_refs m n) (n \<in> owned m) (n \<in> set L) (count_role Holds n ps) (count_role Adds n ps)
      (count_role Early n ps) (count_role Late n ps) (count_role Takes n ps)"
    and b: "count_role Holds n ps + 2 * count_role Takes n ps + count_role Late n ps < 2 ^ 31 - 2"
    using fl_inv_node[OF assms(1)] .
  have a: "0 < count_role Adds n ps" using count_pos[OF assms(2), of n Adds] assms(3) by simp
  note st = word_okD(3)[OF w a]
  have z: "fl_refs m n = 0 \<longleftrightarrow> count_role Holds n ps = 0"
    using enc_eq[of "count_role Holds n ps" 0 False False] b st by (simp add: enc_arith)
  have ok: "node_ok m' (ps[i := p]) L n True"
    using assms(2-4) st z by (auto simp: node_ok_def word_ok_def count_update set_refs_def enc_arith)
  show ?thesis
    using assms(3,4) by (intro fl_inv_word[OF assms(1,2) _ _ _ ok]) (auto simp: set_refs_def)
qed


lemma inv_GetCas:
  assumes "fl_inv m ps L" "i < length ps" "ps ! i = GetCas n r" "fl_refs m n = r"
  shows "fl_inv (set_refs n (r + 1) m) (ps[i := GetNext n]) L"
proof -
  obtain f where w: "word_ok f (fl_refs m n) (n \<in> owned m) (n \<in> set L) (count_role Holds n ps) (count_role Adds n ps)
      (count_role Early n ps) (count_role Late n ps) (count_role Takes n ps)"
    using fl_inv_node[OF assms(1)] .
  have "r AND REFS_MASK \<noteq> 0" using fl_inv_pc[OF assms(1,2)] assms(3) by simp
  then have e: "0 < count_role Early n ps \<Longrightarrow> False"
    using word_okD(4)[OF w] assms(4) enc_mask[of 0 True] by simp
  have ok: "node_ok (set_refs n (r + 1) m) (ps[i := GetNext n]) L n f"
    using assms(2,3) w e unfolding assms(4)[symmetric]
    by (auto simp: node_ok_def word_ok_def count_update set_refs_def enc_arith)
  show ?thesis
    using assms(3) by (intro fl_inv_word[OF assms(1,2) _ _ _ ok]) (auto simp: set_refs_def)
qed

lemma inv_GetSwap:
  assumes "fl_inv m ps L" "i < length ps" "ps ! i = GetSwap n nx" "fl_head m = Some n"
  shows "\<exists>L'. fl_inv (m\<lparr>fl_head := nx\<rparr>) (ps[i := GetAssert n]) L'"
proof -
  obtain L' where L: "L = n # L'" "node_chain (fl_next m) (fl_next m n) L'" "distinct L'" "n \<notin> set L'"
    using fl_invD(1,2)[OF assms(1)] assms(4) by (cases L) auto
  have nx: "fl_next m n = nx" using fl_inv_pc[OF assms(1,2)] assms(3) by simp
  obtain f where w: "word_ok f (fl_refs m n) (n \<in> owned m) (n \<in> set L) (count_role Holds n ps) (count_role Adds n ps)
      (count_role Early n ps) (count_role Late n ps) (count_role Takes n ps)"
    using fl_inv_node[OF assms(1)] .
  have "n \<in> set L" using L(1) by simp
  note st = word_okD(2)[OF w this]
  have h: "0 < count_role Holds n ps" using count_pos[OF assms(2), of n Holds] assms(3) by simp
  then have "fl_refs m n = enc False (Suc (Suc (count_role Holds n ps - 1)))" using st by simp
  then have ok: "node_ok (m\<lparr>fl_head := nx\<rparr>) (ps[i := GetAssert n]) L' n False"
    using assms(2,3) st L(4) by (simp add: node_ok_def word_ok_def count_update)
  have "fl_inv (m\<lparr>fl_head := nx\<rparr>) (ps[i := GetAssert n]) L'"
    using L nx assms(3) ok pc_ok_frame[of "m\<lparr>fl_head := nx\<rparr>" m]
    by (intro fl_inv_step[OF assms(1,2), where x = n]) (auto simp del: pc_ok.simps simp: pc_ok.simps(12))
  then show ?thesis ..
qed

lemma inv_GetTake:
  assumes "fl_inv m ps L" "i < length ps" "ps ! i = GetTake n"
  shows "fl_inv (set_refs n (fl_refs m n - 2) m\<lparr>owned := insert n (owned m)\<rparr>) (ps[i := Got (Some n)]) L"
proof -
  obtain f where w: "word_ok f (fl_refs m n) (n \<in> owned m) (n \<in> set L) (count_role Holds n ps) (count_role Adds n ps)
      (count_role Early n ps) (count_role Late n ps) (count_role Takes n ps)"
    using fl_inv_node[OF assms(1)] .
  have "0 < count_role Takes n ps" using count_pos[OF assms(2), of n Takes] assms(3) by simp
  note st = word_okD(6)[OF w this]
  have ok: "node_ok (set_refs n (fl_refs m n - 2) m\<lparr>owned := insert n (owned m)\<rparr>) (ps[i := Got (Some n)]) L n False"
    using assms(2,3) st by (simp add: node_ok_def word_ok_def count_update set_refs_def enc_arith)
  show ?thesis
    using assms(3) by (intro fl_inv_word[OF assms(1,2) _ _ _ ok]) (auto simp: set_refs_def)
qed


lemma inv_GetDrop:
  assumes "fl_inv m ps L" "i < length ps" "ps ! i = GetDrop n h" "fl_step (GetDrop n h) m = (p, m')"
  shows "fl_inv m' (ps[i := p]) L"
proof -
  obtain f where w: "word_ok f (fl_refs m n) (n \<in> owned m) (n \<in> set L) (count_role Holds n ps) (count_role Adds n ps)
      (count_role Early n ps) (count_role Late n ps) (count_role Takes n ps)"
    and b: "count_role Holds n ps + 2 * count_role Takes n ps + count_role Late n ps < 2 ^ 31 - 2"
    using fl_inv_node[OF assms(1)] .
  obtain k where k: "count_role Holds n ps = Suc k"
    using count_pos[OF assms(2), of n Holds] assms(3) gr0_implies_Suc by fastforce
  define t where "t = k + (if n \<in> set L then 1 else 0) + 2 * count_role Takes n ps + count_role Late n ps"
  have r: "fl_refs m n = enc f (Suc t)" and t: "Suc t < 2 ^ 31" using w b k by (auto simp: word_ok_def t_def)
  have one: "fl_refs m n = SHOULD_BE_ON_FREELIST + 1 \<longleftrightarrow> f \<and> t = 0"
    using enc_eq[OF t, of 1 f True] unfolding r enc_arith(8)[symmetric] by simp
  have p: "p = (if f \<and> t = 0 then PutHead n (Getting h) else get_loop h)" and m': "m' = set_refs n (enc f t) m"
    using assms(4) one[unfolded r] by (auto simp: r enc_arith(2))
  have refs: "fl_refs m' n = enc f t" "owned m' = owned m" by (simp_all add: m' set_refs_def)
  have ok: "node_ok m' (ps[i := p]) L n f"
  proof (cases "f \<and> t = 0")
    case True
    then show ?thesis
      using w k assms(2,3) unfolding node_ok_def refs by (auto simp: word_ok_def count_update p t_def)
  next
    case False
    then have p': "p = get_loop h" by (auto simp: p)
    show ?thesis
      using w k False assms(2,3) unfolding node_ok_def refs p' by (auto simp: word_ok_def count_update t_def)
  qed
  show ?thesis
    using assms(3) p by (intro fl_inv_word[OF assms(1,2) _ _ _ ok]) (auto simp: m' set_refs_def)
qed

lemma inv_PutNext:
  assumes "fl_inv m ps L" "i < length ps" "ps ! i = PutNext n h k"
  shows "fl_inv (m\<lparr>fl_next := (fl_next m)(n := h)\<rparr>) (ps[i := PutRefs n h k]) L"
proof -
  obtain f where w: "word_ok f (fl_refs m n) (n \<in> owned m) (n \<in> set L) (count_role Holds n ps) (count_role Adds n ps)
      (count_role Early n ps) (count_role Late n ps) (count_role Takes n ps)"
    using fl_inv_node[OF assms(1)] .
  have "0 < count_role Early n ps" using count_pos[OF assms(2), of n Early] assms(3) by simp
  note st = word_okD(4)[OF w this]
  have others: "role n q \<noteq> Holds" "role n q \<noteq> Late" "role n q = Early \<Longrightarrow> q = PutNext n h k" if q: "q \<in> set ps" for q
  proof -
    show "role n q \<noteq> Holds" "role n q \<noteq> Late" using count_zero[OF q] st by blast+
    obtain j where j: "j < length ps" "q = ps ! j" using q by (metis in_set_conv_nth)
    show "q = PutNext n h k" if "role n q = Early"
    proof (rule ccontr)
      assume "q \<noteq> PutNext n h k"
      then have "i \<noteq> j" using j(2) assms(3) by auto
      then show False using count_two[OF assms(2) j(1), of n Early] assms(3) j(2) that st by simp
    qed
  qed
  have pcs: "pc_ok (m\<lparr>fl_next := (fl_next m)(n := h)\<rparr>) q" if "q \<in> set ps" "pc_ok m q" for q
  proof (cases q)
    case (GetSwap x y)
    then show ?thesis using that(2) others(1)[OF that(1)] by auto
  next
    case (PutRefs x y z)
    then show ?thesis using that(2) others(3)[OF that(1)] by auto
  next
    case (PutCas x y z)
    then show ?thesis using that(2) others(2)[OF that(1)] by auto
  qed (use that(2) in simp_all)
  have ok: "node_ok (m\<lparr>fl_next := (fl_next m)(n := h)\<rparr>) (ps[i := PutRefs n h k]) L n True"
    using assms(2,3) st by (simp add: node_ok_def word_ok_def count_update)
  show ?thesis
    using assms(3) ok pcs fl_invD(1,2)[OF assms(1)] st
    by (intro fl_inv_step[OF assms(1,2), where x = n]) (auto simp: chain_update)
qed

lemma inv_PutRefs:
  assumes "fl_inv m ps L" "i < length ps" "ps ! i = PutRefs n h k"
  shows "fl_inv (set_refs n 1 m) (ps[i := PutCas n h k]) L"
proof -
  obtain f where w: "word_ok f (fl_refs m n) (n \<in> owned m) (n \<in> set L) (count_role Holds n ps) (count_role Adds n ps)
      (count_role Early n ps) (count_role Late n ps) (count_role Takes n ps)"
    using fl_inv_node[OF assms(1)] .
  have "0 < count_role Early n ps" using count_pos[OF assms(2), of n Early] assms(3) by simp
  note st = word_okD(4)[OF w this]
  have ok: "node_ok (set_refs n 1 m) (ps[i := PutCas n h k]) L n False"
    using assms(2,3) st by (simp add: node_ok_def word_ok_def count_update set_refs_def flip: enc_arith(7))
  show ?thesis
    using fl_inv_pc[OF assms(1,2)] assms(3) by (intro fl_inv_word[OF assms(1,2) _ _ _ ok]) (auto simp: set_refs_def)
qed

lemma inv_PutCas:
  assumes "fl_inv m ps L" "i < length ps" "ps ! i = PutCas n h k" "fl_head m = h"
  shows "\<exists>L'. fl_inv (m\<lparr>fl_head := Some n\<rparr>) (ps[i := put_return k]) L'"
proof -
  obtain f where w: "word_ok f (fl_refs m n) (n \<in> owned m) (n \<in> set L) (count_role Holds n ps) (count_role Adds n ps)
      (count_role Early n ps) (count_role Late n ps) (count_role Takes n ps)"
    using fl_inv_node[OF assms(1)] .
  have "0 < count_role Late n ps" using count_pos[OF assms(2), of n Late] assms(3) by simp
  note st = word_okD(5)[OF w this]
  have nx: "fl_next m n = h" using fl_inv_pc[OF assms(1,2)] assms(3) by simp
  have ok: "node_ok (m\<lparr>fl_head := Some n\<rparr>) (ps[i := put_return k]) (n # L) n False"
    using assms(2,3) st by (simp add: node_ok_def word_ok_def count_update)
  have "fl_inv (m\<lparr>fl_head := Some n\<rparr>) (ps[i := put_return k]) (n # L)"
    using assms(3,4) ok nx st fl_invD(1,2)[OF assms(1)]
    by (intro fl_inv_step[OF assms(1,2), where x = n])
      (auto simp: pc_ok_frame[of "m\<lparr>fl_head := Some n\<rparr>" m])
  then show ?thesis ..
qed

lemma inv_PutFail:
  assumes "fl_inv m ps L" "i < length ps" "ps ! i = PutFail n h k" "fl_step (PutFail n h k) m = (p, m')"
  shows "fl_inv m' (ps[i := p]) L"
proof -
  obtain f where w: "word_ok f (fl_refs m n) (n \<in> owned m) (n \<in> set L) (count_role Holds n ps) (count_role Adds n ps)
      (count_role Early n ps) (count_role Late n ps) (count_role Takes n ps)"
    and b: "count_role Holds n ps + 2 * count_role Takes n ps + count_role Late n ps < 2 ^ 31 - 2"
    using fl_inv_node[OF assms(1)] .
  have "0 < count_role Late n ps" using count_pos[OF assms(2), of n Late] assms(3) by simp
  note st = word_okD(5)[OF w this]
  have one: "fl_refs m n = 1 \<longleftrightarrow> count_role Holds n ps = 0"
    using enc_eq[of "Suc (count_role Holds n ps)" 1 False False] b st unfolding enc_arith(7) by simp
  have ok: "node_ok m' (ps[i := p]) L n True"
    using assms(2-4) st one by (auto simp: node_ok_def word_ok_def count_update set_refs_def enc_arith)
  show ?thesis
    using assms(3,4) by (intro fl_inv_word[OF assms(1,2) _ _ _ ok]) (auto simp: set_refs_def)
qed


lemma inv_call_add:
  assumes "fl_inv m ps L" "i < length ps" "outside (ps ! i)" "n \<in> owned m"
  shows "fl_inv (m\<lparr>owned := owned m - {n}\<rparr>) (ps[i := AddFetch n]) L"
proof -
  obtain f where w: "word_ok f (fl_refs m n) (n \<in> owned m) (n \<in> set L) (count_role Holds n ps) (count_role Adds n ps)
      (count_role Early n ps) (count_role Late n ps) (count_role Takes n ps)"
    using fl_inv_node[OF assms(1)] .
  have role: "role x (ps ! i) = Nothing" for x using assms(3) by (cases "ps ! i") (simp_all add: outside_def)
  note st = word_okD(1)[OF w assms(4)]
  have ok: "node_ok (m\<lparr>owned := owned m - {n}\<rparr>) (ps[i := AddFetch n]) L n False"
    using assms(2) st role by (simp add: node_ok_def word_ok_def count_update)
  show ?thesis
    using role by (intro fl_inv_word[OF assms(1,2) _ _ _ ok]) auto
qed

lemma fl_inv_turn:
  assumes "fl_inv m ps L" "i < length ps" "fl_step (ps ! i) m = (p, m')"
  shows "\<exists>L'. fl_inv m' (ps[i := p]) L'"
proof -
  note inv = assms(1,2)
  have local: "\<exists>L'. fl_inv m (ps[i := q]) L'" if "\<And>n. role n q = role n (ps ! i)" "pc_ok m q" for q
    using fl_inv_local[OF inv that] ..
  show ?thesis
  proof (cases "ps ! i")
    case (GetRefs h)
    then show ?thesis using assms(3) local[of p] by (auto split: if_splits)
  next
    case (GetCas h r)
    then show ?thesis using assms(3) local[of p] inv_GetCas[OF inv GetCas] by (auto split: if_splits)
  next
    case (GetSwap h nx)
    then show ?thesis using assms(3) local[of p] inv_GetSwap[OF inv GetSwap] by (auto split: if_splits)
  next
    case (GetAssert h)
    obtain f where w: "word_ok f (fl_refs m h) (h \<in> owned m) (h \<in> set L) (count_role Holds h ps) (count_role Adds h ps)
        (count_role Early h ps) (count_role Late h ps) (count_role Takes h ps)"
      and b: "count_role Holds h ps + 2 * count_role Takes h ps + count_role Late h ps < 2 ^ 31 - 2"
      using fl_inv_node[OF assms(1)] .
    have "0 < count_role Takes h ps" using count_pos[OF assms(2), of h Takes] GetAssert by simp
    note st = word_okD(6)[OF w this]
    then have "fl_refs m h AND SHOULD_BE_ON_FREELIST = 0"
      using b enc_should[of "Suc (Suc (count_role Holds h ps))" False] by simp
    then show ?thesis using assms(3) GetAssert local[of p] by auto
  next
    case (PutCas n h k)
    then show ?thesis using assms(3) local[of p] inv_PutCas[OF inv PutCas] by (auto split: if_splits)
  next
    case (AddFetch n)
    then show ?thesis using inv_AddFetch[OF inv AddFetch] assms(3) by metis
  next
    case (GetDrop n h)
    then show ?thesis using inv_GetDrop[OF inv GetDrop] assms(3) by metis
  next
    case (PutFail n h k)
    then show ?thesis using inv_PutFail[OF inv PutFail] assms(3) by metis
  next
    case (GetTake h)
    then show ?thesis using inv_GetTake[OF inv GetTake] assms(3) by auto
  next
    case (PutNext n h k)
    then show ?thesis using inv_PutNext[OF inv PutNext] assms(3) by auto
  next
    case (PutRefs n h k)
    then show ?thesis using inv_PutRefs[OF inv PutRefs] assms(3) by auto
  next
    case Assert_failed
    then show ?thesis using fl_inv_pc[OF inv] by simp
  next
    case (Got r)
    then have "ps[i := p] = ps" "m' = m" using assms(3) by (auto simp: list_update_same_conv[OF assms(2)])
    then show ?thesis using assms(1) by auto
  qed (use assms(3) local[of p] in auto)
qed

lemma fl_inv_next:
  assumes "fl_next_state (m, ps) (m', ps')" "fl_inv m ps L"
  shows "\<exists>L'. fl_inv m' ps' L'"
  using assms(1)
proof (cases rule: fl_next_state.cases)
  case (call_add i n)
  then show ?thesis using inv_call_add[OF assms(2)] by auto
next
  case (call_get i)
  then have "role n (ps ! i) = Nothing" for n by (cases "ps ! i") (simp_all add: outside_def)
  then show ?thesis using call_get fl_inv_local[OF assms(2), of i GetHead] by auto
next
  case (turn i p)
  then show ?thesis using fl_inv_turn[OF assms(2)] by auto
qed

lemma fl_reachable_inv:
  assumes "fl_reachable N s" "N < 2 ^ 30"
  shows "length (snd s) = N \<and> (\<exists>L. fl_inv (fst s) (snd s) L)"
  using assms(1)
proof (induction rule: fl_reachable.induct)
  case start
  then show ?case using fl_inv_start[OF assms(2)] by auto
next
  case (step s s')
  obtain m ps m' ps' where s: "s = (m, ps)" "s' = (m', ps')" by (cases s, cases s')
  have "length ps' = length ps" using step(2) unfolding s by (cases rule: fl_next_state.cases) simp_all
  then show ?case using step fl_inv_next[of m ps m' ps'] by (auto simp: s)
qed


text \<open>A given interleaving can be run.\<close>

datatype fl_event = Call_add nat nat | Call_get nat | Turn nat

fun fl_do :: "fl_event \<Rightarrow> fl_mem \<times> fl_pc list \<Rightarrow> (fl_mem \<times> fl_pc list) option" where
  "fl_do (Call_add i n) (m, ps) =
     (if i < length ps \<and> outside (ps ! i) \<and> n \<in> owned m then Some (m\<lparr>owned := owned m - {n}\<rparr>, ps[i := AddFetch n]) else None)"
| "fl_do (Call_get i) (m, ps) = (if i < length ps \<and> outside (ps ! i) then Some (m, ps[i := GetHead]) else None)"
| "fl_do (Turn i) (m, ps) =
     (if i < length ps \<and> \<not> outside (ps ! i) then (case fl_step (ps ! i) m of (p, m') \<Rightarrow> Some (m', ps[i := p])) else None)"

fun fl_run :: "fl_event list \<Rightarrow> fl_mem \<times> fl_pc list \<Rightarrow> (fl_mem \<times> fl_pc list) option" where
  "fl_run [] s = Some s"
| "fl_run (e # es) s = Option.bind (fl_do e s) (fl_run es)"

lemma fl_do_next: "fl_do e s = Some s' \<Longrightarrow> fl_next_state s s'"
  by (cases "(e, s)" rule: fl_do.cases) (auto intro: fl_next_state.intros split: if_splits prod.splits)

lemma fl_run_reachable: "fl_run es s = Some s' \<Longrightarrow> fl_reachable N s \<Longrightarrow> fl_reachable N s'"
proof (induction es arbitrary: s)
  case (Cons e es)
  then obtain s1 where "fl_do e s = Some s1" "fl_run es s1 = Some s'" by (auto simp: bind_eq_Some_conv)
  then show ?case using Cons.IH fl_reachable.step[OF Cons.prems(2) fl_do_next] by blast
qed simp

text \<open>
  Two threads: the first adds node 3; the second reads the head; then the first takes the node off,
  so that the second sees a count of 0 and starts over.
\<close>

definition demo_add :: "fl_event list" where
  "demo_add = Call_add 0 3 # replicate 5 (Turn 0)"

definition demo_race :: "fl_event list" where
  "demo_race = demo_add @ [Call_get 1, Turn 1] @ Call_get 0 # replicate 6 (Turn 0)"

lemmas demo_eval = numeral_eq_Suc outside_def set_refs_def put_return_def get_loop_def new_free_list_def
  REFS_MASK_def SHOULD_BE_ON_FREELIST_def

lemma demo_runs:
  "\<exists>m. fl_run demo_add (new_free_list, replicate 2 Resting) = Some (m, [Resting, Resting]) \<and> owned m = UNIV - {3}"
  "\<exists>m. fl_run demo_race (new_free_list, replicate 2 Resting) = Some (m, [GetTake 3, GetRefs 3])"
  "\<exists>m. fl_run (demo_race @ [Turn 0, Turn 1, Turn 1]) (new_free_list, replicate 2 Resting) =
     Some (m, [Got (Some 3), Got None]) \<and> owned m = UNIV"
  by (simp_all add: demo_add_def demo_race_def demo_eval)

section \<open>What the list guarantees\<close>

text \<open>
  C17. A node that is about to be returned by \<^verbatim>\<open>try_get\<close> belongs to nobody else: no user owns it, no other
  thread is about to get it or to add it, and the assertion of the source holds.
\<close>

theorem free_list_exclusive:
  assumes "fl_reachable N (m, ps)" "N < 2 ^ 30" "i < N" "ps ! i = GetTake h"
  shows "h \<notin> owned m \<and> (\<forall>j < N. j \<noteq> i \<longrightarrow> role h (ps ! j) \<in> {Nothing, Holds}) \<and> Assert_failed \<notin> set ps"
proof -
  obtain L where l: "length ps = N" and inv: "fl_inv m ps L" using fl_reachable_inv[OF assms(1,2)] by auto
  obtain f where w: "word_ok f (fl_refs m h) (h \<in> owned m) (h \<in> set L) (count_role Holds h ps) (count_role Adds h ps)
      (count_role Early h ps) (count_role Late h ps) (count_role Takes h ps)"
    using fl_inv_node[OF inv] .
  have "0 < count_role Takes h ps" using count_pos[of i ps h Takes] assms(3,4) l by simp
  note st = word_okD(6)[OF w this]
  have "role h (ps ! j) \<in> {Nothing, Holds}" if j: "j < N" "j \<noteq> i" for j
  proof -
    have q: "ps ! j \<in> set ps" using j l by simp
    have "role h (ps ! j) \<noteq> Takes" using count_two[of i ps j h Takes] assms(3,4) j l st by auto
    then show ?thesis using count_zero[OF q, of Adds h] count_zero[OF q, of Early h] count_zero[OF q, of Late h] st
      by (cases "role h (ps ! j)") auto
  qed
  then show ?thesis using st fl_invD(3)[OF inv, of Assert_failed] by auto
qed

theorem free_list_exclusive_witness: "\<exists>m. fl_reachable 2 (m, [GetTake 3, GetRefs 3]) \<and> 3 \<notin> owned m"
proof -
  obtain m where "fl_run demo_race (new_free_list, replicate 2 Resting) = Some (m, [GetTake 3, GetRefs 3])"
    using demo_runs(2) by blast
  then have r: "fl_reachable 2 (m, [GetTake 3, GetRefs 3])" using fl_run_reachable fl_reachable.start by blast
  then show ?thesis using free_list_exclusive[OF r, of 0 3] by auto
qed

text \<open>
  C16. When no call is under way, the list and the users together have every node exactly once: none is
  lost and none is in two places, however the calls before were interleaved.
\<close>

theorem free_list_conserves:
  assumes "fl_reachable N (m, ps)" "N < 2 ^ 30" "list_all outside ps"
  shows "\<exists>L. node_chain (fl_next m) (fl_head m) L \<and> distinct L \<and> set L = - owned m \<and>
    (\<forall>n. fl_refs m n = (if n \<in> owned m then 0 else 1))"
proof -
  obtain L where inv: "fl_inv m ps L" using fl_reachable_inv[OF assms(1,2)] by auto
  have "role n p = Nothing" if "p \<in> set ps" for n p
    using assms(3) that by (cases p) (auto simp: list_all_iff outside_def)
  then have z: "count_role r n ps = 0" if "r \<noteq> Nothing" for r n
    using that by (auto simp: count_role_def filter_empty_conv)
  have "(n \<in> set L \<longleftrightarrow> n \<notin> owned m) \<and> fl_refs m n = (if n \<in> owned m then 0 else 1)" for n
  proof -
    obtain f where "node_ok m ps L n f" using inv by (auto simp: fl_inv_def)
    then have w: "word_ok f (fl_refs m n) (n \<in> owned m) (n \<in> set L) 0 0 0 0 0" by (simp add: node_ok_def z)
    then show ?thesis
      unfolding word_ok_def by (cases "n \<in> owned m"; cases "n \<in> set L"; cases f) (simp_all add: enc_def)
  qed
  then show ?thesis using fl_invD(1,2)[OF inv] by (intro exI[of _ L]) auto
qed

theorem free_list_conserves_witness:
  "\<exists>m L. fl_reachable 2 (m, [Resting, Resting]) \<and> node_chain (fl_next m) (fl_head m) L \<and> set L = {3}"
proof -
  obtain m where "fl_run demo_add (new_free_list, replicate 2 Resting) = Some (m, [Resting, Resting])"
    and o: "owned m = UNIV - {3}"
    using demo_runs(1) by blast
  then have r: "fl_reachable 2 (m, [Resting, Resting])" using fl_run_reachable fl_reachable.start by blast
  then show ?thesis using free_list_conserves[OF r] o by (auto simp: outside_def)
qed

text \<open>Without other threads the list is a stack: the calls take 7 and 5 steps.\<close>

definition alone :: "fl_pc \<times> fl_mem \<Rightarrow> fl_pc \<times> fl_mem" where
  "alone s = fl_step (fst s) (snd s)"

lemma add_alone:
  assumes "fl_refs m n = 0" "node_chain (fl_next m) (fl_head m) L" "n \<notin> set L"
  shows "\<exists>m'. (alone ^^ 5) (AddFetch n, m) = (Resting, m') \<and> node_chain (fl_next m') (fl_head m') (n # L) \<and>
    fl_refs m' = (fl_refs m)(n := 1) \<and> owned m' = owned m"
  using assms by (simp add: alone_def numeral_eq_Suc set_refs_def put_return_def chain_update fun_upd_idem)

lemma get_alone:
  assumes "fl_refs m n = 1" "node_chain (fl_next m) (fl_head m) (n # L)"
  shows "\<exists>m'. (alone ^^ 7) (GetHead, m) = (Got (Some n), m') \<and> node_chain (fl_next m') (fl_head m') L \<and>
    fl_refs m' = (fl_refs m)(n := 0) \<and> owned m' = insert n (owned m)"
proof -
  have c: "(1 :: u32) AND REFS_MASK \<noteq> 0" "(2 :: u32) AND SHOULD_BE_ON_FREELIST = 0"
    by (simp_all add: REFS_MASK_def SHOULD_BE_ON_FREELIST_def)
  show ?thesis
    using assms c by (simp add: alone_def numeral_eq_Suc set_refs_def get_loop_def)
qed

end
