(* ===== verification/SubQueue.thy ===== *)
theory SubQueue
  imports Prelude
begin

text \<open>
  The counters of one producer's part of the queue of \<^verbatim>\<open>src/include/concurrentqueue.h\<close>
  (\<^verbatim>\<open>ExplicitProducer\<close> and \<^verbatim>\<open>ImplicitProducer\<close>, whose code for them is the same): one thread enqueues,
  any number of threads dequeue, and four counters decide who gets which element.

  A thread is where it is in its call, and a step is its next access to a counter or to an
  element; the threads take these steps in any order, each seeing the variables as the last step
  left them. The element of an index is \<open>slots\<close>, \<open>None\<close> where there is no object, and reading
  there is \<open>DqCrash\<close>; how the blocks are found that hold the elements is not part of this theory.
  An \<^verbatim>\<open>enqueue\<close> that finds no block leaves the counters as they are, so it is no step here.
  \<^verbatim>\<open>dequeue\<close> is \<^verbatim>\<open>dequeue_bulk\<close> with a maximum of 1, whose tests it writes in another way
  (\<open>single_test\<close>). The last five fields of the state are the history of the calls.
\<close>

section \<open>The program of a thread\<close>

record 'v subq =
  tailIndex :: u64
  headIndex :: u64
  dequeueOptimisticCount :: u64
  dequeueOvercommit :: u64
  slots :: "u64 \<Rightarrow> 'v option"
  stored :: "'v list"
  issued :: nat
  undone :: nat
  handed :: nat
  read_log :: "(u64 \<times> 'v) list"

definition new_subq :: "'v subq" where
  "new_subq = \<lparr>tailIndex = 0, headIndex = 0, dequeueOptimisticCount = 0, dequeueOvercommit = 0, slots = (\<lambda>_. None),
     stored = [], issued = 0, undone = 0, handed = 0, read_log = []\<rparr>"

definition circular_less_than :: "u64 \<Rightarrow> u64 \<Rightarrow> bool" where
  "circular_less_than a b \<longleftrightarrow> a - b > 2 ^ 63"

definition producer_size :: "'v subq \<Rightarrow> u64" where
  "producer_size q = (if circular_less_than (headIndex q) (tailIndex q) then tailIndex q - headIndex q else 0)"

text \<open>The producer: where it writes next, what it still has to write, and all of it.\<close>

datatype 'v eq_pc = EqIdle | EqWrite u64 "'v list" "'v list"

definition enqueue_call :: "'v list \<Rightarrow> 'v subq \<Rightarrow> 'v eq_pc" where
  "enqueue_call vs q = EqWrite (tailIndex q) vs vs"

fun eq_step :: "'v eq_pc \<Rightarrow> 'v subq \<Rightarrow> 'v eq_pc \<times> 'v subq" where
  "eq_step EqIdle q = (EqIdle, q)"
| "eq_step (EqWrite i (v # vs) all) q = (EqWrite (i + 1) vs all, q\<lparr>slots := (slots q)(i := Some v)\<rparr>)"
| "eq_step (EqWrite i [] all) q = (EqIdle, q\<lparr>tailIndex := i, stored := stored q @ all\<rparr>)"

datatype 'v dq_pc =
    DqIdle
  | DqDone "'v list"
  | DqCrash
  | DqTail u64
  | DqOver u64 u64
  | DqOpt u64 u64 u64
  | DqFetch u64 u64
  | DqTail2 u64 u64 u64
  | DqUndo u64 "u64 option"
  | DqHead u64
  | DqRead u64 u64 "'v list"

definition dequeue_call :: "'v dq_pc" where "dequeue_call = DqTail 1"

definition dequeue_bulk_call :: "u64 \<Rightarrow> 'v dq_pc" where "dequeue_bulk_call mx = DqTail mx"

fun dq_step :: "'v dq_pc \<Rightarrow> 'v subq \<Rightarrow> 'v dq_pc \<times> 'v subq" where
  "dq_step (DqTail mx) q = (DqOver mx (tailIndex q), q)"
| "dq_step (DqOver mx tail) q = (DqOpt mx tail (dequeueOvercommit q), q)"
| "dq_step (DqOpt mx tail over) q =
     (let desired = tail - (dequeueOptimisticCount q - over)
      in (if circular_less_than 0 desired then DqFetch (if desired < mx then desired else mx) over else DqDone [], q))"
| "dq_step (DqFetch desired over) q =
     (DqTail2 (dequeueOptimisticCount q) desired over,
      q\<lparr>dequeueOptimisticCount := dequeueOptimisticCount q + desired, issued := issued q + unat desired\<rparr>)"
| "dq_step (DqTail2 my desired over) q =
     (let actual = tailIndex q - (my - over)
      in (if circular_less_than 0 actual
          then (let actual = (if desired < actual then desired else actual)
                in if actual < desired then DqUndo (desired - actual) (Some actual) else DqHead actual)
          else DqUndo desired None, q))"
| "dq_step (DqUndo n k) q =
     ((case k of None \<Rightarrow> DqDone [] | Some actual \<Rightarrow> DqHead actual),
      q\<lparr>dequeueOvercommit := dequeueOvercommit q + n, undone := undone q + unat n\<rparr>)"
| "dq_step (DqHead n) q =
     (DqRead (headIndex q) n [], q\<lparr>headIndex := headIndex q + n, handed := handed q + unat n\<rparr>)"
| "dq_step (DqRead i n acc) q =
     (if n = 0 then (DqDone acc, q)
      else case slots q i of
             None \<Rightarrow> (DqCrash, q)
           | Some v \<Rightarrow> (DqRead (i + 1) (n - 1) (acc @ [v]), q\<lparr>slots := (slots q)(i := None), read_log := read_log q @ [(i, v)]\<rparr>))"
| "dq_step DqIdle q = (DqIdle, q)"
| "dq_step (DqDone vs) q = (DqDone vs, q)"
| "dq_step DqCrash q = (DqCrash, q)"

text \<open>The tests of \<^verbatim>\<open>dequeue\<close>.\<close>

lemma single_test: "circular_less_than 0 (t - x) = circular_less_than x t"
  by (simp add: circular_less_than_def)

section \<open>The threads together\<close>

type_synonym 'v sq_state = "'v subq \<times> 'v eq_pc \<times> 'v dq_pc list"

definition resting :: "'v dq_pc \<Rightarrow> bool" where
  "resting p = (case p of DqIdle \<Rightarrow> True | DqDone _ \<Rightarrow> True | _ \<Rightarrow> False)"

inductive sq_next :: "'v sq_state \<Rightarrow> 'v sq_state \<Rightarrow> bool" where
  call_enqueue: "sq_next (q, EqIdle, ps) (q, enqueue_call vs q, ps)"
| turn_enqueue: "eq_step e q = (e', q') \<Longrightarrow> sq_next (q, e, ps) (q', e', ps)"
| call_dequeue: "i < length ps \<Longrightarrow> resting (ps ! i) \<Longrightarrow> sq_next (q, e, ps) (q, e, ps[i := dequeue_bulk_call mx])"
| turn_dequeue: "i < length ps \<Longrightarrow> \<not> resting (ps ! i) \<Longrightarrow> dq_step (ps ! i) q = (p, q') \<Longrightarrow>
     sq_next (q, e, ps) (q', e, ps[i := p])"

inductive sq_reachable :: "nat \<Rightarrow> 'v sq_state \<Rightarrow> bool" for N where
  start: "sq_reachable N (new_subq, EqIdle, replicate N DqIdle)"
| step: "sq_reachable N s \<Longrightarrow> sq_next s s' \<Longrightarrow> sq_reachable N s'"

text \<open>
  The indices are 64 bits wide. The bound: fewer than \<open>2 ^ 62\<close> tickets and elements altogether.
\<close>

definition sq_end :: "'v sq_state \<Rightarrow> nat" where
  "sq_end s = (case s of (q, e, ps) \<Rightarrow> length (stored q) + (case e of EqIdle \<Rightarrow> 0 | EqWrite _ _ all \<Rightarrow> length all))"

definition sq_bounded :: "'v sq_state \<Rightarrow> bool" where
  "sq_bounded s \<longleftrightarrow> sq_end s < 2 ^ 62 \<and> issued (fst s) < 2 ^ 62"

lemma sq_bounded_before: "sq_next s s' \<Longrightarrow> sq_bounded s' \<Longrightarrow> sq_bounded s"
proof (induction rule: sq_next.induct)
  case (turn_enqueue e q e' q' ps)
  then show ?case by (cases "(e, q)" rule: eq_step.cases) (auto simp: sq_bounded_def sq_end_def)
next
  case (turn_dequeue i ps q p q' e)
  then show ?case
    by (cases "ps ! i") (auto simp: sq_bounded_def sq_end_def Let_def split: if_splits option.splits)
qed (auto simp: sq_bounded_def sq_end_def enqueue_call_def)

section \<open>Circular comparison\<close>

lemma unat_diff_less:
  fixes a b :: u64
  assumes "unat a < unat b" shows "unat (a - b) = 2 ^ 64 - (unat b - unat a)"
proof -
  define x y where "x = uint a" and "y = uint b"
  have u: "unat a = nat x" "unat b = nat y" by (simp_all add: x_def y_def)
  have less: "x < y" "0 \<le> x" "y < 18446744073709551616"
    using assms uint_lt2p[of b] by (simp_all add: x_def y_def word_less_nat_alt[symmetric] word_less_def)
  have "uint (a - b) = (x - y) mod 18446744073709551616" by (simp add: uint_word_ariths x_def y_def)
  also have "\<dots> = (x - y + 18446744073709551616) mod 18446744073709551616" by (simp only: mod_add_self2)
  also have "\<dots> = x - y + 18446744073709551616" using less by (simp only: mod_pos_pos_trivial)
  finally have "unat (a - b) = nat (x - y + 18446744073709551616)" by (simp only: unat_eq_nat_uint)
  then show ?thesis using less u by simp
qed

lemma circular_less_than_unat:
  assumes "unat a < 2 ^ 63" "unat b < 2 ^ 63"
  shows "circular_less_than a b \<longleftrightarrow> unat a < unat b"
proof (cases "unat a < unat b")
  case True
  then show ?thesis using assms unat_diff_less[OF True] by (simp add: circular_less_than_def word_less_nat_alt)
next
  case False
  then have "unat (a - b) = unat a - unat b" by (intro unat_sub) (simp add: word_le_nat_alt)
  then show ?thesis using False assms by (simp add: circular_less_than_def word_less_nat_alt)
qed

text \<open>The number of elements a thread hopes for, of a tail \<open>t\<close>, a count \<open>b\<close> and an overcommit \<open>a\<close>.\<close>

lemma wanted:
  fixes t a b :: u64
  assumes "unat a \<le> unat b" "unat b < 2 ^ 62" "unat t < 2 ^ 62"
  shows "circular_less_than 0 (t - (b - a)) \<longleftrightarrow> unat b - unat a < unat t"
    and "unat b - unat a < unat t \<Longrightarrow> unat (t - (b - a)) = unat t - (unat b - unat a)"
proof -
  have d: "unat (b - a) = unat b - unat a" using assms(1) by (intro unat_sub) (simp add: word_le_nat_alt)
  have "circular_less_than (b - a) t \<longleftrightarrow> unat b - unat a < unat t"
    using circular_less_than_unat[of "b - a" t] assms by (simp add: d)
  then show "circular_less_than 0 (t - (b - a)) \<longleftrightarrow> unat b - unat a < unat t" by (simp only: single_test)
  assume "unat b - unat a < unat t"
  then have "unat (t - (b - a)) = unat t - unat (b - a)" by (intro unat_sub) (simp add: word_le_nat_alt d)
  then show "unat (t - (b - a)) = unat t - (unat b - unat a)" by (simp only: d)
qed

section \<open>The tickets\<close>

lemma sum_list_upd:
  "i < length ps \<Longrightarrow> sum_list (map f (ps[i := p])) + f (ps ! i) = sum_list (map f ps) + (f p :: nat)"
  by (induction ps arbitrary: i) (auto split: nat.splits)

lemma sum_list_ge: "i < length ps \<Longrightarrow> f (ps ! i) \<le> sum_list (map f ps)" for f :: "'a \<Rightarrow> nat"
  using sum_list_upd[of i ps f "ps ! i"] by (induction ps arbitrary: i) (auto split: nat.splits simp: nth_Cons le_Suc_ex trans_le_add2)

definition apart :: "('a \<Rightarrow> nat set) \<Rightarrow> 'a list \<Rightarrow> bool" where
  "apart f ps \<longleftrightarrow> (\<forall>i < length ps. \<forall>j < length ps. i \<noteq> j \<longrightarrow> f (ps ! i) \<inter> f (ps ! j) = {})"

lemma apart_update:
  assumes "apart f ps" "i < length ps" "f p \<subseteq> f (ps ! i) \<union> X" "\<And>q. q \<in> set ps \<Longrightarrow> f q \<inter> X = {}"
  shows "apart f (ps[i := p])"
proof -
  have p: "f p \<inter> f (ps ! j) = {}" if "j < length ps" "j \<noteq> i" for j
    using assms that nth_mem[of j ps] unfolding apart_def by blast
  show ?thesis
    unfolding apart_def
  proof (intro allI impI)
    fix a b assume "a < length (ps[i := p])" "b < length (ps[i := p])" "a \<noteq> b"
    then show "f (ps[i := p] ! a) \<inter> f (ps[i := p] ! b) = {}"
      using p[of a] p[of b] assms(1) by (cases "a = i"; cases "b = i") (auto simp: apart_def Int_commute)
  qed
qed

text \<open>
  A ticket is a number the optimistic count has passed. A thread draws some (\<open>drawn\<close>), then learns
  how many of them stand for an element; of the successes it has still to move the head
  (\<open>to_hand\<close>), and the failures it has still to count as overcommit (\<open>to_undo\<close>).
\<close>

fun drawn :: "'v dq_pc \<Rightarrow> nat set" where
  "drawn (DqTail2 my n _) = {unat my..<unat my + unat n}"
| "drawn _ = {}"

fun to_hand :: "'v dq_pc \<Rightarrow> nat" where
  "to_hand (DqHead n) = unat n"
| "to_hand (DqUndo _ (Some n)) = unat n"
| "to_hand _ = 0"

fun to_undo :: "'v dq_pc \<Rightarrow> nat" where
  "to_undo (DqUndo n _) = unat n"
| "to_undo _ = 0"

fun knows :: "'v subq \<Rightarrow> nat set \<Rightarrow> 'v dq_pc \<Rightarrow> bool" where
  "knows q F (DqOver _ t) = (unat t \<le> length (stored q))"
| "knows q F (DqOpt _ t a) = (unat t \<le> length (stored q) \<and> unat a \<le> undone q)"
| "knows q F (DqFetch n a) = (unat n \<le> length (stored q) \<and> unat a \<le> undone q)"
| "knows q F (DqTail2 my _ a) = (unat my \<le> issued q \<and> unat a \<le> card {f \<in> F. f < unat my})"
| "knows q F _ = True"

lemma knows_mono:
  assumes "knows q F p" "length (stored q) \<le> length (stored q')" "undone q \<le> undone q'" "issued q \<le> issued q'"
    "F \<subseteq> F'" "finite F'"
  shows "knows q' F' p"
proof (cases p)
  case (DqTail2 my n a)
  have "card {f \<in> F. f < unat my} \<le> card {f \<in> F'. f < unat my}" using assms(5,6) by (intro card_mono) auto
  then show ?thesis using assms(1,4) DqTail2 by simp
qed (use assms(1-3) in auto)

text \<open>\<open>S\<close> are the tickets that stood for an element, \<open>F\<close> those that did not.\<close>

definition tickets :: "'v subq \<Rightarrow> 'v dq_pc list \<Rightarrow> nat set \<Rightarrow> nat set \<Rightarrow> bool" where
  "tickets q ps S F \<longleftrightarrow> S \<union> F \<union> \<Union> (drawn ` set ps) = {..<issued q} \<and> S \<inter> F = {} \<and>
     card S = handed q + sum_list (map to_hand ps) \<and> card F = undone q + sum_list (map to_undo ps) \<and>
     (\<forall>s \<in> S. \<exists>w \<le> card {f \<in> F. f < s}. s < w + length (stored q)) \<and>
     apart drawn ps \<and> (\<forall>p \<in> set ps. drawn p \<inter> (S \<union> F) = {} \<and> knows q F p)"

text \<open>The tail, the head and the counts as natural numbers.\<close>

definition words_are :: "'v subq \<Rightarrow> bool" where
  "words_are q \<longleftrightarrow> tailIndex q = of_nat (length (stored q)) \<and> headIndex q = of_nat (handed q) \<and>
     dequeueOptimisticCount q = of_nat (issued q) \<and> dequeueOvercommit q = of_nat (undone q)"

text \<open>
  Why there is an element for every success: the last success \<open>s\<close> came with a tail that exceeded
  what was left of the \<open>s\<close> tickets before it without \<open>w\<close> failures.
\<close>

lemma successes_le:
  assumes "finite S" "finite F" "S \<inter> F = {}" "\<forall>s \<in> S. \<exists>w \<le> card {f \<in> F. f < s}. s < w + n"
  shows "card S \<le> n"
proof (cases "S = {}")
  case False
  define s where "s = Max S"
  have s: "s \<in> S" "\<And>x. x \<in> S \<Longrightarrow> x \<le> s" using False assms(1) by (auto simp: s_def)
  obtain w where w: "w \<le> card {f \<in> F. f < s}" "s < w + n" using assms(4) s(1) by blast
  have "card S \<le> card ({..s} - {f \<in> F. f < s})" using s assms(3) by (intro card_mono) auto
  also have "\<dots> = Suc s - card {f \<in> F. f < s}" using assms(2) by (subst card_Diff_subset) auto
  finally show ?thesis using w by linarith
qed simp

lemma ticketsD:
  assumes "tickets q ps S F"
  shows "finite S" "finite F" "S \<union> F \<subseteq> {..<issued q}" "S \<inter> F = {}"
    "card S = handed q + sum_list (map to_hand ps)" "card F = undone q + sum_list (map to_undo ps)"
    "\<forall>s \<in> S. \<exists>w \<le> card {f \<in> F. f < s}. s < w + length (stored q)" "apart drawn ps"
    "p \<in> set ps \<Longrightarrow> drawn p \<subseteq> {..<issued q} - (S \<union> F)" "p \<in> set ps \<Longrightarrow> knows q F p"
    "S \<union> F \<union> \<Union> (drawn ` set ps) = {..<issued q}"
proof -
  show u: "S \<union> F \<union> \<Union> (drawn ` set ps) = {..<issued q}" using assms by (simp add: tickets_def)
  then show sub: "S \<union> F \<subseteq> {..<issued q}" by blast
  then show "finite S" "finite F"
    using finite_subset[of S "{..<issued q}"] finite_subset[of F "{..<issued q}"] by simp_all
  show "p \<in> set ps \<Longrightarrow> drawn p \<subseteq> {..<issued q} - (S \<union> F)"
    using u assms unfolding tickets_def by blast
qed (use assms in \<open>auto simp: tickets_def\<close>)

lemma tickets_handed: "tickets q ps S F \<Longrightarrow> handed q + sum_list (map to_hand ps) \<le> length (stored q)"
  using successes_le[of S F "length (stored q)"] ticketsD(1,2,4,5,7)[of q ps S F] by simp

lemma tickets_undone: "tickets q ps S F \<Longrightarrow> undone q \<le> issued q"
  using ticketsD(2,3,6)[of q ps S F] card_mono[of "{..<issued q}" F] by simp

lemma tickets_frame:
  assumes "tickets q ps S F" "issued q' = issued q" "handed q' = handed q" "undone q' = undone q"
    "length (stored q) \<le> length (stored q')"
  shows "tickets q' ps S F"
proof -
  note t = ticketsD[OF assms(1)]
  have "knows q' F p" if "p \<in> set ps" for p
    using knows_mono[OF t(10)[OF that] assms(5), of F] assms(2,4) t(2) by simp
  moreover have "\<forall>s \<in> S. \<exists>w \<le> card {f \<in> F. f < s}. s < w + length (stored q')"
    using t(7) assms(5) by (meson add_left_mono less_le_trans)
  moreover have "drawn p \<inter> (S \<union> F) = {}" if "p \<in> set ps" for p using t(9)[OF that] by blast
  ultimately show ?thesis using t(4-8,11) assms(2-4) by (simp add: tickets_def)
qed

lemma tickets_change:
  assumes "tickets q ps S F" "i < length ps" "stored q' = stored q" "issued q \<le> issued q'" "undone q \<le> undone q'"
    and new: "S \<subseteq> S'" "F \<subseteq> F'" "S' \<union> F' \<subseteq> S \<union> F \<union> drawn (ps ! i)" "S' \<inter> F' = {}"
    and cards: "card S' + to_hand (ps ! i) + handed q = card S + to_hand p + handed q'"
      "card F' + to_undo (ps ! i) + undone q = card F + to_undo p + undone q'"
    and why: "\<And>s. s \<in> S' - S \<Longrightarrow> \<exists>w \<le> card {f \<in> F'. f < s}. s < w + length (stored q)"
    and own: "drawn p \<subseteq> {..<issued q'} - (S' \<union> F')" "drawn p \<subseteq> drawn (ps ! i) \<union> {issued q..}" "knows q' F' p"
    and all: "{issued q..<issued q'} \<subseteq> drawn p" "drawn (ps ! i) \<subseteq> S' \<union> F' \<union> drawn p"
  shows "tickets q' (ps[i := p]) S' F'"
proof -
  note t = ticketsD[OF assms(1)]
  have mem: "ps ! i \<in> set ps" using assms(2) by simp
  have sub: "S' \<union> F' \<subseteq> {..<issued q}" using t(3) t(9)[OF mem] new(3) by blast
  have fin: "finite F'" using sub finite_subset[of F' "{..<issued q}"] by simp
  have others: "drawn x \<subseteq> {..<issued q'} - (S' \<union> F') \<and> knows q' F' x" if x: "x \<in> set (ps[i := p])" for x
  proof (cases "x = p")
    case False
    obtain j where j': "j < length ps" "x = ps[i := p] ! j" using x unfolding in_set_conv_nth by auto
    then have j: "j < length ps" "j \<noteq> i" "x = ps ! j" using False assms(2) by (auto simp: nth_list_update split: if_splits)
    then have "x \<in> set ps" "drawn x \<inter> drawn (ps ! i) = {}" using t(8) assms(2) by (auto simp: apart_def)
    moreover have "knows q' F' x"
      using knows_mono[OF t(10)[OF \<open>x \<in> set ps\<close>]] assms(3-5) new(2) fin by simp
    ultimately show ?thesis using t(9)[of x] new(3) assms(4) by fastforce
  qed (use own in simp)
  have why': "\<exists>w \<le> card {f \<in> F'. f < s}. s < w + length (stored q')" if s: "s \<in> S'" for s
  proof (cases "s \<in> S")
    case True
    have "card {f \<in> F. f < s} \<le> card {f \<in> F'. f < s}" using new(2) fin by (intro card_mono) auto
    moreover obtain w where "w \<le> card {f \<in> F. f < s}" "s < w + length (stored q)" using t(7) True by blast
    ultimately show ?thesis unfolding assms(3) by (intro exI[of _ w]) simp
  qed (use why s assms(3) in simp)
  have "card S' = handed q' + sum_list (map to_hand (ps[i := p]))"
    using cards(1) t(5) sum_list_upd[OF assms(2), of to_hand p] by simp
  moreover have "card F' = undone q' + sum_list (map to_undo (ps[i := p]))"
    using cards(2) t(6) sum_list_upd[OF assms(2), of to_undo p] by simp
  moreover have "apart drawn (ps[i := p])"
    using t(8,9) assms(2) own(2) by (intro apart_update[where X = "{issued q..}"]) fastforce+
  moreover have "S' \<union> F' \<union> \<Union> (drawn ` set (ps[i := p])) = {..<issued q'}"
  proof
    show "S' \<union> F' \<union> \<Union> (drawn ` set (ps[i := p])) \<subseteq> {..<issued q'}" using sub assms(4) others by fastforce
    have p: "drawn p \<subseteq> \<Union> (drawn ` set (ps[i := p]))" using set_update_memI[OF assms(2)] by fastforce
    have "drawn x \<subseteq> S' \<union> F' \<union> \<Union> (drawn ` set (ps[i := p]))" if x: "x \<in> set ps" for x
    proof -
      obtain j where j: "j < length ps" "x = ps ! j" using x unfolding in_set_conv_nth by auto
      then have "j = i \<or> x \<in> set (ps[i := p])" using nth_mem[of j "ps[i := p]"] by (cases "j = i") auto
      then show ?thesis using j(2) all(2) p by blast
    qed
    then have "{..<issued q} \<subseteq> S' \<union> F' \<union> \<Union> (drawn ` set (ps[i := p]))"
      unfolding t(11)[symmetric] using new(1,2) by blast
    moreover have "{..<issued q'} \<subseteq> {..<issued q} \<union> {issued q..<issued q'}" by auto
    ultimately show "{..<issued q'} \<subseteq> S' \<union> F' \<union> \<Union> (drawn ` set (ps[i := p]))"
      using all(1) p by blast
  qed
  moreover have "drawn x \<inter> (S' \<union> F') = {}" if "x \<in> set (ps[i := p])" for x using others[OF that] by blast
  ultimately show ?thesis using new(4) why' others unfolding tickets_def by simp
qed

lemma tickets_local:
  assumes "tickets q ps S F" "i < length ps" "stored q' = stored q" "issued q' = issued q" "undone q' = undone q"
    "handed q' = handed q" "to_hand p = to_hand (ps ! i)" "to_undo p = to_undo (ps ! i)" "drawn (ps ! i) = {}" "drawn p = {}"
    "knows q F p"
  shows "tickets q' (ps[i := p]) S F"
proof -
  have "knows q' F p" using knows_mono[OF assms(11), of q' F] assms(3-5) ticketsD(2)[OF assms(1)] by simp
  then show ?thesis using assms ticketsD(4)[OF assms(1)] by (intro tickets_change[OF assms(1,2)]) auto
qed

lemma tickets_DqFetch:
  assumes "tickets q ps S F" "i < length ps" "ps ! i = DqFetch n a" "unat (dequeueOptimisticCount q) = issued q"
  shows "tickets (q\<lparr>dequeueOptimisticCount := x, issued := issued q + unat n\<rparr>)
    (ps[i := DqTail2 (dequeueOptimisticCount q) n a]) S F"
proof -
  note t = ticketsD[OF assms(1)]
  have "{f \<in> F. f < issued q} = F" using t(3) by auto
  moreover have "unat a \<le> undone q" using t(10)[OF nth_mem[OF assms(2)]] assms(3) by simp
  ultimately show ?thesis
    using assms t(3,4,6) by (intro tickets_change[OF assms(1,2)]) auto
qed

text \<open>After the second look at the tail, the first \<open>k\<close> tickets stand for elements.\<close>

lemma tickets_split:
  assumes "tickets q ps S F" "i < length ps" "ps ! i = DqTail2 my n a" "k \<le> unat n"
    and k: "k = 0 \<or> unat my + k \<le> unat a + length (stored q)"
    and p: "to_hand p = k" "to_undo p = unat n - k" "drawn p = {}" "\<And>F. knows q F p"
  shows "\<exists>S' F'. tickets q (ps[i := p]) S' F'"
proof -
  note t = ticketsD[OF assms(1)]
  define m where "m = unat my"
  have mem: "ps ! i \<in> set ps" using assms(2) by simp
  define S1 F1 where "S1 = {m..<m + k}" and "F1 = {m + k..<m + unat n}"
  have d: "drawn (ps ! i) = S1 \<union> F1" "S1 \<inter> F1 = {}" using assms(3,4) by (auto simp: S1_def F1_def m_def)
  have dis: "(S \<union> F) \<inter> (S1 \<union> F1) = {}" using t(9)[OF mem] d(1) by blast
  have cards: "card (S \<union> S1) = card S + k" "card (F \<union> F1) = card F + (unat n - k)"
    using dis t(1,2) by (subst card_Un_disjoint; auto simp: S1_def F1_def)+
  have a: "unat a \<le> card {f \<in> F. f < m}" using t(10)[OF mem] assms(3) by (simp add: m_def)
  have why: "\<exists>w \<le> card {f \<in> F \<union> F1. f < s}. s < w + length (stored q)" if "s \<in> S \<union> S1 - S" for s
  proof -
    have s: "m \<le> s" "s < m + k" using that by (auto simp: S1_def)
    then have "card {f \<in> F. f < m} \<le> card {f \<in> F \<union> F1. f < s}" using t(2) by (intro card_mono) (auto simp: F1_def)
    then show ?thesis using a s k by (intro exI[of _ "unat a"]) (auto simp: m_def)
  qed
  have "tickets q (ps[i := p]) (S \<union> S1) (F \<union> F1)"
    using assms(3) t(4) d dis cards why p by (intro tickets_change[OF assms(1,2)]) auto
  then show ?thesis by blast
qed

lemma tickets_DqUndo:
  assumes "tickets q ps S F" "i < length ps" "ps ! i = DqUndo n k"
    and "to_hand p = to_hand (ps ! i)" "to_undo p = 0" "drawn p = {}" "\<And>q. knows q F p"
  shows "tickets (q\<lparr>dequeueOvercommit := x, undone := undone q + unat n\<rparr>) (ps[i := p]) S F"
  using assms(3-7) ticketsD(4)[OF assms(1)] by (intro tickets_change[OF assms(1,2)]) auto

lemma tickets_DqHead:
  assumes "tickets q ps S F" "i < length ps" "ps ! i = DqHead n"
  shows "tickets (q\<lparr>headIndex := x, handed := handed q + unat n\<rparr>) (ps[i := DqRead j n []]) S F"
  using assms(3) ticketsD(4)[OF assms(1)] by (intro tickets_change[OF assms(1,2)]) auto

section \<open>The elements\<close>

text \<open>The indices a thread has got and not read yet.\<close>

fun unread :: "'v dq_pc \<Rightarrow> nat set" where
  "unread (DqRead i n _) = {unat i..<unat i + unat n}"
| "unread _ = {}"

fun left_to_read :: "'v dq_pc \<Rightarrow> nat" where
  "left_to_read (DqRead _ n _) = unat n"
| "left_to_read _ = 0"

definition part_of :: "'v list \<Rightarrow> nat \<Rightarrow> 'v list \<Rightarrow> bool" where
  "part_of vs a xs \<longleftrightarrow> a + length vs \<le> length xs \<and> vs = take (length vs) (drop a xs)"

fun has_read :: "'v subq \<Rightarrow> 'v dq_pc \<Rightarrow> bool" where
  "has_read q (DqRead i n vs) =
     (unat i + unat n \<le> handed q \<and> length vs \<le> unat i \<and> part_of vs (unat i - length vs) (stored q))"
| "has_read q (DqDone vs) = (\<exists>a. part_of vs a (stored q))"
| "has_read q DqCrash = False"
| "has_read q _ = True"

fun has_written :: "'v subq \<Rightarrow> 'v eq_pc \<Rightarrow> bool" where
  "has_written q EqIdle = True"
| "has_written q (EqWrite i vs all) =
     (\<exists>k \<le> length all. vs = drop k all \<and> i = of_nat (length (stored q) + k) \<and>
       (\<forall>j < k. slots q (of_nat (length (stored q) + j)) = Some (all ! j)))"

definition log_ok :: "'v subq \<Rightarrow> 'v dq_pc list \<Rightarrow> bool" where
  "log_ok q ps \<longleftrightarrow> distinct (map fst (read_log q)) \<and> length (read_log q) + sum_list (map left_to_read ps) = handed q \<and>
     (\<forall>(i, v) \<in> set (read_log q). unat i < handed q \<and> v = stored q ! unat i \<and> (\<forall>p \<in> set ps. unat i \<notin> unread p))"

definition elements :: "'v subq \<Rightarrow> 'v eq_pc \<Rightarrow> 'v dq_pc list \<Rightarrow> bool" where
  "elements q e ps \<longleftrightarrow> handed q \<le> length (stored q) \<and> apart unread ps \<and> (\<forall>p \<in> set ps. has_read q p) \<and> log_ok q ps \<and>
     (\<forall>k. handed q \<le> k \<and> k < length (stored q) \<or> k \<in> \<Union> (unread ` set ps) \<longrightarrow> slots q (of_nat k) = Some (stored q ! k)) \<and>
     has_written q e"

lemma part_of_nil [simp]: "part_of [] a xs \<longleftrightarrow> a \<le> length xs"
  by (simp add: part_of_def)

lemma part_of_snoc: "part_of vs a xs \<Longrightarrow> a + length vs < length xs \<Longrightarrow> part_of (vs @ [xs ! (a + length vs)]) a xs"
  by (auto simp: part_of_def take_Suc_conv_app_nth)

lemma part_of_append: "part_of vs a xs \<Longrightarrow> part_of vs a (xs @ ys)"
  by (simp add: part_of_def)

lemma has_read_mono:
  assumes "has_read q p" "handed q \<le> handed q'" "stored q' = stored q @ ys"
  shows "has_read q' p"
  using assms by (cases p) (auto intro: part_of_append)

lemma elementsD:
  assumes "elements q e ps"
  shows "handed q \<le> length (stored q)" "apart unread ps" "p \<in> set ps \<Longrightarrow> has_read q p" "log_ok q ps" "has_written q e"
    "handed q \<le> k \<Longrightarrow> k < length (stored q) \<Longrightarrow> slots q (of_nat k) = Some (stored q ! k)"
    "p \<in> set ps \<Longrightarrow> k \<in> unread p \<Longrightarrow> slots q (of_nat k) = Some (stored q ! k)"
  using assms by (auto simp: elements_def)

lemma unread_handed: "has_read q p \<Longrightarrow> k \<in> unread p \<Longrightarrow> k < handed q"
  by (cases p) auto

lemma unread_update: "i < length ps \<Longrightarrow> x \<in> set (ps[i := p]) \<Longrightarrow> x = p \<or> x \<in> set ps"
  using set_update_subset_insert[of ps i p] by auto

lemma elements_local:
  assumes "elements q e ps" "i < length ps" "stored q' = stored q" "handed q' = handed q" "slots q' = slots q"
    "read_log q' = read_log q" "unread p = {}" "left_to_read p = left_to_read (ps ! i)" "has_read q p"
  shows "elements q' e (ps[i := p])"
proof -
  note el = elementsD[OF assms(1)]
  have upd: "x = p \<or> x \<in> set ps" if "x \<in> set (ps[i := p])" for x using unread_update[OF assms(2) that] .
  have read: "has_read q' x" if "has_read q x" for x using has_read_mono[OF that, of q' "[]"] assms(3,4) by simp
  have un: "x \<in> set (ps[i := p]) \<Longrightarrow> k \<in> unread x \<Longrightarrow> \<exists>y \<in> set ps. k \<in> unread y" for x k
    using upd assms(7) by blast
  have "sum_list (map left_to_read (ps[i := p])) = sum_list (map left_to_read ps)"
    using sum_list_upd[OF assms(2), of left_to_read p] assms(8) by simp
  then have "log_ok q' (ps[i := p])" using el(4) un assms(3,4,6) unfolding log_ok_def by fastforce
  moreover have "apart unread (ps[i := p])" using el(2) assms(2,7) by (intro apart_update[where X = "{}"]) auto
  moreover have "has_written q' e" using el(5) assms(3,5) by (cases e) auto
  moreover have "has_read q' x" if "x \<in> set (ps[i := p])" for x using upd[OF that] read assms(9) el(3) by blast
  ultimately show ?thesis using el(1,6,7) un assms(3-5) unfolding elements_def by force
qed

lemma elements_DqHead:
  assumes "elements q e ps" "i < length ps" "ps ! i = DqHead n" "unat j = handed q" "handed q + unat n \<le> length (stored q)"
  shows "elements (q\<lparr>headIndex := x, handed := handed q + unat n\<rparr>) e (ps[i := DqRead j n []])"
proof -
  let ?q = "q\<lparr>headIndex := x, handed := handed q + unat n\<rparr>" and ?p = "DqRead j n []"
  note el = elementsD[OF assms(1)]
  have upd: "y = ?p \<or> y \<in> set ps" if "y \<in> set (ps[i := ?p])" for y using unread_update[OF assms(2) that] .
  have old: "k < handed q" if "y \<in> set ps" "k \<in> unread y" for y k using unread_handed[OF el(3)] that by blast
  have "sum_list (map left_to_read (ps[i := ?p])) = sum_list (map left_to_read ps) + unat n"
    using sum_list_upd[OF assms(2), of left_to_read ?p] assms(3) by simp
  then have "log_ok ?q (ps[i := ?p])" using el(4) upd assms(4) unfolding log_ok_def by fastforce
  moreover have "apart unread (ps[i := ?p])"
    using el(2) assms(2,4) old by (intro apart_update[where X = "{handed q..}"]) fastforce+
  moreover have "has_written ?q e" using el(5) by (cases e) auto
  moreover have "has_read ?q y" if "y \<in> set (ps[i := ?p])" for y
    using upd[OF that] has_read_mono[OF el(3), of y ?q "[]"] assms(4,5) by auto
  moreover have "slots q (of_nat k) = Some (stored q ! k)" if "y \<in> set (ps[i := ?p])" "k \<in> unread y" for y k
    using upd[OF that(1)] that(2) el(6)[of k] el(7)[of y k] assms(4,5) by auto
  ultimately show ?thesis using el(6) assms(5) unfolding elements_def by auto
qed

lemma elements_DqRead:
  assumes "elements q e ps" "i < length ps" "ps ! i = DqRead j n vs" "0 < unat n" "sq_end (q, e, ps) < 2 ^ 62"
  shows "\<exists>v. slots q j = Some v \<and>
    elements (q\<lparr>slots := (slots q)(j := None), read_log := read_log q @ [(j, v)]\<rparr>) e (ps[i := DqRead (j + 1) (n - 1) (vs @ [v])])"
proof -
  define v where "v = stored q ! unat j"
  let ?q = "q\<lparr>slots := (slots q)(j := None), read_log := read_log q @ [(j, v)]\<rparr>" and ?p = "DqRead (j + 1) (n - 1) (vs @ [v])"
  note el = elementsD[OF assms(1)]
  have mem: "ps ! i \<in> set ps" using assms(2) by simp
  have rd: "unat j + unat n \<le> handed q" "length vs \<le> unat j" "part_of vs (unat j - length vs) (stored q)"
    using el(3)[OF mem] assms(3) by auto
  have lt: "unat j < handed q" "unat j < length (stored q)" using rd(1) assms(4) el(1) by linarith+
  have len: "length (stored q) < 2 ^ 62" using assms(5) by (simp add: sq_end_def)
  have ne: "of_nat k \<noteq> j" if "k < 2 ^ 62" "k \<noteq> unat j" for k using that by (auto simp: unat_of_nat take_bit_nat_eq_self)
  have succ_ok: "unat (j + 1) = unat j + 1" "unat (n - 1) = unat n - 1"
    using lt(2) len assms(4) by (simp_all add: unat_word_ariths word_gt_0_no unat_minus_one unat_gt_0)
  have word: "unat (j + 1) = unat j + 1" "unat (n - 1) = unat n - 1"
    using lt(2) assms(4) len succ_ok by simp_all
  have un: "unread (ps ! i) = insert (unat j) (unread ?p)" "unat j \<notin> unread ?p"
    using assms(3,4) word by auto
  have upd: "y = ?p \<or> (\<exists>k < length ps. k \<noteq> i \<and> y = ps ! k)" if y: "y \<in> set (ps[i := ?p])" for y
  proof -
    obtain k where "k < length ps" "y = ps[i := ?p] ! k" using y unfolding in_set_conv_nth by auto
    then show ?thesis using assms(2) by (cases "k = i") auto
  qed
  have away: "unat j \<notin> unread y" if "y \<in> set (ps[i := ?p])" for y
    using upd[OF that] un el(2) assms(2) unfolding apart_def by blast
  have old: "y \<in> set (ps[i := ?p]) \<Longrightarrow> k \<in> unread y \<Longrightarrow> \<exists>z \<in> set ps. k \<in> unread z" for y k
    using upd un(1) mem by fastforce
  have slot: "slots q j = Some v" using el(7)[OF mem, of "unat j"] un(1) by (simp add: v_def)
  have fresh: "j \<notin> fst ` set (read_log q)" using el(4) mem un(1) unfolding log_ok_def by fastforce
  have "sum_list (map left_to_read (ps[i := ?p])) + 1 = sum_list (map left_to_read ps)"
    using sum_list_upd[OF assms(2), of left_to_read ?p] assms(3,4) word(2) by simp
  then have "log_ok ?q (ps[i := ?p])"
    using el(4) old fresh lt(1) away unfolding log_ok_def by (fastforce simp: v_def)
  moreover have "apart unread (ps[i := ?p])"
    using el(2) assms(2) un(1) by (intro apart_update[where X = "{}"]) auto
  moreover have "has_written ?q e"
  proof (cases e)
    case (EqWrite x ws all)
    then have "length (stored q) + length all < 2 ^ 62" using assms(5) by (simp add: sq_end_def)
    then have away: "of_nat (length (stored q) + k) \<noteq> j" if "k < length all" for k using that lt(2) by (intro ne) auto
    obtain k where k: "k \<le> length all" "ws = drop k all" "x = of_nat (length (stored q) + k)"
      "\<forall>j < k. slots q (of_nat (length (stored q) + j)) = Some (all ! j)"
      using el(5) EqWrite by auto
    have "slots ?q (of_nat (length (stored q) + m)) = Some (all ! m)" if "m < k" for m
      using that k(1,4) away[of m] by (simp del: of_nat_add)
    then show ?thesis unfolding EqWrite has_written.simps using k(1-3) by (intro exI[of _ k]) simp
  qed simp
  moreover have "has_read ?q y" if y: "y \<in> set (ps[i := ?p])" for y
  proof (cases "y = ?p")
    case True
    then show ?thesis using rd lt part_of_snoc[OF rd(3)] word assms(4) by (simp add: v_def Suc_diff_le)
  next
    case False
    then have "y \<in> set ps" using unread_update[OF assms(2) y] by blast
    then show ?thesis using has_read_mono[OF el(3), of y ?q "[]"] by simp
  qed
  moreover have "slots ?q (of_nat k) = Some (stored q ! k)"
    if k: "handed q \<le> k \<and> k < length (stored q) \<or> (\<exists>y \<in> set (ps[i := ?p]). k \<in> unread y)" for k
  proof -
    have "k \<noteq> unat j" using k lt(1) away by auto
    moreover have "slots q (of_nat k) = Some (stored q ! k) \<and> k < length (stored q)"
      using k old el(1,6,7) unread_handed[OF el(3)] by (meson less_le_trans)
    ultimately show ?thesis using ne[of k] len by auto
  qed
  ultimately have "elements ?q e (ps[i := ?p])" using el(1) unfolding elements_def by auto
  then show ?thesis using slot by blast
qed

lemma elements_write:
  assumes "elements q (EqWrite i (v # vs) all) ps" "length (stored q) + length all < 2 ^ 62"
  shows "elements (q\<lparr>slots := (slots q)(i := Some v)\<rparr>) (EqWrite (i + 1) vs all) ps"
proof -
  let ?q = "q\<lparr>slots := (slots q)(i := Some v)\<rparr>"
  note el = elementsD[OF assms(1)]
  obtain k where k: "k \<le> length all" "v # vs = drop k all" "i = of_nat (length (stored q) + k)"
    "\<forall>j < k. slots q (of_nat (length (stored q) + j)) = Some (all ! j)"
    using el(5) by auto
  have less: "k < length all" using k(1,2) by (cases "k = length all") auto
  have v: "vs = drop (Suc k) all" "v = all ! k" using k(2) less by (simp_all add: Cons_nth_drop_Suc[symmetric])
  have ne: "of_nat x \<noteq> i" if "x < length (stored q) + k" for x
  proof -
    have "unat i = length (stored q) + k" using assms(2) less by (simp add: k(3) unat_of_nat take_bit_nat_eq_self del: of_nat_add)
    then show ?thesis using that assms(2) less by (auto simp: unat_of_nat take_bit_nat_eq_self)
  qed
  have slot: "slots ?q (of_nat x) = Some (stored q ! x)" if "slots q (of_nat x) = Some (stored q ! x)" "x < length (stored q)" for x
    using that ne[of x] by simp
  have "slots ?q (of_nat (length (stored q) + j)) = Some (all ! j)" if "j < Suc k" for j
    using that k(3,4) ne[of "length (stored q) + j"] v(2) by (cases "j = k") (auto simp del: of_nat_add)
  then have "has_written ?q (EqWrite (i + 1) vs all)"
    unfolding has_written.simps using less v(1) k(3) by (intro exI[of _ "Suc k"]) simp
  moreover have "has_read ?q p" if "p \<in> set ps" for p using has_read_mono[OF el(3)[OF that], of ?q "[]"] by simp
  moreover have "log_ok ?q ps" using el(4) by (simp add: log_ok_def)
  moreover have "x < length (stored q)" if "p \<in> set ps" "x \<in> unread p" for p x
    using unread_handed[OF el(3)] that el(1) less_le_trans by blast
  ultimately show ?thesis using el(1,2,6,7) slot unfolding elements_def by (simp del: fun_upd_apply has_written.simps) blast
qed

lemma elements_publish:
  assumes "elements q (EqWrite i [] all) ps" "length (stored q) + length all < 2 ^ 62"
  shows "elements (q\<lparr>tailIndex := i, stored := stored q @ all\<rparr>) EqIdle ps \<and> i = of_nat (length (stored q @ all))"
proof -
  let ?q = "q\<lparr>tailIndex := i, stored := stored q @ all\<rparr>"
  note el = elementsD[OF assms(1)]
  have w: "i = of_nat (length (stored q) + length all)"
    "\<And>j. j < length all \<Longrightarrow> slots q (of_nat (length (stored q) + j)) = Some (all ! j)"
    using el(5) by auto
  have slot: "slots q (of_nat k) = Some ((stored q @ all) ! k)" if "handed q \<le> k" "k < length (stored q @ all)" for k
    using that el(6)[of k] w(2)[of "k - length (stored q)"] by (cases "k < length (stored q)") (auto simp: nth_append)
  have un: "k < handed q" if "p \<in> set ps" "k \<in> unread p" for p k using unread_handed[OF el(3)] that by blast
  have "log_ok ?q ps" using el(1,4) unfolding log_ok_def by (fastforce simp: nth_append)
  moreover have "has_read ?q p" if "p \<in> set ps" for p using has_read_mono[OF el(3)[OF that], of ?q all] by simp
  moreover have "slots q (of_nat k) = Some ((stored q @ all) ! k)" if "p \<in> set ps" "k \<in> unread p" for p k
    using el(7)[OF that] un[OF that] el(1) by (simp add: nth_append)
  ultimately show ?thesis using el(1,2) slot w(1) unfolding elements_def by auto
qed

section \<open>All steps\<close>

definition sq_inv :: "'v sq_state \<Rightarrow> bool" where
  "sq_inv s = (case s of (q, e, ps) \<Rightarrow> words_are q \<and> (\<exists>S F. tickets q ps S F) \<and> elements q e ps)"

lemma unat_bounded: "words_are q \<Longrightarrow> tickets q ps S F \<Longrightarrow> sq_bounded (q, e, ps) \<Longrightarrow> handed q \<le> length (stored q) \<Longrightarrow>
  unat (tailIndex q) = length (stored q) \<and> unat (headIndex q) = handed q \<and>
  unat (dequeueOptimisticCount q) = issued q \<and> unat (dequeueOvercommit q) = undone q"
  using tickets_undone[of q ps S F]
  by (simp add: words_are_def sq_bounded_def sq_end_def unat_of_nat take_bit_nat_eq_self)

lemma sq_inv_start: "sq_inv (new_subq, EqIdle, replicate N DqIdle)"
proof -
  have "tickets new_subq (replicate N DqIdle) {} {}" by (auto simp: tickets_def new_subq_def apart_def sum_list_replicate)
  then show ?thesis by (auto simp: sq_inv_def words_are_def elements_def log_ok_def new_subq_def apart_def sum_list_replicate)
qed

text \<open>A turn that only looks at the counters.\<close>

lemma sq_inv_local:
  assumes "sq_inv (q, e, ps)" "i < length ps" "to_hand (ps ! i) = 0" "to_undo (ps ! i) = 0" "drawn (ps ! i) = {}"
    "left_to_read (ps ! i) = 0" "to_hand p = 0" "to_undo p = 0" "drawn p = {}" "left_to_read p = 0" "unread p = {}"
    "\<And>S F. tickets q ps S F \<Longrightarrow> knows q F p" "has_read q p"
  shows "sq_inv (q, e, ps[i := p])"
proof -
  obtain S F where inv: "words_are q" "tickets q ps S F" "elements q e ps" using assms(1) by (auto simp: sq_inv_def)
  have "tickets q (ps[i := p]) S F" using inv(2) assms by (intro tickets_local[OF inv(2)]) auto
  moreover have "elements q e (ps[i := p])" using assms by (intro elements_local[OF inv(3)]) auto
  ultimately show ?thesis using inv(1) by (auto simp: sq_inv_def)
qed

lemma inv_DqOpt:
  assumes "sq_inv (q, e, ps)" "sq_bounded (q, e, ps)" "i < length ps" "ps ! i = DqOpt mx t a" "dq_step (ps ! i) q = (p, q')"
  shows "sq_inv (q', e, ps[i := p])"
proof -
  obtain S F where inv: "words_are q" "tickets q ps S F" "elements q e ps" using assms(1) by (auto simp: sq_inv_def)
  have u: "unat (dequeueOptimisticCount q) = issued q"
    using unat_bounded[OF inv(1,2) assms(2)] elementsD(1)[OF inv(3)] by simp
  have k: "unat t \<le> length (stored q)" "unat a \<le> undone q"
    using ticketsD(10)[OF inv(2) nth_mem[OF assms(3)]] assms(4) by auto
  then have le: "unat a \<le> unat (dequeueOptimisticCount q)" using u tickets_undone[OF inv(2)] by simp
  have b: "unat (dequeueOptimisticCount q) < 2 ^ 62" "unat t < 2 ^ 62"
    using assms(2) u k(1) by (auto simp: sq_bounded_def sq_end_def)
  define d where "d = t - (dequeueOptimisticCount q - a)"
  have "unat (if d < mx then d else mx) \<le> length (stored q)" if "circular_less_than 0 d"
    using wanted[OF le b] that k(1) unfolding d_def by (auto simp: word_less_nat_alt)
  moreover have q': "q' = q" and p: "p = (if circular_less_than 0 d then DqFetch (if d < mx then d else mx) a else DqDone [])"
    using assms(5) unfolding assms(4) by (auto simp: Let_def d_def)
  ultimately show ?thesis
    unfolding q' using assms(4) k(2) by (intro sq_inv_local[OF assms(1,3)]) auto
qed

lemma inv_DqTail2:
  assumes "sq_inv (q, e, ps)" "sq_bounded (q, e, ps)" "i < length ps" "ps ! i = DqTail2 my n a" "dq_step (ps ! i) q = (p, q')"
  shows "sq_inv (q', e, ps[i := p])"
proof -
  obtain S F where inv: "words_are q" "tickets q ps S F" "elements q e ps" using assms(1) by (auto simp: sq_inv_def)
  have u: "unat (tailIndex q) = length (stored q)"
    using unat_bounded[OF inv(1,2) assms(2)] elementsD(1)[OF inv(3)] by simp
  have k: "unat my \<le> issued q" "unat a \<le> card {f \<in> F. f < unat my}"
    using ticketsD(10)[OF inv(2) nth_mem[OF assms(3)]] assms(4) by auto
  have "card {f \<in> F. f < unat my} \<le> card {..<unat my}" by (intro card_mono) auto
  then have le: "unat a \<le> unat my" using k(2) by simp
  have b: "unat my < 2 ^ 62" "unat (tailIndex q) < 2 ^ 62" using assms(2) u k(1) by (auto simp: sq_bounded_def sq_end_def)
  define d where "d = tailIndex q - (my - a)"
  define m where "m = (if n < d then n else d)"
  have q': "q' = q" and p: "p = (if circular_less_than 0 d then if m < n then DqUndo (n - m) (Some m) else DqHead m else DqUndo n None)"
    using assms(4,5) by (auto simp: Let_def d_def m_def split: if_splits)
  have "\<exists>S F. tickets q (ps[i := p]) S F"
  proof (cases "circular_less_than 0 d")
    case True
    then have d: "unat my - unat a < length (stored q)" "unat d = length (stored q) - (unat my - unat a)"
      using wanted[OF le b] unfolding d_def u by auto
    have m: "unat m \<le> unat n" "unat m \<le> unat d" by (auto simp: m_def word_less_nat_alt)
    then have "unat my + unat m \<le> unat a + length (stored q)" using d le by linarith
    moreover have "unat (n - m) = unat n - unat m" using m(1) by (intro unat_sub) (simp add: word_le_nat_alt)
    moreover have "unat m = unat n" if "\<not> m < n" using that m(1) by (simp add: word_less_nat_alt)
    ultimately show ?thesis
      using True m(1) p by (intro tickets_split[OF inv(2) assms(3,4), of "unat m"]) auto
  qed (use p in \<open>intro tickets_split[OF inv(2) assms(3,4), of 0], auto\<close>)
  moreover have "elements q e (ps[i := p])" using p assms(4) by (intro elements_local[OF inv(3) assms(3)]) auto
  ultimately show ?thesis using inv(1) q' by (auto simp: sq_inv_def)
qed

lemma sq_inv_turn:
  assumes "sq_inv (q, e, ps)" "sq_bounded (q, e, ps)" "i < length ps" "dq_step (ps ! i) q = (p, q')"
  shows "sq_inv (q', e, ps[i := p])"
proof -
  obtain S F where inv: "words_are q" "tickets q ps S F" "elements q e ps" using assms(1) by (auto simp: sq_inv_def)
  have u: "unat (tailIndex q) = length (stored q)" "unat (headIndex q) = handed q"
    "unat (dequeueOptimisticCount q) = issued q" "unat (dequeueOvercommit q) = undone q"
    using unat_bounded[OF inv(1,2) assms(2)] elementsD(1)[OF inv(3)] by simp_all
  have mem: "ps ! i \<in> set ps" using assms(3) by simp
  note local = sq_inv_local[OF assms(1,3)]
  show ?thesis
  proof (cases "ps ! i")
    case (DqTail mx)
    then have eq: "q' = q" "p = DqOver mx (tailIndex q)" using assms(4) by auto
    then show ?thesis unfolding eq using DqTail u(1) by (intro local) auto
  next
    case (DqOver mx t)
    then have eq: "q' = q" "p = DqOpt mx t (dequeueOvercommit q)" using assms(4) by auto
    have "unat t \<le> length (stored q)" using ticketsD(10)[OF inv(2) mem] DqOver by simp
    then show ?thesis unfolding eq using DqOver u(4) by (intro local) auto
  next
    case (DqOpt mx t a)
    then show ?thesis using inv_DqOpt assms by blast
  next
    case (DqTail2 my n a)
    then show ?thesis using inv_DqTail2 assms by blast
  next
    case (DqFetch n a)
    then have eq: "p = DqTail2 (dequeueOptimisticCount q) n a"
      "q' = q\<lparr>dequeueOptimisticCount := dequeueOptimisticCount q + n, issued := issued q + unat n\<rparr>"
      using assms(4) by auto
    have "tickets q' (ps[i := p]) S F" unfolding eq using tickets_DqFetch[OF inv(2) assms(3) DqFetch u(3)] .
    moreover have "elements q' e (ps[i := p])" using eq DqFetch by (intro elements_local[OF inv(3) assms(3)]) auto
    ultimately show ?thesis using inv(1) eq(2) by (auto simp: sq_inv_def words_are_def)
  next
    case (DqUndo n k)
    then have eq: "p = (case k of None \<Rightarrow> DqDone [] | Some m \<Rightarrow> DqHead m)"
      "q' = q\<lparr>dequeueOvercommit := dequeueOvercommit q + n, undone := undone q + unat n\<rparr>"
      using assms(4) by auto
    have "tickets q' (ps[i := p]) S F"
      unfolding eq(2) using eq(1) DqUndo by (intro tickets_DqUndo[OF inv(2) assms(3) DqUndo]) (auto split: option.splits)
    moreover have "elements q' e (ps[i := p])"
      using eq DqUndo by (intro elements_local[OF inv(3) assms(3)]) (auto split: option.splits)
    ultimately show ?thesis using inv(1) eq(2) by (auto simp: sq_inv_def words_are_def)
  next
    case (DqHead n)
    then have eq: "p = DqRead (headIndex q) n []" "q' = q\<lparr>headIndex := headIndex q + n, handed := handed q + unat n\<rparr>"
      using assms(4) by auto
    have t: "tickets q' (ps[i := p]) S F" unfolding eq using tickets_DqHead[OF inv(2) assms(3) DqHead] .
    then have "handed q + unat n \<le> length (stored q)" using tickets_handed[OF t] eq(2) by simp
    then have "elements q' e (ps[i := p])" unfolding eq by (intro elements_DqHead[OF inv(3) assms(3) DqHead u(2)])
    then show ?thesis using inv(1) eq(2) t by (auto simp: sq_inv_def words_are_def)
  next
    case (DqRead j n vs)
    show ?thesis
    proof (cases "n = 0")
      case True
      then have eq: "q' = q" "p = DqDone vs" using DqRead assms(4) by auto
      then show ?thesis unfolding eq using DqRead True elementsD(3)[OF inv(3) mem] by (intro local) auto
    next
      case False
      then have "0 < unat n" by (simp add: unat_gt_0)
      then obtain v where v: "slots q j = Some v"
        "elements (q\<lparr>slots := (slots q)(j := None), read_log := read_log q @ [(j, v)]\<rparr>) e (ps[i := DqRead (j + 1) (n - 1) (vs @ [v])])"
        using elements_DqRead[OF inv(3) assms(3) DqRead] assms(2) by (auto simp: sq_bounded_def)
      then have eq: "p = DqRead (j + 1) (n - 1) (vs @ [v])" "q' = q\<lparr>slots := (slots q)(j := None), read_log := read_log q @ [(j, v)]\<rparr>"
        using DqRead assms(4) False by auto
      have "tickets q' (ps[i := p]) S F" using eq DqRead by (intro tickets_local[OF inv(2) assms(3)]) auto
      then show ?thesis using v(2) eq inv(1) by (auto simp: sq_inv_def words_are_def)
    qed
  next
    case DqCrash
    then show ?thesis using elementsD(3)[OF inv(3) mem] by simp
  next
    case DqIdle
    then have "q' = q" "ps[i := p] = ps" using assms(4) by (auto simp: list_update_same_conv[OF assms(3)])
    then show ?thesis using assms(1) by simp
  next
    case (DqDone vs)
    then have "q' = q" "ps[i := p] = ps" using assms(4) by (auto simp: list_update_same_conv[OF assms(3)])
    then show ?thesis using assms(1) by simp
  qed
qed

lemma sq_inv_next:
  assumes "sq_next s s'" "sq_inv s" "sq_bounded s'"
  shows "sq_inv s'"
  using assms
proof (induction rule: sq_next.induct)
  case (call_enqueue q ps vs)
  then show ?case by (auto simp: sq_inv_def elements_def enqueue_call_def words_are_def)
next
  case (turn_enqueue e q e' q' ps)
  have b: "sq_bounded (q, e, ps)" using sq_bounded_before[OF sq_next.turn_enqueue[OF turn_enqueue.hyps] turn_enqueue.prems(2)] .
  obtain S F where inv: "words_are q" "tickets q ps S F" "elements q e ps" using turn_enqueue.prems(1) by (auto simp: sq_inv_def)
  show ?case
  proof (cases "(e, q)" rule: eq_step.cases)
    case (1 q1)
    then show ?thesis using turn_enqueue by simp
  next
    case (2 x v vs all q1)
    then have eq: "e' = EqWrite (x + 1) vs all" "q' = q\<lparr>slots := (slots q)(x := Some v)\<rparr>" "e = EqWrite x (v # vs) all"
      using turn_enqueue.hyps by auto
    have "tickets q' ps S F" unfolding eq by (rule tickets_frame[OF inv(2)]) simp_all
    moreover have "elements q' e' ps"
      unfolding eq using elements_write inv(3) b eq(3) by (auto simp: sq_bounded_def sq_end_def)
    ultimately show ?thesis using inv(1) eq(2) by (auto simp: sq_inv_def words_are_def)
  next
    case (3 x all q1)
    then have eq: "e' = EqIdle" "q' = q\<lparr>tailIndex := x, stored := stored q @ all\<rparr>" "e = EqWrite x [] all"
      using turn_enqueue.hyps by auto
    have "tickets q' ps S F" unfolding eq by (rule tickets_frame[OF inv(2)]) simp_all
    moreover have "elements q' e' ps \<and> x = of_nat (length (stored q @ all))"
      unfolding eq using elements_publish inv(3) b eq(3) by (auto simp: sq_bounded_def sq_end_def)
    ultimately show ?thesis using inv(1) eq(2) by (auto simp: sq_inv_def words_are_def)
  qed
next
  case (call_dequeue i ps q e mx)
  then show ?case
    by (intro sq_inv_local[OF call_dequeue.prems(1)]) (auto simp: dequeue_bulk_call_def resting_def split: dq_pc.splits)
next
  case (turn_dequeue i ps q p q' e)
  then show ?case using sq_inv_turn sq_bounded_before[OF sq_next.turn_dequeue] by blast
qed

lemma sq_reachable_inv: "sq_reachable N s \<Longrightarrow> sq_bounded s \<Longrightarrow> sq_inv s"
proof (induction rule: sq_reachable.induct)
  case (step s s')
  then show ?case using sq_inv_next sq_bounded_before by blast
qed (rule sq_inv_start)

section \<open>Running an interleaving\<close>

datatype 'v sq_event = Enqueue "'v list" | Enqueue_turn | Dequeue nat u64 | Dequeue_turn nat

fun sq_do :: "'v sq_event \<Rightarrow> 'v sq_state \<Rightarrow> 'v sq_state option" where
  "sq_do (Enqueue vs) (q, e, ps) = (case e of EqIdle \<Rightarrow> Some (q, enqueue_call vs q, ps) | _ \<Rightarrow> None)"
| "sq_do Enqueue_turn (q, e, ps) = (case eq_step e q of (e', q') \<Rightarrow> Some (q', e', ps))"
| "sq_do (Dequeue i mx) (q, e, ps) =
     (if i < length ps \<and> resting (ps ! i) then Some (q, e, ps[i := dequeue_bulk_call mx]) else None)"
| "sq_do (Dequeue_turn i) (q, e, ps) =
     (if i < length ps \<and> \<not> resting (ps ! i) then case dq_step (ps ! i) q of (p, q') \<Rightarrow> Some (q', e, ps[i := p]) else None)"

fun sq_run :: "'v sq_event list \<Rightarrow> 'v sq_state \<Rightarrow> 'v sq_state option" where
  "sq_run [] s = Some s"
| "sq_run (x # xs) s = Option.bind (sq_do x s) (sq_run xs)"

lemma sq_do_next: "sq_do x s = Some s' \<Longrightarrow> sq_next s s'"
  by (cases "(x, s)" rule: sq_do.cases) (auto intro: sq_next.intros split: if_splits prod.splits eq_pc.splits)

lemma sq_run_reachable: "sq_run xs s = Some s' \<Longrightarrow> sq_reachable N s \<Longrightarrow> sq_reachable N s'"
proof (induction xs arbitrary: s)
  case (Cons x xs)
  then obtain s1 where "sq_do x s = Some s1" "sq_run xs s1 = Some s'" by (auto simp: bind_eq_Some_conv)
  then show ?case using Cons.IH sq_reachable.step[OF Cons.prems(2) sq_do_next] by blast
qed simp

text \<open>
  Two threads after one element: both see that there is one and draw a ticket; the second finds
  that its ticket stands for none. Then another element is stored.
\<close>

definition demo_dequeues :: "nat sq_event list" where
  "demo_dequeues = [Enqueue [7], Enqueue_turn, Enqueue_turn, Dequeue 0 1, Dequeue 1 1] @
     map Dequeue_turn [0, 1, 0, 1, 0, 1, 0, 1, 0, 0, 0, 0, 1, 1] @ [Enqueue [8], Enqueue_turn, Enqueue_turn]"

lemma two_idle: "replicate 2 DqIdle = [DqIdle, DqIdle]"
  by (simp add: numeral_2_eq_2)

lemma demo_dequeues_run:
  "\<exists>q. sq_run demo_dequeues (new_subq, EqIdle, replicate 2 DqIdle) = Some (q, EqIdle, [DqDone [7], DqDone []]) \<and>
     stored q = [7, 8] \<and> issued q = 2 \<and> undone q = 1 \<and> read_log q = [(0, 7)]"
  by (simp add: two_idle demo_dequeues_def new_subq_def enqueue_call_def resting_def dequeue_bulk_call_def
    circular_less_than_def Let_def)

lemma demo_dequeues_reachable:
  "\<exists>q. sq_reachable 2 (q, EqIdle, [DqDone [7], DqDone []]) \<and> sq_bounded (q, EqIdle, [DqDone [7], DqDone []]) \<and>
     stored q = [7, 8 :: nat] \<and> read_log q = [(0, 7)]"
  using demo_dequeues_run sq_run_reachable[OF _ sq_reachable.start] by (fastforce simp: sq_bounded_def sq_end_def)

section \<open>What the queue guarantees\<close>

text \<open>
  C20. However the calls of the threads are interleaved, no thread reads where there is no element, no
  element is read twice, each is read as it was stored, and a call returns elements that were
  stored one after the other.
\<close>

theorem dequeue_reads_once:
  assumes "sq_reachable N (q, e, ps)" "sq_bounded (q, e, ps)"
  shows "DqCrash \<notin> set ps \<and> distinct (map fst (read_log q)) \<and>
    (\<forall>(i, v) \<in> set (read_log q). unat i < length (stored q) \<and> v = stored q ! unat i) \<and>
    (\<forall>vs. DqDone vs \<in> set ps \<longrightarrow> (\<exists>a. part_of vs a (stored q)))"
proof -
  have "elements q e ps" using sq_reachable_inv[OF assms] by (auto simp: sq_inv_def)
  note el = elementsD[OF this]
  have "DqCrash \<notin> set ps" "DqDone vs \<in> set ps \<Longrightarrow> \<exists>a. part_of vs a (stored q)" for vs using el(3) by fastforce+
  then show ?thesis using el(1,4) unfolding log_ok_def by fastforce
qed

theorem dequeue_reads_once_witness:
  "\<exists>q. sq_reachable 2 (q, EqIdle, [DqDone [7 :: nat], DqDone []]) \<and> (\<exists>a. part_of [7] a (stored q))"
  using demo_dequeues_reachable dequeue_reads_once[of 2 _ EqIdle "[DqDone [7], DqDone []]"] by fastforce

text \<open>At rest: no call of a consumer is under way.\<close>

lemma at_rest:
  assumes "sq_reachable N (q, e, ps)" "sq_bounded (q, e, ps)" "list_all resting ps"
  shows "handed q \<le> length (stored q)" "handed q + undone q = issued q" "length (read_log q) = handed q"
    "words_are q" "elements q e ps"
proof -
  obtain S F where inv: "words_are q" "tickets q ps S F" "elements q e ps"
    using sq_reachable_inv[OF assms(1,2)] by (auto simp: sq_inv_def)
  have r: "to_hand p = 0" "to_undo p = 0" "drawn p = {}" "left_to_read p = 0" if "p \<in> set ps" for p
    using assms(3) that by (cases p; auto simp: list_all_iff resting_def)+
  have zero: "sum_list (map f ps) = 0" if "\<And>p. p \<in> set ps \<Longrightarrow> f p = 0" for f :: "'a dq_pc \<Rightarrow> nat"
    using that by (induction ps) auto
  note t = ticketsD[OF inv(2)]
  have "card (S \<union> F) = card S + card F" using t(1,2,4) by (rule card_Un_disjoint)
  moreover have "S \<union> F = {..<issued q}" using t(11) r(3) by blast
  ultimately show "handed q + undone q = issued q" using t(5,6) zero[of to_hand] zero[of to_undo] r by simp
  show "handed q \<le> length (stored q)" "words_are q" "elements q e ps" using inv(1,3) elementsD(1)[OF inv(3)] by auto
  show "length (read_log q) = handed q"
    using elementsD(4)[OF inv(3)] zero[of left_to_read] r(4) by (simp add: log_ok_def)
qed

text \<open>
  C21. At rest the consumers have read the elements from the first on, each once, and the size is the
  number of the others.
\<close>

theorem consumed_prefix:
  assumes "sq_reachable N (q, e, ps)" "sq_bounded (q, e, ps)" "list_all resting ps"
  shows "mset (map snd (read_log q)) = mset (take (length (read_log q)) (stored q)) \<and>
    unat (producer_size q) = length (stored q) - length (read_log q)"
proof -
  note r = at_rest[OF assms]
  let ?n = "length (read_log q)"
  have log: "distinct (map fst (read_log q))" "\<And>i v. (i, v) \<in> set (read_log q) \<Longrightarrow> unat i < ?n \<and> v = stored q ! unat i"
    using elementsD(4)[OF r(5)] r(3) unfolding log_ok_def by auto
  define ks where "ks = map (unat \<circ> fst) (read_log q)"
  have "inj_on unat (fst ` set (read_log q))" by (rule inj_onI) (rule unsigned_word_eqI)
  then have d: "distinct ks" using log(1) by (simp add: ks_def distinct_map comp_inj_on)
  have "set ks \<subseteq> {..<?n}" using log(2) by (auto simp: ks_def)
  moreover have "card (set ks) = ?n" using distinct_card[OF d] by (simp add: ks_def)
  ultimately have ks: "set ks = {..<?n}" by (intro card_subset_eq) auto
  then have "mset ks = mset [0..<?n]" using d by (intro set_eq_iff_mset_eq_distinct[THEN iffD1]) (simp_all add: atLeast0LessThan)
  then have "mset (map (nth (stored q)) ks) = mset (map (nth (stored q)) [0..<?n])" by (simp only: mset_map)
  moreover have "map snd (read_log q) = map (nth (stored q)) ks"
  proof -
    have "snd y = stored q ! unat (fst y)" if "y \<in> set (read_log q)" for y using log(2)[of "fst y" "snd y"] that by simp
    then show ?thesis by (simp add: ks_def)
  qed
  ultimately have "mset (map snd (read_log q)) = mset (map (nth (stored q)) [0..<?n])" by simp
  also have "map (nth (stored q)) [0..<?n] = take ?n (stored q)" using r(1,3) by (intro nth_equalityI) auto
  finally have "mset (map snd (read_log q)) = mset (take ?n (stored q))" .
  moreover have "unat (producer_size q) = length (stored q) - ?n"
  proof -
    have u: "unat (tailIndex q) = length (stored q)" "unat (headIndex q) = ?n"
      using assms(2) r(1,3,4) by (simp_all add: words_are_def sq_bounded_def sq_end_def unat_of_nat take_bit_nat_eq_self)
    then have "circular_less_than (headIndex q) (tailIndex q) \<longleftrightarrow> ?n < length (stored q)"
      using circular_less_than_unat[of "headIndex q" "tailIndex q"] assms(2) r(1,3) by (simp add: sq_bounded_def sq_end_def)
    then show ?thesis using u unat_sub[of "headIndex q" "tailIndex q"]
      by (auto simp: producer_size_def word_le_nat_alt)
  qed
  ultimately show ?thesis ..
qed

theorem consumed_prefix_witness:
  "\<exists>q. sq_reachable 2 (q, EqIdle, [DqDone [7 :: nat], DqDone []]) \<and> unat (producer_size q) = 1"
  using demo_dequeues_reachable consumed_prefix[of 2 _ EqIdle "[DqDone [7], DqDone []]"]
  by (fastforce simp: resting_def)

text \<open>A thread with nobody else about.\<close>

definition dq_alone :: "'v dq_pc \<times> 'v subq \<Rightarrow> 'v dq_pc \<times> 'v subq" where
  "dq_alone s = dq_step (fst s) (snd s)"

text \<open>
  C22. At rest a call of \<^verbatim>\<open>dequeue\<close> that runs alone returns the first element nobody has read, and fails only
  when there is none: the queue is first in, first out, and failed calls before leave no trace.
\<close>

theorem dequeue_takes_next:
  assumes "sq_reachable N (q, e, ps)" "sq_bounded (q, e, ps)" "list_all resting ps"
  shows "fst ((dq_alone ^^ 8) (dequeue_call, q)) =
    DqDone (take 1 (drop (length (read_log q)) (stored q)))"
proof -
  note r = at_rest[OF assms]
  let ?n = "length (read_log q)"
  define x where "x = dequeueOptimisticCount q - dequeueOvercommit q"
  have "x = headIndex q" using r(4) r(2)[symmetric] by (simp add: x_def words_are_def)
  moreover have u: "unat (tailIndex q) = length (stored q)" "unat (headIndex q) = ?n"
    using assms(2) r(1,3,4) by (simp_all add: words_are_def sq_bounded_def sq_end_def unat_of_nat take_bit_nat_eq_self)
  ultimately have c: "circular_less_than 0 (tailIndex q - x) \<longleftrightarrow> ?n < length (stored q)"
    "unat (tailIndex q - x) = length (stored q) - ?n"
    using circular_less_than_unat[of x "tailIndex q"] unat_sub[of "headIndex q" "tailIndex q"] assms(2) r(1,3)
    by (auto simp: single_test sq_bounded_def sq_end_def word_le_nat_alt)
  show ?thesis
  proof (cases "?n < length (stored q)")
    case True
    have pos: "0 < unat (tailIndex q - x)" using True c(2) by simp
    have one: "\<not> tailIndex q - x < 1" "(if 1 < tailIndex q - x then 1 else tailIndex q - x) = 1"
    proof -
      show "\<not> tailIndex q - x < 1" using pos by (simp add: word_less_nat_alt)
      have "tailIndex q - x = 1" if "\<not> 1 < tailIndex q - x"
        using pos that by (intro unsigned_word_eqI[where ?'a = nat]) (simp add: word_less_nat_alt)
      then show "(if 1 < tailIndex q - x then 1 else tailIndex q - x) = 1" by simp
    qed
    have "slots q (headIndex q) = Some (stored q ! ?n)"
      using elementsD(6)[OF r(5), of ?n] True r(3,4) by (simp add: words_are_def)
    then show ?thesis
      using True c(1) one by (simp add: dq_alone_def numeral_eq_Suc dequeue_call_def Let_def x_def[symmetric] take_Suc hd_drop_conv_nth)
  next
    case False
    then show ?thesis using c(1) by (simp add: dq_alone_def numeral_eq_Suc dequeue_call_def Let_def x_def[symmetric])
  qed
qed

theorem dequeue_takes_next_witness:
  "\<exists>q. sq_reachable 2 (q, EqIdle, [DqDone [7 :: nat], DqDone []]) \<and>
     fst ((dq_alone ^^ 8) (dequeue_call, q)) = DqDone [8]"
proof -
  obtain q where q: "sq_reachable 2 (q, EqIdle, [DqDone [7], DqDone []])"
    "sq_bounded (q, EqIdle, [DqDone [7], DqDone []])" "stored q = [7, 8 :: nat]" "read_log q = [(0, 7)]"
    using demo_dequeues_reachable by blast
  have "fst ((dq_alone ^^ 8) (dequeue_call, q)) = DqDone [8]"
    using dequeue_takes_next[OF q(1,2)] q(3,4) by (simp add: resting_def)
  then show ?thesis using q(1) by blast
qed

end
