(* ===== verification/ImplicitQueue.thy ===== *)
theory ImplicitQueue
  imports SubQueue
begin

unbundle bit_operations_syntax

text \<open>
  Where the elements of the queue of \<^verbatim>\<open>src/include/concurrentqueue.h\<close> are: the blocks of 32 elements,
  the pools they come from and go to (\<^verbatim>\<open>requisition_block\<close>, \<^verbatim>\<open>add_block_to_free_list\<close>), and the
  \<^verbatim>\<open>ImplicitProducer\<close> with the circular index of its blocks, which doubles when it is full. The
  calls are taken one at a time here: that threads may share the counters is in \<open>SubQueue\<close>, that
  they may share the free list in \<open>FreeList\<close>, where one thread alone finds a stack
  (\<open>add_alone\<close>, \<open>get_alone\<close>).

  Blocks and index entries are numbered. What \<^verbatim>\<open>malloc\<close> answers is an argument: \<open>index_mem\<close>
  (\<open>None\<close>, or what the uninitialised \<^verbatim>\<open>value\<close> of each new entry is) and \<open>block_mem\<close>. A null
  pointer that is followed, and an element that is not there, is \<open>None\<close>. The constructors and
  assignments of the elements do not throw, and \<^verbatim>\<open>MAX_SUBQUEUE_SIZE\<close> is the default, without limit.
\<close>

section \<open>Blocks and their pools\<close>

definition BLOCK_SIZE :: u64 where "BLOCK_SIZE = 32"

record 'v block =
  elementsCompletelyDequeued :: u64
  elements :: "u64 \<Rightarrow> 'v option"

definition new_block :: "'v block" where
  "new_block = \<lparr>elementsCompletelyDequeued = 0, elements = (\<lambda>_. None)\<rparr>"

record 'v block_pool =
  the_blocks :: "nat \<Rightarrow> 'v block"
  initialBlockPoolIndex :: u64
  initialBlockPoolSize :: u64
  freeList :: "nat list"
  next_block :: nat

text \<open>\<^verbatim>\<open>populate_initial_block_list\<close>, which may get no memory.\<close>

definition populate_initial_block_list :: "u64 \<Rightarrow> bool \<Rightarrow> 'v block_pool" where
  "populate_initial_block_list blockCount mem =
     (let n = if mem then blockCount else 0
      in \<lparr>the_blocks = (\<lambda>_. new_block), initialBlockPoolIndex = 0, initialBlockPoolSize = n, freeList = [], next_block = unat n\<rparr>)"

definition try_get_block_from_initial_pool :: "'v block_pool \<Rightarrow> nat option \<times> 'v block_pool" where
  "try_get_block_from_initial_pool p =
     (if initialBlockPoolIndex p \<ge> initialBlockPoolSize p then (None, p)
      else let i = initialBlockPoolIndex p
           in (if i < initialBlockPoolSize p then Some (unat i) else None, p\<lparr>initialBlockPoolIndex := i + 1\<rparr>))"

definition add_block_to_free_list :: "nat \<Rightarrow> 'v block_pool \<Rightarrow> 'v block_pool" where
  "add_block_to_free_list b p = p\<lparr>freeList := b # freeList p\<rparr>"

definition try_get_block_from_free_list :: "'v block_pool \<Rightarrow> nat option \<times> 'v block_pool" where
  "try_get_block_from_free_list p = (case freeList p of [] \<Rightarrow> (None, p) | b # bs \<Rightarrow> (Some b, p\<lparr>freeList := bs\<rparr>))"

definition requisition_block :: "bool \<Rightarrow> bool \<Rightarrow> 'v block_pool \<Rightarrow> nat option \<times> 'v block_pool" where
  "requisition_block canAlloc block_mem p =
     (case try_get_block_from_initial_pool p of
        (Some b, p1) \<Rightarrow> (Some b, p1)
      | (None, p1) \<Rightarrow>
          (case try_get_block_from_free_list p1 of
             (Some b, p2) \<Rightarrow> (Some b, p2)
           | (None, p2) \<Rightarrow>
               if canAlloc \<and> block_mem
               then (Some (next_block p2), p2\<lparr>the_blocks := (the_blocks p2)(next_block p2 := new_block), next_block := next_block p2 + 1\<rparr>)
               else (None, p2)))"

definition set_block :: "nat \<Rightarrow> 'v block \<Rightarrow> 'v block_pool \<Rightarrow> 'v block_pool" where
  "set_block b x p = p\<lparr>the_blocks := (the_blocks p)(b := x)\<rparr>"

definition reset_empty :: "nat \<Rightarrow> 'v block_pool \<Rightarrow> 'v block_pool" where
  "reset_empty b p = set_block b (the_blocks p b\<lparr>elementsCompletelyDequeued := 0\<rparr>) p"

text \<open>\<^verbatim>\<open>set_empty\<close>: whether the block is now empty.\<close>

definition set_empty :: "nat \<Rightarrow> 'v block_pool \<Rightarrow> bool \<times> 'v block_pool" where
  "set_empty b p =
     (let prevVal = elementsCompletelyDequeued (the_blocks p b)
      in (prevVal = BLOCK_SIZE - 1, set_block b (the_blocks p b\<lparr>elementsCompletelyDequeued := prevVal + 1\<rparr>) p))"

text \<open>\<^verbatim>\<open>(*block)[idx]\<close>: constructing an element there, and moving it out.\<close>

definition put_element :: "nat \<Rightarrow> u64 \<Rightarrow> 'v \<Rightarrow> 'v block_pool \<Rightarrow> 'v block_pool" where
  "put_element b idx v p =
     set_block b (the_blocks p b\<lparr>elements := (elements (the_blocks p b))(idx AND (BLOCK_SIZE - 1) := Some v)\<rparr>) p"

definition take_element :: "nat \<Rightarrow> u64 \<Rightarrow> 'v block_pool \<Rightarrow> ('v \<times> 'v block_pool) option" where
  "take_element b idx p =
     map_option (\<lambda>v. (v, set_block b (the_blocks p b\<lparr>elements := (elements (the_blocks p b))(idx AND (BLOCK_SIZE - 1) := None)\<rparr>) p))
       (elements (the_blocks p b) (idx AND (BLOCK_SIZE - 1)))"

section \<open>The index of the blocks\<close>

record index_entry =
  e_key :: u64
  e_value :: "nat option"

record index_header =
  ix_capacity :: u64
  ix_tail :: u64
  ix_index :: "nat list"

text \<open>The new counters of a producer are those of \<open>SubQueue\<close> without the history.\<close>

record implicit_producer =
  ip_tail :: u64
  ip_head :: u64
  ip_optimistic :: u64
  ip_overcommit :: u64
  ip_tailBlock :: "nat option"
  nextBlockIndexCapacity :: u64
  blockIndex :: "index_header option"
  ix_entries :: "nat \<Rightarrow> index_entry"
  next_entry :: nat

definition INVALID_BLOCK_BASE :: u64 where "INVALID_BLOCK_BASE = 1"

definition IMPLICIT_INITIAL_INDEX_SIZE :: u64 where "IMPLICIT_INITIAL_INDEX_SIZE = 32"

type_synonym index_mem = "(nat \<Rightarrow> nat option) option"

definition header :: "implicit_producer \<Rightarrow> index_header" where
  "header p = the (blockIndex p)"

text \<open>
  The entries of the old index from the oldest on: the loop goes from the position after the tail
  around to the tail. It makes at most as many turns as there are positions.
\<close>

fun copy_index :: "nat \<Rightarrow> u64 \<Rightarrow> index_header \<Rightarrow> nat list" where
  "copy_index 0 prevPos h = []"
| "copy_index (Suc n) prevPos h =
     (let pos = (prevPos + 1) AND (ix_capacity h - 1)
      in ix_index h ! unat pos # (if pos = ix_tail h then [] else copy_index n pos h))"

definition new_block_index :: "index_mem \<Rightarrow> implicit_producer \<Rightarrow> bool \<times> implicit_producer" where
  "new_block_index mem p =
     (let prevCapacity = (case blockIndex p of None \<Rightarrow> 0 | Some h \<Rightarrow> ix_capacity h);
          entryCount = (case blockIndex p of None \<Rightarrow> nextBlockIndexCapacity p | Some h \<Rightarrow> prevCapacity)
      in case mem of
           None \<Rightarrow> (False, p)
         | Some junk \<Rightarrow>
             let old = (case blockIndex p of None \<Rightarrow> [] | Some h \<Rightarrow> copy_index (unat prevCapacity) (ix_tail h) h);
                 new = [next_entry p..<next_entry p + unat entryCount]
             in (True, p\<lparr>blockIndex := Some \<lparr>ix_capacity = nextBlockIndexCapacity p,
                           ix_tail = (prevCapacity - 1) AND (nextBlockIndexCapacity p - 1), ix_index = old @ new\<rparr>,
                         ix_entries := (\<lambda>e. if e \<in> set new then \<lparr>e_key = INVALID_BLOCK_BASE, e_value = junk e\<rparr> else ix_entries p e),
                         next_entry := next_entry p + unat entryCount,
                         nextBlockIndexCapacity := push_bit 1 (nextBlockIndexCapacity p)\<rparr>))"

definition new_implicit_producer :: "index_mem \<Rightarrow> implicit_producer" where
  "new_implicit_producer mem =
     snd (new_block_index mem \<lparr>ip_tail = 0, ip_head = 0, ip_optimistic = 0, ip_overcommit = 0, ip_tailBlock = None,
       nextBlockIndexCapacity = IMPLICIT_INITIAL_INDEX_SIZE, blockIndex = None,
       ix_entries = (\<lambda>_. \<lparr>e_key = INVALID_BLOCK_BASE, e_value = None\<rparr>), next_entry = 0\<rparr>)"

definition set_entry :: "nat \<Rightarrow> index_entry \<Rightarrow> implicit_producer \<Rightarrow> implicit_producer" where
  "set_entry e x p = p\<lparr>ix_entries := (ix_entries p)(e := x)\<rparr>"

definition set_value :: "nat \<Rightarrow> nat option \<Rightarrow> implicit_producer \<Rightarrow> implicit_producer" where
  "set_value e v p = set_entry e (ix_entries p e\<lparr>e_value := v\<rparr>) p"

definition newTail :: "index_header \<Rightarrow> u64" where
  "newTail h = (ix_tail h + 1) AND (ix_capacity h - 1)"

definition store_key :: "u64 \<Rightarrow> index_header \<Rightarrow> implicit_producer \<Rightarrow> nat \<times> implicit_producer" where
  "store_key base h p =
     (let e = ix_index h ! unat (newTail h)
      in (e, set_entry e (ix_entries p e\<lparr>e_key := base\<rparr>) (p\<lparr>blockIndex := Some (h\<lparr>ix_tail := newTail h\<rparr>)\<rparr>)))"

definition insert_block_index_entry :: "bool \<Rightarrow> index_mem \<Rightarrow> u64 \<Rightarrow> implicit_producer \<Rightarrow> nat option \<times> implicit_producer" where
  "insert_block_index_entry canAlloc mem base p =
     (case blockIndex p of
        None \<Rightarrow> (None, p)
      | Some h \<Rightarrow>
          let e = ix_index h ! unat (newTail h)
          in if e_key (ix_entries p e) = INVALID_BLOCK_BASE \<or> e_value (ix_entries p e) = None
             then (case store_key base h p of (e, p1) \<Rightarrow> (Some e, p1))
             else if \<not> canAlloc then (None, p)
             else case new_block_index mem p of
                    (False, p1) \<Rightarrow> (None, p1)
                  | (True, p1) \<Rightarrow> (case store_key base (header p1) p1 of (e, p2) \<Rightarrow> (Some e, p2)))"

definition rewind_block_index_tail :: "implicit_producer \<Rightarrow> implicit_producer" where
  "rewind_block_index_tail p =
     (let h = header p in p\<lparr>blockIndex := Some (h\<lparr>ix_tail := (ix_tail h - 1) AND (ix_capacity h - 1)\<rparr>)\<rparr>)"

text \<open>
  The quotient: \<^verbatim>\<open>BLOCK_SIZE\<close> is unsigned, so the division is, although its left operand was made
  signed.
\<close>

definition get_block_index_index_for_index :: "u64 \<Rightarrow> index_header \<Rightarrow> (nat \<Rightarrow> index_entry) \<Rightarrow> u64" where
  "get_block_index_index_for_index idx h es =
     (let base = idx AND NOT (BLOCK_SIZE - 1);
          tailBase = e_key (es (ix_index h ! unat (ix_tail h)));
          offset = (base - tailBase) div BLOCK_SIZE
      in (ix_tail h + offset) AND (ix_capacity h - 1))"

definition get_block_index_entry_for_index :: "u64 \<Rightarrow> implicit_producer \<Rightarrow> nat" where
  "get_block_index_entry_for_index idx p =
     ix_index (header p) ! unat (get_block_index_index_for_index idx (header p) (ix_entries p))"

section \<open>Enqueue and dequeue\<close>

type_synonym 'v producer_state = "implicit_producer \<times> 'v block_pool"

text \<open>A new block for the elements from the tail on.\<close>

definition add_block :: "bool \<Rightarrow> index_mem \<Rightarrow> bool \<Rightarrow> 'v producer_state \<Rightarrow> bool \<times> 'v producer_state" where
  "add_block canAlloc imem bmem s =
     (case s of (p, bp) \<Rightarrow>
        if \<not> circular_less_than (ip_head p) (ip_tail p + BLOCK_SIZE) then (False, p, bp)
        else case insert_block_index_entry canAlloc imem (ip_tail p) p of
               (None, p1) \<Rightarrow> (False, p1, bp)
             | (Some e, p1) \<Rightarrow>
                 (case requisition_block canAlloc bmem bp of
                    (None, bp1) \<Rightarrow> (False, set_value e None (rewind_block_index_tail p1), bp1)
                  | (Some b, bp1) \<Rightarrow> (True, (set_value e (Some b) p1)\<lparr>ip_tailBlock := Some b\<rparr>, reset_empty b bp1)))"

definition put_at_tail :: "'v \<Rightarrow> 'v producer_state \<Rightarrow> 'v producer_state option" where
  "put_at_tail v s =
     (case s of (p, bp) \<Rightarrow>
        map_option (\<lambda>b. (p\<lparr>ip_tail := ip_tail p + 1\<rparr>, put_element b (ip_tail p) v bp)) (ip_tailBlock p))"

definition ip_enqueue :: "bool \<Rightarrow> index_mem \<Rightarrow> bool \<Rightarrow> 'v \<Rightarrow> 'v producer_state \<Rightarrow> (bool \<times> 'v producer_state) option" where
  "ip_enqueue canAlloc imem bmem v s =
     (if ip_tail (fst s) AND (BLOCK_SIZE - 1) = 0
      then (case add_block canAlloc imem bmem s of
              (False, s1) \<Rightarrow> Some (False, s1)
            | (True, s1) \<Rightarrow> map_option (Pair True) (put_at_tail v s1))
      else map_option (Pair True) (put_at_tail v s))"

text \<open>Taking the element of an index out of its block, and giving the block back when it is empty.\<close>

definition take_at :: "u64 \<Rightarrow> 'v producer_state \<Rightarrow> ('v \<times> 'v producer_state) option" where
  "take_at idx s =
     (case s of (p, bp) \<Rightarrow>
        let e = get_block_index_entry_for_index idx p
        in case e_value (ix_entries p e) of
             None \<Rightarrow> None
           | Some b \<Rightarrow>
               (case take_element b idx bp of
                  None \<Rightarrow> None
                | Some (v, bp1) \<Rightarrow>
                    (case set_empty b bp1 of
                       (False, bp2) \<Rightarrow> Some (v, p, bp2)
                     | (True, bp2) \<Rightarrow> Some (v, set_value e None p, add_block_to_free_list b bp2))))"

definition ip_dequeue :: "'v producer_state \<Rightarrow> ('v option \<times> 'v producer_state) option" where
  "ip_dequeue s =
     (case s of (p, bp) \<Rightarrow>
        let tail = ip_tail p; overcommit = ip_overcommit p
        in if circular_less_than (ip_optimistic p - overcommit) tail
           then let my = ip_optimistic p; p1 = p\<lparr>ip_optimistic := my + 1\<rparr>
                in if circular_less_than (my - overcommit) tail
                   then map_option (\<lambda>(v, s1). (Some v, s1)) (take_at (ip_head p1) (p1\<lparr>ip_head := ip_head p1 + 1\<rparr>, bp))
                   else Some (None, p1\<lparr>ip_overcommit := overcommit + 1\<rparr>, bp)
           else Some (None, p, bp))"

definition ip_size_approx :: "implicit_producer \<Rightarrow> u64" where
  "ip_size_approx p = (if circular_less_than (ip_head p) (ip_tail p) then ip_tail p - ip_head p else 0)"

section \<open>Masks\<close>

lemma unat_and_cap:
  fixes w :: u64
  assumes "cap = 2 ^ c" shows "unat (w AND (cap - 1)) = unat w mod 2 ^ c"
proof -
  have "w AND (cap - 1) = take_bit c w" using assms by (simp add: take_bit_eq_mask mask_eq_exp_minus_1)
  also have "unat (take_bit c w) = take_bit c (unat w)" by (rule unsigned_take_bit_eq)
  finally show ?thesis by (simp only: take_bit_eq_mod)
qed

lemma unat_add_mod:
  fixes x y :: u64
  assumes "c \<le> 64" shows "unat (x + y) mod 2 ^ c = (unat x + unat y) mod 2 ^ c"
proof -
  have "(2 :: nat) ^ c dvd 2 ^ 64" using assms by (rule le_imp_power_dvd)
  then show ?thesis by (simp add: unat_word_ariths mod_mod_cancel)
qed

lemma unat_and_31: "unat (w AND (BLOCK_SIZE - 1)) = unat w mod 32" for w :: u64
  using unat_and_cap[of BLOCK_SIZE 5 w] by (simp add: BLOCK_SIZE_def)

lemma and_31: "(of_nat n :: u64) AND (BLOCK_SIZE - 1) = of_nat (n mod 32)"
proof -
  have "unat ((of_nat n :: u64) AND (BLOCK_SIZE - 1)) = unat (of_nat (n mod 32) :: u64)"
    using mod_less_divisor[of 32 n]
    by (simp add: unat_and_31 unat_of_nat take_bit_nat_eq_self take_bit_eq_mod mod_mod_cancel)
  then show ?thesis by (rule unsigned_word_eqI)
qed

lemma and_not_31_bit: "bit (31 :: u64) n \<longleftrightarrow> n < 5"
proof -
  have "(31 :: u64) = mask 5" by (simp add: mask_eq_exp_minus_1)
  then have "bit (31 :: u64) n \<longleftrightarrow> bit (mask 5 :: u64) n" by (simp only:)
  then show ?thesis by (auto simp: bit_mask_iff)
qed

lemma and_not_31: "unat (w AND NOT (BLOCK_SIZE - 1)) = 32 * (unat w div 32)" for w :: u64
proof -
  define m :: u64 where "m = 31"
  have "w AND NOT m = push_bit 5 (drop_bit 5 w)"
    by (rule bit_word_eqI) (auto simp: m_def[symmetric] bit_and_iff bit_not_iff bit_push_bit_iff bit_drop_bit_eq
      and_not_31_bit[folded m_def])
  then have "w AND NOT (BLOCK_SIZE - 1) = push_bit 5 (drop_bit 5 w)" by (simp add: BLOCK_SIZE_def m_def)
  moreover have "unat w < 2 ^ 64" using unsigned_less[of w] by simp
  ultimately show ?thesis
    by (simp add: push_bit_eq_mult drop_bit_eq_div unat_word_ariths unat_div)
qed

section \<open>The ring of the entries\<close>

text \<open>The entries of the index from the oldest to the tail.\<close>

definition ring :: "index_header \<Rightarrow> nat list" where
  "ring h = rotate (Suc (unat (ix_tail h))) (ix_index h)"

definition header_ok :: "index_header \<Rightarrow> nat \<Rightarrow> bool" where
  "header_ok h c \<longleftrightarrow> ix_capacity h = 2 ^ c \<and> c \<le> 58 \<and> length (ix_index h) = 2 ^ c \<and> unat (ix_tail h) < 2 ^ c"

lemma header_okD:
  assumes "header_ok h c"
  shows "ix_capacity h = 2 ^ c" "c \<le> 58" "length (ix_index h) = 2 ^ c" "unat (ix_tail h) < 2 ^ c" "length (ring h) = 2 ^ c"
    "ix_index h \<noteq> []"
  using assms by (auto simp: header_ok_def ring_def)

lemma unat_and_capacity: "header_ok h c \<Longrightarrow> unat (w AND (ix_capacity h - 1)) = unat w mod 2 ^ c"
  using header_okD(1)[of h c] by (intro unat_and_cap) simp

lemma ring_nth: "header_ok h c \<Longrightarrow> d < 2 ^ c \<Longrightarrow> ring h ! d = ix_index h ! ((unat (ix_tail h) + 1 + d) mod 2 ^ c)"
  using header_okD[of h c] by (simp add: ring_def nth_rotate del: rotate_Suc)

lemma unat_newTail: "header_ok h c \<Longrightarrow> unat (newTail h) = (unat (ix_tail h) + 1) mod 2 ^ c"
  using header_okD(2)[of h c] unat_add_mod[of c "ix_tail h" 1] by (simp add: newTail_def unat_and_capacity)

lemma ring_newTail: "header_ok h c \<Longrightarrow> ix_index h ! unat (newTail h) = ring h ! 0"
  by (simp add: unat_newTail ring_nth)

lemma header_ok_newTail: "header_ok h c \<Longrightarrow> header_ok (h\<lparr>ix_tail := newTail h\<rparr>) c"
  using unat_newTail[of h c] by (simp add: header_ok_def)

lemma rotate_mod: "length xs = n \<Longrightarrow> rotate (Suc (k mod n)) xs = rotate (Suc k) xs"
  by (metis rotate_conv_mod mod_Suc_eq)

lemma ring_after_newTail: "header_ok h c \<Longrightarrow> ring (h\<lparr>ix_tail := newTail h\<rparr>) = rotate1 (ring h)"
  using header_okD(3)[of h c] by (simp add: ring_def unat_newTail rotate_mod del: rotate_Suc) (simp add: rotate_rotate)

lemma ring_rewind:
  assumes "header_ok h c"
  shows "h\<lparr>ix_tail := (newTail h - 1) AND (ix_capacity h - 1)\<rparr> = h"
proof -
  note ok = header_okD[OF assms]
  have "unat ((newTail h - 1) AND (ix_capacity h - 1)) = unat (newTail h - 1) mod 2 ^ c" by (rule unat_and_capacity[OF assms])
  also have "\<dots> = (unat (newTail h) + (2 ^ 64 - 1)) mod 2 ^ c"
    using unat_add_mod[of c "newTail h" "- 1"] ok(2) by (simp add: unsigned_minus_1_eq_mask mask_eq_exp_minus_1)
  also have "\<dots> = (unat (ix_tail h) + 1 + (2 ^ 64 - 1)) mod 2 ^ c" by (simp only: unat_newTail[OF assms] mod_add_left_eq)
  also have "unat (ix_tail h) + 1 + (2 ^ 64 - 1) = unat (ix_tail h) + 2 ^ 64" by simp
  also have "(unat (ix_tail h) + 2 ^ 64) mod 2 ^ c = unat (ix_tail h)"
  proof -
    have "(2 :: nat) ^ c dvd 2 ^ 64" using ok(2) by (intro le_imp_power_dvd) simp
    then obtain k where k: "(2 :: nat) ^ 64 = 2 ^ c * k" by (rule dvdE)
    show ?thesis unfolding k using ok(4) by (simp only: mod_mult_self2 mod_less)
  qed
  finally have "unat ((newTail h - 1) AND (ix_capacity h - 1)) = unat (ix_tail h)" .
  then have "(newTail h - 1) AND (ix_capacity h - 1) = ix_tail h" by (rule unsigned_word_eqI)
  then show ?thesis by simp
qed

lemma copy_index_drop:
  assumes "header_ok h c" "j < 2 ^ c" "unat pos = (unat (ix_tail h) + j) mod 2 ^ c"
  shows "copy_index (2 ^ c - j) pos h = drop j (ring h)"
  using assms(2,3)
proof (induction "2 ^ c - j" arbitrary: j pos)
  case (Suc n)
  note ok = header_okD[OF assms(1)]
  let ?pos = "(pos + 1) AND (ix_capacity h - 1)"
  have "unat ?pos = ((unat (ix_tail h) + j) mod 2 ^ c + 1) mod 2 ^ c"
    using unat_add_mod[of c pos 1] ok(2) Suc.prems(2) by (simp add: unat_and_capacity[OF assms(1)])
  then have pos: "unat ?pos = (unat (ix_tail h) + Suc j) mod 2 ^ c" by (simp add: mod_Suc_eq)
  have n: "2 ^ c - j = Suc (2 ^ c - Suc j)" using Suc.prems(1) by simp
  have nth: "ix_index h ! unat ?pos = ring h ! j" using ring_nth[OF assms(1) Suc.prems(1)] pos by simp
  have drop: "drop j (ring h) = ring h ! j # drop (Suc j) (ring h)"
    using Suc.prems(1) ok(5) by (simp add: Cons_nth_drop_Suc)
  show ?case
  proof (cases "Suc j < 2 ^ c")
    case True
    have "(unat (ix_tail h) + Suc j) mod 2 ^ c \<noteq> unat (ix_tail h)"
    proof (cases "unat (ix_tail h) + Suc j < 2 ^ c")
      case False
      then have "(unat (ix_tail h) + Suc j) mod 2 ^ c = unat (ix_tail h) + Suc j - 2 ^ c"
        using True ok(4) by (simp add: le_mod_geq)
      then show ?thesis using True False by linarith
    qed simp
    then have "?pos \<noteq> ix_tail h" using pos by auto
    then show ?thesis using Suc.hyps(1)[of "Suc j" ?pos] Suc.hyps(2) True pos nth drop n by (simp add: Let_def)
  next
    case False
    then have j: "Suc j = 2 ^ c" using Suc.prems(1) by simp
    then have "unat ?pos = unat (ix_tail h)" using pos ok(4) by simp
    then have "?pos = ix_tail h" by (rule unsigned_word_eqI)
    then show ?thesis using nth drop n j ok(5) by (simp add: Let_def)
  qed
qed simp

lemma copy_index_ring:
  assumes "header_ok h c" shows "copy_index (2 ^ c) (ix_tail h) h = ring h"
  using copy_index_drop[OF assms, of 0 "ix_tail h"] header_okD(4)[OF assms] by simp

text \<open>The new index: the old ring, then as many new entries, with the tail between them.\<close>

lemma ring_doubled:
  assumes "header_ok h c" "length new = 2 ^ c" "c < 58"
  shows "header_ok \<lparr>ix_capacity = 2 ^ Suc c, ix_tail = (ix_capacity h - 1) AND (2 ^ Suc c - 1), ix_index = ring h @ new\<rparr> (Suc c) \<and>
    ring \<lparr>ix_capacity = 2 ^ Suc c, ix_tail = (ix_capacity h - 1) AND (2 ^ Suc c - 1), ix_index = ring h @ new\<rparr> = new @ ring h"
proof -
  note ok = header_okD[OF assms(1)]
  have "(2 :: nat) ^ c < 2 ^ 64" using assms(3) by (intro power_strict_increasing) simp_all
  then have c: "unat (2 ^ c :: u64) = 2 ^ c"
    using unat_of_nat[of "2 ^ c", where ?'a = 64] by (simp add: take_bit_nat_eq_self del: power_strict_increasing_iff)
  have "unat (ix_capacity h - 1) = 2 ^ c - 1" using c ok(1) by (simp add: unat_sub word_le_nat_alt)
  moreover have less: "(2 :: nat) ^ c - Suc 0 < 2 * 2 ^ c" using zero_less_power[of "2 :: nat" c] by linarith
  ultimately have t: "unat ((ix_capacity h - 1) AND (2 ^ Suc c - 1)) = 2 ^ c - 1"
    using unat_and_cap[of "2 ^ Suc c" "Suc c" "ix_capacity h - 1"] less by simp
  have r: "rotate (2 ^ c) (ring h @ new) = new @ ring h" using rotate_append[of "ring h" new] ok(5) by simp
  show ?thesis
    using t assms(2,3) ok(5) r less unfolding header_ok_def ring_def[of "\<lparr>ix_capacity = _, ix_tail = _, ix_index = _\<rparr>"]
    by (simp add: rotate_append del: rotate_Suc)
qed

text \<open>
  The entry that is \<open>k\<close> blocks before the tail. The quotient is \<open>2 ^ 59 - k\<close> for \<open>k > 0\<close>, but the
  capacity divides \<open>2 ^ 59\<close>.
\<close>

lemma index_of_block:
  assumes "header_ok h c" "k < 2 ^ c" "k \<le> t" "unat idx div 32 = t - k" "32 * t < 2 ^ 63"
    and key: "e_key (es (ring h ! (2 ^ c - 1))) = of_nat (32 * t)"
  shows "ix_index h ! unat (get_block_index_index_for_index idx h es) = ring h ! (2 ^ c - 1 - k)"
proof -
  note ok = header_okD[OF assms(1)]
  have "ring h ! (2 ^ c - 1) = ix_index h ! ((unat (ix_tail h) + 2 ^ c) mod 2 ^ c)"
    using ring_nth[OF assms(1), of "2 ^ c - 1"] by simp
  then have last: "ix_index h ! unat (ix_tail h) = ring h ! (2 ^ c - 1)" using ok(4) by simp
  define base tb where "base = idx AND NOT (BLOCK_SIZE - 1)" and "tb = e_key (es (ix_index h ! unat (ix_tail h)))"
  have base: "unat base = 32 * (t - k)" using and_not_31[of idx] assms(4) by (simp add: base_def)
  have tb: "unat tb = 32 * t" using assms(5) unfolding tb_def last key by (simp add: unat_of_nat take_bit_nat_eq_self del: of_nat_mult)
  define off where "off = (base - tb) div BLOCK_SIZE"
  have off: "unat off = (if k = 0 then 0 else 2 ^ 59 - k)"
  proof (cases "k = 0")
    case True
    then have "unat base = unat tb" using base tb by simp
    then have "base = tb" by (rule unsigned_word_eqI)
    then show ?thesis using True by (simp add: off_def)
  next
    case False
    then have "unat base < unat tb" using base tb assms(3) by auto
    then have "unat (base - tb) = 2 ^ 64 - (32 * t - 32 * (t - k))" using unat_diff_less base tb by metis
    also have "\<dots> = 32 * (2 ^ 59 - k)" using assms(3) by (simp add: diff_mult_distrib2)
    finally show ?thesis using False by (simp add: off_def BLOCK_SIZE_def unat_div)
  qed
  have "unat (get_block_index_index_for_index idx h es) = (unat (ix_tail h) + unat off) mod 2 ^ c"
    unfolding get_block_index_index_for_index_def Let_def base_def[symmetric] tb_def[symmetric] off_def[symmetric]
    using unat_add_mod[of c "ix_tail h" off] ok(2) by (simp add: unat_and_capacity[OF assms(1)])
  also have "\<dots> = (unat (ix_tail h) + (2 ^ c - k)) mod 2 ^ c"
  proof (cases "k = 0")
    case False
    have "(2 :: nat) ^ 59 = 2 ^ c * (2 ^ (59 - c))" using ok(2) by (simp flip: power_add)
    moreover have "(2 :: nat) ^ (59 - c) = Suc (2 ^ (59 - c) - 1)" by simp
    ultimately have "2 ^ 59 - k = 2 ^ c - k + 2 ^ c * (2 ^ (59 - c) - 1)" using assms(2) by (metis Nat.add_diff_assoc2 add.commute less_imp_le mult_Suc_right)
    then show ?thesis using False off by (simp add: add.assoc[symmetric])
  qed (use off in simp)
  also have "unat (ix_tail h) + (2 ^ c - k) = unat (ix_tail h) + 1 + (2 ^ c - 1 - k)" using assms(2) by simp
  finally show ?thesis using ring_nth[OF assms(1), of "2 ^ c - 1 - k"] by simp
qed

section \<open>The blocks in the index\<close>

definition slot_free :: "index_entry \<Rightarrow> bool" where
  "slot_free x \<longleftrightarrow> e_key x = INVALID_BLOCK_BASE \<or> e_value x = None"

text \<open>The entries of consecutive blocks of 32 indices, from block number \<open>j\<close> on.\<close>

fun holds_blocks :: "(nat \<Rightarrow> index_entry) \<Rightarrow> nat \<Rightarrow> nat list \<Rightarrow> nat list \<Rightarrow> bool" where
  "holds_blocks es j [] [] = True"
| "holds_blocks es j (e # E) (b # W) = (es e = \<lparr>e_key = of_nat (32 * j), e_value = Some b\<rparr> \<and> holds_blocks es (Suc j) E W)"
| "holds_blocks es j _ _ = False"

lemma holds_length: "holds_blocks es j E W \<Longrightarrow> length E = length W"
  by (induction es j E W rule: holds_blocks.induct) auto

lemma holds_cong: "(\<And>e. e \<in> set E \<Longrightarrow> es e = es' e) \<Longrightarrow> holds_blocks es j E W \<Longrightarrow> holds_blocks es' j E W"
  by (induction es j E W rule: holds_blocks.induct) auto

lemma holds_snoc:
  "holds_blocks es j E W \<Longrightarrow> es f = \<lparr>e_key = of_nat (32 * (j + length W)), e_value = Some b\<rparr> \<Longrightarrow>
    holds_blocks es j (E @ [f]) (W @ [b])"
  by (induction es j E W rule: holds_blocks.induct) (auto simp: add_Suc_shift)

lemma holds_nth:
  "holds_blocks es j E W \<Longrightarrow> d < length W \<Longrightarrow> es (E ! d) = \<lparr>e_key = of_nat (32 * (j + d)), e_value = Some (W ! d)\<rparr>"
proof (induction es j E W arbitrary: d rule: holds_blocks.induct)
  case (2 es j e E b W)
  then show ?case by (cases d) auto
qed auto

definition index_parts :: "implicit_producer \<Rightarrow> index_header \<Rightarrow> nat \<Rightarrow> nat list \<Rightarrow> nat \<Rightarrow> nat list \<Rightarrow> nat list \<Rightarrow> bool" where
  "index_parts p h j W c free E \<longleftrightarrow> header_ok h c \<and> ring h = free @ E \<and> distinct (ring h) \<and> set (ring h) \<subseteq> {..<next_entry p} \<and>
     (\<forall>e \<in> set free. slot_free (ix_entries p e)) \<and> holds_blocks (ix_entries p) j E W \<and>
     nextBlockIndexCapacity p = 2 ^ Suc c \<and> (c \<le> 5 \<or> 2 ^ c \<le> 2 * (j + length W))"

definition index_inv :: "implicit_producer \<Rightarrow> nat \<Rightarrow> nat list \<Rightarrow> bool" where
  "index_inv p j W \<longleftrightarrow> (case blockIndex p of None \<Rightarrow> W = [] | Some h \<Rightarrow> \<exists>c free E. index_parts p h j W c free E)"

definition same_counters :: "implicit_producer \<Rightarrow> implicit_producer \<Rightarrow> bool" where
  "same_counters p q \<longleftrightarrow> ip_tail p = ip_tail q \<and> ip_head p = ip_head q \<and> ip_optimistic p = ip_optimistic q \<and>
     ip_overcommit p = ip_overcommit q \<and> ip_tailBlock p = ip_tailBlock q"

lemma index_partsD:
  assumes "index_parts p h j W c free E"
  shows "header_ok h c" "ring h = free @ E" "distinct (ring h)" "set (ring h) \<subseteq> {..<next_entry p}"
    "e \<in> set free \<Longrightarrow> slot_free (ix_entries p e)" "holds_blocks (ix_entries p) j E W" "length E = length W"
    "nextBlockIndexCapacity p = 2 ^ Suc c" "c \<le> 5 \<or> 2 ^ c \<le> 2 * (j + length W)"
  using assms holds_length by (auto simp: index_parts_def)

lemma index_inv_cong:
  "index_inv p j W \<Longrightarrow> blockIndex q = blockIndex p \<Longrightarrow> ix_entries q = ix_entries p \<Longrightarrow> next_entry q = next_entry p \<Longrightarrow>
    nextBlockIndexCapacity q = nextBlockIndexCapacity p \<Longrightarrow> index_inv q j W"
  by (cases "blockIndex p") (simp_all add: index_inv_def index_parts_def[abs_def])

text \<open>The next entry takes the key, and then either a block or, when there is none, nothing.\<close>

lemma index_store:
  assumes "index_parts p h j W c (f # fs) E" "store_key (of_nat (32 * (j + length W))) h p = (e, p1)"
  shows "e = f \<and> same_counters p1 p \<and> blockIndex p1 \<noteq> None \<and>
    index_inv (set_value e (Some b) p1) j (W @ [b]) \<and> index_inv (set_value e None (rewind_block_index_tail p1)) j W"
proof -
  note ix = index_partsD[OF assms(1)]
  have e: "e = f" and p1: "p1 = set_entry f (ix_entries p f\<lparr>e_key := of_nat (32 * (j + length W))\<rparr>)
      (p\<lparr>blockIndex := Some (h\<lparr>ix_tail := newTail h\<rparr>)\<rparr>)"
    using assms(2) ring_newTail[OF ix(1)] ix(2) by (auto simp: store_key_def Let_def)
  have f: "f \<notin> set fs" "f \<notin> set E" using ix(2,3) by auto
  let ?h = "h\<lparr>ix_tail := newTail h\<rparr>" and ?q = "set_value f (Some b) p1"
  have "holds_blocks (ix_entries ?q) j (E @ [f]) (W @ [b])"
  proof (rule holds_snoc)
    show "holds_blocks (ix_entries ?q) j E W"
      using f(2) by (intro holds_cong[OF _ ix(6)]) (auto simp: p1 set_value_def set_entry_def)
  qed (simp add: p1 set_value_def set_entry_def)
  moreover have "slot_free (ix_entries ?q x)" if "x \<in> set fs" for x
    using ix(5)[of x] that f(1) by (auto simp: p1 set_value_def set_entry_def)
  moreover have "ring ?h = fs @ E @ [f]" using ring_after_newTail[OF ix(1)] ix(2) by simp
  ultimately have "index_parts ?q ?h j (W @ [b]) c fs (E @ [f])"
    using header_ok_newTail[OF ix(1)] ix(2,3,4,8,9) by (auto simp: index_parts_def p1 set_value_def set_entry_def)
  then have one: "index_inv ?q j (W @ [b])" unfolding index_inv_def by (auto simp: p1 set_value_def set_entry_def)
  let ?r = "set_value f None (rewind_block_index_tail p1)"
  have "blockIndex ?r = Some h" using ring_rewind[OF ix(1)]
    by (simp add: p1 set_value_def set_entry_def rewind_block_index_tail_def header_def Let_def)
  moreover have "holds_blocks (ix_entries ?r) j E W"
    using f(2) by (intro holds_cong[OF _ ix(6)]) (auto simp: p1 set_value_def set_entry_def rewind_block_index_tail_def Let_def)
  moreover have "slot_free (ix_entries ?r x)" if "x \<in> set (f # fs)" for x
    using ix(5)[of x] that f(1) by (auto simp: p1 set_value_def set_entry_def rewind_block_index_tail_def Let_def slot_free_def)
  ultimately have "index_parts ?r h j W c (f # fs) E"
    using ix(1-4,8,9) by (auto simp: index_parts_def p1 set_value_def set_entry_def rewind_block_index_tail_def Let_def)
  then have two: "index_inv ?r j W" unfolding index_inv_def using \<open>blockIndex ?r = Some h\<close> by auto
  show ?thesis using e one two by (simp add: p1 same_counters_def set_entry_def)
qed

text \<open>A full index is replaced by one with twice as many entries.\<close>

lemma index_grow:
  assumes "index_parts p h j W c [] E" "blockIndex p = Some h" "j + length W < 2 ^ 57" "new_block_index mem p = (r, p1)"
  shows "same_counters p1 p \<and> (r \<longleftrightarrow> mem \<noteq> None) \<and> (\<not> r \<longrightarrow> p1 = p) \<and>
    (r \<longrightarrow> (\<exists>h1 f fs. blockIndex p1 = Some h1 \<and> index_parts p1 h1 j W (Suc c) (f # fs) E))"
proof (cases mem)
  case None
  then show ?thesis using assms(4) by (auto simp: new_block_index_def Let_def same_counters_def)
next
  case (Some junk)
  note ix = index_partsD[OF assms(1)] and ok = header_okD[OF index_partsD(1)[OF assms(1)]]
  have len: "2 ^ c = length W" using ok(5) ix(2,7) by simp
  then have "(2 :: nat) ^ c < 2 ^ 57" using assms(3) by linarith
  then have c: "c < 57" by (rule power_less_imp_less_exp[rotated]) simp
  have "(2 :: nat) ^ c < 2 ^ 64" using c by (intro power_strict_increasing) simp_all
  then have u: "unat (ix_capacity h) = 2 ^ c" unfolding ok(1)
    using unat_of_nat[of "2 ^ c", where ?'a = 64] by (simp add: take_bit_nat_eq_self del: power_strict_increasing_iff)
  define new where "new = [next_entry p..<next_entry p + 2 ^ c]"
  define h1 where "h1 = \<lparr>ix_capacity = 2 ^ Suc c, ix_tail = (ix_capacity h - 1) AND (2 ^ Suc c - 1), ix_index = ring h @ new\<rparr>"
  have h1: "header_ok h1 (Suc c)" "ring h1 = new @ E"
    using ring_doubled[OF ix(1), of new] c ix(2) by (simp_all add: h1_def new_def)
  have p1: "r" "p1 = p\<lparr>blockIndex := Some h1,
      ix_entries := (\<lambda>e. if e \<in> set new then \<lparr>e_key = INVALID_BLOCK_BASE, e_value = junk e\<rparr> else ix_entries p e),
      next_entry := next_entry p + 2 ^ c, nextBlockIndexCapacity := push_bit 1 (nextBlockIndexCapacity p)\<rparr>"
    using assms(2,4) Some by (auto simp: new_block_index_def Let_def u copy_index_ring[OF ix(1)] ix(8) h1_def new_def)
  have fresh: "e \<notin> set new" if "e \<in> set E" for e using ix(2,4) that by (auto simp: new_def)
  have "holds_blocks (ix_entries p1) j E W" using fresh by (intro holds_cong[OF _ ix(6)]) (auto simp: p1)
  moreover have "distinct (new @ E)" using ix(2,3) fresh by (auto simp: new_def)
  moreover have "set (new @ E) \<subseteq> {..<next_entry p1}" using ix(2,4) by (auto simp: new_def p1)
  moreover have "2 ^ Suc c \<le> 2 * (j + length W)" using len by simp
  ultimately have "index_parts p1 h1 j W (Suc c) new E"
    using h1 ix(8) by (auto simp: index_parts_def p1 slot_free_def push_bit_eq_mult)
  moreover obtain f fs where "new = f # fs" by (cases new) (auto simp: new_def)
  ultimately show ?thesis using p1 Some by (auto simp: same_counters_def)
qed

lemma index_insert:
  assumes "index_inv p j W" "j + length W < 2 ^ 57" "insert_block_index_entry ca mem (of_nat (32 * (j + length W))) p = (r, p1)"
  shows "same_counters p1 p \<and> (case r of
      None \<Rightarrow> index_inv p1 j W \<and> \<not> (blockIndex p \<noteq> None \<and> ca \<and> mem \<noteq> None) \<and> (blockIndex p1 = None \<longleftrightarrow> blockIndex p = None)
    | Some e \<Rightarrow> blockIndex p1 \<noteq> None \<and> index_inv (set_value e (Some b) p1) j (W @ [b]) \<and>
        index_inv (set_value e None (rewind_block_index_tail p1)) j W)"
proof (cases "blockIndex p")
  case None
  then show ?thesis using assms(1,3) by (auto simp: insert_block_index_entry_def same_counters_def)
next
  case (Some h)
  then obtain c free E where ix: "index_parts p h j W c free E" using assms(1) by (auto simp: index_inv_def)
  note ixD = index_partsD[OF ix]
  show ?thesis
  proof (cases free)
    case (Cons f fs)
    then have "slot_free (ix_entries p (ix_index h ! unat (newTail h)))"
      using ixD(5)[of f] ring_newTail[OF ixD(1)] ixD(2) by simp
    then obtain e where st: "store_key (of_nat (32 * (j + length W))) h p = (e, p1)" "r = Some e"
      using assms(3) Some by (auto simp: insert_block_index_entry_def slot_free_def Let_def split: prod.splits)
    show ?thesis using index_store[OF ix[unfolded Cons] st(1), where b = b] st(2) by auto
  next
    case Nil
    have W: "0 < length W" using header_okD(5)[OF ixD(1)] ixD(2,7) Nil by simp
    have "ix_entries p (ix_index h ! unat (newTail h)) = \<lparr>e_key = of_nat (32 * j), e_value = Some (W ! 0)\<rparr>"
      using holds_nth[OF ixD(6) W] ring_newTail[OF ixD(1)] ixD(2) Nil by simp
    moreover have "(of_nat (32 * j) :: u64) \<noteq> INVALID_BLOCK_BASE"
    proof
      assume "(of_nat (32 * j) :: u64) = INVALID_BLOCK_BASE"
      then have "unat (of_nat (32 * j) :: u64) = 1" by (simp add: INVALID_BLOCK_BASE_def del: of_nat_mult)
      then show False using assms(2) by (simp add: unat_of_nat take_bit_nat_eq_self del: of_nat_mult)
    qed
    ultimately have full: "insert_block_index_entry ca mem base p =
        (if \<not> ca then (None, p) else case new_block_index mem p of (False, p1) \<Rightarrow> (None, p1)
         | (True, p1) \<Rightarrow> (case store_key base (header p1) p1 of (e, p2) \<Rightarrow> (Some e, p2)))" for base
      using Some by (simp add: insert_block_index_entry_def Let_def del: of_nat_mult)
    obtain ok p2 where g: "new_block_index mem p = (ok, p2)" by (cases "new_block_index mem p")
    note grow = index_grow[OF ix[unfolded Nil] Some assms(2) g]
    show ?thesis
    proof (cases "ca \<and> ok")
      case True
      then obtain h1 f fs where h1: "blockIndex p2 = Some h1" "index_parts p2 h1 j W (Suc c) (f # fs) E" using grow by blast
      obtain e where st: "store_key (of_nat (32 * (j + length W))) h1 p2 = (e, p1)" "r = Some e"
        using assms(3) True g h1(1) unfolding full by (auto simp: header_def split: prod.splits)
      show ?thesis using index_store[OF h1(2) st(1), where b = b] st(2) grow by (auto simp: same_counters_def)
    next
      case False
      then have "r = None \<and> p1 = p" using assms(3) g grow unfolding full by (auto split: if_splits)
      then show ?thesis using assms(1) False grow by (auto simp: same_counters_def)
    qed
  qed
qed

lemma index_lookup:
  assumes "index_inv p j W" "W \<noteq> []" "unat idx div 32 = j" "j + length W < 2 ^ 57"
  shows "e_value (ix_entries p (get_block_index_entry_for_index idx p)) = Some (hd W) \<and>
    index_inv (set_value (get_block_index_entry_for_index idx p) None p) (Suc j) (tl W)"
proof -
  obtain h c free E where h: "blockIndex p = Some h" "index_parts p h j W c free E"
    using assms(1,2) by (auto simp: index_inv_def split: option.splits)
  note ix = index_partsD[OF h(2)]
  have len: "2 ^ c = length free + length W" using header_okD(5)[OF ix(1)] ix(2,7) by simp
  have W: "0 < length W" using assms(2) by simp
  let ?k = "length W - 1"
  have "2 ^ c - 1 = length free + ?k" using W len by arith
  then have "ring h ! (2 ^ c - 1) = E ! ?k" by (simp add: ix(2) nth_append)
  moreover have "ix_entries p (E ! ?k) = \<lparr>e_key = of_nat (32 * (j + ?k)), e_value = Some (W ! ?k)\<rparr>"
    using W by (intro holds_nth[OF ix(6)]) simp
  ultimately have key: "e_key (ix_entries p (ring h ! (2 ^ c - 1))) = of_nat (32 * (j + ?k))" by simp
  have "ix_index h ! unat (get_block_index_index_for_index idx h (ix_entries p)) = ring h ! (2 ^ c - 1 - ?k)"
  proof (rule index_of_block[where es = "ix_entries p", OF ix(1) _ _ _ _ key])
    show "?k < 2 ^ c" unfolding len using W by arith
    show "?k \<le> j + ?k" "unat idx div 32 = j + ?k - ?k" using assms(3) by simp_all
    have "j + ?k < 2 ^ 57" using assms(4) by linarith
    then show "32 * (j + ?k) < 2 ^ 63" by simp
  qed
  moreover have "2 ^ c - 1 - ?k = length free" using W len by arith
  moreover have "ring h ! length free = E ! 0" by (simp add: ix(2) nth_append)
  ultimately have e: "get_block_index_entry_for_index idx p = E ! 0"
    using h(1) by (simp add: get_block_index_entry_for_index_def header_def)
  obtain e E' where E: "E = e # E'" using W ix(7) by (cases E) auto
  obtain b W' where Wb: "W = b # W'" using W by (cases W) auto
  have e1: "ix_entries p e = \<lparr>e_key = of_nat (32 * j), e_value = Some b\<rparr>" "holds_blocks (ix_entries p) (Suc j) E' W'"
    using ix(6) E Wb by auto
  let ?p = "set_value e None p"
  have fresh: "e \<notin> set E'" "e \<notin> set free" using ix(2,3) E by auto
  have "holds_blocks (ix_entries ?p) (Suc j) E' W'"
    using fresh by (intro holds_cong[OF _ e1(2)]) (auto simp: set_value_def set_entry_def)
  moreover have "slot_free (ix_entries ?p x)" if "x \<in> set (free @ [e])" for x
    using ix(5)[of x] that fresh by (auto simp: set_value_def set_entry_def slot_free_def)
  ultimately have "index_parts ?p h (Suc j) W' c (free @ [e]) E'"
    using ix(1-4,8,9) E Wb by (auto simp: index_parts_def set_value_def set_entry_def)
  then have "index_inv ?p (Suc j) W'" using h(1) by (auto simp: index_inv_def set_value_def set_entry_def)
  then show ?thesis using e E Wb e1(1) by simp
qed

section \<open>The blocks in the pools\<close>

definition unused :: "'v block_pool \<Rightarrow> nat set" where
  "unused bp = {unat (initialBlockPoolIndex bp)..<unat (initialBlockPoolSize bp)}"

text \<open>Every block is in use, on the free list, or not yet taken from the initial pool.\<close>

definition block_pool_ok :: "'v block_pool \<Rightarrow> nat set \<Rightarrow> bool" where
  "block_pool_ok bp U \<longleftrightarrow> distinct (freeList bp) \<and> U \<union> set (freeList bp) \<union> unused bp = {..<next_block bp} \<and>
     U \<inter> set (freeList bp) = {} \<and> (U \<union> set (freeList bp)) \<inter> unused bp = {}"

lemma pool_ok_start: "block_pool_ok (populate_initial_block_list n mem) {}"
  by (auto simp: block_pool_ok_def unused_def populate_initial_block_list_def Let_def)

lemma pool_ok_set_block [simp]: "block_pool_ok (set_block b x bp) U = block_pool_ok bp U"
  by (simp add: block_pool_ok_def unused_def set_block_def)

lemma the_blocks_set_block [simp]: "the_blocks (set_block b x bp) = (the_blocks bp)(b := x)"
  by (simp add: set_block_def)

lemma requisition_ok:
  assumes "block_pool_ok bp U" "requisition_block ca mem bp = (r, bp1)"
  shows "case r of None \<Rightarrow> bp1 = bp \<and> \<not> (ca \<and> mem)
    | Some b \<Rightarrow> b \<notin> U \<and> block_pool_ok bp1 (insert b U) \<and> (\<forall>x \<in> U. the_blocks bp1 x = the_blocks bp x)"
proof (cases "initialBlockPoolIndex bp < initialBlockPoolSize bp")
  case True
  then have lt: "unat (initialBlockPoolIndex bp) < unat (initialBlockPoolSize bp)" by (simp add: word_less_nat_alt)
  have less: "unat (initialBlockPoolSize bp) < 2 ^ 64" using unsigned_less[of "initialBlockPoolSize bp"] by simp
  have "unat (initialBlockPoolIndex bp + 1) = unat (initialBlockPoolIndex bp) + 1"
    using lt less by (simp add: unat_word_ariths)
  then have "unused bp = insert (unat (initialBlockPoolIndex bp)) (unused (bp\<lparr>initialBlockPoolIndex := initialBlockPoolIndex bp + 1\<rparr>))"
    "unat (initialBlockPoolIndex bp) \<notin> unused (bp\<lparr>initialBlockPoolIndex := initialBlockPoolIndex bp + 1\<rparr>)"
    using lt by (auto simp: unused_def)
  moreover have "try_get_block_from_initial_pool bp =
      (Some (unat (initialBlockPoolIndex bp)), bp\<lparr>initialBlockPoolIndex := initialBlockPoolIndex bp + 1\<rparr>)"
    using True by (simp add: try_get_block_from_initial_pool_def Let_def)
  then have "r = Some (unat (initialBlockPoolIndex bp))" "bp1 = bp\<lparr>initialBlockPoolIndex := initialBlockPoolIndex bp + 1\<rparr>"
    using assms(2) by (auto simp: requisition_block_def)
  ultimately show ?thesis using assms(1) by (auto simp: block_pool_ok_def)
next
  case False
  then have none: "try_get_block_from_initial_pool bp = (None, bp)" by (simp add: try_get_block_from_initial_pool_def)
  show ?thesis
  proof (cases "freeList bp")
    case (Cons b bs)
    then have "r = Some b" "bp1 = bp\<lparr>freeList := bs\<rparr>"
      using assms(2) none by (auto simp: requisition_block_def try_get_block_from_free_list_def)
    then show ?thesis using assms(1) Cons by (auto simp: block_pool_ok_def unused_def)
  next
    case Nil
    then have "(r, bp1) = (if ca \<and> mem then (Some (next_block bp), bp\<lparr>the_blocks := (the_blocks bp)(next_block bp := new_block),
        next_block := next_block bp + 1\<rparr>) else (None, bp))"
      using assms(2) none by (simp add: requisition_block_def try_get_block_from_free_list_def)
    moreover have "next_block bp \<notin> U" using assms(1) by (auto simp: block_pool_ok_def)
    ultimately show ?thesis
      using assms(1) Nil by (auto simp: block_pool_ok_def unused_def lessThan_Suc split: if_splits)
  qed
qed

lemma pool_ok_free:
  assumes "block_pool_ok bp U" "b \<in> U" shows "block_pool_ok (add_block_to_free_list b bp) (U - {b})"
proof -
  have "U - {b} \<union> insert b (set (freeList bp)) = U \<union> set (freeList bp)" using assms(2) by blast
  moreover have "b \<notin> set (freeList bp)" using assms by (auto simp: block_pool_ok_def)
  ultimately show ?thesis
    using assms(1) unfolding block_pool_ok_def unused_def add_block_to_free_list_def by (simp add: disjoint_iff)
qed

section \<open>The elements in the blocks\<close>

text \<open>The elements \<open>xs\<close> have the indices from \<open>H\<close> on; the first block of \<open>W\<close> is that of index \<open>H\<close>.\<close>

definition q_content :: "(nat \<Rightarrow> 'v block) \<Rightarrow> nat \<Rightarrow> nat list \<Rightarrow> 'v list \<Rightarrow> bool" where
  "q_content B H W xs \<longleftrightarrow> distinct W \<and> length W = (H + length xs + 31) div 32 - H div 32 \<and>
     (\<forall>k < length xs. elements (B (W ! ((H + k) div 32 - H div 32))) (of_nat ((H + k) mod 32)) = Some (xs ! k)) \<and>
     (\<forall>d < length W. elementsCompletelyDequeued (B (W ! d)) = of_nat (if d = 0 then H mod 32 else 0))"

lemma contentD:
  assumes "q_content B H W xs"
  shows "distinct W" "length W = (H + length xs + 31) div 32 - H div 32"
    "k < length xs \<Longrightarrow> elements (B (W ! ((H + k) div 32 - H div 32))) (of_nat ((H + k) mod 32)) = Some (xs ! k)"
    "d < length W \<Longrightarrow> elementsCompletelyDequeued (B (W ! d)) = of_nat (if d = 0 then H mod 32 else 0)"
  using assms by (auto simp: q_content_def)

lemma content_cong: "(\<And>b. b \<in> set W \<Longrightarrow> B b = B' b) \<Longrightarrow> q_content B H W xs \<Longrightarrow> q_content B' H W xs"
proof -
  assume same: "\<And>b. b \<in> set W \<Longrightarrow> B b = B' b" and c: "q_content B H W xs"
  have "(H + k) div 32 - H div 32 < length W" if "k < length xs" for k
    using contentD(2)[OF c] that by simp
  then show "q_content B' H W xs" using c same[OF nth_mem] unfolding q_content_def by metis
qed

lemma of_nat_mod_32: "(of_nat (a mod 32) :: u64) = of_nat (b mod 32) \<longleftrightarrow> a mod 32 = b mod 32"
proof
  assume "(of_nat (a mod 32) :: u64) = of_nat (b mod 32)"
  then have "unat (of_nat (a mod 32) :: u64) = unat (of_nat (b mod 32) :: u64)" by simp
  moreover have "a mod 32 < 2 ^ 64" "b mod 32 < 2 ^ 64" by (simp_all add: less_trans[OF mod_less_divisor])
  ultimately show "a mod 32 = b mod 32" by (simp add: unat_of_nat take_bit_nat_eq_self)
qed simp

lemma div_32_up: "(t + 31) div 32 = (if t mod 32 = 0 then t div 32 else Suc (t div 32))" for t :: nat
proof -
  define q r where "q = t div 32" and "r = t mod 32"
  have t: "t + 31 = r + 31 + q * 32" by (simp add: q_def r_def)
  have "r < 32" by (simp add: r_def)
  then have "(r + 31) div 32 = (if r = 0 then 0 else 1)" by (simp; intro impI div_nat_eqI; simp)
  then have "(t + 31) div 32 = (if r = 0 then q else Suc q)" unfolding t by (simp add: add.commute)
  then show ?thesis by (simp only: q_def r_def)
qed

lemma div_32_Suc: "Suc t div 32 = (if Suc t mod 32 = 0 then Suc (t div 32) else t div 32)"
  by (rule div_Suc)

lemma mod_32_Suc: "Suc t mod 32 \<noteq> 0 \<Longrightarrow> Suc t mod 32 = Suc (t mod 32)"
  by (simp add: mod_Suc split: if_splits)

lemma div_32_add: "(t + 32) div 32 = Suc (t div 32)" for t :: nat
  by simp

text \<open>An element at the tail, in the last block or as the first of a new one.\<close>

lemma content_put:
  assumes "q_content B H W xs" "(H + length xs) mod 32 \<noteq> 0"
  shows "W \<noteq> [] \<and> q_content (B(last W := B (last W)\<lparr>elements := (elements (B (last W)))(of_nat ((H + length xs) mod 32) := Some v)\<rparr>)) H W (xs @ [v])"
proof -
  note c = contentD[OF assms(1)]
  let ?n = "length xs"
  have d: "(H + ?n) div 32 - H div 32 = length W - 1" "0 < length W" "(H + Suc ?n + 31) div 32 = (H + ?n + 31) div 32"
  proof -
    have "H div 32 \<le> (H + ?n) div 32" by (simp add: div_le_mono)
    then show "(H + ?n) div 32 - H div 32 = length W - 1" "0 < length W" using c(2) assms(2) by (simp_all add: div_32_up)
    show "(H + Suc ?n + 31) div 32 = (H + ?n + 31) div 32"
      using assms(2) div_32_up[of "H + ?n"] div_add_self2[of 32 "H + ?n"] by simp
  qed
  have last: "last W = W ! (length W - 1)" using d(2) by (simp add: last_conv_nth)
  have other: "W ! ((H + k) div 32 - H div 32) \<noteq> last W \<or> (H + k) mod 32 \<noteq> (H + ?n) mod 32" if "k < ?n" for k
  proof (rule ccontr)
    assume a: "\<not> ?thesis"
    have "(H + k) div 32 - H div 32 < length W" using c(2) that by simp
    then have "(H + k) div 32 - H div 32 = (H + ?n) div 32 - H div 32"
      using a last d(1,2) c(1) nth_eq_iff_index_eq[of W] by simp
    then have "(H + k) div 32 = (H + ?n) div 32" using div_le_mono[of H "H + k" 32] div_le_mono[of H "H + ?n" 32] by linarith
    then show False using a that by (metis add_left_cancel div_mult_mod_eq less_irrefl)
  qed
  let ?B = "B(last W := B (last W)\<lparr>elements := (elements (B (last W)))(of_nat ((H + ?n) mod 32) := Some v)\<rparr>)"
  have "elements (?B (W ! ((H + k) div 32 - H div 32))) (of_nat ((H + k) mod 32)) = Some ((xs @ [v]) ! k)" if "k < Suc ?n" for k
  proof (cases "k = ?n")
    case True
    then show ?thesis using d(1) last by simp
  next
    case False
    then have "k < ?n" using that by simp
    then show ?thesis using c(3)[of k] other[of k] by (auto simp: nth_append of_nat_mod_32)
  qed
  moreover have counts: "elementsCompletelyDequeued (?B x) = elementsCompletelyDequeued (B x)" for x by simp
  have "elementsCompletelyDequeued (?B (W ! i)) = of_nat (if i = 0 then H mod 32 else 0)" if "i < length W" for i
    using c(4)[OF that] counts by simp
  ultimately have "q_content ?B H W (xs @ [v])" using c(1,2) d(3) unfolding q_content_def by simp
  then show ?thesis using d(2) by blast
qed

lemma content_new:
  assumes "q_content B H W xs" "(H + length xs) mod 32 = 0" "b \<notin> set W"
    and "elementsCompletelyDequeued (B b) = 0" "elements (B b) 0 = Some v"
  shows "q_content B H (W @ [b]) (xs @ [v])"
proof -
  note c = contentD[OF assms(1)]
  let ?n = "length xs"
  have d: "(H + ?n) div 32 - H div 32 = length W" "(H + Suc ?n + 31) div 32 - H div 32 = Suc (length W)"
    "length W = 0 \<Longrightarrow> H mod 32 = 0"
  proof -
    have le: "H div 32 \<le> (H + ?n) div 32" by (simp add: div_le_mono)
    show w: "(H + ?n) div 32 - H div 32 = length W" using c(2) assms(2) by (simp add: div_32_up)
    show "(H + Suc ?n + 31) div 32 - H div 32 = Suc (length W)"
      using le w div_32_add[of "H + ?n"] by (simp add: add.commute Suc_diff_le)
    assume "length W = 0"
    then have "(H + ?n) div 32 = H div 32" using w le by simp
    moreover have "32 * ((H + ?n) div 32) + 0 = H + ?n" using div_mult_mod_eq[of "H + ?n" 32] assms(2) by simp
    moreover have "32 * (H div 32) + H mod 32 = H" by simp
    ultimately show "H mod 32 = 0" by linarith
  qed
  have k: "(H + k) div 32 - H div 32 < length W" if "k < ?n" for k using c(2) that by simp
  have "elements (B ((W @ [b]) ! ((H + k) div 32 - H div 32))) (of_nat ((H + k) mod 32)) = Some ((xs @ [v]) ! k)"
    if "k < Suc ?n" for k
  proof (cases "k = ?n")
    case True
    then show ?thesis using d(1) assms(2,5) by (simp add: nth_append)
  next
    case False
    then show ?thesis using that c(3)[of k] k[of k] by (simp add: nth_append)
  qed
  moreover have "elementsCompletelyDequeued (B ((W @ [b]) ! i)) = of_nat (if i = 0 then H mod 32 else 0)"
    if "i < Suc (length W)" for i
    using that c(4)[of i] assms(4) d(3) by (cases "i = length W") (auto simp: nth_append)
  ultimately show ?thesis using c(1) d(2) assms(3) by (simp add: q_content_def)
qed

text \<open>The first element is taken, and its block goes when it was the last of it.\<close>

definition taken :: "nat \<Rightarrow> 'v block \<Rightarrow> 'v block" where
  "taken H x = x\<lparr>elements := (elements x)(of_nat (H mod 32) := None), elementsCompletelyDequeued := elementsCompletelyDequeued x + 1\<rparr>"

lemma content_take:
  assumes "q_content B H W (x # xs)"
  shows "W \<noteq> [] \<and> elements (B (hd W)) (of_nat (H mod 32)) = Some x \<and> elementsCompletelyDequeued (B (hd W)) = of_nat (H mod 32) \<and>
    q_content (B(hd W := taken H (B (hd W)))) (Suc H) (if Suc H mod 32 = 0 then tl W else W) xs"
proof -
  note c = contentD[OF assms]
  have len: "0 < length W" "length (if Suc H mod 32 = 0 then tl W else W) = (Suc H + length xs + 31) div 32 - Suc H div 32"
  proof -
    have le: "Suc H div 32 \<le> (H + length xs + 32) div 32" "H div 32 < (H + length xs + 32) div 32"
      using div_le_mono[of "Suc H" "H + length xs + 32" 32] div_le_mono[of "H + 32" "H + length xs + 32" 32] by simp_all
    have w: "length W = (H + length xs + 32) div 32 - H div 32" using c(2) by (simp add: add.commute)
    then show "0 < length W" using le(2) by simp
    show "length (if Suc H mod 32 = 0 then tl W else W) = (Suc H + length xs + 31) div 32 - Suc H div 32"
      using w by (simp add: div_32_Suc[of H] add.commute)
  qed
  obtain b W' where W: "W = b # W'" using len(1) by (cases W) auto
  have b: "b \<notin> set W'" "distinct W'" using c(1) W by auto
  have next_nth: "(if Suc H mod 32 = 0 then tl W else W) ! ((Suc H + k) div 32 - Suc H div 32) = W ! ((H + Suc k) div 32 - H div 32)"
    if "k < length xs" for k
  proof (cases "Suc H mod 32 = 0")
    case True
    then have "Suc H div 32 = Suc (H div 32)" using div_32_Suc[of H] by simp
    moreover have "Suc H div 32 \<le> (Suc H + k) div 32" by (simp add: div_le_mono)
    ultimately have "(H + Suc k) div 32 - H div 32 = Suc ((Suc H + k) div 32 - Suc H div 32)"
      unfolding add_Suc_right add_Suc by linarith
    then show ?thesis using True W by simp
  next
    case False
    then have "(H + Suc k) div 32 - H div 32 = (Suc H + k) div 32 - Suc H div 32" using div_32_Suc[of H] by simp
    then show ?thesis using False by simp
  qed
  have kept: "elements ((B(hd W := taken H (B (hd W)))) (W ! ((H + Suc k) div 32 - H div 32))) (of_nat ((H + Suc k) mod 32)) = Some (xs ! k)"
    if k: "k < length xs" for k
  proof -
    have less: "(H + Suc k) div 32 - H div 32 < length W" using c(2) k by simp
    have "W ! ((H + Suc k) div 32 - H div 32) \<noteq> b \<or> (H + Suc k) mod 32 \<noteq> H mod 32"
    proof (cases "(H + Suc k) div 32 - H div 32 = 0")
      case True
      then have "(H + Suc k) div 32 = H div 32" using div_le_mono[of H "H + Suc k" 32] by simp
      then show ?thesis by (metis add_Suc_right div_mult_mod_eq lessI less_irrefl less_add_Suc1)
    next
      case False
      then show ?thesis using less W b(1) nth_mem by (auto simp: nth_Cons split: nat.splits)
    qed
    then show ?thesis using c(3)[of "Suc k"] k W by (auto simp: taken_def of_nat_mod_32)
  qed
  have counts: "elementsCompletelyDequeued ((B(hd W := taken H (B (hd W)))) ((if Suc H mod 32 = 0 then tl W else W) ! d)) =
      of_nat (if d = 0 then Suc H mod 32 else 0)" if d: "d < length (if Suc H mod 32 = 0 then tl W else W)" for d
  proof (cases "Suc H mod 32 = 0")
    case True
    then have "W' ! d \<noteq> b" "Suc d < length W" using d W b(1) nth_mem by auto
    then show ?thesis using True c(4)[of "Suc d"] W by simp
  next
    case False
    then have "Suc H mod 32 = Suc (H mod 32)" by (rule mod_32_Suc)
    moreover have "d \<noteq> 0 \<Longrightarrow> W ! d \<noteq> b" using d False W b(1) nth_mem by (auto simp: nth_Cons split: nat.splits)
    ultimately show ?thesis using False c(4)[of d] d W by (cases d) (auto simp: taken_def)
  qed
  have "q_content (B(hd W := taken H (B (hd W)))) (Suc H) (if Suc H mod 32 = 0 then tl W else W) xs"
    unfolding q_content_def using len(2) next_nth kept counts c(1) by (auto simp: distinct_tl)
  then show ?thesis using len(1) c(3)[of 0] c(4)[of 0] W by simp
qed

section \<open>A producer is a queue\<close>

definition producer_holds :: "implicit_producer \<Rightarrow> (nat \<Rightarrow> 'v block) \<Rightarrow> nat \<Rightarrow> nat list \<Rightarrow> 'v list \<Rightarrow> bool" where
  "producer_holds p B H W xs \<longleftrightarrow> index_inv p (H div 32) W \<and> q_content B H W xs \<and>
     ip_head p = of_nat H \<and> ip_tail p = of_nat (H + length xs) \<and> ip_optimistic p - ip_overcommit p = of_nat H \<and>
     ((H + length xs) mod 32 \<noteq> 0 \<longrightarrow> ip_tailBlock p = Some (last W))"

lemma producer_holdsD:
  assumes "producer_holds p B H W xs"
  shows "index_inv p (H div 32) W" "q_content B H W xs" "ip_head p = of_nat H" "ip_tail p = of_nat (H + length xs)"
    "ip_optimistic p - ip_overcommit p = of_nat H" "(H + length xs) mod 32 \<noteq> 0 \<Longrightarrow> ip_tailBlock p = Some (last W)"
  using assms by (auto simp: producer_holds_def)

lemma producer_holds_cong:
  "producer_holds p B H W xs \<Longrightarrow> (\<And>b. b \<in> set W \<Longrightarrow> B b = B' b) \<Longrightarrow> producer_holds p B' H W xs"
  using content_cong[of W B B' H xs] by (auto simp: producer_holds_def)

lemma index_inv_counters:
  "index_inv p j W \<Longrightarrow> index_inv (p\<lparr>ip_tail := a, ip_head := b, ip_optimistic := c, ip_overcommit := d, ip_tailBlock := t\<rparr>) j W"
  by (erule index_inv_cong) simp_all

lemma blocks_bound:
  assumes "q_content B H W xs" "H + length xs < 2 ^ 61"
  shows "H div 32 + length W < 2 ^ 57"
proof -
  have "H div 32 \<le> (H + length xs + 31) div 32" by (rule div_le_mono) simp
  then have "H div 32 + length W = (H + length xs + 31) div 32" using contentD(2)[OF assms(1)] by simp
  also have "\<dots> \<le> (2 ^ 61 + 31) div 32" using assms(2) by (intro div_le_mono) linarith
  also have "\<dots> < (2 :: nat) ^ 57" by simp
  finally show ?thesis .
qed

lemma put_at_tail_old:
  assumes "producer_holds p (the_blocks bp) H W xs" "(H + length xs) mod 32 \<noteq> 0"
  shows "\<exists>p1 bp1. put_at_tail v (p, bp) = Some (p1, bp1) \<and> producer_holds p1 (the_blocks bp1) H W (xs @ [v]) \<and>
    (\<forall>U. block_pool_ok bp1 U = block_pool_ok bp U) \<and> (\<forall>x. x \<notin> set W \<longrightarrow> the_blocks bp1 x = the_blocks bp x) \<and> blockIndex p1 = blockIndex p"
proof -
  note h = producer_holdsD[OF assms(1)]
  have tb: "ip_tailBlock p = Some (last W)" using h(6) assms(2) by blast
  have m: "ip_tail p AND (BLOCK_SIZE - 1) = of_nat ((H + length xs) mod 32)" by (simp only: h(4) and_31)
  let ?p = "p\<lparr>ip_tail := ip_tail p + 1\<rparr>" and ?bp = "put_element (last W) (ip_tail p) v bp"
  note put = content_put[OF h(2) assms(2), of v]
  have "q_content (the_blocks ?bp) H W (xs @ [v])" using put m by (simp add: put_element_def)
  moreover have "index_inv ?p (H div 32) W" using index_inv_cong[OF h(1), of ?p] by simp
  ultimately have "producer_holds ?p (the_blocks ?bp) H W (xs @ [v])"
    using h(3-5) tb by (simp add: producer_holds_def)
  moreover have "the_blocks ?bp x = the_blocks bp x" if "x \<notin> set W" for x
    using put that last_in_set[of W] by (auto simp: put_element_def)
  moreover have "put_at_tail v (p, bp) = Some (?p, ?bp)" using tb by (simp add: put_at_tail_def)
  ultimately show ?thesis by (auto simp: put_element_def)
qed

lemma put_at_tail_new:
  assumes "q_content (the_blocks bp) H W xs" "(H + length xs) mod 32 = 0" "b \<notin> set W" "index_inv p (H div 32) (W @ [b])"
    and "ip_head p = of_nat H" "ip_tail p = of_nat (H + length xs)" "ip_optimistic p - ip_overcommit p = of_nat H"
    and "ip_tailBlock p = Some b"
  shows "\<exists>p1 bp1. put_at_tail v (p, reset_empty b bp) = Some (p1, bp1) \<and> producer_holds p1 (the_blocks bp1) H (W @ [b]) (xs @ [v]) \<and>
    (\<forall>U. block_pool_ok bp1 U = block_pool_ok bp U) \<and> (\<forall>x. x \<noteq> b \<longrightarrow> the_blocks bp1 x = the_blocks bp x) \<and> blockIndex p1 = blockIndex p"
proof -
  have m: "ip_tail p AND (BLOCK_SIZE - 1) = 0" unfolding assms(6) and_31 assms(2) by simp
  let ?p = "p\<lparr>ip_tail := ip_tail p + 1\<rparr>" and ?bp = "put_element b (ip_tail p) v (reset_empty b bp)"
  have "q_content (the_blocks ?bp) H W xs"
    using assms(3) by (intro content_cong[OF _ assms(1)]) (auto simp: put_element_def reset_empty_def)
  then have "q_content (the_blocks ?bp) H (W @ [b]) (xs @ [v])"
    using assms(2,3) m by (intro content_new) (auto simp: put_element_def reset_empty_def)
  moreover have "index_inv ?p (H div 32) (W @ [b])" using index_inv_cong[OF assms(4), of ?p] by simp
  ultimately have "producer_holds ?p (the_blocks ?bp) H (W @ [b]) (xs @ [v])"
    using assms(5-8) by (simp add: producer_holds_def)
  moreover have "put_at_tail v (p, reset_empty b bp) = Some (?p, ?bp)" using assms(8) by (simp add: put_at_tail_def)
  ultimately show ?thesis by (auto simp: put_element_def reset_empty_def)
qed

lemma add_block_ok:
  assumes "producer_holds p (the_blocks bp) H W xs" "H + length xs < 2 ^ 61" "(H + length xs) mod 32 = 0" "block_pool_ok bp (set W \<union> V)"
    and "add_block ca imem bmem (p, bp) = (ok, p1, bp1)"
  shows "if ok then \<exists>b bp0. bp1 = reset_empty b bp0 \<and> b \<notin> set W \<union> V \<and> block_pool_ok bp0 (set (W @ [b]) \<union> V) \<and>
      (\<forall>x \<in> set W \<union> V. the_blocks bp0 x = the_blocks bp x) \<and> index_inv p1 (H div 32) (W @ [b]) \<and>
      ip_head p1 = ip_head p \<and> ip_tail p1 = ip_tail p \<and> ip_optimistic p1 = ip_optimistic p \<and> ip_overcommit p1 = ip_overcommit p \<and>
      ip_tailBlock p1 = Some b \<and> blockIndex p1 \<noteq> None
    else producer_holds p1 (the_blocks bp1) H W xs \<and> bp1 = bp \<and> \<not> (blockIndex p \<noteq> None \<and> ca \<and> imem \<noteq> None \<and> bmem) \<and>
      (blockIndex p \<noteq> None \<longrightarrow> blockIndex p1 \<noteq> None)"
proof -
  note h = producer_holdsD[OF assms(1)]
  have T: "unat (ip_tail p) = H + length xs" "unat (ip_head p) = H"
    using assms(2) by (simp_all add: h(3,4) unat_of_nat take_bit_nat_eq_self del: of_nat_add)
  have "unat (ip_tail p + BLOCK_SIZE) = H + length xs + 32"
    using T(1) assms(2) by (simp add: BLOCK_SIZE_def unat_word_ariths)
  then have room: "circular_less_than (ip_head p) (ip_tail p + BLOCK_SIZE)"
    using circular_less_than_unat[of "ip_head p" "ip_tail p + BLOCK_SIZE"] T(2) assms(2) by simp
  have "32 * ((H + length xs) div 32) = H + length xs" using assms(3) by auto
  moreover have "H div 32 + length W = (H + length xs) div 32"
    using contentD(2)[OF h(2)] assms(3) div_le_mono[of H "H + length xs" 32] by (simp add: div_32_up)
  ultimately have base: "ip_tail p = of_nat (32 * (H div 32 + length W))" using h(4) by simp
  obtain r p2 where ins: "insert_block_index_entry ca imem (ip_tail p) p = (r, p2)" by fastforce
  note i = index_insert[OF h(1) blocks_bound[OF h(2) assms(2)] ins[unfolded base]]
  show ?thesis
  proof (cases r)
    case None
    then have "ok = False" "p1 = p2" "bp1 = bp" using assms(5) room ins by (auto simp: add_block_def)
    then show ?thesis using i[of 0] None h by (auto simp: producer_holds_def same_counters_def)
  next
    case (Some e)
    obtain br bp0 where rq: "requisition_block ca bmem bp = (br, bp0)" by fastforce
    show ?thesis
    proof (cases br)
      case None
      have "ok = False" "p1 = set_value e None (rewind_block_index_tail p2)" "bp1 = bp0"
        using assms(5) room ins Some rq None by (auto simp: add_block_def)
      moreover have "bp0 = bp" "\<not> (ca \<and> bmem)" using requisition_ok[OF assms(4) rq] None by auto
      ultimately show ?thesis using i[of 0] Some h
        by (auto simp: producer_holds_def same_counters_def set_value_def set_entry_def rewind_block_index_tail_def Let_def)
    next
      case (Some b)
      have "ok" "p1 = (set_value e (Some b) p2)\<lparr>ip_tailBlock := Some b\<rparr>" "bp1 = reset_empty b bp0"
        using assms(5) room ins \<open>r = Some e\<close> rq Some by (auto simp: add_block_def)
      moreover have "b \<notin> set W \<union> V \<and> block_pool_ok bp0 (set (W @ [b]) \<union> V) \<and> (\<forall>x \<in> set W \<union> V. the_blocks bp0 x = the_blocks bp x)"
        using requisition_ok[OF assms(4) rq] Some by simp
      moreover have "index_inv p1 (H div 32) (W @ [b])"
        using i[of b] \<open>r = Some e\<close> calculation(2) index_inv_cong[of "set_value e (Some b) p2" "H div 32" "W @ [b]" p1] by simp
      ultimately show ?thesis using i[of b] \<open>r = Some e\<close> by (auto simp: same_counters_def set_value_def set_entry_def)
    qed
  qed
qed

lemma ip_enqueue_ok:
  assumes "producer_holds p (the_blocks bp) H W xs" "H + length xs < 2 ^ 61" "block_pool_ok bp (set W \<union> V)" "set W \<inter> V = {}"
  shows "\<exists>ok p1 bp1 W1. ip_enqueue ca imem bmem v (p, bp) = Some (ok, p1, bp1) \<and>
    producer_holds p1 (the_blocks bp1) H W1 (if ok then xs @ [v] else xs) \<and> block_pool_ok bp1 (set W1 \<union> V) \<and> set W1 \<inter> V = {} \<and>
    (\<forall>x \<in> V. the_blocks bp1 x = the_blocks bp x) \<and> (blockIndex p \<noteq> None \<longrightarrow> blockIndex p1 \<noteq> None) \<and>
    (blockIndex p \<noteq> None \<and> ca \<and> imem \<noteq> None \<and> bmem \<longrightarrow> ok)"
proof -
  note h = producer_holdsD[OF assms(1)]
  have "unat (ip_tail p AND (BLOCK_SIZE - 1)) = (H + length xs) mod 32"
    using assms(2) by (simp add: unat_and_31 h(4) unat_of_nat take_bit_nat_eq_self del: of_nat_add)
  then have z: "ip_tail p AND (BLOCK_SIZE - 1) = 0 \<longleftrightarrow> (H + length xs) mod 32 = 0" by (metis unat_eq_zero)
  show ?thesis
  proof (cases "(H + length xs) mod 32 = 0")
    case False
    obtain p1 bp1 where "put_at_tail v (p, bp) = Some (p1, bp1)" "producer_holds p1 (the_blocks bp1) H W (xs @ [v])"
      "\<forall>U. block_pool_ok bp1 U = block_pool_ok bp U" "\<forall>x. x \<notin> set W \<longrightarrow> the_blocks bp1 x = the_blocks bp x" "blockIndex p1 = blockIndex p"
      using put_at_tail_old[OF assms(1) False] by blast
    then show ?thesis
      using False z assms(3,4) by (intro exI[of _ True] exI[of _ p1] exI[of _ bp1] exI[of _ W]) (auto simp: ip_enqueue_def)
  next
    case True
    obtain ok p2 bp2 where ab: "add_block ca imem bmem (p, bp) = (ok, p2, bp2)" by (cases "add_block ca imem bmem (p, bp)") auto
    note a = add_block_ok[OF assms(1,2) True assms(3) ab]
    show ?thesis
    proof (cases ok)
      case False
      then show ?thesis
        using a True z assms(3,4) ab by (intro exI[of _ False] exI[of _ p2] exI[of _ bp2] exI[of _ W]) (auto simp: ip_enqueue_def)
    next
      case ok: True
      then obtain b bp0 where b: "bp2 = reset_empty b bp0" "b \<notin> set W \<union> V" "block_pool_ok bp0 (set (W @ [b]) \<union> V)"
        "\<forall>x \<in> set W \<union> V. the_blocks bp0 x = the_blocks bp x" "index_inv p2 (H div 32) (W @ [b])"
        "ip_head p2 = ip_head p" "ip_tail p2 = ip_tail p" "ip_optimistic p2 = ip_optimistic p" "ip_overcommit p2 = ip_overcommit p"
        "ip_tailBlock p2 = Some b" "blockIndex p2 \<noteq> None"
        using a by auto
      have "q_content (the_blocks bp0) H W xs" using b(4) by (intro content_cong[OF _ h(2)]) simp
      then obtain p1 bp1 where p1: "put_at_tail v (p2, bp2) = Some (p1, bp1)"
        "producer_holds p1 (the_blocks bp1) H (W @ [b]) (xs @ [v])" "\<forall>U. block_pool_ok bp1 U = block_pool_ok bp0 U"
        "\<forall>x. x \<noteq> b \<longrightarrow> the_blocks bp1 x = the_blocks bp0 x" "blockIndex p1 = blockIndex p2"
        using put_at_tail_new[of bp0 H W xs b p2 v] True b h(3-5) by auto
      then show ?thesis
        using ok True z ab b(2-4,11) assms(4)
        by (intro exI[of _ True] exI[of _ p1] exI[of _ bp1] exI[of _ "W @ [b]"]) (auto simp: ip_enqueue_def)
    qed
  qed
qed

lemma ip_dequeue_empty:
  assumes "producer_holds p B H W []" "H < 2 ^ 61"
  shows "ip_dequeue (p, bp) = Some (None, p, bp)"
  using producer_holdsD[OF assms(1)] assms(2)
  by (simp add: ip_dequeue_def Let_def circular_less_than_unat unat_of_nat take_bit_nat_eq_self)

lemma ip_dequeue_ok:
  assumes "producer_holds p (the_blocks bp) H W (x # xs)" "H + length (x # xs) < 2 ^ 61" "block_pool_ok bp (set W \<union> V)" "set W \<inter> V = {}"
  shows "\<exists>p1 bp1 W1. ip_dequeue (p, bp) = Some (Some x, p1, bp1) \<and>
    producer_holds p1 (the_blocks bp1) (Suc H) W1 xs \<and> block_pool_ok bp1 (set W1 \<union> V) \<and> set W1 \<inter> V = {} \<and>
    (\<forall>x \<in> V. the_blocks bp1 x = the_blocks bp x) \<and> (blockIndex p \<noteq> None \<longrightarrow> blockIndex p1 \<noteq> None)"
proof -
  note h = producer_holdsD[OF assms(1)]
  have less: "H < 2 ^ 61" "H + length (x # xs) < 2 ^ 61" using assms(2) by simp_all
  have u: "unat (ip_tail p) = H + length (x # xs)" "unat (ip_head p) = H" "unat (of_nat H :: u64) = H"
    using less by (simp_all only: h(3,4) unat_of_nat take_bit_nat_eq_self; simp)+
  have c: "circular_less_than (ip_optimistic p - ip_overcommit p) (ip_tail p)"
    using circular_less_than_unat[of "of_nat H" "ip_tail p"] u less by (simp add: h(5))
  define p2 where "p2 = p\<lparr>ip_optimistic := ip_optimistic p + 1, ip_head := ip_head p + 1\<rparr>"
  have deq: "ip_dequeue (p, bp) = map_option (\<lambda>(v, s1). (Some v, s1)) (take_at (ip_head p) (p2, bp))"
    using c by (simp add: ip_dequeue_def Let_def p2_def)
  note t = content_take[OF h(2)]
  obtain b W' where W: "W = b # W'" using t by (cases W) auto
  have bp1: "take_element b (ip_head p) bp = Some (x, set_block b (the_blocks bp b\<lparr>elements :=
      (elements (the_blocks bp b))(of_nat (H mod 32) := None)\<rparr>) bp)"
    using t W by (simp add: take_element_def h(3) and_31)
  define bp2 where "bp2 = set_block b (taken H (the_blocks bp b)) bp"
  have last: "of_nat (H mod 32) = BLOCK_SIZE - 1 \<longleftrightarrow> Suc H mod 32 = 0"
  proof -
    have "of_nat (H mod 32) = (of_nat (31 mod 32) :: u64) \<longleftrightarrow> H mod 32 = 31 mod 32" by (rule of_nat_mod_32)
    then show ?thesis by (auto simp: BLOCK_SIZE_def mod_Suc)
  qed
  have se: "set_empty b (set_block b (the_blocks bp b\<lparr>elements := (elements (the_blocks bp b))(of_nat (H mod 32) := None)\<rparr>) bp) =
      (Suc H mod 32 = 0, bp2)"
    using t W last by (simp add: set_empty_def Let_def bp2_def set_block_def taken_def)
  define e where "e = get_block_index_entry_for_index (ip_head p) p2"
  have inv2: "index_inv p2 (H div 32) W" using index_inv_cong[OF h(1), of p2] by (simp add: p2_def)
  have look: "e_value (ix_entries p2 e) = Some b" "index_inv (set_value e None p2) (Suc (H div 32)) W'"
    using index_lookup[OF inv2, of "ip_head p"] blocks_bound[OF h(2) assms(2)] u(2) W by (simp_all add: e_def)
  have q_content: "q_content (the_blocks bp2) (Suc H) (if Suc H mod 32 = 0 then W' else W) xs"
    using t W by (auto simp: bp2_def split: if_splits)
  have counters: "ip_head p2 = of_nat (Suc H)" "ip_tail p2 = of_nat (Suc H + length xs)" "ip_optimistic p2 - ip_overcommit p2 = of_nat (Suc H)"
    using h(3-5) by (simp_all add: p2_def algebra_simps)
  have tail_block: "ip_tailBlock p2 = Some (last (if Suc H mod 32 = 0 then W' else W))" if "(Suc H + length xs) mod 32 \<noteq> 0"
  proof -
    have "W' \<noteq> []" if "Suc H mod 32 = 0"
    proof
      assume "W' = []"
      then have "(Suc H + length xs + 31) div 32 \<le> Suc H div 32" using contentD(2)[OF q_content] that by simp
      then have "Suc ((Suc H + length xs) div 32) \<le> Suc H div 32" using \<open>(Suc H + length xs) mod 32 \<noteq> 0\<close> by (simp only: div_32_up if_False)
      then show False using div_le_mono[of "Suc H" "Suc H + length xs" 32] by simp
    qed
    then show ?thesis using h(6) that W by (simp add: p2_def)
  qed
  show ?thesis
  proof (cases "Suc H mod 32 = 0")
    case True
    define p1 bp1 where "p1 = set_value e None p2" and "bp1 = add_block_to_free_list b bp2"
    have "ip_dequeue (p, bp) = Some (Some x, p1, bp1)"
      using look(1) bp1 se True unfolding deq take_at_def e_def[symmetric] by (simp add: e_def[symmetric] p1_def bp1_def Let_def)
    moreover have "index_inv p1 (Suc H div 32) W'" using look(2) True div_32_Suc[of H] by (simp add: p1_def)
    then have "producer_holds p1 (the_blocks bp1) (Suc H) W' xs"
      using q_content True counters tail_block
      by (simp add: producer_holds_def p1_def bp1_def set_value_def set_entry_def add_block_to_free_list_def)
    moreover have "b \<notin> set W'" "b \<notin> V" using contentD(1)[OF h(2)] assms(4) W by auto
    moreover have "set W \<union> V - {b} = set W' \<union> V" using W calculation(3,4) by auto
    then have "block_pool_ok bp1 (set W' \<union> V)" using pool_ok_free[of bp2 "set W \<union> V" b] assms(3) W by (simp add: bp1_def bp2_def)
    ultimately show ?thesis
      using assms(4) W by (intro exI[of _ p1] exI[of _ bp1] exI[of _ W'])
        (auto simp: p1_def bp1_def bp2_def add_block_to_free_list_def set_value_def set_entry_def p2_def)
  next
    case False
    have "ip_dequeue (p, bp) = Some (Some x, p2, bp2)"
      using look(1) bp1 se False unfolding deq take_at_def e_def[symmetric] by (simp add: e_def[symmetric] Let_def)
    moreover have "index_inv p2 (Suc H div 32) W" using inv2 False div_32_Suc[of H] by simp
    then have "producer_holds p2 (the_blocks bp2) (Suc H) W xs"
      using q_content False counters tail_block by (simp add: producer_holds_def)
    moreover have "b \<notin> V" using assms(4) W by auto
    ultimately show ?thesis
      using assms(3,4) by (intro exI[of _ p2] exI[of _ bp2] exI[of _ W]) (auto simp: bp2_def p2_def)
  qed
qed

end
