(* ===== verification/ProducerHash.thy ===== *)
theory ProducerHash
  imports ImplicitQueue
begin

unbundle bit_operations_syntax

text \<open>
  The hash tables in which \<^verbatim>\<open>ConcurrentQueue\<close> of \<^verbatim>\<open>src/include/concurrentqueue.h\<close> finds the implicit
  producer of a thread: open addressing with linear probing, a new table of at least twice the size
  when the current one is half full, and the older tables kept behind it (\<^verbatim>\<open>prev\<close>): the current
  table is the first of a list. The calls are taken one at a time, so that the resize lock is
  always free and a compare-and-exchange on a slot that was read succeeds.

  A loop of probes turns at most once through the table: after as many turns as there are slots it
  would go on for ever (\<open>None\<close>). A producer is the number of those created before it.
\<close>

section \<open>The tables\<close>

text \<open>The numbers of threads are addresses of 64 bits, \<^verbatim>\<open>prehash\<close> is the identity.\<close>

definition hash_thread_id :: "u64 \<Rightarrow> u64" where
  "hash_thread_id tid =
     (let h = tid XOR drop_bit 33 tid;
          h = h * 0xff51afd7ed558ccd;
          h = h XOR drop_bit 33 h;
          h = h * 0xc4ceb9fe1a85ec53
      in h XOR drop_bit 33 h)"

definition invalid_thread_id :: u64 where "invalid_thread_id = 0"

definition INITIAL_IMPLICIT_PRODUCER_HASH_SIZE :: u64 where "INITIAL_IMPLICIT_PRODUCER_HASH_SIZE = 32"

record hash_table =
  h_capacity :: u64
  h_entries :: "(u64 \<times> nat option) list"

record producer_hash =
  implicitProducerHash :: "hash_table list"
  implicitProducerHashCount :: u64

definition new_table :: "u64 \<Rightarrow> hash_table" where
  "new_table cap = \<lparr>h_capacity = cap, h_entries = replicate (unat cap) (invalid_thread_id, None)\<rparr>"

fun probe_slots :: "nat \<Rightarrow> (u64 \<Rightarrow> bool) \<Rightarrow> hash_table \<Rightarrow> u64 \<Rightarrow> nat option" where
  "probe_slots 0 stop h index = None"
| "probe_slots (Suc n) stop h index =
     (let i = index AND (h_capacity h - 1)
      in if stop (fst (h_entries h ! unat i)) then Some (unat i) else probe_slots n stop h (i + 1))"

text \<open>What one table has for a thread.\<close>

definition look_up :: "u64 \<Rightarrow> hash_table \<Rightarrow> nat option option option" where
  "look_up tid h =
     map_option (\<lambda>i. if fst (h_entries h ! i) = tid then Some (snd (h_entries h ! i)) else None)
       (probe_slots (length (h_entries h)) (\<lambda>k. k = tid \<or> k = invalid_thread_id) h (hash_thread_id tid))"

fun look_in :: "u64 \<Rightarrow> hash_table list \<Rightarrow> nat option option option" where
  "look_in tid [] = Some None"
| "look_in tid (h # hs) =
     (case look_up tid h of None \<Rightarrow> None | Some (Some v) \<Rightarrow> Some (Some v) | Some None \<Rightarrow> look_in tid hs)"

definition put_in_table :: "u64 \<Rightarrow> nat option \<Rightarrow> hash_table \<Rightarrow> hash_table option" where
  "put_in_table tid v h =
     map_option (\<lambda>i. h\<lparr>h_entries := (h_entries h)[i := (tid, v)]\<rparr>)
       (probe_slots (length (h_entries h)) (\<lambda>k. k = invalid_thread_id) h (hash_thread_id tid))"

text \<open>A thread that is found in an older table is entered into the current one.\<close>

definition find_in_hashes :: "u64 \<Rightarrow> hash_table list \<Rightarrow> (nat option option \<times> hash_table list) option" where
  "find_in_hashes tid hs =
     (case hs of
        [] \<Rightarrow> None
      | mainHash # prev \<Rightarrow>
          (case look_up tid mainHash of
             None \<Rightarrow> None
           | Some (Some v) \<Rightarrow> Some (Some v, hs)
           | Some None \<Rightarrow>
               (case look_in tid prev of
                  None \<Rightarrow> None
                | Some None \<Rightarrow> Some (None, hs)
                | Some (Some v) \<Rightarrow> map_option (\<lambda>h. (Some v, h # prev)) (put_in_table tid v mainHash))))"

text \<open>The doubling stops after 64 turns or, when the capacity is shifted out, never.\<close>

fun next_capacity :: "nat \<Rightarrow> u64 \<Rightarrow> u64 \<Rightarrow> u64 option" where
  "next_capacity 0 newCount newCapacity = (if newCount \<ge> drop_bit 1 newCapacity then None else Some newCapacity)"
| "next_capacity (Suc n) newCount newCapacity =
     (if newCount \<ge> drop_bit 1 newCapacity then next_capacity n newCount (push_bit 1 newCapacity) else Some newCapacity)"

definition grow_hash :: "bool \<Rightarrow> u64 \<Rightarrow> hash_table list \<Rightarrow> (bool \<times> hash_table list) option" where
  "grow_hash mem newCount hs =
     (case hs of
        [] \<Rightarrow> None
      | mainHash # prev \<Rightarrow>
          if newCount \<ge> drop_bit 1 (h_capacity mainHash)
          then (case next_capacity 64 newCount (push_bit 1 (h_capacity mainHash)) of
                  None \<Rightarrow> None
                | Some newCapacity \<Rightarrow> Some (if mem then (True, new_table newCapacity # hs) else (False, hs)))
          else Some (True, hs))"

section \<open>Probing\<close>

definition table_size :: "hash_table \<Rightarrow> nat \<Rightarrow> bool" where
  "table_size h c \<longleftrightarrow> h_capacity h = 2 ^ c \<and> length (h_entries h) = 2 ^ c \<and> 0 < c \<and> c < 64"

definition h_key :: "hash_table \<Rightarrow> nat \<Rightarrow> u64" where
  "h_key h i = fst (h_entries h ! i)"

definition slot_at :: "nat \<Rightarrow> u64 \<Rightarrow> nat \<Rightarrow> nat" where
  "slot_at c w j = (unat w + j) mod 2 ^ c"

lemma slot_at_less [simp]: "slot_at c w j < 2 ^ c"
  by (simp add: slot_at_def)

lemma slot_at_surj:
  assumes "i < 2 ^ c" shows "\<exists>j < 2 ^ c. slot_at c w j = i"
proof -
  define s where "s = unat w mod 2 ^ c"
  have s: "s < 2 ^ c" by (simp add: s_def)
  have "slot_at c w j = (s + j) mod 2 ^ c" for j by (simp add: slot_at_def s_def mod_add_left_eq)
  moreover have "\<exists>j < 2 ^ c. (s + j) mod 2 ^ c = i"
  proof (cases "s \<le> i")
    case True
    then show ?thesis using assms by (intro exI[of _ "i - s"]) auto
  next
    case False
    then have "s + (2 ^ c - s + i) = 2 ^ c + i" using s by simp
    then have "(s + (2 ^ c - s + i)) mod 2 ^ c = i" using assms by simp
    moreover have "2 ^ c - s + i < 2 ^ c" using False s by simp
    ultimately show ?thesis by blast
  qed
  ultimately show ?thesis by simp
qed

lemma probe_at:
  assumes "table_size h c" "j < n" "stop (h_key h (slot_at c w j))" "\<forall>k < j. \<not> stop (h_key h (slot_at c w k))"
  shows "probe_slots n stop h w = Some (slot_at c w j)"
  using assms(2-4)
proof (induction n arbitrary: w j)
  case (Suc n)
  let ?i = "w AND (h_capacity h - 1)"
  have i: "unat ?i = unat w mod 2 ^ c" using assms(1) by (intro unat_and_cap) (simp add: table_size_def)
  have s0: "unat ?i = slot_at c w 0" using i by (simp add: slot_at_def)
  show ?case
  proof (cases j)
    case 0
    then show ?thesis using Suc.prems(2) s0 by (simp add: h_key_def Let_def)
  next
    case (Suc j')
    have next_slot: "slot_at c (?i + 1) k = slot_at c w (Suc k)" for k
    proof -
      have "unat (?i + 1) mod 2 ^ c = (unat ?i + 1) mod 2 ^ c"
        using unat_add_mod[of c ?i 1] assms(1) by (simp add: table_size_def)
      also have "\<dots> = (unat w + 1) mod 2 ^ c" by (simp only: i mod_add_left_eq)
      finally have "(unat (?i + 1) + k) mod 2 ^ c = (unat w + 1 + k) mod 2 ^ c"
        by (metis mod_add_left_eq)
      then show ?thesis by (simp add: slot_at_def)
    qed
    have "\<not> stop (fst (h_entries h ! unat ?i))" using Suc.prems(3) Suc s0 by (auto simp: h_key_def)
    moreover have "probe_slots n stop h (?i + 1) = Some (slot_at c (?i + 1) j')"
      using Suc.prems Suc by (intro Suc.IH) (auto simp: next_slot)
    ultimately show ?thesis using Suc by (simp add: next_slot Let_def)
  qed
qed simp

lemma probe_first:
  assumes "table_size h c" "i < 2 ^ c" "stop (h_key h i)"
  shows "\<exists>j < 2 ^ c. probe_slots (length (h_entries h)) stop h w = Some (slot_at c w j) \<and> stop (h_key h (slot_at c w j)) \<and>
    (\<forall>k < j. \<not> stop (h_key h (slot_at c w k)))"
proof -
  obtain j0 where j0: "j0 < 2 ^ c" "slot_at c w j0 = i" using slot_at_surj[OF assms(2)] by blast
  define j where "j = (LEAST j. stop (h_key h (slot_at c w j)))"
  have s: "stop (h_key h (slot_at c w j0))" using j0 assms(3) by simp
  have j: "stop (h_key h (slot_at c w j))" "j \<le> j0" "\<forall>k < j. \<not> stop (h_key h (slot_at c w k))"
    unfolding j_def using s by (auto intro: LeastI Least_le dest: not_less_Least)
  then have "j < 2 ^ c" using j0 by simp
  then show ?thesis using probe_at[OF assms(1) _ j(1,3), of "length (h_entries h)"] j assms(1)
    by (auto simp: table_size_def)
qed

section \<open>One table\<close>

definition h_keys :: "hash_table \<Rightarrow> u64 set" where
  "h_keys h = fst ` set (h_entries h) - {0}"

definition key_reached :: "hash_table \<Rightarrow> nat \<Rightarrow> nat \<Rightarrow> bool" where
  "key_reached h c i \<longleftrightarrow>
     (\<exists>j < 2 ^ c. i = slot_at c (hash_thread_id (h_key h i)) j \<and>
       (\<forall>k < j. h_key h (slot_at c (hash_thread_id (h_key h i)) k) \<noteq> 0))"

definition table_ok :: "hash_table \<Rightarrow> nat \<Rightarrow> bool" where
  "table_ok h c \<longleftrightarrow> table_size h c \<and> (\<forall>i < 2 ^ c. h_key h i \<noteq> 0 \<longrightarrow> key_reached h c i) \<and>
     (\<forall>i < 2 ^ c. \<forall>j < 2 ^ c. h_key h i = h_key h j \<longrightarrow> h_key h i \<noteq> 0 \<longrightarrow> i = j) \<and> (\<exists>i < 2 ^ c. h_key h i = 0)"

lemma table_okD:
  assumes "table_ok h c"
  shows "table_size h c" "length (h_entries h) = 2 ^ c"
    "i < 2 ^ c \<Longrightarrow> h_key h i \<noteq> 0 \<Longrightarrow> key_reached h c i"
    "i < 2 ^ c \<Longrightarrow> j < 2 ^ c \<Longrightarrow> h_key h i = h_key h j \<Longrightarrow> h_key h i \<noteq> 0 \<Longrightarrow> i = j"
    "\<exists>i < 2 ^ c. h_key h i = 0"
  using assms by (auto simp: table_ok_def table_size_def)

lemma h_keys_iff:
  assumes "table_size h c"
  shows "k \<in> h_keys h \<longleftrightarrow> k \<noteq> 0 \<and> (\<exists>i < 2 ^ c. h_key h i = k)"
proof -
  have "fst ` set (h_entries h) = {h_key h i | i. i < 2 ^ c}" using assms by (auto simp: h_key_def table_size_def set_conv_nth)
  then show ?thesis by (auto simp: h_keys_def)
qed

text \<open>The walk from the hash of a number ends at the number when it is there, and else at a free slot.\<close>

lemma search_ends:
  assumes "table_ok h c" "tid \<noteq> 0"
  shows "\<exists>i < 2 ^ c. probe_slots (length (h_entries h)) (\<lambda>k. k = tid \<or> k = invalid_thread_id) h (hash_thread_id tid) = Some i \<and>
    h_key h i = (if tid \<in> h_keys h then tid else 0)"
proof -
  note ok = table_okD[OF assms(1)]
  let ?slot = "slot_at c (hash_thread_id tid)"
  let ?stop = "\<lambda>k. k = tid \<or> k = invalid_thread_id"
  obtain i0 where i0: "i0 < 2 ^ c" "?stop (h_key h i0)" using ok(5) by (auto simp: invalid_thread_id_def)
  obtain j where j: "probe_slots (length (h_entries h)) ?stop h (hash_thread_id tid) = Some (?slot j)" "?stop (h_key h (?slot j))"
    "\<forall>k < j. \<not> ?stop (h_key h (?slot k))"
    using probe_first[where stop = ?stop and w = "hash_thread_id tid", OF ok(1) i0] by blast
  have "h_key h (?slot j) = tid" if there: "tid \<in> h_keys h"
  proof -
    obtain i where i: "i < 2 ^ c" "h_key h i = tid" using iffD1[OF h_keys_iff[OF ok(1)] there] by blast
    then obtain j' where j': "i = ?slot j'" "\<forall>k < j'. h_key h (?slot k) \<noteq> 0"
      using ok(3)[OF i(1)] assms(2) by (auto simp: key_reached_def)
    have "\<not> j' < j" using j(3) j'(1) i(2) by auto
    then consider "j = j'" | "j < j'" by linarith
    then show ?thesis using j(2) j' i(2) by cases (auto simp: invalid_thread_id_def)
  qed
  moreover have "h_key h (?slot j) = 0" if "tid \<notin> h_keys h"
    using that j(2) h_keys_iff[OF ok(1)] assms(2) by (auto simp: invalid_thread_id_def)
  ultimately show ?thesis using j(1) by (intro exI[of _ "?slot j"]) simp
qed

text \<open>The threads \<open>ts\<close> have the producers; a table has some of them.\<close>

definition table_holds :: "hash_table \<Rightarrow> u64 list \<Rightarrow> bool" where
  "table_holds h ts \<longleftrightarrow> (\<forall>e \<in> set (h_entries h). fst e \<noteq> 0 \<longrightarrow> (\<exists>n < length ts. ts ! n = fst e \<and> snd e = Some n))"

lemma table_holds_more: "table_holds h ts \<Longrightarrow> table_holds h (ts @ us)"
  by (fastforce simp: table_holds_def nth_append)

lemma table_holds_keys: "table_holds h ts \<Longrightarrow> h_keys h \<subseteq> set ts"
  by (fastforce simp: table_holds_def h_keys_def)

lemma look_up_ok:
  assumes "table_ok h c" "tid \<noteq> 0" "table_holds h ts" "distinct ts"
  shows "tid \<in> h_keys h \<Longrightarrow> n < length ts \<Longrightarrow> ts ! n = tid \<Longrightarrow> look_up tid h = Some (Some (Some n))"
    and "tid \<notin> h_keys h \<Longrightarrow> look_up tid h = Some None"
proof -
  obtain i where i: "i < 2 ^ c" "probe_slots (length (h_entries h)) (\<lambda>k. k = tid \<or> k = invalid_thread_id) h (hash_thread_id tid) = Some i"
    "h_key h i = (if tid \<in> h_keys h then tid else 0)"
    using search_ends[OF assms(1,2)] by blast
  {
    assume a: "tid \<in> h_keys h" "n < length ts" "ts ! n = tid"
    have "h_entries h ! i \<in> set (h_entries h)" using i(1) table_okD(2)[OF assms(1)] by simp
    then obtain n' where "n' < length ts" "ts ! n' = tid" "snd (h_entries h ! i) = Some n'"
      using assms(2,3) i(3) a(1) by (auto simp: table_holds_def h_key_def)
    moreover have "n' = n" using a calculation(1,2) nth_eq_iff_index_eq[OF assms(4)] by blast
    ultimately show "look_up tid h = Some (Some (Some n))" using i a(1) by (simp add: look_up_def h_key_def)
  }
  show "look_up tid h = Some None" if "tid \<notin> h_keys h" using that i assms(2) by (simp add: look_up_def h_key_def)
qed

lemma full_table:
  assumes "table_size h c" "\<forall>i < 2 ^ c. \<forall>j < 2 ^ c. h_key h i = h_key h j \<longrightarrow> h_key h i \<noteq> 0 \<longrightarrow> i = j"
    "h_keys h \<subseteq> set ts" "length ts < 2 ^ c"
  shows "\<exists>i < 2 ^ c. h_key h i = 0"
proof (rule ccontr)
  assume full: "\<not> (\<exists>i < 2 ^ c. h_key h i = 0)"
  have "inj_on (h_key h) {..<2 ^ c}" using full assms(2) by (fastforce simp: inj_on_def)
  moreover have "h_key h ` {..<2 ^ c} \<subseteq> set ts"
    using full assms(3) h_keys_iff[OF assms(1)] by blast
  ultimately have "card {..<(2 :: nat) ^ c} \<le> card (set ts)" by (intro card_inj_on_le) auto
  then show False using card_length[of ts] assms(4) by simp
qed

lemma put_in_table_ok:
  assumes "table_ok h c" "tid \<noteq> 0" "tid \<notin> h_keys h" "table_holds h ts" "n < length ts" "ts ! n = tid" "length ts < 2 ^ c"
  shows "\<exists>h1. put_in_table tid (Some n) h = Some h1 \<and> table_ok h1 c \<and> table_holds h1 ts \<and> h_keys h1 = insert tid (h_keys h)"
proof -
  note ok = table_okD[OF assms(1)]
  let ?slot = "slot_at c (hash_thread_id tid)"
  obtain i0 where i0: "i0 < 2 ^ c" "h_key h i0 = invalid_thread_id" using ok(5) by (auto simp: invalid_thread_id_def)
  obtain j where j: "j < 2 ^ c" "probe_slots (length (h_entries h)) (\<lambda>k. k = invalid_thread_id) h (hash_thread_id tid) = Some (?slot j)"
    "h_key h (?slot j) = 0" "\<forall>k < j. h_key h (?slot k) \<noteq> 0"
    using probe_first[where stop = "\<lambda>k. k = invalid_thread_id" and w = "hash_thread_id tid", OF ok(1) i0]
    by (auto simp: invalid_thread_id_def)
  define h1 where "h1 = h\<lparr>h_entries := (h_entries h)[?slot j := (tid, Some n)]\<rparr>"
  have len: "length (h_entries h1) = 2 ^ c" using ok(2) by (simp add: h1_def)
  have size: "table_size h1 c" using ok(1) by (simp add: h1_def table_size_def)
  have key: "h_key h1 i = (if i = ?slot j then tid else h_key h i)" for i
    using ok(2) by (cases "i = ?slot j") (simp_all add: h1_def h_key_def)
  have old: "h_key h1 i \<noteq> 0" if "h_key h i \<noteq> 0" for i using that assms(2) by (simp add: key)
  have new: "h_key h i \<noteq> tid" if "i < 2 ^ c" for i using that assms(2,3) h_keys_iff[OF ok(1)] by blast
  have keys: "h_keys h1 = insert tid (h_keys h)"
  proof (rule set_eqI)
    fix k
    show "k \<in> h_keys h1 \<longleftrightarrow> k \<in> insert tid (h_keys h)"
    proof (cases "k = tid")
      case True
      then show ?thesis using assms(2) unfolding h_keys_iff[OF size] by (auto simp: key intro!: exI[of _ "?slot j"])
    next
      case False
      then have "h_key h1 i = k \<longleftrightarrow> h_key h i = k" if "k \<noteq> 0" for i using that j(3) by (auto simp: key)
      then show ?thesis using False unfolding h_keys_iff[OF size] insert_iff h_keys_iff[OF ok(1)] by blast
    qed
  qed
  have reached: "key_reached h1 c i" if "i < 2 ^ c" "h_key h1 i \<noteq> 0" for i
  proof (cases "i = ?slot j")
    case True
    then have k: "h_key h1 i = tid" by (simp add: key)
    show ?thesis unfolding key_reached_def k using True j(1,4) old by (intro exI[of _ j]) simp
  next
    case False
    then have k: "h_key h1 i = h_key h i" by (simp add: key)
    then show ?thesis using ok(3)[OF that(1)] that(2) old unfolding key_reached_def k by auto
  qed
  have unique: "\<forall>i < 2 ^ c. \<forall>k < 2 ^ c. h_key h1 i = h_key h1 k \<longrightarrow> h_key h1 i \<noteq> 0 \<longrightarrow> i = k"
    using ok(4) new by (auto simp: key split: if_splits)
  have holds: "table_holds h1 ts"
    unfolding table_holds_def
  proof
    fix e assume "e \<in> set (h_entries h1)"
    then have "e = (tid, Some n) \<or> e \<in> set (h_entries h)"
      using set_update_subset_insert[of "h_entries h" "?slot j" "(tid, Some n)"] by (auto simp: h1_def)
    then show "fst e \<noteq> 0 \<longrightarrow> (\<exists>m < length ts. ts ! m = fst e \<and> snd e = Some m)"
      using assms(4-6) unfolding table_holds_def by auto
  qed
  have "\<exists>i < 2 ^ c. h_key h1 i = 0" using full_table[OF size unique table_holds_keys[OF holds] assms(7)] .
  then have "table_ok h1 c" unfolding table_ok_def using size reached unique by blast
  moreover have "put_in_table tid (Some n) h = Some h1" using j(2) by (simp add: put_in_table_def h1_def)
  ultimately show ?thesis using holds keys by blast
qed

lemma unat_2_power: "c < 64 \<Longrightarrow> unat ((2 :: u64) ^ c) = 2 ^ c"
proof -
  assume "c < 64"
  then have "(2 :: nat) ^ c < 2 ^ 64" by (intro power_strict_increasing) auto
  then have "unat (of_nat (2 ^ c) :: u64) = 2 ^ c" unfolding unat_of_nat by (simp add: take_bit_nat_eq_self del: of_nat_power)
  then show ?thesis by simp
qed

lemma new_table_ok:
  assumes "0 < c" "c < 64" shows "table_ok (new_table (2 ^ c)) c" "h_keys (new_table (2 ^ c)) = {}" "table_holds (new_table (2 ^ c)) ts"
proof -
  have "unat ((2 :: u64) ^ c) = 2 ^ c" using assms(2) by (rule unat_2_power)
  then have "table_size (new_table (2 ^ c)) c" "\<And>i. i < 2 ^ c \<Longrightarrow> h_key (new_table (2 ^ c)) i = 0"
    "set (h_entries (new_table (2 ^ c))) = {(0, None)}"
    using assms by (simp_all add: new_table_def table_size_def h_key_def invalid_thread_id_def)
  then show "table_ok (new_table (2 ^ c)) c" "h_keys (new_table (2 ^ c)) = {}" "table_holds (new_table (2 ^ c)) ts"
    by (auto simp: table_ok_def h_keys_def table_holds_def intro!: exI[of _ "0 :: nat"])
qed

section \<open>The list of tables\<close>

text \<open>The current table has more than twice as many slots as there are threads, but is not larger than it must be.\<close>

definition main_table_ok :: "hash_table \<Rightarrow> u64 list \<Rightarrow> bool" where
  "main_table_ok h ts \<longleftrightarrow> (\<exists>c. table_ok h c \<and> length ts < 2 ^ c div 2 \<and> (2 ^ c \<le> (32 :: nat) \<or> 2 ^ c \<le> 4 * Suc (length ts)))"

definition hashes_ok :: "hash_table list \<Rightarrow> u64 list \<Rightarrow> bool" where
  "hashes_ok hs ts \<longleftrightarrow> hs \<noteq> [] \<and> distinct ts \<and> 0 \<notin> set ts \<and> (\<forall>h \<in> set hs. (\<exists>c. table_ok h c) \<and> table_holds h ts) \<and>
     (\<forall>t \<in> set ts. \<exists>h \<in> set hs. t \<in> h_keys h) \<and> main_table_ok (hd hs) ts"

lemma hashes_okD:
  assumes "hashes_ok (h # hs) ts"
  shows "distinct ts" "0 \<notin> set ts" "g \<in> set (h # hs) \<Longrightarrow> \<exists>c. table_ok g c" "g \<in> set (h # hs) \<Longrightarrow> table_holds g ts"
    "t \<in> set ts \<Longrightarrow> t \<notin> h_keys h \<Longrightarrow> \<exists>g \<in> set hs. t \<in> h_keys g" "main_table_ok h ts"
  using assms by (auto simp: hashes_ok_def)

lemma initial_hashes_ok: "hashes_ok [new_table INITIAL_IMPLICIT_PRODUCER_HASH_SIZE] []"
proof -
  have "INITIAL_IMPLICIT_PRODUCER_HASH_SIZE = 2 ^ 5" by (simp add: INITIAL_IMPLICIT_PRODUCER_HASH_SIZE_def)
  then show ?thesis using new_table_ok[of 5] by (auto simp: hashes_ok_def main_table_ok_def intro!: exI[of _ 5])
qed

lemma look_in_ok:
  assumes "\<forall>h \<in> set hs. (\<exists>c. table_ok h c) \<and> table_holds h ts" "distinct ts" "tid \<noteq> 0"
  shows "look_in tid hs = Some None \<and> (\<forall>h \<in> set hs. tid \<notin> h_keys h) \<or>
    (\<exists>n < length ts. ts ! n = tid \<and> look_in tid hs = Some (Some (Some n)))"
  using assms(1)
proof (induction hs)
  case (Cons h hs)
  then obtain c where h: "table_ok h c" "table_holds h ts" by auto
  note lo = look_up_ok[OF h(1) assms(3) h(2) assms(2)]
  show ?case
  proof (cases "tid \<in> h_keys h")
    case True
    then obtain n where "n < length ts" "ts ! n = tid" using table_holds_keys[OF h(2)] by (auto simp: in_set_conv_nth subset_iff)
    then show ?thesis using lo(1)[OF True] by auto
  next
    case False
    then show ?thesis using Cons lo(2) by auto
  qed
qed simp

lemma find_in_hashes_ok:
  assumes "hashes_ok hs ts" "tid \<noteq> 0"
  shows "(\<exists>hs1 n. n < length ts \<and> ts ! n = tid \<and> find_in_hashes tid hs = Some (Some (Some n), hs1) \<and> hashes_ok hs1 ts) \<or>
    tid \<notin> set ts \<and> find_in_hashes tid hs = Some (None, hs)"
proof -
  obtain h hs' where hs: "hs = h # hs'" using assms(1) by (cases hs) (auto simp: hashes_ok_def)
  note ok = hashes_okD[OF assms(1)[unfolded hs]]
  obtain c where c: "table_ok h c" "length ts < 2 ^ c div 2" "2 ^ c \<le> (32 :: nat) \<or> 2 ^ c \<le> 4 * Suc (length ts)"
    using ok(6) by (auto simp: main_table_ok_def)
  have h: "table_holds h ts" using ok(4) by simp
  note lo = look_up_ok[OF c(1) assms(2) h ok(1)]
  consider "tid \<in> h_keys h" | "tid \<notin> h_keys h" "look_in tid hs' = Some None" "\<forall>g \<in> set hs'. tid \<notin> h_keys g"
    | n where "tid \<notin> h_keys h" "n < length ts" "ts ! n = tid" "look_in tid hs' = Some (Some (Some n))"
    using look_in_ok[of hs' ts tid] ok(1,3,4) assms(2) by auto
  then show ?thesis
  proof cases
    case 1
    then obtain n where "n < length ts" "ts ! n = tid" using table_holds_keys[OF h] by (auto simp: in_set_conv_nth subset_iff)
    then show ?thesis using lo(1)[OF 1] assms(1) hs by (auto simp: find_in_hashes_def)
  next
    case 2
    then have "tid \<notin> set ts" using ok(5) by blast
    then show ?thesis using 2 lo(2) hs by (simp add: find_in_hashes_def)
  next
    case (3 n)
    have "length ts < 2 ^ c" using c(2) by (meson div_le_dividend less_le_trans)
    then obtain h1 where h1: "put_in_table tid (Some n) h = Some h1" "table_ok h1 c" "table_holds h1 ts" "h_keys h1 = insert tid (h_keys h)"
      using put_in_table_ok[OF c(1) assms(2) 3(1) h 3(2,3)] by blast
    have "main_table_ok h1 ts" unfolding main_table_ok_def using h1(2) c(2,3) by blast
    then have "hashes_ok (h1 # hs') ts" using assms(1) h1 hs by (auto simp: hashes_ok_def)
    moreover have "find_in_hashes tid hs = Some (Some (Some n), h1 # hs')"
      using 3 lo(2) h1(1) hs by (simp add: find_in_hashes_def)
    ultimately show ?thesis using 3(2,3) by blast
  qed
qed

section \<open>Growing\<close>

lemma unat_half: "unat (drop_bit 1 (w :: u64)) = unat w div 2"
  by (simp add: drop_bit_eq_div unat_div)

lemma next_capacity_ok:
  assumes "0 < c" "c < 64" "64 \<le> c + n" "unat cnt \<le> 2 ^ 61"
  shows "\<exists>d. 0 < d \<and> d < 64 \<and> next_capacity n cnt (2 ^ c) = Some (2 ^ d) \<and> unat cnt < 2 ^ d div 2 \<and> (d = c \<or> 2 ^ d \<le> 4 * unat cnt)"
  using assms(1-3)
proof (induction n arbitrary: c)
  case (Suc n)
  have half: "unat (drop_bit 1 ((2 :: u64) ^ c)) = 2 ^ c div 2" unfolding unat_half using Suc.prems(2) by (simp add: unat_2_power)
  show ?case
  proof (cases "cnt \<ge> drop_bit 1 ((2 :: u64) ^ c)")
    case False
    then have "unat cnt < 2 ^ c div 2" using half by (simp add: word_le_nat_alt)
    then show ?thesis using False Suc.prems by (intro exI[of _ c]) simp
  next
    case True
    then have cnt: "2 ^ c div 2 \<le> unat cnt" using half by (simp add: word_le_nat_alt)
    have c1: "(2 :: nat) ^ c = 2 * 2 ^ (c - 1)" using Suc.prems(1) by (simp add: power_eq_if)
    have "(2 :: nat) ^ (c - 1) \<le> 2 ^ 61" using cnt assms(4) unfolding c1 by linarith
    then have "c - 1 \<le> 61" by (rule power_le_imp_le_exp[rotated]) simp
    then have "c + 1 < 64" by simp
    then obtain d where d: "0 < d" "d < 64" "next_capacity n cnt (2 ^ (c + 1)) = Some (2 ^ d)" "unat cnt < 2 ^ d div 2"
      "d = c + 1 \<or> 2 ^ d \<le> 4 * unat cnt"
      using Suc.IH[of "c + 1"] Suc.prems by auto
    have e: "(2 :: nat) ^ (c + 1) = 4 * 2 ^ (c - 1)" using c1 by simp
    have "(2 :: nat) ^ (c - 1) \<le> unat cnt" using cnt unfolding c1 by simp
    then have "(2 :: nat) ^ (c + 1) \<le> 4 * unat cnt" unfolding e by simp
    moreover have shift: "push_bit 1 ((2 :: u64) ^ c) = 2 ^ (c + 1)" by (simp add: push_bit_eq_mult)
    have "next_capacity (Suc n) cnt (2 ^ c) = Some (2 ^ d)" using True d(3) by (simp only: next_capacity.simps if_True shift)
    ultimately show ?thesis using d(1,2,4,5) by (intro exI[of _ d]) auto
  qed
qed simp

lemma main_table_bound:
  assumes "main_table_ok h ts" "length ts < 2 ^ 61"
  shows "\<exists>c. table_ok h c \<and> 0 < c \<and> c < 64 \<and> h_capacity h = 2 ^ c \<and> length ts < 2 ^ c div 2 \<and>
    (2 ^ c \<le> (32 :: nat) \<or> 2 ^ c \<le> 4 * Suc (length ts))"
  using assms by (auto simp: main_table_ok_def table_ok_def table_size_def)

text \<open>Room for one more thread.\<close>

lemma grow_hash_ok:
  assumes "hashes_ok hs ts" "length ts < 2 ^ 61"
  shows "(\<exists>hs1 c. grow_hash mem (1 + of_nat (length ts)) hs = Some (True, hs1) \<and> hashes_ok hs1 ts \<and> table_ok (hd hs1) c \<and>
      Suc (length ts) < 2 ^ c div 2 \<and> (2 ^ c \<le> (32 :: nat) \<or> 2 ^ c \<le> 4 * Suc (Suc (length ts)))) \<or>
    \<not> mem \<and> grow_hash mem (1 + of_nat (length ts)) hs = Some (False, hs)"
proof -
  obtain h hs' where hs: "hs = h # hs'" using assms(1) by (cases hs) (auto simp: hashes_ok_def)
  note ok = hashes_okD[OF assms(1)[unfolded hs]]
  obtain c where c: "table_ok h c" "0 < c" "c < 64" "h_capacity h = 2 ^ c" "length ts < 2 ^ c div 2"
    "2 ^ c \<le> (32 :: nat) \<or> 2 ^ c \<le> 4 * Suc (length ts)"
    using main_table_bound[OF ok(6) assms(2)] by blast
  let ?cnt = "1 + of_nat (length ts) :: u64"
  have u: "unat ?cnt = Suc (length ts)"
  proof -
    have "?cnt = of_nat (Suc (length ts))" by simp
    then show ?thesis using assms(2) by (simp only: unat_of_nat) (simp add: take_bit_nat_eq_self del: of_nat_Suc)
  qed
  have half: "unat (drop_bit 1 (h_capacity h)) = 2 ^ c div 2" unfolding unat_half c(4) using c(3) by (simp add: unat_2_power)
  show ?thesis
  proof (cases "?cnt \<ge> drop_bit 1 (h_capacity h)")
    case False
    then have "Suc (length ts) < 2 ^ c div 2" using half u by (simp add: word_le_nat_alt)
    then show ?thesis using False c(1,6) assms(1) hs by (intro disjI1 exI[of _ hs] exI[of _ c]) (auto simp: grow_hash_def)
  next
    case True
    then have cnt: "2 ^ c div 2 \<le> Suc (length ts)" using half u by (simp add: word_le_nat_alt)
    have c1: "(2 :: nat) ^ c = 2 * 2 ^ (c - 1)" using c(2) by (simp add: power_eq_if)
    have "(2 :: nat) ^ (c - 1) \<le> 2 ^ 61" using cnt assms(2) unfolding c1 by linarith
    then have "c - 1 \<le> 61" by (rule power_le_imp_le_exp[rotated]) simp
    then have "c + 1 < 64" by simp
    then obtain d where d: "0 < d" "d < 64" "next_capacity 64 ?cnt (2 ^ (c + 1)) = Some (2 ^ d)" "Suc (length ts) < 2 ^ d div 2"
      "d = c + 1 \<or> 2 ^ d \<le> 4 * Suc (length ts)"
      using next_capacity_ok[of "c + 1" 64 ?cnt] assms(2) u by auto
    have bound: "(2 :: nat) ^ d \<le> 4 * Suc (length ts)"
    proof -
      have e: "(2 :: nat) ^ (c + 1) = 4 * 2 ^ (c - 1)" using c1 by simp
      have "(2 :: nat) ^ (c - 1) \<le> Suc (length ts)" using cnt unfolding c1 by simp
      then have "(2 :: nat) ^ (c + 1) \<le> 4 * Suc (length ts)" unfolding e by simp
      then show ?thesis using d(5) by auto
    qed
    have shift: "push_bit 1 (h_capacity h) = 2 ^ (c + 1)" unfolding c(4) by (simp add: push_bit_eq_mult)
    note new = new_table_ok[OF d(1,2)]
    show ?thesis
    proof (cases mem)
      case False
      then show ?thesis using True hs shift d(3) by (simp add: grow_hash_def)
    next
      case m: True
      let ?hs = "new_table (2 ^ d) # hs"
      have main: "main_table_ok (new_table (2 ^ d)) ts" unfolding main_table_ok_def using new(1) d(4) bound Suc_lessD by blast
      have "hashes_ok ?hs ts" using assms(1) main new unfolding hashes_ok_def by auto
      moreover have "grow_hash mem ?cnt hs = Some (True, ?hs)" using m True hs shift d(3) by (simp add: grow_hash_def)
      moreover have "2 ^ d \<le> 4 * Suc (Suc (length ts))" using bound by simp
      ultimately show ?thesis using new(1) d(4) by (intro disjI1 exI[of _ ?hs] exI[of _ d]) simp
    qed
  qed
qed

text \<open>A new thread is entered.\<close>

lemma enter_thread_ok:
  assumes "hashes_ok (h # hs) ts" "table_ok h c" "Suc (length ts) < 2 ^ c div 2"
    "2 ^ c \<le> (32 :: nat) \<or> 2 ^ c \<le> 4 * Suc (Suc (length ts))" "tid \<noteq> 0" "tid \<notin> set ts"
  shows "\<exists>h1. put_in_table tid (Some (length ts)) h = Some h1 \<and> hashes_ok (h1 # hs) (ts @ [tid])"
proof -
  note ok = hashes_okD[OF assms(1)]
  have h: "table_holds h ts" using ok(4) by simp
  have "tid \<notin> h_keys h" using table_holds_keys[OF h] assms(6) by blast
  moreover have "length (ts @ [tid]) < 2 ^ c" using assms(3) div_le_dividend[of "2 ^ c" 2] by simp
  ultimately obtain h1 where h1: "put_in_table tid (Some (length ts)) h = Some h1" "table_ok h1 c" "table_holds h1 (ts @ [tid])"
    "h_keys h1 = insert tid (h_keys h)"
    using put_in_table_ok[OF assms(2,5), of "ts @ [tid]" "length ts"] table_holds_more[OF h] by auto
  have "main_table_ok h1 (ts @ [tid])" unfolding main_table_ok_def using h1(2) assms(3,4) by auto
  then have "hashes_ok (h1 # hs) (ts @ [tid])" using assms(1,5,6) h1(2-4) table_holds_more by (auto simp: hashes_ok_def)
  then show ?thesis using h1(1) by blast
qed

end
