(* ===== verification/ConcQueue.thy ===== *)
theory ConcQueue
  imports ProducerHash
begin

text \<open>
  \<^verbatim>\<open>ConcurrentQueue\<close> of \<^verbatim>\<open>src/include/concurrentqueue.h\<close> as the programs of the repository use it:
  \<^verbatim>\<open>enqueue\<close> and \<^verbatim>\<open>try_dequeue\<close> without tokens. Every thread that enqueues has an implicit producer;
  the producers are in a list, the newest first, and share the pools of blocks; the tables of
  \<open>ProducerHash\<close> find them. The calls are taken one at a time. The header leaves
  \<^verbatim>\<open>MOODYCAMEL_CPP11_THREAD_LOCAL_SUPPORTED\<close> undefined, so an implicit producer stays active when its
  thread ends and is never recycled. What the memory allocations of a call answer is the record
  \<open>memory\<close>. Each producer is kept with the thread it was created for, which the code does not
  store and no operation reads.
\<close>

section \<open>The queue\<close>

record memory =
  hash_mem :: bool
  producer_mem :: bool
  first_index_mem :: index_mem
  index_mem :: index_mem
  block_mem :: bool

record 'v cqueue = producer_hash +
  block_pool :: "'v block_pool"
  producers :: "(u64 \<times> implicit_producer) list"

definition new_cqueue :: "u64 \<Rightarrow> bool \<Rightarrow> 'v cqueue" where
  "new_cqueue capacity mem =
     \<lparr>implicitProducerHash = [new_table INITIAL_IMPLICIT_PRODUCER_HASH_SIZE], implicitProducerHashCount = 0,
      block_pool = populate_initial_block_list
        (capacity div BLOCK_SIZE + (if capacity AND (BLOCK_SIZE - 1) = 0 then 0 else 1)) mem,
      producers = []\<rparr>"

text \<open>
  The second half of \<^verbatim>\<open>get_or_add_implicit_producer\<close>. The count is raised first and lowered again
  on every failure. Without another thread a second turn of its loop would be like the first.
\<close>

definition add_implicit_producer :: "memory \<Rightarrow> u64 \<Rightarrow> 'v cqueue \<Rightarrow> (nat option \<times> 'v cqueue) option" where
  "add_implicit_producer mem t q =
     (let newCount = 1 + implicitProducerHashCount q
      in case grow_hash (hash_mem mem) newCount (implicitProducerHash q) of
           None \<Rightarrow> None
         | Some (False, hs) \<Rightarrow> Some (None, q\<lparr>implicitProducerHash := hs\<rparr>)
         | Some (True, []) \<Rightarrow> None
         | Some (True, mainHash # prev) \<Rightarrow>
             if newCount < drop_bit 1 (h_capacity mainHash) + drop_bit 2 (h_capacity mainHash)
             then if producer_mem mem
                  then map_option (\<lambda>h. (Some (length (producers q)),
                         q\<lparr>implicitProducerHash := h # prev, implicitProducerHashCount := newCount,
                           producers := (t, new_implicit_producer (first_index_mem mem)) # producers q\<rparr>))
                       (put_in_table t (Some (length (producers q))) mainHash)
                  else Some (None, q\<lparr>implicitProducerHash := mainHash # prev\<rparr>)
             else None)"

definition get_or_add_implicit_producer :: "memory \<Rightarrow> u64 \<Rightarrow> 'v cqueue \<Rightarrow> (nat option \<times> 'v cqueue) option" where
  "get_or_add_implicit_producer mem t q =
     (case find_in_hashes t (implicitProducerHash q) of
        None \<Rightarrow> None
      | Some (Some value, hs) \<Rightarrow> Some (value, q\<lparr>implicitProducerHash := hs\<rparr>)
      | Some (None, hs) \<Rightarrow> add_implicit_producer mem t (q\<lparr>implicitProducerHash := hs\<rparr>))"

text \<open>Where the producer with a number is in the list.\<close>

definition position_of :: "nat \<Rightarrow> 'v cqueue \<Rightarrow> nat" where
  "position_of n q = length (producers q) - Suc n"

definition set_producer :: "nat \<Rightarrow> 'v producer_state \<Rightarrow> 'v cqueue \<Rightarrow> 'v cqueue" where
  "set_producer i s q =
     q\<lparr>block_pool := snd s, producers := (producers q)[i := (fst (producers q ! i), fst s)]\<rparr>"

text \<open>\<^verbatim>\<open>enqueue\<close>, which may allocate.\<close>

definition cq_enqueue :: "memory \<Rightarrow> u64 \<Rightarrow> 'v \<Rightarrow> 'v cqueue \<Rightarrow> (bool \<times> 'v cqueue) option" where
  "cq_enqueue mem t v q =
     (case get_or_add_implicit_producer mem t q of
        None \<Rightarrow> None
      | Some (None, q1) \<Rightarrow> Some (False, q1)
      | Some (Some n, q1) \<Rightarrow>
          let i = position_of n q1
          in map_option (\<lambda>(ok, s). (ok, set_producer i s q1))
               (ip_enqueue True (index_mem mem) (block_mem mem) v (snd (producers q1 ! i), block_pool q1)))"

definition dequeue_from :: "nat \<Rightarrow> 'v cqueue \<Rightarrow> ('v option \<times> 'v cqueue) option" where
  "dequeue_from i q =
     map_option (\<lambda>(r, s). (r, set_producer i s q)) (ip_dequeue (snd (producers q ! i), block_pool q))"

text \<open>The best of the first three producers that are not empty: how many there are, and which it is.\<close>

fun best_producer :: "(u64 \<times> implicit_producer) list \<Rightarrow> nat \<Rightarrow> nat \<Rightarrow> nat option \<Rightarrow> u64 \<Rightarrow> nat \<times> nat option" where
  "best_producer [] i nonEmptyCount best bestSize = (nonEmptyCount, best)"
| "best_producer (p # ps) i nonEmptyCount best bestSize =
     (if nonEmptyCount < 3
      then let sz = ip_size_approx (snd p)
           in if sz > 0
              then if sz > bestSize then best_producer ps (i + 1) (nonEmptyCount + 1) (Some i) sz
                   else best_producer ps (i + 1) (nonEmptyCount + 1) best bestSize
              else best_producer ps (i + 1) nonEmptyCount best bestSize
      else (nonEmptyCount, best))"

fun dequeue_others :: "nat \<Rightarrow> nat list \<Rightarrow> 'v cqueue \<Rightarrow> ('v option \<times> 'v cqueue) option" where
  "dequeue_others best [] q = Some (None, q)"
| "dequeue_others best (i # is) q =
     (if i = best then dequeue_others best is q
      else case dequeue_from i q of
             None \<Rightarrow> None
           | Some (Some v, q1) \<Rightarrow> Some (Some v, q1)
           | Some (None, q1) \<Rightarrow> dequeue_others best is q1)"

definition try_dequeue_item :: "'v cqueue \<Rightarrow> ('v option \<times> 'v cqueue) option" where
  "try_dequeue_item q =
     (case best_producer (producers q) 0 0 None 0 of
        (nonEmptyCount, best) \<Rightarrow>
          if nonEmptyCount > 0
          then (case best of
                  None \<Rightarrow> None
                | Some b \<Rightarrow>
                    (case dequeue_from b q of
                       None \<Rightarrow> None
                     | Some (Some v, q1) \<Rightarrow> Some (Some v, q1)
                     | Some (None, q1) \<Rightarrow> dequeue_others b [0..<length (producers q1)] q1))
          else Some (None, q))"

definition queue_size_approx :: "'v cqueue \<Rightarrow> u64" where
  "queue_size_approx q = sum_list (map (\<lambda>p. ip_size_approx (snd p)) (producers q))"

section \<open>What the queue holds\<close>

text \<open>
  \<open>m t\<close> are the elements that thread \<open>t\<close> has put in and nobody has taken; \<open>n\<close> bounds the elements a
  thread has put in; \<open>g\<close> says that no allocation has failed.
\<close>

definition all_blocks :: "nat list list \<Rightarrow> nat set" where
  "all_blocks Ws = \<Union> (set ` set Ws)"

definition queue_parts :: "nat \<Rightarrow> bool \<Rightarrow> 'v cqueue \<Rightarrow> (u64 \<Rightarrow> 'v list) \<Rightarrow> nat list list \<Rightarrow> nat list \<Rightarrow> bool" where
  "queue_parts n g q m Ws Hs \<longleftrightarrow>
     length Ws = length (producers q) \<and> length Hs = length (producers q) \<and> distinct (map fst (producers q)) \<and>
     (\<forall>i < length (producers q).
        producer_holds (snd (producers q ! i)) (the_blocks (block_pool q)) (Hs ! i) (Ws ! i) (m (fst (producers q ! i))) \<and>
        Hs ! i + length (m (fst (producers q ! i))) \<le> n \<and> (g \<longrightarrow> blockIndex (snd (producers q ! i)) \<noteq> None)) \<and>
     (\<forall>t. t \<notin> fst ` set (producers q) \<longrightarrow> m t = []) \<and> apart set Ws \<and> block_pool_ok (block_pool q) (all_blocks Ws) \<and>
     hashes_ok (implicitProducerHash q) (rev (map fst (producers q))) \<and>
     implicitProducerHashCount q = of_nat (length (producers q))"

definition queue_holds :: "nat \<Rightarrow> bool \<Rightarrow> 'v cqueue \<Rightarrow> (u64 \<Rightarrow> 'v list) \<Rightarrow> bool" where
  "queue_holds n g q m \<longleftrightarrow> length (producers q) \<le> n \<and> (\<exists>Ws Hs. queue_parts n g q m Ws Hs)"

lemma queue_partsD:
  assumes "queue_parts n g q m Ws Hs"
  shows "length Ws = length (producers q)" "length Hs = length (producers q)" "distinct (map fst (producers q))"
    "i < length (producers q) \<Longrightarrow>
       producer_holds (snd (producers q ! i)) (the_blocks (block_pool q)) (Hs ! i) (Ws ! i) (m (fst (producers q ! i)))"
    "i < length (producers q) \<Longrightarrow> Hs ! i + length (m (fst (producers q ! i))) \<le> n"
    "i < length (producers q) \<Longrightarrow> g \<Longrightarrow> blockIndex (snd (producers q ! i)) \<noteq> None"
    "t \<notin> fst ` set (producers q) \<Longrightarrow> m t = []" "apart set Ws" "block_pool_ok (block_pool q) (all_blocks Ws)"
    "hashes_ok (implicitProducerHash q) (rev (map fst (producers q)))" "implicitProducerHashCount q = of_nat (length (producers q))"
  using assms by (auto simp: queue_parts_def)

lemma new_queue_holds: "queue_holds 0 True (new_cqueue capacity mem) (\<lambda>_. [])"
  by (auto simp: queue_holds_def queue_parts_def new_cqueue_def apart_def all_blocks_def pool_ok_start initial_hashes_ok)

lemma queue_parts_mono: "queue_parts n g q m Ws Hs \<Longrightarrow> n \<le> n' \<Longrightarrow> (g' \<longrightarrow> g) \<Longrightarrow> queue_parts n' g' q m Ws Hs"
  by (fastforce simp: queue_parts_def)

lemma queue_holds_mono: "queue_holds n g q m \<Longrightarrow> n \<le> n' \<Longrightarrow> (g' \<longrightarrow> g) \<Longrightarrow> queue_holds n' g' q m"
proof -
  assume a: "queue_holds n g q m" "n \<le> n'" "g' \<longrightarrow> g"
  then obtain Ws Hs where "queue_parts n g q m Ws Hs" "length (producers q) \<le> n" by (auto simp: queue_holds_def)
  then have "queue_parts n' g' q m Ws Hs" using a(2,3) queue_parts_mono by blast
  then show ?thesis using \<open>length (producers q) \<le> n\<close> a(2) by (auto simp: queue_holds_def)
qed

text \<open>The blocks of the other producers.\<close>

definition others :: "nat list list \<Rightarrow> nat \<Rightarrow> nat set" where
  "others Ws i = (\<Union>j \<in> {..<length Ws} - {i}. set (Ws ! j))"

lemma all_blocks_split: "i < length Ws \<Longrightarrow> all_blocks Ws = set (Ws ! i) \<union> others Ws i"
proof -
  assume i: "i < length Ws"
  have "all_blocks Ws = (\<Union>j \<in> {..<length Ws}. set (Ws ! j))" by (force simp: all_blocks_def in_set_conv_nth[of _ Ws])
  also have "{..<length Ws} = insert i ({..<length Ws} - {i})" using i by auto
  finally show ?thesis unfolding others_def UN_insert .
qed

lemma others_update: "others (Ws[i := W]) i = others Ws i"
  by (simp add: others_def)

lemma apart_others: "apart set Ws \<Longrightarrow> i < length Ws \<Longrightarrow> set (Ws ! i) \<inter> others Ws i = {}"
  by (fastforce simp: apart_def others_def)

text \<open>A call of one producer.\<close>

lemma queue_update:
  assumes "queue_parts n g q m Ws Hs" "i < length (producers q)"
    and "producer_holds p1 (the_blocks bp1) H1 W1 xs" "H1 + length xs \<le> n'" "n \<le> n'" "g' \<longrightarrow> g"
    and "block_pool_ok bp1 (set W1 \<union> others Ws i)" "set W1 \<inter> others Ws i = {}"
    and "\<forall>x \<in> others Ws i. the_blocks bp1 x = the_blocks (block_pool q) x" "g' \<longrightarrow> blockIndex p1 \<noteq> None" "length (producers q) \<le> n'"
  shows "queue_holds n' g' (set_producer i (p1, bp1) q) (m(fst (producers q ! i) := xs))"
proof -
  note qp = queue_partsD[OF assms(1)]
  let ?q = "set_producer i (p1, bp1) q" and ?Ws = "Ws[i := W1]" and ?Hs = "Hs[i := H1]"
  let ?t = "fst (producers q ! i)"
  have fsts: "map fst (producers ?q) = map fst (producers q)"
  proof (rule nth_equalityI)
    fix k assume "k < length (map fst (producers ?q))"
    then show "map fst (producers ?q) ! k = map fst (producers q) ! k"
      by (cases "k = i") (simp_all add: set_producer_def)
  qed (simp add: set_producer_def)
  have other: "fst (producers q ! j) \<noteq> ?t" if "j < length (producers q)" "j \<noteq> i" for j
    using qp(3) that assms(2) nth_eq_iff_index_eq[OF qp(3), of j i] by simp
  have "producer_holds (snd (producers ?q ! j)) (the_blocks (block_pool ?q)) (?Hs ! j) (?Ws ! j) ((m(?t := xs)) (fst (producers ?q ! j))) \<and>
      ?Hs ! j + length ((m(?t := xs)) (fst (producers ?q ! j))) \<le> n' \<and> (g' \<longrightarrow> blockIndex (snd (producers ?q ! j)) \<noteq> None)"
    if j: "j < length (producers q)" for j
  proof (cases "j = i")
    case True
    then show ?thesis using assms(2,3,4,10) qp(1,2) by (simp add: set_producer_def)
  next
    case False
    have "producer_holds (snd (producers q ! j)) (the_blocks bp1) (Hs ! j) (Ws ! j) (m (fst (producers q ! j)))"
      using assms(9) j False qp(1) by (intro producer_holds_cong[OF qp(4)[OF j]]) (auto simp: others_def)
    then show ?thesis using False other[OF j False] qp(5,6)[OF j] assms(5,6) by (auto simp: set_producer_def)
  qed
  moreover have "apart set ?Ws"
  proof (rule apart_update[where X = "set W1 - set (Ws ! i)", OF qp(8)])
    show "i < length Ws" using assms(2) qp(1) by simp
    fix W assume "W \<in> set Ws"
    then obtain j where "j < length Ws" "W = Ws ! j" by (auto simp: in_set_conv_nth)
    then show "set W \<inter> (set W1 - set (Ws ! i)) = {}" using assms(8) by (cases "j = i") (auto simp: others_def)
  qed simp
  moreover have "block_pool_ok (block_pool ?q) (all_blocks ?Ws)"
    using assms(2,7) qp(1) all_blocks_split[of i ?Ws] by (simp add: others_update set_producer_def)
  moreover have "(m(?t := xs)) t = []" if "t \<notin> fst ` set (producers ?q)" for t
  proof -
    have "fst ` set (producers ?q) = fst ` set (producers q)" using fsts by (metis list.set_map)
    then show ?thesis using that qp(7)[of t] assms(2) by auto
  qed
  ultimately have "queue_parts n' g' ?q (m(?t := xs)) ?Ws ?Hs"
    using qp(1-3,10,11) fsts unfolding queue_parts_def by (simp add: set_producer_def)
  then show ?thesis using assms(11) by (auto simp: queue_holds_def set_producer_def)
qed

section \<open>Enqueue\<close>

definition granted :: "memory \<Rightarrow> bool" where
  "granted mem \<longleftrightarrow> hash_mem mem \<and> producer_mem mem \<and> first_index_mem mem \<noteq> None \<and> index_mem mem \<noteq> None \<and> block_mem mem"

lemma new_producer_holds:
  "producer_holds (new_implicit_producer imem) B 0 [] [] \<and> (imem \<noteq> None \<longrightarrow> blockIndex (new_implicit_producer imem) \<noteq> None)"
proof (cases imem)
  case None
  then show ?thesis
    by (simp add: new_implicit_producer_def new_block_index_def Let_def producer_holds_def index_inv_def q_content_def)
next
  case (Some junk)
  let ?p = "new_implicit_producer imem"
  let ?h = "\<lparr>ix_capacity = 32, ix_tail = (0 - 1) AND (32 - 1), ix_index = [0..<32]\<rparr>"
  have p: "blockIndex ?p = Some ?h" "next_entry ?p = 32" "nextBlockIndexCapacity ?p = 64"
    "e \<in> set [0..<32] \<Longrightarrow> e_key (ix_entries ?p e) = INVALID_BLOCK_BASE" for e
    using Some by (simp_all add: new_implicit_producer_def new_block_index_def Let_def IMPLICIT_INITIAL_INDEX_SIZE_def)
  have t: "unat (ix_tail ?h) = 31" by simp
  have "ring ?h = rotate (length [0..<32]) [0..<32]" unfolding ring_def t by (simp del: rotate_Suc upt_rec_numeral)
  then have r: "ring ?h = [0..<32]" by (simp only: rotate_length01 rotate_conv_mod mod_self rotate0 id_apply)
  have "header_ok ?h 5" using t by (simp add: header_ok_def del: upt_rec_numeral)
  then have "index_parts ?p ?h 0 [] 5 [0..<32] []"
    using r p(2-4) by (auto simp: index_parts_def slot_free_def simp del: upt_rec_numeral)
  then have "index_inv ?p 0 []" unfolding index_inv_def p(1) by auto
  moreover have "ip_head ?p = 0" "ip_tail ?p = 0" "ip_optimistic ?p - ip_overcommit ?p = 0"
    using Some by (simp_all add: new_implicit_producer_def new_block_index_def Let_def)
  ultimately show ?thesis using p(1) by (simp add: producer_holds_def q_content_def)
qed

lemma queue_parts_hashes:
  assumes "queue_parts n g q m Ws Hs" "hashes_ok hs (rev (map fst (producers q)))" "g' \<longrightarrow> g"
  shows "queue_parts n g' (q\<lparr>implicitProducerHash := hs\<rparr>) m Ws Hs"
  using assms by (auto simp: queue_parts_def)

lemma queue_parts_new_producer:
  assumes "queue_parts n g q m Ws Hs" "t \<notin> fst ` set (producers q)" "g' \<longrightarrow> g \<and> imem \<noteq> None"
    and "hashes_ok hs (rev (map fst (producers q)) @ [t])" "cnt = of_nat (Suc (length (producers q)))"
  shows "queue_parts n g' (q\<lparr>implicitProducerHash := hs, implicitProducerHashCount := cnt,
    producers := (t, new_implicit_producer imem) # producers q\<rparr>) m ([] # Ws) (0 # Hs)"
proof -
  note qd = queue_partsD[OF assms(1)]
  have "apart set ([] # Ws)" using qd(8) by (auto simp: apart_def nth_Cons split: nat.splits)
  moreover have "all_blocks ([] # Ws) = all_blocks Ws" by (simp add: all_blocks_def)
  moreover have "m t = []" using qd(7)[OF assms(2)] .
  ultimately show ?thesis
    using qd(1-9) assms(2-5) conjunct1[OF new_producer_holds, of imem "the_blocks (block_pool q)"] conjunct2[OF new_producer_holds, of imem]
    by (auto simp: queue_parts_def nth_Cons split: nat.splits)
qed

lemma position_of_thread:
  assumes "k < length (producers q)" "rev (map fst (producers q)) ! k = t"
  shows "position_of k q < length (producers q)" "fst (producers q ! position_of k q) = t"
  using assms by (simp_all add: position_of_def rev_nth)

lemma below_three_quarters:
  assumes "unat cnt < 2 ^ c div 2" "1 < c" "c < 64"
  shows "(cnt :: u64) < drop_bit 1 (2 ^ c) + drop_bit 2 (2 ^ c)"
proof -
  have c: "(2 :: nat) ^ c = 4 * 2 ^ (c - 2)"
  proof -
    have "c = 2 + (c - 2)" using assms(2) by simp
    then have "(2 :: nat) ^ c = 2 ^ 2 * 2 ^ (c - 2)" by (metis power_add)
    then show ?thesis by simp
  qed
  have "(2 :: nat) ^ c < 2 ^ 64" using assms(3) by (intro power_strict_increasing) auto
  moreover have "unat (drop_bit 1 ((2 :: u64) ^ c)) = 2 * 2 ^ (c - 2)" "unat (drop_bit 2 ((2 :: u64) ^ c)) = 2 ^ (c - 2)"
    using assms(3) c by (simp_all add: drop_bit_eq_div unat_div unat_2_power)
  ultimately have "unat (drop_bit 1 ((2 :: u64) ^ c) + drop_bit 2 (2 ^ c)) = 2 * 2 ^ (c - 2) + 2 ^ (c - 2)"
    using c by (simp add: unat_word_ariths)
  then show ?thesis using assms(1) c by (simp add: word_less_nat_alt)
qed

lemma get_or_add_ok:
  assumes "queue_parts n g q m Ws Hs" "length (producers q) < 2 ^ 61" "t \<noteq> 0"
  shows "\<exists>r q1 Ws1 Hs1. get_or_add_implicit_producer mem t q = Some (r, q1) \<and> queue_parts n (g \<and> granted mem) q1 m Ws1 Hs1 \<and>
    length (producers q1) \<le> Suc (length (producers q)) \<and>
    (case r of None \<Rightarrow> \<not> granted mem
     | Some k \<Rightarrow> position_of k q1 < length (producers q1) \<and> fst (producers q1 ! position_of k q1) = t)"
proof -
  let ?ts = "rev (map fst (producers q))" and ?g = "g \<and> granted mem"
  note qd = queue_partsD[OF assms(1)]
  from find_in_hashes_ok[OF qd(10) assms(3)] show ?thesis
  proof (elim disjE exE conjE)
    fix hs1 k assume k: "k < length ?ts" "?ts ! k = t" "find_in_hashes t (implicitProducerHash q) = Some (Some (Some k), hs1)" "hashes_ok hs1 ?ts"
    let ?q1 = "q\<lparr>implicitProducerHash := hs1\<rparr>"
    have "get_or_add_implicit_producer mem t q = Some (Some k, ?q1)" using k(3) by (simp add: get_or_add_implicit_producer_def)
    moreover have "queue_parts n ?g ?q1 m Ws Hs" using queue_parts_hashes[OF assms(1) k(4)] by simp
    moreover have "position_of k ?q1 < length (producers ?q1)" "fst (producers ?q1 ! position_of k ?q1) = t"
      using position_of_thread[of k q t] k(1,2) by (simp_all add: position_of_def)
    ultimately show ?thesis by fastforce
  next
    assume f: "t \<notin> set ?ts" "find_in_hashes t (implicitProducerHash q) = Some (None, implicitProducerHash q)"
    then have step: "get_or_add_implicit_producer mem t q = add_implicit_producer mem t q"
      by (simp add: get_or_add_implicit_producer_def)
    have count: "1 + implicitProducerHashCount q = 1 + of_nat (length ?ts)" using qd(11) by simp
    have len: "length ?ts < 2 ^ 61" using assms(2) by simp
    consider (failed) "\<not> hash_mem mem" "grow_hash (hash_mem mem) (1 + of_nat (length ?ts)) (implicitProducerHash q) = Some (False, implicitProducerHash q)"
      | (grown) hs1 c where "grow_hash (hash_mem mem) (1 + of_nat (length ?ts)) (implicitProducerHash q) = Some (True, hs1)"
        "hashes_ok hs1 ?ts" "table_ok (hd hs1) c" "Suc (length ?ts) < 2 ^ c div 2" "2 ^ c \<le> (32 :: nat) \<or> 2 ^ c \<le> 4 * Suc (Suc (length ?ts))"
      using grow_hash_ok[OF qd(10) len, of "hash_mem mem"] by blast
    then show ?thesis
    proof cases
      case failed
      then have "get_or_add_implicit_producer mem t q = Some (None, q)" "\<not> granted mem"
        unfolding step add_implicit_producer_def count by (simp_all add: granted_def)
      moreover have "queue_parts n ?g q m Ws Hs" using queue_parts_hashes[OF assms(1) qd(10)] by simp
      ultimately show ?thesis by fastforce
    next
      case gr: grown
      obtain h hs' where hs: "hs1 = h # hs'" using gr(2) by (cases hs1) (auto simp: hashes_ok_def)
      have c: "h_capacity h = 2 ^ c" "c < 64" using gr(3) hs by (auto simp: table_ok_def table_size_def)
      have c1: "1 < c" using gr(4) by (cases c; cases "c - 1") auto
      have u: "unat (1 + of_nat (length ?ts) :: u64) = Suc (length ?ts)"
      proof -
        have "1 + of_nat (length ?ts) = (of_nat (Suc (length ?ts)) :: u64)" by simp
        then show ?thesis using len by (simp only: unat_of_nat) (simp add: take_bit_nat_eq_self del: of_nat_Suc)
      qed
      have room: "1 + of_nat (length ?ts) < drop_bit 1 (h_capacity h) + drop_bit 2 (h_capacity h)"
        unfolding c(1) using below_three_quarters[OF _ c1 c(2)] gr(4) u by simp
      show ?thesis
      proof (cases "producer_mem mem")
        case False
        then have "get_or_add_implicit_producer mem t q = Some (None, q\<lparr>implicitProducerHash := hs1\<rparr>)" "\<not> granted mem"
          unfolding step add_implicit_producer_def count using gr(1) hs room by (simp_all add: granted_def)
        moreover have "queue_parts n ?g (q\<lparr>implicitProducerHash := hs1\<rparr>) m Ws Hs" using queue_parts_hashes[OF assms(1) gr(2)] by simp
        ultimately show ?thesis by fastforce
      next
        case True
        obtain h1 where h1: "put_in_table t (Some (length ?ts)) h = Some h1" "hashes_ok (h1 # hs') (?ts @ [t])"
          using enter_thread_ok[of h hs' ?ts c t] gr(2-5) hs f(1) assms(3) by auto
        let ?q1 = "q\<lparr>implicitProducerHash := h1 # hs', implicitProducerHashCount := 1 + of_nat (length ?ts),
          producers := (t, new_implicit_producer (first_index_mem mem)) # producers q\<rparr>"
        have "get_or_add_implicit_producer mem t q = Some (Some (length (producers q)), ?q1)"
          unfolding step add_implicit_producer_def count using gr(1) hs room True h1(1) by simp
        moreover have "queue_parts n ?g ?q1 m ([] # Ws) (0 # Hs)"
          using f(1) h1(2) by (intro queue_parts_new_producer[OF assms(1)]) (auto simp: granted_def)
        moreover have "position_of (length (producers q)) ?q1 = 0" by (simp add: position_of_def)
        ultimately show ?thesis by fastforce
      qed
    qed
  qed
qed

lemma cq_enqueue_ok:
  assumes "queue_holds n g q m" "n < 2 ^ 61" "t \<noteq> 0"
  shows "\<exists>ok q1. cq_enqueue mem t v q = Some (ok, q1) \<and>
    queue_holds (Suc n) (g \<and> granted mem) q1 (if ok then m(t := m t @ [v]) else m) \<and> (g \<and> granted mem \<longrightarrow> ok)"
proof -
  obtain Ws0 Hs0 where q: "queue_parts n g q m Ws0 Hs0" "length (producers q) \<le> n" using assms(1) by (auto simp: queue_holds_def)
  then have "length (producers q) < 2 ^ 61" using assms(2) by simp
  from get_or_add_ok[OF q(1) this assms(3), of mem] obtain r q1 Ws Hs where
    r: "get_or_add_implicit_producer mem t q = Some (r, q1)" and qp: "queue_parts n (g \<and> granted mem) q1 m Ws Hs" and
    ga: "length (producers q1) \<le> Suc (length (producers q))" "case r of None \<Rightarrow> \<not> granted mem
      | Some k \<Rightarrow> position_of k q1 < length (producers q1) \<and> fst (producers q1 ! position_of k q1) = t"
    by blast
  have len: "length (producers q1) \<le> Suc n" using ga(1) q(2) by simp
  show ?thesis
  proof (cases r)
    case None
    then have h: "\<not> granted mem" using ga by auto
    have "queue_holds (Suc n) (g \<and> granted mem) q1 m" using queue_parts_mono[OF qp, of "Suc n"] len by (auto simp: queue_holds_def)
    moreover have "cq_enqueue mem t v q = Some (False, q1)" using r None by (simp add: cq_enqueue_def)
    ultimately show ?thesis using h by (intro exI[of _ False] exI[of _ q1]) simp
  next
    case (Some k)
    define i where "i = position_of k q1"
    then have i: "i < length (producers q1)" "fst (producers q1 ! i) = t" using ga Some by auto
    note qd = queue_partsD[OF qp]
    let ?p = "snd (producers q1 ! i)" and ?V = "others Ws i"
    have W: "i < length Ws" using i(1) qd(1) by simp
    have holds: "producer_holds ?p (the_blocks (block_pool q1)) (Hs ! i) (Ws ! i) (m t)" using qd(4)[OF i(1)] i(2) by simp
    have bound: "Hs ! i + length (m t) < 2 ^ 61" "Hs ! i + length (m t) \<le> n" using qd(5)[OF i(1)] i(2) assms(2) by auto
    have pool: "block_pool_ok (block_pool q1) (set (Ws ! i) \<union> ?V)" using qd(9) all_blocks_split[OF W] by simp
    obtain ok p1 bp1 W1 where e: "ip_enqueue True (index_mem mem) (block_mem mem) v (?p, block_pool q1) = Some (ok, p1, bp1)"
      "producer_holds p1 (the_blocks bp1) (Hs ! i) W1 (if ok then m t @ [v] else m t)" "block_pool_ok bp1 (set W1 \<union> ?V)"
      "set W1 \<inter> ?V = {}" "\<forall>x \<in> ?V. the_blocks bp1 x = the_blocks (block_pool q1) x"
      "blockIndex ?p \<noteq> None \<longrightarrow> blockIndex p1 \<noteq> None"
      "blockIndex ?p \<noteq> None \<and> True \<and> index_mem mem \<noteq> None \<and> block_mem mem \<longrightarrow> ok"
      using ip_enqueue_ok[OF holds bound(1) pool apart_others[OF qd(8) W], of True "index_mem mem" "block_mem mem" v] by blast
    have "queue_holds (Suc n) (g \<and> granted mem) (set_producer i (p1, bp1) q1) (m(t := if ok then m t @ [v] else m t))"
      using queue_update[OF qp i(1) e(2), of "Suc n" "g \<and> granted mem"] bound(2) e(3-6) qd(6)[OF i(1)] i(2) len by simp
    moreover have "cq_enqueue mem t v q = Some (ok, set_producer i (p1, bp1) q1)" using r Some e(1) by (simp add: cq_enqueue_def i_def)
    moreover have "g \<and> granted mem \<longrightarrow> ok" using e(7) qd(6)[OF i(1)] by (auto simp: granted_def)
    ultimately show ?thesis by (cases ok) auto
  qed
qed

section \<open>Dequeue\<close>

lemma size_of_producer:
  assumes "producer_holds p B H W xs" "H + length xs < 2 ^ 61"
  shows "unat (ip_size_approx p) = length xs"
proof -
  have u: "unat (ip_tail p) = H + length xs" "unat (ip_head p) = H"
    using producer_holdsD(3,4)[OF assms(1)] assms(2) by (simp_all add: unat_of_nat take_bit_nat_eq_self del: of_nat_add)
  then show ?thesis
    using circular_less_than_unat[of "ip_head p" "ip_tail p"] unat_sub[of "ip_head p" "ip_tail p"] assms(2)
    by (auto simp: ip_size_approx_def word_le_nat_alt)
qed

lemma best_producer_some: "best_producer ps i c b s = (c', b') \<Longrightarrow> b \<noteq> None \<Longrightarrow> b' \<noteq> None"
  by (induction ps i c b s rule: best_producer.induct) (auto simp: Let_def split: if_splits)

lemma best_producer_spec:
  assumes "best_producer ps i c b s = (c', b')" "ps = drop i all" "c = 0 \<longleftrightarrow> b = None" "b = None \<Longrightarrow> s = 0"
    "\<And>j. b = Some j \<Longrightarrow> j < length all \<and> 0 < unat (ip_size_approx (snd (all ! j)))"
  shows "(c' = 0 \<longleftrightarrow> b' = None) \<and> (\<forall>j. b' = Some j \<longrightarrow> j < length all \<and> 0 < unat (ip_size_approx (snd (all ! j)))) \<and>
    (c' = 0 \<longrightarrow> (\<forall>p \<in> set ps. ip_size_approx (snd p) = 0))"
  using assms
proof (induction ps i c b s rule: best_producer.induct)
  case (2 p ps i c b s)
  have i: "i < length all" using 2(5) by (metis drop_all list.distinct(1) not_less)
  then have p: "all ! i = p" "ps = drop (i + 1) all" using 2(5) Cons_nth_drop_Suc[OF i] by (metis list.inject, metis list.inject Suc_eq_plus1)
  show ?case
  proof (cases "c < 3")
    case False
    then have "c' = c" "b' = b" using 2(4) by simp_all
    then show ?thesis using 2(6,8) False by auto
  next
    case c3: True
    define sz where "sz = ip_size_approx (snd p)"
    consider "sz = 0" | "sz > 0" "sz > s" | "sz > 0" "\<not> sz > s"
      using word_gt_0[of sz] by blast
    then show ?thesis
    proof cases
      case 1
      then have "best_producer ps (i + 1) c b s = (c', b')" using 2(4) c3 by (simp add: sz_def)
      then show ?thesis using 2(3)[OF c3 refl] 1 2(6-8) p(2) by (simp add: sz_def)
    next
      case a: 2
      then have step: "best_producer ps (i + 1) (c + 1) (Some i) sz = (c', b')" using 2(4) c3 by (simp add: sz_def Let_def)
      have "0 < unat (ip_size_approx (snd (all ! i)))" using a(1) p(1) by (simp add: sz_def word_less_nat_alt)
      then have "(c' = 0 \<longleftrightarrow> b' = None) \<and> (\<forall>j. b' = Some j \<longrightarrow> j < length all \<and> 0 < unat (ip_size_approx (snd (all ! j)))) \<and>
          (c' = 0 \<longrightarrow> (\<forall>p \<in> set ps. ip_size_approx (snd p) = 0))"
        using i by (intro 2(1)[OF c3 sz_def a step p(2)]) auto
      moreover have "b' \<noteq> None" using best_producer_some[OF step] by blast
      ultimately show ?thesis by simp
    next
      case 3
      then have b: "b \<noteq> None" using 2(7) by auto
      have step: "best_producer ps (i + 1) (c + 1) b s = (c', b')" using 2(4) c3 3 by (simp add: sz_def Let_def)
      have "(c' = 0 \<longleftrightarrow> b' = None) \<and> (\<forall>j. b' = Some j \<longrightarrow> j < length all \<and> 0 < unat (ip_size_approx (snd (all ! j)))) \<and>
          (c' = 0 \<longrightarrow> (\<forall>p \<in> set ps. ip_size_approx (snd p) = 0))"
        using b 2(8) by (intro 2(2)[OF c3 sz_def 3 step p(2)]) auto
      moreover have "b' \<noteq> None" using best_producer_some[OF step b] .
      ultimately show ?thesis by simp
    qed
  qed
qed auto

lemma try_dequeue_ok:
  assumes "queue_holds n g q m" "n < 2 ^ 61"
  shows "\<exists>r q1. try_dequeue_item q = Some (r, q1) \<and> (case r of
      None \<Rightarrow> (\<forall>t. m t = []) \<and> q1 = q
    | Some v \<Rightarrow> \<exists>t vs. m t = v # vs \<and> queue_holds n g q1 (m(t := vs)))"
proof -
  obtain Ws Hs where qp: "queue_parts n g q m Ws Hs" and len: "length (producers q) \<le> n" using assms(1) by (auto simp: queue_holds_def)
  note qd = queue_partsD[OF qp]
  have sz: "unat (ip_size_approx (snd (producers q ! i))) = length (m (fst (producers q ! i)))" if "i < length (producers q)" for i
    using size_of_producer[OF qd(4)[OF that]] qd(5)[OF that] assms(2) by simp
  obtain c b where best: "best_producer (producers q) 0 0 None 0 = (c, b)" by fastforce
  note bs = best_producer_spec[OF best, of "producers q"]
  show ?thesis
  proof (cases b)
    case None
    then have "ip_size_approx (snd (producers q ! i)) = 0" if "i < length (producers q)" for i using bs that nth_mem by auto
    then have "m (fst (producers q ! i)) = []" if "i < length (producers q)" for i using sz[OF that] that by simp
    then have "m t = []" if "t \<in> fst ` set (producers q)" for t using that by (metis (no_types) imageE in_set_conv_nth)
    then have "m t = []" for t using qd(7)[of t] by blast
    moreover have "try_dequeue_item q = Some (None, q)" using best None bs by (simp add: try_dequeue_item_def)
    ultimately show ?thesis by auto
  next
    case (Some i)
    then have i: "i < length (producers q)" "0 < unat (ip_size_approx (snd (producers q ! i)))" "c > 0" using bs by auto
    let ?t = "fst (producers q ! i)" and ?V = "others Ws i"
    obtain x xs where x: "m ?t = x # xs" using sz[OF i(1)] i(2) by (cases "m ?t") auto
    have W: "i < length Ws" using i(1) qd(1) by simp
    have holds: "producer_holds (snd (producers q ! i)) (the_blocks (block_pool q)) (Hs ! i) (Ws ! i) (x # xs)"
      using qd(4)[OF i(1)] x by simp
    have bound: "Hs ! i + length (x # xs) < 2 ^ 61" "Suc (Hs ! i) + length xs \<le> n" using qd(5)[OF i(1)] x assms(2) by auto
    have pool: "block_pool_ok (block_pool q) (set (Ws ! i) \<union> ?V)" using qd(9) all_blocks_split[OF W] by simp
    obtain p1 bp1 W1 where d: "ip_dequeue (snd (producers q ! i), block_pool q) = Some (Some x, p1, bp1)"
      "producer_holds p1 (the_blocks bp1) (Suc (Hs ! i)) W1 xs" "block_pool_ok bp1 (set W1 \<union> ?V)" "set W1 \<inter> ?V = {}"
      "\<forall>x \<in> ?V. the_blocks bp1 x = the_blocks (block_pool q) x" "blockIndex (snd (producers q ! i)) \<noteq> None \<longrightarrow> blockIndex p1 \<noteq> None"
      using ip_dequeue_ok[OF holds bound(1) pool apart_others[OF qd(8) W]] by auto
    have "queue_holds n g (set_producer i (p1, bp1) q) (m(?t := xs))"
      using queue_update[OF qp i(1) d(2) bound(2), of g] d(3-6) qd(6)[OF i(1)] len by simp
    moreover have "try_dequeue_item q = Some (Some x, set_producer i (p1, bp1) q)"
      using best Some i(3) d(1) by (simp add: try_dequeue_item_def dequeue_from_def)
    ultimately show ?thesis using x by auto
  qed
qed

section \<open>Runs\<close>

datatype 'v cq_op = Enqueue_op memory u64 'v | Try_dequeue_op

datatype 'v cq_result = Stored bool | Taken "'v option"

fun cq_do :: "'v cq_op \<Rightarrow> 'v cqueue \<Rightarrow> ('v cq_result \<times> 'v cqueue) option" where
  "cq_do (Enqueue_op mem t v) q = map_option (\<lambda>(ok, q1). (Stored ok, q1)) (cq_enqueue mem t v q)"
| "cq_do Try_dequeue_op q = map_option (\<lambda>(r, q1). (Taken r, q1)) (try_dequeue_item q)"

fun cq_run :: "'v cq_op list \<Rightarrow> 'v cqueue \<Rightarrow> ('v cq_result list \<times> 'v cqueue) option" where
  "cq_run [] q = Some ([], q)"
| "cq_run (x # xs) q =
     (case cq_do x q of None \<Rightarrow> None | Some (r, q1) \<Rightarrow> map_option (\<lambda>(rs, q2). (r # rs, q2)) (cq_run xs q1))"

text \<open>
  The specification: one list for each thread; a dequeue takes the first of some list, and fails
  only when all are empty.
\<close>

inductive fifo_step :: "'v cq_op \<Rightarrow> 'v cq_result \<Rightarrow> (u64 \<Rightarrow> 'v list) \<Rightarrow> (u64 \<Rightarrow> 'v list) \<Rightarrow> bool" where
  stored: "fifo_step (Enqueue_op mem t v) (Stored True) m (m(t := m t @ [v]))"
| refused: "fifo_step (Enqueue_op mem t v) (Stored False) m m"
| taken_first: "m t = v # vs \<Longrightarrow> fifo_step Try_dequeue_op (Taken (Some v)) m (m(t := vs))"
| none_left: "(\<And>t. m t = []) \<Longrightarrow> fifo_step Try_dequeue_op (Taken None) m m"

inductive_cases fifo_enqueueE: "fifo_step (Enqueue_op mem t v) r m m'"
inductive_cases fifo_dequeueE: "fifo_step Try_dequeue_op r m m'"

lemma fifo_dequeue_cases:
  assumes "fifo_step Try_dequeue_op r m m1"
  obtains u v vs where "r = Taken (Some v)" "m u = v # vs" "m1 = m(u := vs)"
  | "r = Taken None" "\<And>u. m u = []" "m1 = m"
  using assms by (elim fifo_dequeueE) blast+

fun fifo_run :: "'v cq_op list \<Rightarrow> 'v cq_result list \<Rightarrow> (u64 \<Rightarrow> 'v list) \<Rightarrow> bool" where
  "fifo_run [] rs m \<longleftrightarrow> rs = []"
| "fifo_run (x # xs) [] m \<longleftrightarrow> False"
| "fifo_run (x # xs) (r # rs) m \<longleftrightarrow> (\<exists>m'. fifo_step x r m m' \<and> fifo_run xs rs m')"

fun all_granted :: "'v cq_op \<Rightarrow> bool" where
  "all_granted (Enqueue_op mem t v) = granted mem"
| "all_granted Try_dequeue_op = True"

text \<open>The number of a thread is the address of a variable, which is not null.\<close>

fun valid_call :: "'v cq_op \<Rightarrow> bool" where
  "valid_call (Enqueue_op mem t v) \<longleftrightarrow> t \<noteq> invalid_thread_id"
| "valid_call Try_dequeue_op \<longleftrightarrow> True"

lemma cq_do_ok:
  assumes "queue_holds n g q m" "n < 2 ^ 61" "valid_call x"
  shows "\<exists>r q1 m1. cq_do x q = Some (r, q1) \<and> fifo_step x r m m1 \<and> queue_holds (Suc n) (g \<and> all_granted x) q1 m1 \<and>
    (g \<and> all_granted x \<longrightarrow> r \<noteq> Stored False)"
proof (cases x)
  case (Enqueue_op mem t v)
  obtain ok q1 where e: "cq_enqueue mem t v q = Some (ok, q1)"
    "queue_holds (Suc n) (g \<and> granted mem) q1 (if ok then m(t := m t @ [v]) else m)" "g \<and> granted mem \<longrightarrow> ok"
    using cq_enqueue_ok[OF assms(1,2), of t mem v] assms(3) unfolding Enqueue_op by (auto simp: invalid_thread_id_def)
  have "fifo_step x (Stored ok) m (if ok then m(t := m t @ [v]) else m)"
    unfolding Enqueue_op by (cases ok) (auto intro: fifo_step.intros)
  then show ?thesis using e Enqueue_op by (intro exI[of _ "Stored ok"] exI[of _ q1] exI) auto
next
  case Try_dequeue_op
  obtain r q1 where d: "try_dequeue_item q = Some (r, q1)"
    "case r of None \<Rightarrow> (\<forall>t. m t = []) \<and> q1 = q | Some v \<Rightarrow> \<exists>t vs. m t = v # vs \<and> queue_holds n g q1 (m(t := vs))"
    using try_dequeue_ok[OF assms(1,2)] by blast
  have "\<exists>m1. fifo_step x (Taken r) m m1 \<and> queue_holds n g q1 m1"
    using d(2) assms(1) unfolding Try_dequeue_op by (cases r) (auto intro: fifo_step.intros)
  then obtain m1 where "fifo_step x (Taken r) m m1" "queue_holds n g q1 m1" by blast
  moreover have "queue_holds (Suc n) (g \<and> all_granted x) q1 m1"
    using queue_holds_mono[OF calculation(2), of "Suc n" "g \<and> all_granted x"] by simp
  ultimately show ?thesis using d(1) Try_dequeue_op by (intro exI[of _ "Taken r"] exI[of _ q1] exI[of _ m1]) simp
qed

lemma cq_run_ok:
  assumes "queue_holds n g q m" "n + length xs \<le> 2 ^ 61" "list_all valid_call xs"
  shows "\<exists>rs q1. cq_run xs q = Some (rs, q1) \<and> fifo_run xs rs m \<and> (g \<and> list_all all_granted xs \<longrightarrow> Stored False \<notin> set rs)"
  using assms
proof (induction xs arbitrary: n g q m)
  case (Cons x xs)
  obtain r q1 m1 where x: "cq_do x q = Some (r, q1)" "fifo_step x r m m1" "queue_holds (Suc n) (g \<and> all_granted x) q1 m1"
    "g \<and> all_granted x \<longrightarrow> r \<noteq> Stored False"
    using cq_do_ok[OF Cons.prems(1), of x] Cons.prems(2,3) by fastforce
  have "Suc n + length xs \<le> 2 ^ 61" using Cons.prems(2) by simp
  then obtain rs q2 where "cq_run xs q1 = Some (rs, q2)" "fifo_run xs rs m1"
    "g \<and> all_granted x \<and> list_all all_granted xs \<longrightarrow> Stored False \<notin> set rs"
    using Cons.IH[OF x(3)] Cons.prems(3) by auto
  then show ?case using x by (intro exI[of _ "r # rs"] exI[of _ q2]) auto
qed simp

text \<open>
  C18. Calls of \<^verbatim>\<open>enqueue\<close> and \<^verbatim>\<open>try_dequeue\<close> by any threads, one after the other: the elements of
  each thread come out in the order it put them in, none twice and none lost; \<^verbatim>\<open>try_dequeue\<close>
  fails only on an empty queue, \<^verbatim>\<open>enqueue\<close> only after an allocation failed; and no block, index
  or element is missing where the code follows a pointer.
\<close>

theorem calls_are_fifo:
  assumes "length xs \<le> 2 ^ 61" "list_all valid_call xs"
  shows "\<exists>rs q. cq_run xs (new_cqueue capacity mem) = Some (rs, q) \<and> fifo_run xs rs (\<lambda>_. []) \<and>
    (list_all all_granted xs \<longrightarrow> Stored False \<notin> set rs)"
  using cq_run_ok[OF new_queue_holds, of xs capacity mem] assms by simp

text \<open>With one thread that enqueues, the queue is a list.\<close>

fun list_results :: "'v cq_op list \<Rightarrow> 'v list \<Rightarrow> 'v cq_result list" where
  "list_results [] vs = []"
| "list_results (Enqueue_op mem t v # xs) vs = Stored True # list_results xs (vs @ [v])"
| "list_results (Try_dequeue_op # xs) [] = Taken None # list_results xs []"
| "list_results (Try_dequeue_op # xs) (v # vs) = Taken (Some v) # list_results xs vs"

definition from_thread :: "u64 \<Rightarrow> 'v cq_op \<Rightarrow> bool" where
  "from_thread t x = (case x of Enqueue_op mem u v \<Rightarrow> u = t \<and> granted mem | Try_dequeue_op \<Rightarrow> True)"

lemma from_thread_granted [intro]: "from_thread t x \<Longrightarrow> all_granted x"
  by (cases x) (simp_all add: from_thread_def)

lemma from_thread_valid: "from_thread t x \<Longrightarrow> t \<noteq> invalid_thread_id \<Longrightarrow> valid_call x"
  by (cases x) (simp_all add: from_thread_def)

lemma fifo_run_list:
  assumes "fifo_run xs rs m" "list_all (from_thread t) xs" "Stored False \<notin> set rs" "\<And>u. u \<noteq> t \<Longrightarrow> m u = []"
  shows "rs = list_results xs (m t)"
  using assms
proof (induction xs rs m rule: fifo_run.induct)
  case (3 x xs r rs m)
  then obtain m1 where m1: "fifo_step x r m m1" "fifo_run xs rs m1" by auto
  have IH: "rs = list_results xs (m1 t)" if "\<And>u. u \<noteq> t \<Longrightarrow> m1 u = []"
    using 3(1)[OF m1(2)] 3(3,4) that by simp
  show ?case
  proof (cases x)
    case (Enqueue_op mem u v)
    then have "u = t" "r \<noteq> Stored False" using 3(3,4) by (auto simp: from_thread_def)
    then show ?thesis using m1(1) IH 3(5) unfolding Enqueue_op by (auto elim!: fifo_enqueueE)
  next
    case Try_dequeue_op
    from m1(1)[unfolded this] show ?thesis
    proof (cases rule: fifo_dequeue_cases)
      case (1 u v vs)
      then have "u = t" using 3(5)[of u] by auto
      then show ?thesis using 1 IH 3(5) Try_dequeue_op by simp
    next
      case 2
      then show ?thesis using IH Try_dequeue_op by simp
    qed
  qed
qed auto

text \<open>
  C19. When one thread does all the enqueuing and no allocation fails, the calls return what they
  would on a list, whichever blocks they use and however often the index has grown.
\<close>

theorem one_producer_is_a_list:
  assumes "length xs \<le> 2 ^ 61" "list_all (from_thread t) xs" "t \<noteq> invalid_thread_id"
  shows "map_option fst (cq_run xs (new_cqueue capacity mem)) = Some (list_results xs [])"
proof -
  have valid: "list_all valid_call xs"
    using assms(2,3) from_thread_valid by (auto simp: list_all_iff)
  have "list_all all_granted xs" using assms(2) by (auto simp: list_all_iff)
  then obtain rs q where r: "cq_run xs (new_cqueue capacity mem) = Some (rs, q)" "fifo_run xs rs (\<lambda>_. [])" "Stored False \<notin> set rs"
    using cq_run_ok[OF new_queue_holds, of xs capacity mem] assms(1) valid by auto
  then show ?thesis using fifo_run_list[OF r(2) assms(2) r(3)] by simp
qed

text \<open>Two threads enqueue; a third takes what there is.\<close>

definition demo_memory :: memory where
  "demo_memory = \<lparr>hash_mem = True, producer_mem = True, first_index_mem = Some (\<lambda>_. None), index_mem = Some (\<lambda>_. None), block_mem = True\<rparr>"

definition demo_calls :: "nat cq_op list" where
  "demo_calls = [Enqueue_op demo_memory 8 5, Enqueue_op demo_memory 16 6, Try_dequeue_op, Try_dequeue_op, Try_dequeue_op]"

theorem calls_are_fifo_witness:
  "\<exists>rs q. cq_run demo_calls (new_cqueue 192 True) = Some (rs, q) \<and> fifo_run demo_calls rs (\<lambda>_. []) \<and> Stored False \<notin> set rs"
  using calls_are_fifo[of demo_calls 192 True] by (simp add: demo_calls_def demo_memory_def granted_def invalid_thread_id_def)

definition demo_single :: "nat cq_op list" where
  "demo_single = [Enqueue_op demo_memory 4 7, Enqueue_op demo_memory 4 8, Try_dequeue_op, Try_dequeue_op, Try_dequeue_op]"

theorem one_producer_is_a_list_witness:
  "map_option fst (cq_run demo_single (new_cqueue 192 False)) = Some [Stored True, Stored True, Taken (Some 7), Taken (Some 8), Taken None]"
proof -
  have "length demo_single \<le> 2 ^ 61" "list_all (from_thread 4) demo_single"
    "list_results demo_single [] = [Stored True, Stored True, Taken (Some 7), Taken (Some 8), Taken None]"
    by (simp_all add: demo_single_def from_thread_def demo_memory_def granted_def)
  then show ?thesis using one_producer_is_a_list[of demo_single 4 192 False] by (simp add: invalid_thread_id_def)
qed

end
