(* ===== verification/AppConfig.thy ===== *)
theory AppConfig
  imports Util
begin

text \<open>
  The start of a program: reading its configuration and setting up its log,
  \<^verbatim>\<open>src/include/app.h\<close> and \<^verbatim>\<open>src/zlog/src/ztp_log.cc\<close>.

  The JSON reader, the parser of the command line, the logging library and the linker's runtime
  are not part of the repository. The reader is the record \<open>mjson\<close> of the getters that are
  called, where \<open>GetArray\<close> takes the array to fill and returns it with its result; the others
  are arguments. Of the linker's configuration there are the fields the program sets, and of its
  initial value nothing is known. Ending the process is the left value of a sum, and writing
  outside a buffer is \<open>None\<close>.
\<close>

record 't mjson =
  ParseError :: int
  GetStr :: "string \<Rightarrow> string \<Rightarrow> string \<Rightarrow> string"
  GetInteger :: "string \<Rightarrow> string \<Rightarrow> int \<Rightarrow> int"
  GetBoolean :: "string \<Rightarrow> string \<Rightarrow> bool \<Rightarrow> bool"
  GetArray :: "string \<Rightarrow> string \<Rightarrow> string list \<Rightarrow> bool \<times> string list"
  GetArrays :: "string \<Rightarrow> string \<Rightarrow> string list list \<Rightarrow> bool \<times> string list list"
  GetTopics :: "string \<Rightarrow> string \<Rightarrow> 't \<Rightarrow> bool \<times> 't"

record base_option =
  log_level :: int
  log_dir :: string
  log_code :: string

record service_config =
  service_name :: string
  service_url :: string
  service_hostkey :: string

record compress_config =
  time_start :: int
  time_end :: int

record 't linker_config =
  config_file :: string
  agent_work_cpu_id :: int
  agent_high_perfomance :: bool
  listen_urls :: "string list"
  tcp_sub_urls :: "string list list"
  services :: "service_config list"
  compress_time :: "compress_config list"
  etcd_endpoints :: string
  shm_write_close_time :: string
  shm_write_base_id :: string
  shm_write_suffix :: string
  is_open_index :: int
  shm_id :: int
  listen_etcd_url :: string
  msg_handlers :: "string list"
  tcp_sub_topic :: 't
  input_types :: "string set"
  output_types :: "string set"
  use_hare :: bool
  hare_conf_dir :: string

record 't config =
  options :: base_option
  linker_cfg :: "'t linker_config"

definition new_config :: "base_option \<Rightarrow> 't linker_config \<Rightarrow> 't config" where
  "new_config o0 cfg0 = \<lparr>options = o0\<lparr>log_level := 0, log_dir := ''./log/''\<rparr>, linker_cfg = cfg0\<rparr>"

section \<open>Reading the configuration\<close>

fun read_services :: "string list list \<Rightarrow> service_config list \<Rightarrow> int + service_config list" where
  "read_services [] acc = Inr acc"
| "read_services (i # is) acc =
     (if length i < 2 then Inl (-1)
      else read_services is (acc @ [\<lparr>service_name = i ! 0, service_url = i ! 1,
                                      service_hostkey = (if length i = 3 then i ! 2 else [])\<rparr>]))"

fun read_compress :: "string list list \<Rightarrow> compress_config list \<Rightarrow> int + compress_config list" where
  "read_compress [] acc = Inr acc"
| "read_compress (i # is) acc =
     (if length i < 2 then Inl (-1)
      else read_compress is (acc @ [\<lparr>time_start = c_atoi (i ! 0), time_end = c_atoi (i ! 1)\<rparr>]))"

fun add_endpoints :: "string list \<Rightarrow> string \<Rightarrow> string" where
  "add_endpoints [] acc = acc"
| "add_endpoints (i # is) acc = add_endpoints is ((if acc \<noteq> [] then acc @ '','' else acc) @ i)"

definition set_logs :: "'t mjson \<Rightarrow> 't config \<Rightarrow> 't config" where
  "set_logs J c =
     c\<lparr>options := (options c)\<lparr>log_level := GetInteger J ''sds'' ''log_level'' 1,
                             log_dir := GetStr J ''sds'' ''log_dir'' ''./top'',
                             log_code := GetStr J ''sds'' ''log_code'' ''600446.sh''\<rparr>,
       linker_cfg := (linker_cfg c)\<lparr>agent_work_cpu_id := GetInteger J ''sds'' ''agent_work_cpu_id'' (-1),
                                   agent_high_perfomance := GetBoolean J ''sds'' ''agent_high_perfomance'' True,
                                   listen_urls := snd (GetArray J ''sds'' ''ztp_pub_url'' (listen_urls (linker_cfg c)))\<rparr>\<rparr>"

text \<open>The endpoints of the program, or those of the section \<^verbatim>\<open>etcd\<close> when it has none.\<close>

definition find_endpoints :: "'t mjson \<Rightarrow> string list" where
  "find_endpoints J =
     (let es = snd (GetArray J ''sds'' ''endpoints'' [])
      in if length es = 0 then snd (GetArray J ''etcd'' ''endpoints'' es) else es)"

definition set_shm :: "'t mjson \<Rightarrow> 't linker_config \<Rightarrow> 't linker_config" where
  "set_shm J l =
     l\<lparr>shm_write_close_time := GetStr J ''sds'' ''shm_write_close_time'' ''16,20'',
       shm_write_base_id := GetStr J ''sds'' ''shm_write_base_id'' ''110'',
       shm_write_suffix := GetStr J ''sds'' ''shm_write_suffix'' ''_2.0'',
       is_open_index := GetInteger J ''sds'' ''is_open_index'' 0,
       shm_id := GetInteger J ''sds'' ''shm_id'' 9901,
       listen_etcd_url := GetStr J ''sds'' ''bind_etcd_key'' []\<rparr>"

text \<open>
  The result of \<^verbatim>\<open>split\<close> is not looked at. Its third argument is the vector that is cleared
  and filled; an exception of it ends the process.
\<close>

definition set_handlers :: "'t mjson \<Rightarrow> 't linker_config \<Rightarrow> str_error + 't linker_config" where
  "set_handlers J l =
     (let handlers = GetStr J ''sds'' ''msg_handlers'' []
      in if handlers \<noteq> []
         then (case assist_split handlers '','' of Inl e \<Rightarrow> Inl e | Inr hs \<Rightarrow> Inr (l\<lparr>msg_handlers := hs\<rparr>))
         else Inr l)"

definition set_types :: "'t mjson \<Rightarrow> 't linker_config \<Rightarrow> 't linker_config" where
  "set_types J l =
     (let ins = input_types l \<union> set (snd (GetArray J ''sds'' ''input_types'' []));
          outs = output_types l \<union> set (snd (GetArray J ''sds'' ''output_types'' []))
      in l\<lparr>tcp_sub_topic := snd (GetTopics J ''sds'' ''tcp_sub_topic'' (tcp_sub_topic l)),
           input_types := (if ins = {} then {''ztp''} else ins),
           output_types := (if outs = {} then {''ztp''} else outs),
           use_hare := GetBoolean J ''sds'' ''use_hare'' False,
           hare_conf_dir := GetStr J ''sds'' ''hare_conf_dir'' []\<rparr>)"

datatype app_end = Exit int | Thrown str_error

definition exit_of :: "int + 'a \<Rightarrow> app_end + 'a" where
  "exit_of r = (case r of Inl c \<Rightarrow> Inl (Exit c) | Inr x \<Rightarrow> Inr x)"

definition parseOptions :: "'t mjson \<Rightarrow> 't config \<Rightarrow> app_end + bool \<times> 't config" where
  "parseOptions J c =
     (let c1 = set_logs J c; l1 = linker_cfg c1
      in case exit_of (case GetArrays J ''sds'' ''ztp_sub_url'' [] of
                         (True, v) \<Rightarrow> read_services v (services l1) | (False, _) \<Rightarrow> Inr (services l1)) of
           Inl e \<Rightarrow> Inl e
         | Inr sv \<Rightarrow>
             (case exit_of (case GetArrays J ''sds'' ''compress_time'' [] of
                              (True, v) \<Rightarrow> read_compress v (compress_time l1) | (False, _) \<Rightarrow> Inr (compress_time l1)) of
                Inl e \<Rightarrow> Inl e
              | Inr ct \<Rightarrow>
                  (let l2 = l1\<lparr>services := sv, compress_time := ct,
                               etcd_endpoints := add_endpoints (find_endpoints J) (etcd_endpoints l1)\<rparr>
                   in case set_handlers J (set_shm J l2) of
                        Inl e \<Rightarrow> Inl (Thrown e)
                      | Inr l3 \<Rightarrow> Inr (True, c1\<lparr>linker_cfg := set_types J l3\<rparr>))))"

text \<open>
  What is printed of a configuration: a field has its name in 22 columns, and each address of
  \<^verbatim>\<open>tcp_sub_urls\<close> is followed by a zero character.
\<close>

definition print_field :: "string \<Rightarrow> string \<Rightarrow> string" where
  "print_field f v = replicate (22 - length f) (CHR '' '') @ f @ ''  :  '' @ v @ [eol]"

definition print_vector_field :: "string \<Rightarrow> string list \<Rightarrow> string" where
  "print_vector_field f vs = f @ '':'' @ [eol] @ ''----'' @ [eol] @ concat (map (\<lambda>s. s @ [eol]) vs)"

definition print_sub_urls :: "string list list \<Rightarrow> string" where
  "print_sub_urls urls =
     '' ztp_sub_url:'' @ [eol] @
     concat (map (\<lambda>s. concat (map (\<lambda>s2. '' ['' @ s2 @ '']'' @ [CHR 0x00]) s) @ [eol]) urls)"

definition ruler :: string where "ruler = replicate 30 (CHR ''-'') @ [eol]"

definition debugPrint :: "'t config \<Rightarrow> string" where
  "debugPrint c =
     (let v = options c; v1 = linker_cfg c
      in ''configs:'' @ [eol] @ ruler @
         print_field ''log_level'' (show_int (log_level v)) @
         print_field ''log_dir'' (log_dir v) @
         print_field ''log_code'' (log_code v) @
         print_field ''agent_work_cpu_id'' (show_int (agent_work_cpu_id v1)) @
         print_field ''agent_high_perfomance'' (if agent_high_perfomance v1 then ''1'' else ''0'') @
         print_field ''shm_id'' (show_int (shm_id v1)) @
         print_field ''etcd_endpoints'' (etcd_endpoints v1) @
         print_vector_field ''listen_urls'' (listen_urls v1) @
         print_field ''shm_write_close_time'' (shm_write_close_time v1) @
         print_field ''shm_write_base_id'' (shm_write_base_id v1) @
         print_field ''shm_write_suffix'' (shm_write_suffix v1) @
         print_vector_field ''msg_handlers'' (msg_handlers v1) @
         print_sub_urls (tcp_sub_urls v1) @ ruler)"

text \<open>The program's own parser of options may be missing.\<close>

type_synonym 't option_parser = "('t mjson \<Rightarrow> base_option \<Rightarrow> bool \<times> base_option) option"

definition Load :: "(string \<Rightarrow> 't mjson) \<Rightarrow> string \<Rightarrow> 't option_parser \<Rightarrow> 't config \<Rightarrow> app_end + bool \<times> 't config" where
  "Load open_json path parser c =
     (let c0 = c\<lparr>linker_cfg := (linker_cfg c)\<lparr>config_file := path\<rparr>\<rparr>; J = open_json path
      in if ParseError J \<noteq> 0 then Inr (False, c0)
         else case parseOptions J c0 of
                Inl e \<Rightarrow> Inl e
              | Inr (False, c1) \<Rightarrow> Inr (False, c1)
              | Inr (True, c1) \<Rightarrow>
                  (case parser of
                     None \<Rightarrow> Inr (True, c1)
                   | Some p \<Rightarrow> (case p J (options c1) of (b, opts) \<Rightarrow> Inr (b, c1\<lparr>options := opts\<rparr>))))"

text \<open>What \<open>Load\<close> prints.\<close>

definition Load_output :: "(string \<Rightarrow> 't mjson) \<Rightarrow> string \<Rightarrow> 't option_parser \<Rightarrow> 't config \<Rightarrow> string" where
  "Load_output open_json path parser c =
     ''loading config file:'' @ path @ [eol] @
     (if ParseError (open_json path) \<noteq> 0 then ''Can't load '' @ path @ [eol]
      else case Load open_json path parser c of Inr (True, c1) \<Rightarrow> debugPrint c1 | _ \<Rightarrow> [])"

section \<open>The log\<close>

record logger =
  log_path :: string
  on_console :: bool
  min_level :: int
  log_pattern :: string
  log_lines :: "string list"

record 'f log_system =
  inited :: bool
  loggers :: "string \<rightharpoonup> logger"
  log_files :: 'f

definition default_pattern :: string where
  "default_pattern = ''[%Y-%m-%d %H:%M:%S.%e][thread %t][%@,%!][%l] : %v''"

text \<open>The file of a logger may not open: the library throws, and the exception is caught.\<close>

definition setup_log_system ::
  "'f dirs \<Rightarrow> (string \<Rightarrow> bool) \<Rightarrow> string \<Rightarrow> string \<Rightarrow> int \<Rightarrow> string \<Rightarrow> bool \<Rightarrow> 'f log_system \<Rightarrow> 'f log_system option" where
  "setup_log_system D opens dir filename loglevel name console s =
     (let s1 = s\<lparr>inited := True\<rparr>
      in if name \<in> dom (loggers s1) then Some s1
         else case CreateDir D dir (log_files s1) of
                None \<Rightarrow> None
              | Some (r, fs) \<Rightarrow>
                  (let s2 = s1\<lparr>log_files := fs\<rparr>; path = dir @ ''/'' @ filename @ ''.log''
                   in if r \<noteq> 0 then Some s2
                      else if \<not> opens path then Some s2
                      else Some (s2\<lparr>loggers := (loggers s2)(name \<mapsto>
                             \<lparr>log_path = path, on_console = console, min_level = loglevel, log_pattern = default_pattern, log_lines = []\<rparr>)\<rparr>)))"

definition shutdown_log_system :: "'f log_system \<Rightarrow> 'f log_system" where
  "shutdown_log_system s = s\<lparr>loggers := Map.empty\<rparr>"

text \<open>A line for a logger that is not there is dropped, as is one below the logger's level.\<close>

definition LoG :: "string \<Rightarrow> int \<Rightarrow> string \<Rightarrow> 'f log_system \<Rightarrow> 'f log_system" where
  "LoG name level line s =
     (case loggers s name of
        None \<Rightarrow> s
      | Some l \<Rightarrow> if level < min_level l then s
                  else s\<lparr>loggers := (loggers s)(name \<mapsto> l\<lparr>log_lines := log_lines l @ [line]\<rparr>)\<rparr>)"

text \<open>The log of the MySQL sample; it uses the loggers without looking whether they are there.\<close>

definition set_pattern :: "string \<Rightarrow> string \<Rightarrow> 'f log_system \<Rightarrow> 'f log_system option" where
  "set_pattern name p s =
     map_option (\<lambda>l. s\<lparr>loggers := (loggers s)(name \<mapsto> l\<lparr>log_pattern := p\<rparr>)\<rparr>) (loggers s name)"

definition SlogInit :: "'f dirs \<Rightarrow> (string \<Rightarrow> bool) \<Rightarrow> string \<Rightarrow> int \<Rightarrow> 'f log_system \<Rightarrow> 'f log_system option" where
  "SlogInit D opens dir level s =
     Option.bind (setup_log_system D opens dir ''base'' level ''base'' True s) (\<lambda>s1.
     Option.bind (set_pattern ''base'' default_pattern s1) (\<lambda>s2.
     Option.bind (setup_log_system D opens dir ''transfer_cfetsmysql'' level ''transfer_cfetsmysql'' True s2) (\<lambda>s3.
     set_pattern ''transfer_cfetsmysql'' default_pattern s3)))"

section \<open>The program\<close>

record 't app =
  app_version :: string
  app_name :: string
  app_cfg :: "'t config option"

definition AppInfos :: "string \<Rightarrow> string \<Rightarrow> base_option \<Rightarrow> 't linker_config \<Rightarrow> 't app" where
  "AppInfos name ver o0 cfg0 = \<lparr>app_version = ver, app_name = name, app_cfg = Some (new_config o0 cfg0)\<rparr>"

text \<open>
  \<open>parse_check\<close> is the command line: the parser ends the process on a bad one, and otherwise
  says whether the version is asked for and which file to read. The two outer layers of the
  result are the end of the process and undefined behaviour; a missing configuration cannot
  be followed.
\<close>

definition app_init ::
  "(string list \<Rightarrow> int + bool \<times> string) \<Rightarrow> (string \<Rightarrow> 't mjson) \<Rightarrow> 'f dirs \<Rightarrow> (string \<Rightarrow> bool) \<Rightarrow> string list \<Rightarrow>
     't option_parser \<Rightarrow> bool \<Rightarrow> 't app \<Rightarrow> 'f log_system \<Rightarrow> (app_end + int \<times> 't app \<times> 'f log_system) option" where
  "app_init parse_check open_json D opens argv parser without_config_file a s =
     (case parse_check argv of
        Inl code \<Rightarrow> Some (Inl (Exit code))
      | Inr (True, _) \<Rightarrow> Some (Inl (Exit 0))
      | Inr (False, conf) \<Rightarrow>
          (case app_cfg a of
             None \<Rightarrow> None
           | Some c0 \<Rightarrow>
               (case (if without_config_file then Inr (True, c0) else Load open_json conf parser c0) of
                  Inl e \<Rightarrow> Some (Inl e)
                | Inr (False, c) \<Rightarrow> Some (Inr (-1, a\<lparr>app_cfg := Some c\<rparr>, s))
                | Inr (True, c) \<Rightarrow>
                    (case CreateDir D (log_dir (options c)) (log_files s) of
                       None \<Rightarrow> None
                     | Some (r, fs) \<Rightarrow>
                         (if r \<noteq> 0 then Some (Inr (-2, a\<lparr>app_cfg := Some c\<rparr>, s\<lparr>log_files := fs\<rparr>))
                          else case setup_log_system D opens (log_dir (options c)) ''base'' (log_level (options c)) ''base'' False
                                      (s\<lparr>log_files := fs\<rparr>) of
                                 None \<Rightarrow> None
                               | Some s1 \<Rightarrow> Some (Inr (1, a\<lparr>app_cfg := Some c\<rparr>, s1)))))))"

text \<open>The order of the set of output types is the argument \<open>iter\<close>.\<close>

definition app_tag :: "(string set \<Rightarrow> string list) \<Rightarrow> 't app \<Rightarrow> string option" where
  "app_tag iter a =
     (case app_cfg a of
        None \<Rightarrow> None
      | Some c \<Rightarrow>
          (let l = linker_cfg c
           in Some (app_name a @ ''_'' @
                    (if 1 < length (listen_urls l) then listen_urls l ! 1 else concat (iter (output_types l))))))"

text \<open>The result, and whether the linker's service was run to its end.\<close>

definition app_run :: "('t linker_config \<Rightarrow> 'c option) \<Rightarrow> ('c \<Rightarrow> int) option \<Rightarrow> 't app \<Rightarrow> int \<times> bool" where
  "app_run init_linker_context func a =
     (case app_cfg a of
        None \<Rightarrow> (-1, False)
      | Some c \<Rightarrow>
          (case init_linker_context (linker_cfg c) of
             None \<Rightarrow> (-2, False)
           | Some ctx \<Rightarrow>
               (case func of
                  None \<Rightarrow> (0, True)
                | Some f \<Rightarrow> (if f ctx \<noteq> 0 then (f ctx, False) else (0, True)))))"

section \<open>What is read\<close>

definition service_of :: "string list \<Rightarrow> service_config" where
  "service_of i = \<lparr>service_name = i ! 0, service_url = i ! 1, service_hostkey = (if length i = 3 then i ! 2 else [])\<rparr>"

definition entries :: "'t mjson \<Rightarrow> string \<Rightarrow> string list list" where
  "entries J key = (case GetArrays J ''sds'' key [] of (True, v) \<Rightarrow> v | (False, _) \<Rightarrow> [])"

lemma read_services_eq:
  "read_services v acc = (if \<exists>i \<in> set v. length i < 2 then Inl (-1) else Inr (acc @ map service_of v))"
  by (induction v acc rule: read_services.induct) (auto simp: service_of_def)

lemma read_compress_eq:
  "read_compress v acc = (if \<exists>i \<in> set v. length i < 2 then Inl (-1)
     else Inr (acc @ map (\<lambda>i. \<lparr>time_start = c_atoi (i ! 0), time_end = c_atoi (i ! 1)\<rparr>) v))"
  by (induction v acc rule: read_compress.induct) auto

lemma add_endpoints_join: "list_all (\<lambda>e. e \<noteq> []) es \<Longrightarrow> add_endpoints es [] = join '','' es"
proof -
  have step: "acc \<noteq> [] \<Longrightarrow> add_endpoints es acc = join '','' (acc # es)" for acc es
  proof (induction es arbitrary: acc)
    case (Cons e es)
    then show ?case using Cons.IH[of "acc @ '','' @ e"] by (cases es) simp_all
  qed simp
  show "list_all (\<lambda>e. e \<noteq> []) es \<Longrightarrow> add_endpoints es [] = join '','' es"
    by (cases es) (simp_all add: step)
qed

lemma entries_cases:
  "(case GetArrays J ''sds'' key [] of (True, v) \<Rightarrow> read v acc | (False, _) \<Rightarrow> Inr acc) =
     (if fst (GetArrays J ''sds'' key []) then read (entries J key) acc else Inr acc)"
  by (auto simp: entries_def split: prod.splits bool.splits)

lemma entries_none: "\<not> fst (GetArrays J ''sds'' key []) \<Longrightarrow> entries J key = []"
  by (auto simp: entries_def split: prod.splits bool.splits)

lemma set_handlers_ok:
  assumes "length (GetStr J ''sds'' ''msg_handlers'' []) < npos"
  shows "\<exists>hs. set_handlers J l = Inr (l\<lparr>msg_handlers := hs\<rparr>)"
proof (cases "GetStr J ''sds'' ''msg_handlers'' [] = []")
  case True
  then show ?thesis by (intro exI[of _ "msg_handlers l"]) (simp add: set_handlers_def)
next
  case False
  then show ?thesis using assist_split_eq[OF assms] by (auto simp: set_handlers_def)
qed

lemma set_types_fields:
  "services (set_types J l) = services l" "compress_time (set_types J l) = compress_time l"
  "etcd_endpoints (set_types J l) = etcd_endpoints l"
  "input_types (set_types J l) \<noteq> {}" "output_types (set_types J l) \<noteq> {}"
  by (simp_all add: set_types_def Let_def)

lemma set_shm_fields:
  "services (set_shm J l) = services l" "compress_time (set_shm J l) = compress_time l"
  "etcd_endpoints (set_shm J l) = etcd_endpoints l"
  by (simp_all add: set_shm_def)

lemma set_logs_fields:
  "services (linker_cfg (set_logs J c)) = services (linker_cfg c)"
  "compress_time (linker_cfg (set_logs J c)) = compress_time (linker_cfg c)"
  "etcd_endpoints (linker_cfg (set_logs J c)) = etcd_endpoints (linker_cfg c)"
  by (simp_all add: set_logs_def)

definition short_entry :: "'t mjson \<Rightarrow> bool" where
  "short_entry J \<longleftrightarrow> (\<exists>i \<in> set (entries J ''ztp_sub_url'') \<union> set (entries J ''compress_time''). length i < 2)"

lemma parseOptions_spec:
  assumes "length (GetStr J ''sds'' ''msg_handlers'' []) < npos"
  shows "case parseOptions J c of
      Inl e \<Rightarrow> e = Exit (-1) \<and> short_entry J
    | Inr (b, c') \<Rightarrow> b \<and> \<not> short_entry J \<and>
        services (linker_cfg c') = services (linker_cfg c) @ map service_of (entries J ''ztp_sub_url'') \<and>
        etcd_endpoints (linker_cfg c') = add_endpoints (find_endpoints J) (etcd_endpoints (linker_cfg c)) \<and>
        input_types (linker_cfg c') \<noteq> {} \<and> output_types (linker_cfg c') \<noteq> {}"
proof -
  define l1 where "l1 = linker_cfg (set_logs J c)"
  have l1: "services l1 = services (linker_cfg c)" "etcd_endpoints l1 = etcd_endpoints (linker_cfg c)"
    by (simp_all add: l1_def set_logs_fields)
  have sv: "(case GetArrays J ''sds'' ''ztp_sub_url'' [] of (True, v) \<Rightarrow> read_services v (services l1) | (False, _) \<Rightarrow> Inr (services l1)) =
      (if \<exists>i \<in> set (entries J ''ztp_sub_url''). length i < 2 then Inl (-1)
       else Inr (services l1 @ map service_of (entries J ''ztp_sub_url'')))"
    using entries_none[of J "''ztp_sub_url''"] by (auto simp: entries_cases read_services_eq)
  have ct: "\<exists>ct. (case GetArrays J ''sds'' ''compress_time'' [] of (True, v) \<Rightarrow> read_compress v (compress_time l1) | (False, _) \<Rightarrow> Inr (compress_time l1)) =
      (if \<exists>i \<in> set (entries J ''compress_time''). length i < 2 then Inl (-1) else Inr ct)"
    using entries_none[of J "''compress_time''"] by (auto simp: entries_cases read_compress_eq)
  then obtain ct where ct: "(case GetArrays J ''sds'' ''compress_time'' [] of (True, v) \<Rightarrow> read_compress v (compress_time l1) | (False, _) \<Rightarrow> Inr (compress_time l1)) =
      (if \<exists>i \<in> set (entries J ''compress_time''). length i < 2 then Inl (-1) else Inr ct)" by blast
  obtain hs where hs: "\<And>l. set_handlers J l = Inr (l\<lparr>msg_handlers := hs l\<rparr>)"
    using set_handlers_ok[OF assms] by metis
  show ?thesis
  proof (cases "short_entry J")
    case True
    then show ?thesis
      unfolding parseOptions_def Let_def l1_def[symmetric] sv ct hs by (auto simp: exit_of_def short_entry_def)
  next
    case False
    then have n: "\<not> (\<exists>i \<in> set (entries J ''ztp_sub_url''). length i < 2)" "\<not> (\<exists>i \<in> set (entries J ''compress_time''). length i < 2)"
      by (auto simp: short_entry_def)
    show ?thesis
      unfolding parseOptions_def Let_def l1_def[symmetric] sv ct hs if_not_P[OF n(1)] if_not_P[OF n(2)]
      by (simp add: exit_of_def set_types_fields set_shm_fields l1 False)
  qed
qed


definition sample_json :: "unit mjson" where
  "sample_json = \<lparr>ParseError = 0, GetStr = \<lambda>_ _ d. d, GetInteger = \<lambda>_ _ d. d, GetBoolean = \<lambda>_ _ d. d,
     GetArray = \<lambda>sec key old. if sec = ''etcd'' then (True, [''h1:1'', ''h2:2'']) else (False, old),
     GetArrays = \<lambda>sec key old. if key = ''ztp_sub_url'' then (True, [[''l2'', ''tcp://h:1'']]) else (False, old),
     GetTopics = \<lambda>_ _ old. (False, old)\<rparr>"

definition empty_linker :: "unit linker_config" where
  "empty_linker = \<lparr>config_file = [], agent_work_cpu_id = 0, agent_high_perfomance = False, listen_urls = [], tcp_sub_urls = [], services = [],
     compress_time = [], etcd_endpoints = [], shm_write_close_time = [], shm_write_base_id = [], shm_write_suffix = [],
     is_open_index = 0, shm_id = 0, listen_etcd_url = [], msg_handlers = [], tcp_sub_topic = (), input_types = {},
     output_types = {}, use_hare = False, hare_conf_dir = []\<rparr>"


text \<open>Services are added to the ones of an earlier load.\<close>

lemma loading_twice_doubles_services:
  assumes "length (GetStr J ''sds'' ''msg_handlers'' []) < npos" "parseOptions J c = Inr (b, c1)" "parseOptions J c1 = Inr (b2, c2)"
  shows "services (linker_cfg c2) =
    services (linker_cfg c) @ map service_of (entries J ''ztp_sub_url'') @ map service_of (entries J ''ztp_sub_url'')"
  using parseOptions_spec[OF assms(1), of c] parseOptions_spec[OF assms(1), of c1] assms(2,3) by simp

text \<open>
  The subscriptions are entered as services; the field that is printed as \<^verbatim>\<open>ztp_sub_url\<close> stays as
  it was.
\<close>

lemma parseOptions_sub_urls:
  assumes "parseOptions J c = Inr (b, c')" shows "tcp_sub_urls (linker_cfg c') = tcp_sub_urls (linker_cfg c)"
proof -
  have h: "tcp_sub_urls l' = tcp_sub_urls l" if "set_handlers J l = Inr l'" for l l'
    using that by (auto simp: set_handlers_def Let_def split: if_splits sum.splits)
  have t: "tcp_sub_urls (set_types J l) = tcp_sub_urls l" "tcp_sub_urls (set_shm J l) = tcp_sub_urls l" for l
    by (simp_all add: set_types_def set_shm_def Let_def)
  obtain sv ct l3 where "set_handlers J (set_shm J ((linker_cfg (set_logs J c))\<lparr>services := sv, compress_time := ct,
      etcd_endpoints := add_endpoints (find_endpoints J) (etcd_endpoints (linker_cfg (set_logs J c)))\<rparr>)) = Inr l3"
    "c' = (set_logs J c)\<lparr>linker_cfg := set_types J l3\<rparr>"
    using assms unfolding parseOptions_def Let_def by (auto split: sum.splits)
  from h[OF this(1)] this(2) show ?thesis by (simp add: t) (simp add: set_logs_def)
qed

lemma Load_keeps_sub_urls:
  assumes "Load open_json path parser c = Inr (b, c')" shows "tcp_sub_urls (linker_cfg c') = tcp_sub_urls (linker_cfg c)"
proof -
  define c0 where "c0 = c\<lparr>linker_cfg := (linker_cfg c)\<lparr>config_file := path\<rparr>\<rparr>"
  consider "c' = c0" | b1 c1 where "parseOptions (open_json path) c0 = Inr (b1, c1)" "linker_cfg c' = linker_cfg c1"
    using assms unfolding Load_def Let_def c0_def[symmetric]
    by (auto split: if_splits sum.splits prod.splits bool.splits option.splits)
  then show ?thesis by cases (auto simp: c0_def dest: parseOptions_sub_urls)
qed

section \<open>Starting the program\<close>

lemma CreateDir_makes:
  assumes "dirs_ok D" "CreateDir D dir fs = Some (0, fs')" "last dir \<noteq> CHR ''/''"
  shows "accessible D dir fs'"
  using CreateDir_spec[OF assms(1), of dir fs] assms(2,3) by simp

text \<open>A directory that is there is not made again.\<close>

lemma create_loop_exists:
  "\<forall>i \<in> set is. 0 < i \<and> path ! i = CHR ''/'' \<longrightarrow> accessible D (take i path) fs \<Longrightarrow> create_loop D path is fs = (0, fs)"
  by (induction "is") (auto simp: ensure_dir_def)

lemma setup_adds_logger:
  assumes "setup_log_system D opens dir fn lvl name console s = Some s'" "CreateDir D dir (log_files s) = Some (0, fs)"
    "opens (dir @ ''/'' @ fn @ ''.log'')"
  shows "name \<in> dom (loggers s')"
  using assms by (auto simp: setup_log_system_def Let_def split: if_splits)

lemma setup_again_changes_nothing:
  "name \<in> dom (loggers s) \<Longrightarrow> inited s \<Longrightarrow> setup_log_system D opens dir fn lvl name console s = Some s"
  by (simp add: setup_log_system_def)

lemma dropped_without_logger: "name \<notin> dom (loggers s) \<Longrightarrow> LoG name lvl line s = s"
  by (auto simp: LoG_def split: option.splits)

text \<open>Without a directory for the log the sample's set-up uses a logger that is not there.\<close>

lemma SlogInit_without_directory:
  assumes "loggers s ''base'' = None" "CreateDir D dir (log_files s) = Some (-1, fs)"
  shows "SlogInit D opens dir level s = None"
  using assms by (auto simp: SlogInit_def setup_log_system_def set_pattern_def domIff Let_def)

lemma setup_accessible:
  assumes "dirs_ok D" "setup_log_system D opens dir fn lvl name console s = Some s'" "accessible D q (log_files s)"
  shows "accessible D q (log_files s')"
proof -
  have "accessible D q fs" if "CreateDir D dir (log_files s) = Some (r, fs)" for r fs
  proof -
    define p where "p = (if last dir \<noteq> CHR ''/'' then dir @ ''/'' else dir)"
    have "create_loop D p [0..<length p] (log_files s) = (r, fs)"
      using that by (auto simp: CreateDir_def p_def Let_def split: if_splits)
    from create_loop_spec[OF assms(1) this] show ?thesis using assms(3) by blast
  qed
  then show ?thesis
    using assms(2,3) by (auto simp: setup_log_system_def Let_def split: if_splits option.splits)
qed

text \<open>
  A start that does not end the process returns 1, -1 or -2, never 0. It returns 1 only with
  the directory of the log there, and then the logger is registered exactly when it was before or
  its file can be opened.
\<close>

theorem app_init_spec:
  assumes "dirs_ok D" "app_init parse_check open_json D opens argv parser without_config a s = Some (Inr (r, a', s'))"
    "app_cfg a' = Some c" "last (log_dir (options c)) \<noteq> CHR ''/''"
  shows "r \<in> {1, -1, -2} \<and> (r = 1 \<longrightarrow> accessible D (log_dir (options c)) (log_files s') \<and>
    (''base'' \<in> dom (loggers s') \<longleftrightarrow> ''base'' \<in> dom (loggers s) \<or> opens (log_dir (options c) @ ''/base.log'')))"
proof -
  have "r = 1 \<or> r = -1 \<or> r = -2"
    using assms(2) by (auto simp: app_init_def split: sum.splits prod.splits bool.splits option.splits if_splits)
  moreover have "accessible D (log_dir (options c)) (log_files s') \<and>
      (''base'' \<in> dom (loggers s') \<longleftrightarrow> ''base'' \<in> dom (loggers s) \<or> opens (log_dir (options c) @ ''/base.log''))" if one: "r = 1"
  proof -
    obtain fs where cd: "CreateDir D (log_dir (options c)) (log_files s) = Some (0, fs)"
      and su: "setup_log_system D opens (log_dir (options c)) ''base'' (log_level (options c)) ''base'' False (s\<lparr>log_files := fs\<rparr>) = Some s'"
      using assms(2,3) one by (auto simp: app_init_def split: sum.splits prod.splits bool.splits option.splits if_splits)
    have acc: "accessible D (log_dir (options c)) fs" by (rule CreateDir_makes[OF assms(1) cd assms(4)])
    then have "accessible D (log_dir (options c)) (log_files s')"
      using setup_accessible[OF assms(1) su, of "log_dir (options c)"] by simp
    moreover have "\<exists>fs2. CreateDir D (log_dir (options c)) fs = Some (0, fs2)"
    proof -
      define p where "p = log_dir (options c) @ ''/''"
      have p: "CreateDir D (log_dir (options c)) g =
          Some (create_loop D p [0..<length p] g)" for g
        using cd assms(4) by (auto simp: CreateDir_def p_def Let_def split: if_splits)
      have "create_loop D p [0..<length p] fs = (0, fs)"
        using create_loop_spec[OF assms(1), of p "[0..<length p]" "log_files s" 0 fs] cd p by (intro create_loop_exists) auto
      then show ?thesis using p by simp
    qed
    then obtain fs2 where cd2: "CreateDir D (log_dir (options c)) fs = Some (0, fs2)" by blast
    ultimately show ?thesis
      using su cd2 by (auto simp: setup_log_system_def Let_def split: if_splits)
  qed
  ultimately show ?thesis by blast
qed

theorem app_init_spec_witness:
  "\<exists>a s. app_init (\<lambda>_. Inr (False, ''c.json'')) (\<lambda>_. sample_json) \<lparr>accessible = \<lambda>p fs. p \<in> fs, make_dir = \<lambda>p fs. (True, insert p fs)\<rparr>
     (\<lambda>_. True) [] None False (AppInfos ''l1'' ''1.0'' \<lparr>log_level = 0, log_dir = [], log_code = []\<rparr> empty_linker)
     \<lparr>inited = False, loggers = Map.empty, log_files = {}\<rparr> = Some (Inr (1, a, s)) \<and> ''base'' \<in> dom (loggers s)"
proof -
  let ?D = "\<lparr>accessible = \<lambda>p fs. p \<in> fs, make_dir = \<lambda>p fs. (True, insert p fs)\<rparr> :: string set dirs"
  have D: "dirs_ok ?D" by (simp add: dirs_ok_def)
  have "\<exists>a s c. app_init (\<lambda>_. Inr (False, ''c.json'')) (\<lambda>_. sample_json) ?D (\<lambda>_. True) [] None False
      (AppInfos ''l1'' ''1.0'' \<lparr>log_level = 0, log_dir = [], log_code = []\<rparr> empty_linker)
      \<lparr>inited = False, loggers = Map.empty, log_files = {}\<rparr> = Some (Inr (1, a, s)) \<and>
      app_cfg a = Some c \<and> log_dir (options c) = ''./top''"
    by (simp add: app_init_def AppInfos_def Load_def parseOptions_def set_logs_def sample_json_def empty_linker_def new_config_def
        exit_of_def service_of_def find_endpoints_def set_handlers_def set_shm_def set_types_def CreateDir_def ensure_dir_def
        setup_log_system_def Let_def upt_rec)
  then obtain a st c where r: "app_init (\<lambda>_. Inr (False, ''c.json'')) (\<lambda>_. sample_json) ?D (\<lambda>_. True) [] None False
      (AppInfos ''l1'' ''1.0'' \<lparr>log_level = 0, log_dir = [], log_code = []\<rparr> empty_linker)
      \<lparr>inited = False, loggers = Map.empty, log_files = {}\<rparr> = Some (Inr (1, a, st))"
    and c: "app_cfg a = Some c" "log_dir (options c) = ''./top''" by blast
  from app_init_spec[OF D r c(1)] c(2) r show ?thesis by auto
qed

end
