(* ===== verification/Cmdline.thy ===== *)
theory Cmdline
  imports Util "HOL-Library.Char_ord" "HOL-Library.List_Lexorder"
begin

text \<open>
  The command-line parser of \<^verbatim>\<open>src/include/cmdline.h\<close>: options with and without a value, the
  readers of values, the splitting of one string into arguments, parsing, and the messages.

  The type parameter is that of the values of all options together. A reader gives \<open>None\<close> when
  it throws. \<^verbatim>\<open>std::map\<close> is the list of its entries in the order of the keys; an argument is a C
  string, and a missing short name is the character 0. Ending the process is the left value of
  the sum, and a call of an empty array's \<^verbatim>\<open>operator[]\<close> is \<open>None\<close>.
\<close>

section \<open>Values and options\<close>

datatype cmdline_error = No_flag string | Type_mismatch string | Multiple_definition string

fun what :: "cmdline_error \<Rightarrow> string" where
  "what (No_flag n) = ''there is no flag: --'' @ n"
| "what (Type_mismatch n) = ''type mismatch flag '' @ [CHR 0x27] @ n @ [CHR 0x27]"
| "what (Multiple_definition n) = ''multiple definition: '' @ n"

text \<open>\<^verbatim>\<open>lexical_cast\<close> to an \<^verbatim>\<open>int\<close> has to read the whole string; to a string it is the identity.\<close>

definition lexical_cast_int :: "string \<Rightarrow> int option" where
  "lexical_cast_int arg = (case read_int32 arg of Some (v, []) \<Rightarrow> Some v | _ \<Rightarrow> None)"

definition lexical_cast_string :: "string \<Rightarrow> string option" where
  "lexical_cast_string arg = Some arg"

definition range_reader :: "(string \<Rightarrow> ('v :: linorder) option) \<Rightarrow> 'v \<Rightarrow> 'v \<Rightarrow> string \<Rightarrow> 'v option" where
  "range_reader rd low high s =
     (case rd s of None \<Rightarrow> None | Some v \<Rightarrow> if \<not> (low \<le> v \<and> v \<le> high) then None else Some v)"

definition oneof_reader :: "(string \<Rightarrow> 'v option) \<Rightarrow> 'v list \<Rightarrow> string \<Rightarrow> 'v option" where
  "oneof_reader rd alt s = (case rd s of None \<Rightarrow> None | Some v \<Rightarrow> if v \<notin> set alt then None else Some v)"

record 'v valued =
  v_need :: bool
  v_type :: string
  v_read :: "string \<Rightarrow> 'v option"
  v_def :: 'v
  v_actual :: 'v

record 'v cmd_option =
  nam :: string
  snam :: char
  desc :: string
  has :: bool
  val_part :: "'v valued option"

definition option_without_value :: "string \<Rightarrow> char \<Rightarrow> string \<Rightarrow> 'v cmd_option" where
  "option_without_value n c d = \<lparr>nam = n, snam = c, desc = d, has = False, val_part = None\<rparr>"

text \<open>\<open>shown\<close> is the default value as text.\<close>

definition full_description :: "string \<Rightarrow> bool \<Rightarrow> string \<Rightarrow> string \<Rightarrow> string" where
  "full_description typ need shown d = d @ '' ('' @ typ @ (if need then [] else '' [='' @ shown @ '']'') @ '')''"

definition option_with_value ::
  "string \<Rightarrow> char \<Rightarrow> bool \<Rightarrow> 'v \<Rightarrow> string \<Rightarrow> string \<Rightarrow> string \<Rightarrow> (string \<Rightarrow> 'v option) \<Rightarrow> 'v cmd_option" where
  "option_with_value n c need df shown d typ rd =
     \<lparr>nam = n, snam = c, desc = full_description typ need shown d, has = False,
      val_part = Some \<lparr>v_need = need, v_type = typ, v_read = rd, v_def = df, v_actual = df\<rparr>\<rparr>"

definition has_value :: "'v cmd_option \<Rightarrow> bool" where "has_value opt \<longleftrightarrow> val_part opt \<noteq> None"

definition opt_valid :: "'v cmd_option \<Rightarrow> bool" where
  "opt_valid opt = (case val_part opt of None \<Rightarrow> True | Some v \<Rightarrow> \<not> (v_need v \<and> \<not> has opt))"

definition opt_must :: "'v cmd_option \<Rightarrow> bool" where
  "opt_must opt = (case val_part opt of None \<Rightarrow> False | Some v \<Rightarrow> v_need v)"

text \<open>\<^verbatim>\<open>set\<close> without and with a value; \<open>None\<close> is the result false.\<close>

definition opt_set :: "'v cmd_option \<Rightarrow> 'v cmd_option option" where
  "opt_set opt = (case val_part opt of None \<Rightarrow> Some (opt\<lparr>has := True\<rparr>) | Some v \<Rightarrow> None)"

definition opt_set_value :: "string \<Rightarrow> 'v cmd_option \<Rightarrow> 'v cmd_option option" where
  "opt_set_value value opt =
     (case val_part opt of
        None \<Rightarrow> None
      | Some v \<Rightarrow>
          (case v_read v value of
             None \<Rightarrow> None
           | Some a \<Rightarrow> Some (opt\<lparr>has := True, val_part := Some (v\<lparr>v_actual := a\<rparr>)\<rparr>)))"

definition short_description :: "'v cmd_option \<Rightarrow> string" where
  "short_description opt =
     (case val_part opt of None \<Rightarrow> ''--'' @ nam opt | Some v \<Rightarrow> ''--'' @ nam opt @ ''='' @ v_type v)"

section \<open>The parser\<close>

record 'v cmd_parser =
  opts :: "(string \<times> 'v cmd_option) list"
  ordered :: "string list"
  ftr :: string
  prog_name :: string
  others :: "string list"
  errors :: "string list"

definition new_parser :: "'v cmd_parser" where
  "new_parser = \<lparr>opts = [], ordered = [], ftr = [], prog_name = [], others = [], errors = []\<rparr>"

definition find_opt :: "string \<Rightarrow> 'v cmd_parser \<Rightarrow> 'v cmd_option option" where
  "find_opt n p = map_of (opts p) n"

definition put_opt :: "string \<Rightarrow> 'v cmd_option \<Rightarrow> 'v cmd_parser \<Rightarrow> 'v cmd_parser" where
  "put_opt n opt p = p\<lparr>opts := map (\<lambda>(k, q). if k = n then (k, opt) else (k, q)) (opts p)\<rparr>"

definition add_error :: "string \<Rightarrow> 'v cmd_parser \<Rightarrow> 'v cmd_parser" where
  "add_error e p = p\<lparr>errors := errors p @ [e]\<rparr>"

definition add_opt :: "'v cmd_option \<Rightarrow> 'v cmd_parser \<Rightarrow> cmdline_error + 'v cmd_parser" where
  "add_opt opt p =
     (if find_opt (nam opt) p \<noteq> None then Inl (Multiple_definition (nam opt))
      else Inr (p\<lparr>opts := insort_key fst (nam opt, opt) (opts p), ordered := ordered p @ [nam opt]\<rparr>))"

definition footer :: "string \<Rightarrow> 'v cmd_parser \<Rightarrow> 'v cmd_parser" where
  "footer f p = p\<lparr>ftr := f\<rparr>"

definition set_program_name :: "string \<Rightarrow> 'v cmd_parser \<Rightarrow> 'v cmd_parser" where
  "set_program_name n p = p\<lparr>prog_name := n\<rparr>"

definition opt_exist :: "string \<Rightarrow> 'v cmd_parser \<Rightarrow> cmdline_error + bool" where
  "opt_exist n p = (case find_opt n p of None \<Rightarrow> Inl (No_flag n) | Some opt \<Rightarrow> Inr (has opt))"

text \<open>The type a value is asked for is given by its name.\<close>

definition opt_get :: "string \<Rightarrow> string \<Rightarrow> 'v cmd_parser \<Rightarrow> cmdline_error + 'v" where
  "opt_get typ n p =
     (case find_opt n p of
        None \<Rightarrow> Inl (No_flag n)
      | Some opt \<Rightarrow>
          (case val_part opt of
             None \<Rightarrow> Inl (Type_mismatch n)
           | Some v \<Rightarrow> if v_type v \<noteq> typ then Inl (Type_mismatch n) else Inr (v_actual v)))"

definition set_option :: "string \<Rightarrow> 'v cmd_parser \<Rightarrow> 'v cmd_parser" where
  "set_option n p =
     (case find_opt n p of
        None \<Rightarrow> add_error (''undefined option: --'' @ n) p
      | Some opt \<Rightarrow>
          (case opt_set opt of
             None \<Rightarrow> add_error (''option needs value: --'' @ n) p
           | Some opt' \<Rightarrow> put_opt n opt' p))"

definition set_option_value :: "string \<Rightarrow> string \<Rightarrow> 'v cmd_parser \<Rightarrow> 'v cmd_parser" where
  "set_option_value n value p =
     (case find_opt n p of
        None \<Rightarrow> add_error (''undefined option: --'' @ n) p
      | Some opt \<Rightarrow>
          (case opt_set_value value opt of
             None \<Rightarrow> add_error (''option value is invalid: --'' @ n @ ''='' @ value) p
           | Some opt' \<Rightarrow> put_opt n opt' p))"

section \<open>Splitting a string into arguments\<close>

fun split_args :: "string \<Rightarrow> bool \<Rightarrow> string \<Rightarrow> string list \<Rightarrow> string + string list" where
  "split_args [] in_quote buf args =
     (if in_quote then Inl ''quote is not closed'' else Inr (if 0 < length buf then args @ [buf] else args))"
| "split_args (c # cs) in_quote buf args =
     (if c = CHR 0x22 then split_args cs (\<not> in_quote) buf args
      else if c = CHR '' '' \<and> \<not> in_quote then split_args cs in_quote [] (args @ [buf])
      else if c = CHR 0x5C
      then (case cs of
              [] \<Rightarrow> Inl (''unexpected occurrence of '' @ [CHR 0x27, CHR 0x5C, CHR 0x27] @ '' at end of string'')
            | d # ds \<Rightarrow> split_args ds in_quote (buf @ [d]) args)
      else split_args cs in_quote (buf @ [c]) args)"

section \<open>Parsing\<close>

text \<open>The short names; \<open>Inl\<close> is the one that is used twice.\<close>

fun short_names :: "(string \<times> 'v cmd_option) list \<Rightarrow> (char \<rightharpoonup> string) \<Rightarrow> char + (char \<rightharpoonup> string)" where
  "short_names [] lookup = Inr lookup"
| "short_names ((n, opt) # os) lookup =
     (if length n = 0 then short_names os lookup
      else if snam opt \<noteq> CHR 0x00
      then (if lookup (snam opt) \<noteq> None then Inl (snam opt) else short_names os (lookup(snam opt \<mapsto> n)))
      else short_names os lookup)"

definition short_flag :: "(char \<rightharpoonup> string) \<Rightarrow> char \<Rightarrow> 'v cmd_parser \<Rightarrow> 'v cmd_parser" where
  "short_flag lookup c p =
     (case lookup c of
        None \<Rightarrow> add_error (''undefined short option: -'' @ [c]) p
      | Some n \<Rightarrow> if n = [] then add_error (''ambiguous short option: -'' @ [c]) p else set_option n p)"

text \<open>
  One turn of the loop over the arguments: the argument and those after it; the result is what is
  left of them, without the next one when it was taken as a value.
\<close>

definition parse_long :: "string \<Rightarrow> string list \<Rightarrow> 'v cmd_parser \<Rightarrow> string list \<times> 'v cmd_parser" where
  "parse_long r as p =
     (let n = takeWhile (\<lambda>c. c \<noteq> CHR ''='') r
      in if CHR ''='' \<in> set r then (as, set_option_value n (drop (Suc (length n)) r) p)
         else case find_opt r p of
                None \<Rightarrow> (as, add_error (''undefined option: --'' @ r) p)
              | Some opt \<Rightarrow>
                  (if has_value opt
                   then (case as of
                           [] \<Rightarrow> (as, add_error (''option needs value: --'' @ r) p)
                         | v # as' \<Rightarrow> (as', set_option_value r v p))
                   else (as, set_option r p)))"

definition parse_last_short :: "(char \<rightharpoonup> string) \<Rightarrow> char \<Rightarrow> string list \<Rightarrow> 'v cmd_parser \<Rightarrow> string list \<times> 'v cmd_parser" where
  "parse_last_short lookup c as p =
     (case lookup c of
        None \<Rightarrow> (as, add_error (''undefined short option: -'' @ [c]) p)
      | Some n \<Rightarrow>
          (if n = [] then (as, add_error (''ambiguous short option: -'' @ [c]) p)
           else case as of
                  [] \<Rightarrow> (as, set_option n p)
                | v # as' \<Rightarrow>
                    (if (case find_opt n p of None \<Rightarrow> False | Some opt \<Rightarrow> has_value opt)
                     then (as', set_option_value n v p) else (as, set_option n p))))"

definition parse_one :: "(char \<rightharpoonup> string) \<Rightarrow> string \<Rightarrow> string list \<Rightarrow> 'v cmd_parser \<Rightarrow> string list \<times> 'v cmd_parser" where
  "parse_one lookup a as p =
     (if take 2 a = ''--'' then parse_long (drop 2 a) as p
      else if take 1 a = ''-''
      then (if length a = 1 then (as, p)
            else parse_last_short lookup (last a) as (fold (short_flag lookup) (butlast (tl a)) p))
      else (as, p\<lparr>others := others p @ [a]\<rparr>))"

lemma parse_one_less: "length (fst (parse_one lookup a as p)) \<le> length as"
  by (auto simp: parse_one_def parse_long_def parse_last_short_def Let_def split: if_splits option.splits list.splits)

function parse_args :: "(char \<rightharpoonup> string) \<Rightarrow> string list \<Rightarrow> 'v cmd_parser \<Rightarrow> 'v cmd_parser" where
  "parse_args lookup [] p = p"
| "parse_args lookup (a # as) p = (case parse_one lookup a as p of (as', p') \<Rightarrow> parse_args lookup as' p')"
  by pat_completeness auto
termination
  by (relation "measure (\<lambda>(lookup, as, p). length as)") (auto simp: less_Suc_eq_le parse_one_less split_beta)

definition need_errors :: "'v cmd_parser \<Rightarrow> 'v cmd_parser" where
  "need_errors p = fold (\<lambda>(n, opt) p. if opt_valid opt then p else add_error (''need option: --'' @ n) p) (opts p) p"

definition parse_argv :: "string list \<Rightarrow> 'v cmd_parser \<Rightarrow> bool \<times> 'v cmd_parser" where
  "parse_argv argv p =
     (let p0 = p\<lparr>errors := [], others := []\<rparr>
      in case argv of
           [] \<Rightarrow> (False, add_error ''argument number must be longer than 0'' p0)
         | a0 # as \<Rightarrow>
             (let p1 = (if prog_name p0 = [] then p0\<lparr>prog_name := a0\<rparr> else p0)
              in case short_names (opts p1) Map.empty of
                   Inl c \<Rightarrow> (False, add_error (''short option '' @ [CHR 0x27, c, CHR 0x27] @ '' is ambiguous'') p1)
                 | Inr lookup \<Rightarrow>
                     (let p2 = need_errors (parse_args lookup as p1) in (errors p2 = [], p2))))"

text \<open>The arguments are handed on as C strings.\<close>

definition parse_vector :: "string list \<Rightarrow> 'v cmd_parser \<Rightarrow> (bool \<times> 'v cmd_parser) option" where
  "parse_vector args p = (if args = [] then None else Some (parse_argv (map (takeWhile (\<lambda>c. c \<noteq> CHR 0x00)) args) p))"

definition parse_string :: "string \<Rightarrow> 'v cmd_parser \<Rightarrow> (bool \<times> 'v cmd_parser) option" where
  "parse_string arg p =
     (case split_args arg False [] [] of
        Inl e \<Rightarrow> Some (False, add_error e p)
      | Inr args \<Rightarrow> parse_vector args p)"

section \<open>Messages and the end of the process\<close>

definition error_msg :: "'v cmd_parser \<Rightarrow> string" where
  "error_msg p = (if 0 < length (errors p) then errors p ! 0 else [])"

definition error_full :: "'v cmd_parser \<Rightarrow> string" where
  "error_full p = concat (map (\<lambda>e. e @ [eol]) (errors p))"

definition usage :: "'v cmd_parser \<Rightarrow> string" where
  "usage p =
     (let os = List.map_filter (\<lambda>n. find_opt n p) (ordered p);
          width = foldl (\<lambda>m opt. max m (length (nam opt))) 0 os
      in ''usage: '' @ prog_name p @ '' '' @
         concat (map (\<lambda>opt. if opt_must opt then short_description opt @ '' '' else []) os) @
         ''[options] ... '' @ ftr p @ [eol] @ ''options:'' @ [eol] @
         concat (map (\<lambda>opt.
           (if snam opt \<noteq> CHR 0x00 then ''  -'' @ [snam opt] @ '', '' else ''      '') @
           ''--'' @ nam opt @ replicate (width + 4 - length (nam opt)) (CHR '' '') @ desc opt @ [eol]) os))"

definition check :: "nat \<Rightarrow> bool \<Rightarrow> 'v cmd_parser \<Rightarrow> int + 'v cmd_parser" where
  "check argc ok p =
     (if argc = 1 \<and> \<not> ok \<or> opt_exist ''help'' p = Inr True then Inl 0
      else if \<not> ok then Inl 1 else Inr p)"

definition with_help :: "'v cmd_parser \<Rightarrow> 'v cmd_parser" where
  "with_help p =
     (if find_opt ''help'' p = None
      then (case add_opt (option_without_value ''help'' (CHR ''?'') ''print this message'') p of Inl e \<Rightarrow> p | Inr p1 \<Rightarrow> p1)
      else p)"

definition parse_check :: "string list \<Rightarrow> 'v cmd_parser \<Rightarrow> int + 'v cmd_parser" where
  "parse_check argv p = (case parse_argv argv (with_help p) of (ok, p1) \<Rightarrow> check (length argv) ok p1)"

definition parse_check_vector :: "string list \<Rightarrow> 'v cmd_parser \<Rightarrow> (int + 'v cmd_parser) option" where
  "parse_check_vector args p =
     map_option (\<lambda>(ok, p1). check (length args) ok p1) (parse_vector args (with_help p))"

definition parse_check_string :: "string \<Rightarrow> 'v cmd_parser \<Rightarrow> (int + 'v cmd_parser) option" where
  "parse_check_string arg p = map_option (\<lambda>(ok, p1). check 0 ok p1) (parse_string arg (with_help p))"

section \<open>Well-formed parsers\<close>

text \<open>The entries are in order, under their own names, and each of them was added once.\<close>

definition parser_ok :: "'v cmd_parser \<Rightarrow> bool" where
  "parser_ok p \<longleftrightarrow> sorted (map fst (opts p)) \<and> distinct (map fst (opts p)) \<and>
     list_all (\<lambda>(n, opt). nam opt = n) (opts p) \<and> distinct (ordered p) \<and> set (ordered p) = fst ` set (opts p)"

lemma find_put: "find_opt m (put_opt n opt p) = (if m = n \<and> find_opt n p \<noteq> None then Some opt else find_opt m p)"
proof -
  have "map_of (map (\<lambda>(k, q). if k = n then (k, opt) else (k, q)) xs) m =
      (if m = n \<and> map_of xs n \<noteq> None then Some opt else map_of xs m)" for xs
    by (induction xs) auto
  then show ?thesis by (simp add: find_opt_def put_opt_def)
qed

lemma put_opt_fields [simp]:
  "map fst (opts (put_opt n opt p)) = map fst (opts p)" "ordered (put_opt n opt p) = ordered p"
  "errors (put_opt n opt p) = errors p" "others (put_opt n opt p) = others p" "prog_name (put_opt n opt p) = prog_name p"
  by (auto simp: put_opt_def)

lemma add_error_fields [simp]:
  "opts (add_error e p) = opts p" "ordered (add_error e p) = ordered p" "others (add_error e p) = others p"
  "errors (add_error e p) = errors p @ [e]" "find_opt n (add_error e p) = find_opt n p"
  by (simp_all add: add_error_def find_opt_def)

lemma parser_ok_put: "parser_ok p \<Longrightarrow> nam opt = n \<Longrightarrow> parser_ok (put_opt n opt p)"
proof -
  assume ok: "parser_ok p" and n: "nam opt = n"
  have "list_all (\<lambda>(n, opt). nam opt = n) (opts (put_opt n opt p))"
    using ok n by (auto simp: parser_ok_def put_opt_def list_all_iff split: if_splits)
  moreover have "fst ` set (opts (put_opt n opt p)) = fst ` set (opts p)"
    using put_opt_fields(1)[of n opt p] by (metis list.set_map)
  ultimately show ?thesis using ok by (simp add: parser_ok_def)
qed

lemma parser_ok_find: "parser_ok p \<Longrightarrow> find_opt n p = Some opt \<Longrightarrow> nam opt = n"
  by (auto simp: parser_ok_def find_opt_def list_all_iff dest: map_of_SomeD)

lemma parser_ok_error: "parser_ok p \<Longrightarrow> parser_ok (add_error e p)"
  by (simp add: parser_ok_def)

lemma opt_set_nam: "opt_set opt = Some opt' \<Longrightarrow> nam opt' = nam opt" "opt_set_value v opt = Some opt' \<Longrightarrow> nam opt' = nam opt"
  by (auto simp: opt_set_def opt_set_value_def split: option.splits)

lemma parser_ok_set: "parser_ok p \<Longrightarrow> parser_ok (set_option n p)" "parser_ok p \<Longrightarrow> parser_ok (set_option_value n v p)"
  using parser_ok_find[of p n]
  by (auto simp: set_option_def set_option_value_def parser_ok_error opt_set_nam split: option.splits intro!: parser_ok_put)

lemma parser_ok_short: "parser_ok p \<Longrightarrow> parser_ok (short_flag lookup c p)"
  by (simp add: short_flag_def parser_ok_error parser_ok_set split: option.splits)

lemma parser_ok_shorts: "parser_ok p \<Longrightarrow> parser_ok (fold (short_flag lookup) cs p)"
  by (induction cs arbitrary: p) (simp_all add: parser_ok_short)

lemma parser_ok_others: "parser_ok p \<Longrightarrow> parser_ok (p\<lparr>others := os\<rparr>)"
  by (simp add: parser_ok_def)

lemma parser_ok_one: "parser_ok p \<Longrightarrow> parser_ok (snd (parse_one lookup a as p))"
  by (auto simp: parse_one_def parse_long_def parse_last_short_def Let_def parser_ok_set parser_ok_error parser_ok_shorts
      parser_ok_others split: option.splits list.splits)

lemma parser_ok_args: "parser_ok p \<Longrightarrow> parser_ok (parse_args lookup as p)"
proof (induction lookup as p rule: parse_args.induct)
  case (2 lookup a as p)
  then show ?case using parser_ok_one[of p lookup a as] by (cases "parse_one lookup a as p") simp
qed simp

lemma parser_ok_need: "parser_ok p \<Longrightarrow> parser_ok (need_errors p)"
proof -
  have "parser_ok q \<Longrightarrow> parser_ok (fold (\<lambda>(n, opt) p. if opt_valid opt then p else add_error (''need option: --'' @ n) p) es q)" for es q
    by (induction es arbitrary: q) (auto simp: parser_ok_error)
  then show "parser_ok p \<Longrightarrow> parser_ok (need_errors p)" by (simp add: need_errors_def)
qed

lemma parser_ok_argv: "parser_ok p \<Longrightarrow> parser_ok (snd (parse_argv argv p))"
proof -
  assume "parser_ok p"
  then have "parser_ok (p\<lparr>errors := [], others := [], prog_name := x\<rparr>)" "parser_ok (p\<lparr>errors := [], others := []\<rparr>)" for x
    by (simp_all add: parser_ok_def)
  then show ?thesis
    by (auto simp: parse_argv_def Let_def parser_ok_error parser_ok_args parser_ok_need split: list.splits sum.splits)
qed

lemma parser_ok_add:
  assumes ok: "parser_ok p" and add: "add_opt opt p = Inr p'"
  shows "parser_ok p'"
proof -
  have new: "nam opt \<notin> fst ` set (opts p)"
    and p': "p' = p\<lparr>opts := insort_key fst (nam opt, opt) (opts p), ordered := ordered p @ [nam opt]\<rparr>"
    using add by (auto simp: add_opt_def find_opt_def map_of_eq_None_iff split: if_splits)
  have keys: "map fst (insort_key fst (nam opt, opt) xs) = insort (nam opt) (map fst xs)" for xs
    by (induction xs) auto
  have "sorted (map fst (opts p'))" "distinct (map fst (opts p'))"
    using ok new by (simp_all add: p' keys parser_ok_def sorted_insort distinct_insort)
  then show ?thesis
    using ok new by (auto simp: p' parser_ok_def set_insort_key list_all_iff)
qed

text \<open>Parsers that calls of the interface build.\<close>

inductive parser_built :: "'v cmd_parser \<Rightarrow> bool" where
  "parser_built new_parser"
| "parser_built p \<Longrightarrow> add_opt (option_without_value n c d) p = Inr p' \<Longrightarrow> parser_built p'"
| "parser_built p \<Longrightarrow> add_opt (option_with_value n c need df shown d typ rd) p = Inr p' \<Longrightarrow> parser_built p'"
| "parser_built p \<Longrightarrow> parser_built (footer f p)"
| "parser_built p \<Longrightarrow> parser_built (set_program_name n p)"
| "parser_built p \<Longrightarrow> parser_built (snd (parse_argv argv p))"
| "parser_built p \<Longrightarrow> parse_string arg p = Some (ok, p') \<Longrightarrow> parser_built p'"
| "parser_built p \<Longrightarrow> parse_check argv p = Inr p' \<Longrightarrow> parser_built p'"

lemma parser_ok_string: "parser_ok p \<Longrightarrow> parse_string arg p = Some (ok, p') \<Longrightarrow> parser_ok p'"
  using parser_ok_argv[of p]
  by (auto simp: parse_string_def parse_vector_def parser_ok_error split: sum.splits if_splits)
    (metis snd_conv)

lemma parser_ok_with_help: "parser_ok p \<Longrightarrow> parser_ok (with_help p)"
  using parser_ok_add[of p] by (auto simp: with_help_def split: sum.splits)

lemma parser_ok_check: "parser_ok p \<Longrightarrow> parse_check argv p = Inr p' \<Longrightarrow> parser_ok p'"
  using parser_ok_argv[OF parser_ok_with_help, of p argv]
  by (auto simp: parse_check_def check_def split: prod.splits if_splits)

lemma parser_built_ok: "parser_built p \<Longrightarrow> parser_ok p"
proof (induction rule: parser_built.induct)
  case 1
  then show ?case by (simp add: parser_ok_def new_parser_def)
next
  case (2 p n c d p')
  then show ?case using parser_ok_add by blast
next
  case (3 p n c need df sh d ty rd p1)
  then show ?case using parser_ok_add by blast
next
  case (4 p f)
  then show ?case by (simp add: footer_def parser_ok_def)
next
  case (5 p n)
  then show ?case by (simp add: set_program_name_def parser_ok_def)
next
  case (6 p argv)
  then show ?case by (simp add: parser_ok_argv)
next
  case (7 p arg ok p')
  then show ?case using parser_ok_string by blast
next
  case (8 p argv p')
  then show ?case using parser_ok_check by blast
qed


text \<open>The options of \<^verbatim>\<open>src/include/app.h\<close>.\<close>

definition app_options :: "string cmd_parser" where
  "app_options =
     (case add_opt (option_without_value ''version'' (CHR ''v'') ''print version'') new_parser of
        Inl _ \<Rightarrow> new_parser
      | Inr p \<Rightarrow>
          (case add_opt (option_with_value ''conf'' (CHR ''c'') False ''./config.json'' ''./config.json'' ''config file path''
                  ''string'' lexical_cast_string) p of
             Inl _ \<Rightarrow> new_parser | Inr p \<Rightarrow> p))"

lemma app_options_built: "parser_built app_options"
proof -
  obtain p where p: "add_opt (option_without_value ''version'' (CHR ''v'') ''print version'') (new_parser :: string cmd_parser) = Inr p"
    by (simp add: add_opt_def find_opt_def new_parser_def)
  then have "\<exists>q. add_opt (option_with_value ''conf'' (CHR ''c'') False ''./config.json'' ''./config.json'' ''config file path''
      ''string'' lexical_cast_string) p = Inr q"
    by (auto simp: add_opt_def find_opt_def new_parser_def option_with_value_def option_without_value_def)
  then obtain q where q: "add_opt (option_with_value ''conf'' (CHR ''c'') False ''./config.json'' ''./config.json'' ''config file path''
      ''string'' lexical_cast_string) p = Inr q" by blast
  have "parser_built q" by (rule parser_built.intros(3)[OF parser_built.intros(2)[OF parser_built.intros(1) p] q])
  then show ?thesis by (simp add: app_options_def p q)
qed


section \<open>What a command line means\<close>

text \<open>The forms of an argument, how each is written, and the settings it stands for.\<close>

datatype cmd_arg = LongEq string string | LongVal string string | LongFlag string
  | ShortVal char string | ShortFlags string | Rest string

fun render :: "cmd_arg \<Rightarrow> string list" where
  "render (LongEq n v) = [''--'' @ n @ ''='' @ v]"
| "render (LongVal n v) = [''--'' @ n, v]"
| "render (LongFlag n) = [''--'' @ n]"
| "render (ShortVal c v) = [[CHR ''-'', c], v]"
| "render (ShortFlags cs) = [CHR ''-'' # cs]"
| "render (Rest a) = [a]"

fun settings :: "(char \<rightharpoonup> string) \<Rightarrow> cmd_arg \<Rightarrow> (string \<times> string option) list" where
  "settings lookup (LongEq n v) = [(n, Some v)]"
| "settings lookup (LongVal n v) = [(n, Some v)]"
| "settings lookup (LongFlag n) = [(n, None)]"
| "settings lookup (ShortVal c v) = [(the (lookup c), Some v)]"
| "settings lookup (ShortFlags cs) = map (\<lambda>c. (the (lookup c), None)) cs"
| "settings lookup (Rest a) = []"

fun rest_of :: "cmd_arg \<Rightarrow> string list" where
  "rest_of (Rest a) = [a]"
| "rest_of _ = []"

fun well_written :: "(char \<rightharpoonup> string) \<Rightarrow> cmd_arg \<Rightarrow> bool" where
  "well_written lookup (LongEq n v) = (CHR ''='' \<notin> set n)"
| "well_written lookup (LongVal n v) = (CHR ''='' \<notin> set n)"
| "well_written lookup (LongFlag n) = (CHR ''='' \<notin> set n)"
| "well_written lookup (ShortVal c v) = (c \<noteq> CHR ''-'' \<and> lookup c \<noteq> None)"
| "well_written lookup (ShortFlags cs) = (cs \<noteq> [] \<and> hd cs \<noteq> CHR ''-'' \<and> list_all (\<lambda>c. lookup c \<noteq> None) cs)"
| "well_written lookup (Rest a) = (take 1 a \<noteq> ''-'')"

text \<open>What does not change when options are set: their readers.\<close>

definition readers :: "'v cmd_parser \<Rightarrow> string \<Rightarrow> (string \<Rightarrow> 'v option) option option" where
  "readers p n = map_option (\<lambda>opt. map_option v_read (val_part opt)) (find_opt n p)"

fun setting_ok :: "(string \<Rightarrow> (string \<Rightarrow> 'v option) option option) \<Rightarrow> string \<times> string option \<Rightarrow> bool" where
  "setting_ok R (n, None) = (R n = Some None)"
| "setting_ok R (n, Some v) = (case R n of Some (Some rd) \<Rightarrow> rd v \<noteq> None | _ \<Rightarrow> False)"

fun apply_setting :: "string \<times> string option \<Rightarrow> 'v cmd_parser \<Rightarrow> 'v cmd_parser" where
  "apply_setting (n, None) p = set_option n p"
| "apply_setting (n, Some v) p = set_option_value n v p"

text \<open>The state of one option after its settings: the last value counts.\<close>

definition final_opt :: "string option list \<Rightarrow> 'v cmd_option \<Rightarrow> 'v cmd_option" where
  "final_opt vs opt =
     (if vs = [] then opt
      else opt\<lparr>has := True, val_part := map_option (\<lambda>v. v\<lparr>v_actual := the (v_read v (the (last vs)))\<rparr>) (val_part opt)\<rparr>)"

definition settings_for :: "string \<Rightarrow> (string \<times> string option) list \<Rightarrow> string option list" where
  "settings_for n sts = map snd (filter (\<lambda>st. fst st = n) sts)"

lemma setting_steps:
  assumes "setting_ok (readers p) (n, v)"
  shows "find_opt m (apply_setting (n, v) p) = map_option (final_opt (if m = n then [v] else [])) (find_opt m p) \<and>
    errors (apply_setting (n, v) p) = errors p \<and> others (apply_setting (n, v) p) = others p \<and>
    map fst (opts (apply_setting (n, v) p)) = map fst (opts p)"
proof (cases v)
  case None
  then obtain opt where "find_opt n p = Some opt" "val_part opt = None" using assms by (auto simp: readers_def)
  then show ?thesis
    using None by (cases "find_opt m p") (auto simp: set_option_def opt_set_def find_put final_opt_def)
next
  case (Some w)
  then obtain opt vp a where "find_opt n p = Some opt" "val_part opt = Some vp" "v_read vp w = Some a"
    using assms by (auto simp: readers_def split: option.splits)
  then show ?thesis
    using Some by (cases "find_opt m p") (auto simp: set_option_value_def opt_set_value_def find_put final_opt_def)
qed

lemma final_opt_snoc: "final_opt (vs @ [v]) opt = final_opt [v] (final_opt vs opt)"
  by (cases "val_part opt") (simp_all add: final_opt_def)

lemma readers_step: "setting_ok (readers p) st \<Longrightarrow> readers (apply_setting st p) = readers p"
  using setting_steps[of p "fst st" "snd st"]
  by (auto simp: readers_def fun_eq_iff option.map_comp comp_def final_opt_def option.map_id split: option.splits)

lemma settings_steps:
  assumes "list_all (setting_ok (readers p)) sts"
  shows "readers (fold apply_setting sts p) = readers p \<and>
    find_opt m (fold apply_setting sts p) = map_option (final_opt (settings_for m sts)) (find_opt m p) \<and>
    errors (fold apply_setting sts p) = errors p \<and> others (fold apply_setting sts p) = others p \<and>
    map fst (opts (fold apply_setting sts p)) = map fst (opts p)"
  using assms
proof (induction sts rule: rev_induct)
  case Nil
  then show ?case by (simp add: settings_for_def final_opt_def option.map_ident)
next
  case (snoc st sts)
  obtain n v where st: "st = (n, v)" by (cases st)
  let ?q = "fold apply_setting sts p"
  have q: "readers ?q = readers p" "find_opt m ?q = map_option (final_opt (settings_for m sts)) (find_opt m p)"
    "errors ?q = errors p" "others ?q = others p" "map fst (opts ?q) = map fst (opts p)"
    using snoc by simp_all
  have ok: "setting_ok (readers ?q) (n, v)" using snoc(2) by (simp add: q(1) st)
  have f: "final_opt (settings_for m (sts @ [st])) opt = final_opt (if m = n then [v] else []) (final_opt (settings_for m sts) opt)" for opt :: "'a cmd_option"
    using final_opt_snoc[of "settings_for m sts" v opt] by (auto simp: settings_for_def st) (simp add: final_opt_def)
  show ?case
    using setting_steps[OF ok, of m] readers_step[OF ok] q by (simp add: st[symmetric] f option.map_comp comp_def)
qed

lemma readers_flag: "readers p n = Some None \<Longrightarrow> \<exists>opt. find_opt n p = Some opt \<and> \<not> has_value opt"
  by (auto simp: readers_def has_value_def)

lemma readers_valued: "readers p n = Some (Some rd) \<Longrightarrow> \<exists>opt. find_opt n p = Some opt \<and> has_value opt"
  by (auto simp: readers_def has_value_def)

lemma short_flags_fold:
  assumes "list_all (\<lambda>c. lookup c \<noteq> None) cs" "\<And>c n. lookup c = Some n \<Longrightarrow> n \<noteq> []"
  shows "fold (short_flag lookup) cs p = fold apply_setting (map (\<lambda>c. (the (lookup c), None)) cs) p"
  using assms(1)
proof (induction cs arbitrary: p)
  case (Cons c cs)
  then obtain n where "lookup c = Some n" by auto
  then show ?case using Cons assms(2)[of c n] by (simp add: short_flag_def)
qed simp

definition meaning :: "(char \<rightharpoonup> string) \<Rightarrow> cmd_arg \<Rightarrow> 'v cmd_parser \<Rightarrow> 'v cmd_parser" where
  "meaning lookup x p =
     (let q = fold apply_setting (settings lookup x) p in q\<lparr>others := others q @ rest_of x\<rparr>)"

lemma no_eq_takeWhile: "CHR ''='' \<notin> set n \<Longrightarrow> takeWhile (\<lambda>c. c \<noteq> CHR ''='') (n @ CHR ''='' # v) = n"
  using takeWhile_line(1) .

lemma parse_short_flags:
  assumes w: "well_written lookup (ShortFlags cs)" and ok: "list_all (setting_ok (readers p)) (settings lookup (ShortFlags cs))"
    and ne: "\<And>c n. lookup c = Some n \<Longrightarrow> n \<noteq> []"
  shows "parse_args lookup (render (ShortFlags cs) @ as) p = parse_args lookup as (fold apply_setting (settings lookup (ShortFlags cs)) p)"
proof -
  let ?set = "map (\<lambda>c. (the (lookup c), None))"
  obtain bs c where cs: "cs = bs @ [c]" using w by (cases cs rule: rev_cases) auto
  let ?q = "fold (short_flag lookup) bs p"
  have parts: "list_all (setting_ok (readers p)) (?set bs)" "setting_ok (readers p) (the (lookup c), None)"
    using ok by (simp_all add: cs)
  have q: "?q = fold apply_setting (?set bs) p"
    using w by (intro short_flags_fold ne) (simp_all add: cs)
  obtain n where n: "lookup c = Some n" "n \<noteq> []" using w ne by (auto simp: cs)
  have "readers ?q n = Some None" using settings_steps[OF parts(1)] parts(2) n by (simp add: q)
  then obtain opt where "find_opt n ?q = Some opt" "\<not> has_value opt" using readers_flag by blast
  then have "parse_last_short lookup c as ?q = (as, set_option n ?q)"
    using n by (simp add: parse_last_short_def split: list.splits)
  moreover have "take 2 (CHR ''-'' # bs @ [c]) \<noteq> ''--''" using w by (cases bs) (auto simp: cs)
  ultimately have "parse_one lookup (CHR ''-'' # bs @ [c]) as p = (as, set_option n ?q)"
    by (simp add: parse_one_def butlast_append)
  moreover have "set_option n ?q = fold apply_setting (?set (bs @ [c])) p" by (simp add: q n)
  ultimately show ?thesis by (simp add: cs)
qed

lemma parse_args_render:
  assumes w: "well_written lookup x" and ok: "list_all (setting_ok (readers p)) (settings lookup x)"
    and ne: "\<And>c n. lookup c = Some n \<Longrightarrow> n \<noteq> []"
  shows "parse_args lookup (render x @ as) p = parse_args lookup as (meaning lookup x p)"
proof (cases x)
  case (LongEq n v)
  then show ?thesis
    using w by (simp add: parse_one_def parse_long_def no_eq_takeWhile meaning_def Let_def)
next
  case (LongVal n v)
  then obtain rd where "readers p n = Some (Some rd)" using ok by (auto split: option.splits)
  then show ?thesis
    using LongVal w readers_valued[of p n rd] by (auto simp: parse_one_def parse_long_def meaning_def Let_def)
next
  case (LongFlag n)
  then show ?thesis
    using w ok readers_flag[of p n] by (auto simp: parse_one_def parse_long_def meaning_def Let_def)
next
  case (ShortVal c v)
  then obtain n where n: "lookup c = Some n" "n \<noteq> []" using w ne by auto
  then obtain rd where "readers p n = Some (Some rd)" using ok ShortVal by (auto split: option.splits)
  then show ?thesis
    using ShortVal w n readers_valued[of p n rd]
    by (auto simp: parse_one_def parse_last_short_def meaning_def Let_def)
next
  case (ShortFlags cs)
  then show ?thesis
    using parse_short_flags[of lookup cs p as] w ok ne by (simp add: meaning_def Let_def del: render.simps)
next
  case (Rest a)
  have "take 2 a \<noteq> ''--''" "take 1 a \<noteq> ''-''" using w Rest by (cases a; auto)+
  then show ?thesis using Rest by (simp add: parse_one_def meaning_def)
qed

lemma others_fields [simp]:
  "find_opt n (p\<lparr>others := os\<rparr>) = find_opt n p" "readers (p\<lparr>others := os\<rparr>) = readers p"
  by (simp_all add: find_opt_def readers_def fun_eq_iff)

lemma final_opt_append: "final_opt (vs @ ws) opt = final_opt ws (final_opt vs opt)"
proof (induction ws rule: rev_induct)
  case Nil
  then show ?case by (simp add: final_opt_def)
next
  case (snoc w ws)
  then show ?case using final_opt_snoc[of "vs @ ws" w opt] final_opt_snoc[of ws w "final_opt vs opt"] by simp
qed

lemma settings_for_append: "settings_for m (sts @ sts') = settings_for m sts @ settings_for m sts'"
  by (simp add: settings_for_def)

lemma meaning_fields:
  assumes "list_all (setting_ok (readers p)) (settings lookup x)"
  shows "readers (meaning lookup x p) = readers p" "errors (meaning lookup x p) = errors p"
    "others (meaning lookup x p) = others p @ rest_of x" "map fst (opts (meaning lookup x p)) = map fst (opts p)"
    "find_opt m (meaning lookup x p) = map_option (final_opt (settings_for m (settings lookup x))) (find_opt m p)"
  using settings_steps[OF assms] by (simp_all add: meaning_def Let_def)

lemma parse_args_all:
  assumes "list_all (well_written lookup) xs" "list_all (setting_ok (readers p)) (concat (map (settings lookup) xs))"
    "\<And>c n. lookup c = Some n \<Longrightarrow> n \<noteq> []"
  shows "\<exists>q. parse_args lookup (concat (map render xs)) p = q \<and> errors q = errors p \<and>
    others q = others p @ concat (map rest_of xs) \<and> map fst (opts q) = map fst (opts p) \<and>
    (\<forall>m. find_opt m q = map_option (final_opt (settings_for m (concat (map (settings lookup) xs)))) (find_opt m p))"
  using assms(1,2)
proof (induction xs arbitrary: p)
  case Nil
  then show ?case by (simp add: settings_for_def final_opt_def option.map_ident)
next
  case (Cons x xs)
  have ok: "well_written lookup x" "list_all (setting_ok (readers p)) (settings lookup x)" using Cons.prems by auto
  note f = meaning_fields[OF ok(2)]
  have "parse_args lookup (concat (map render (x # xs))) p = parse_args lookup (concat (map render xs)) (meaning lookup x p)"
    using parse_args_render[OF ok assms(3)] by simp
  then show ?case
    using Cons.IH[of "meaning lookup x p"] Cons.prems f
    by (auto simp: option.map_comp comp_def final_opt_append settings_for_append)
qed

lemma short_names_nonempty:
  "short_names os lk = Inr lk' \<Longrightarrow> \<forall>c n. lk c = Some n \<longrightarrow> n \<noteq> [] \<Longrightarrow> lk' c = Some n \<Longrightarrow> n \<noteq> []"
  by (induction os lk arbitrary: rule: short_names.induct) (auto split: if_splits)

lemma need_errors_none: "list_all (\<lambda>(n, opt). opt_valid opt) (opts p) \<Longrightarrow> need_errors p = p"
proof -
  have "list_all (\<lambda>(n, opt). opt_valid opt) es \<Longrightarrow>
      fold (\<lambda>(n, opt) p. if opt_valid opt then p else add_error (''need option: --'' @ n) p) es q = q" for es q
    by (induction es arbitrary: q) auto
  then show "list_all (\<lambda>(n, opt). opt_valid opt) (opts p) \<Longrightarrow> need_errors p = p" by (simp add: need_errors_def)
qed

lemma final_opt_valid: "vs \<noteq> [] \<or> opt_valid opt \<Longrightarrow> opt_valid (final_opt vs opt)"
  by (auto simp: final_opt_def opt_valid_def split: option.splits)

lemma parse_reads_all:
  assumes "parser_built p" "short_names (opts p) Map.empty = Inr lookup"
    and "list_all (well_written lookup) xs" "list_all (setting_ok (readers p)) (concat (map (settings lookup) xs))"
    and "\<forall>n opt. find_opt n p = Some opt \<longrightarrow> opt_valid opt \<or> settings_for n (concat (map (settings lookup) xs)) \<noteq> []"
  shows "\<exists>q. parse_argv (a0 # concat (map render xs)) p = (True, q) \<and> others q = concat (map rest_of xs) \<and>
    (\<forall>m. find_opt m q = map_option (final_opt (settings_for m (concat (map (settings lookup) xs)))) (find_opt m p))"
proof -
  define p1 where "p1 = (if prog_name p = [] then p\<lparr>errors := [], others := [], prog_name := a0\<rparr> else p\<lparr>errors := [], others := []\<rparr>)"
  have p1: "opts p1 = opts p" "errors p1 = []" "others p1 = []" by (simp_all add: p1_def)
  then have r1: "find_opt m p1 = find_opt m p" "readers p1 = readers p" for m
    by (simp_all add: find_opt_def readers_def fun_eq_iff)
  have ne: "n \<noteq> []" if "lookup c = Some n" for c n using short_names_nonempty[OF assms(2) _ that] by simp
  have "\<exists>q. parse_args lookup (concat (map render xs)) p1 = q \<and> errors q = errors p1 \<and>
      others q = others p1 @ concat (map rest_of xs) \<and> map fst (opts q) = map fst (opts p1) \<and>
      (\<forall>m. find_opt m q = map_option (final_opt (settings_for m (concat (map (settings lookup) xs)))) (find_opt m p1))"
    using assms(3,4) ne by (intro parse_args_all) (simp_all add: r1)
  then obtain q where q: "parse_args lookup (concat (map render xs)) p1 = q" "errors q = []" "others q = concat (map rest_of xs)"
      "map fst (opts q) = map fst (opts p)"
      "\<And>m. find_opt m q = map_option (final_opt (settings_for m (concat (map (settings lookup) xs)))) (find_opt m p)"
    using p1 by (auto simp: r1)
  have "distinct (map fst (opts q))" using parser_built_ok[OF assms(1)] q(4) by (simp add: parser_ok_def)
  then have "opt_valid opt" if "(n, opt) \<in> set (opts q)" for n opt
  proof -
    have "find_opt n q = Some opt" using that \<open>distinct (map fst (opts q))\<close> by (simp add: find_opt_def)
    then obtain opt0 where "find_opt n p = Some opt0"
      and "opt = final_opt (settings_for n (concat (map (settings lookup) xs))) opt0"
      using q(5)[of n] by auto
    then show ?thesis using assms(5) final_opt_valid by metis
  qed
  then have "need_errors q = q" by (intro need_errors_none) (auto simp: list_all_iff)
  then have "parse_argv (a0 # concat (map render xs)) p = (True, q)"
    using q(1,2) assms(2) by (auto simp: parse_argv_def Let_def p1_def)
  then show ?thesis using q(3,5) by blast
qed

text \<open>
  C24. A command line of well-written arguments whose values can be read, with every needed option
  among them, is accepted; afterwards every option has the value it was given last, or its
  default, and the other arguments are there in order.
\<close>

theorem parse_reads_arguments:
  assumes "parser_built p" "short_names (opts p) Map.empty = Inr lookup"
    and "list_all (well_written lookup) xs" "list_all (setting_ok (readers p)) (concat (map (settings lookup) xs))"
    and "\<forall>n opt. find_opt n p = Some opt \<longrightarrow> opt_valid opt \<or> settings_for n (concat (map (settings lookup) xs)) \<noteq> []"
  shows "\<exists>q. parse_argv (a0 # concat (map render xs)) p = (True, q) \<and> others q = concat (map rest_of xs) \<and>
    (\<forall>m. find_opt m q = map_option (final_opt (settings_for m (concat (map (settings lookup) xs)))) (find_opt m p))"
  by (rule parse_reads_all[OF assms])

lemma app_options_fields:
  "short_names (opts app_options) Map.empty = Inr [CHR ''c'' \<mapsto> ''conf'', CHR ''v'' \<mapsto> ''version'']"
  "find_opt n app_options =
     (if n = ''conf'' then Some (option_with_value ''conf'' (CHR ''c'') False ''./config.json'' ''./config.json''
        ''config file path'' ''string'' lexical_cast_string)
      else if n = ''version'' then Some (option_without_value ''version'' (CHR ''v'') ''print version'') else None)"
  by (auto simp: app_options_def add_opt_def find_opt_def new_parser_def option_with_value_def option_without_value_def
      less_char_def)

theorem parse_reads_arguments_witness:
  "\<exists>q. parse_argv [''prog'', ''-v'', ''-c'', ''a.json'', ''x'', ''--conf=b.json''] app_options = (True, q) \<and>
     others q = [''x''] \<and> opt_get ''string'' ''conf'' q = Inr ''b.json''"
proof -
  let ?lk = "[CHR ''c'' \<mapsto> ''conf'', CHR ''v'' \<mapsto> ''version'']"
  let ?xs = "[ShortFlags ''v'', ShortVal (CHR ''c'') ''a.json'', Rest ''x'', LongEq ''conf'' ''b.json'']"
  have ok: "list_all (well_written ?lk) ?xs" "list_all (setting_ok (readers app_options)) (concat (map (settings ?lk) ?xs))"
    "\<forall>n opt. find_opt n app_options = Some opt \<longrightarrow>
       opt_valid opt \<or> settings_for n (concat (map (settings ?lk) ?xs)) \<noteq> []"
    by (auto simp: readers_def app_options_fields option_with_value_def option_without_value_def lexical_cast_string_def
        opt_valid_def split: if_splits)
  from parse_reads_arguments[OF app_options_built app_options_fields(1) ok, of "''prog''"]
  obtain q where q: "parse_argv [''prog'', ''-v'', ''-c'', ''a.json'', ''x'', ''--conf=b.json''] app_options = (True, q)"
      "others q = [''x'']"
      "find_opt ''conf'' q = map_option (final_opt (settings_for ''conf'' (concat (map (settings ?lk) ?xs)))) (find_opt ''conf'' app_options)"
    by auto
  then have "opt_get ''string'' ''conf'' q = Inr ''b.json''"
    by (simp add: opt_get_def app_options_fields settings_for_def final_opt_def option_with_value_def lexical_cast_string_def)
  then show ?thesis using q by blast
qed

section \<open>One string as a command line\<close>

fun escape :: "string \<Rightarrow> string" where
  "escape [] = []"
| "escape (c # cs) = (if c = CHR 0x22 \<or> c = CHR 0x5C then [CHR 0x5C, c] else [c]) @ escape cs"

definition quote :: "string \<Rightarrow> string" where
  "quote w = CHR 0x22 # escape w @ [CHR 0x22]"

lemma split_args_escape: "split_args (escape w @ rest) True buf args = split_args rest True (buf @ w) args"
  by (induction w arbitrary: buf) simp_all

lemma split_args_word: "split_args (quote w @ rest) False buf args = split_args rest False (buf @ w) args"
  by (simp add: quote_def split_args_escape)

lemma split_args_words:
  "ws \<noteq> [] \<Longrightarrow> split_args (join '' '' (map quote ws)) False [] args = Inr (args @ (if last ws = [] then butlast ws else ws))"
proof (induction ws arbitrary: args)
  case (Cons w ws)
  show ?case
  proof (cases ws)
    case Nil
    then show ?thesis using split_args_word[of w "[]" "[]" args] by simp
  next
    case (Cons v vs)
    have "split_args (join '' '' (map quote (w # ws))) False [] args =
        split_args (join '' '' (map quote ws)) False [] (args @ [w])"
      using split_args_word[of w "'' '' @ join '' '' (map quote ws)" "[]" args] Cons by simp
    then show ?thesis using Cons.IH[of "args @ [w]"] Cons by simp
  qed
qed simp

text \<open>
  C28. Words that are quoted and joined with spaces are split into the same words, whatever
  characters they have, and parsed like the vector of them; only an empty last word is lost.
\<close>

theorem quoted_words_are_parsed:
  assumes "ws \<noteq> []" "last ws \<noteq> []"
  shows "parse_string (join '' '' (map quote ws)) p = parse_vector ws p \<and>
    split_args (join '' '' (map quote (ws @ [[]]))) False [] [] = Inr ws"
  using split_args_words[of ws "[]"] split_args_words[of "ws @ [[]]" "[]"] assms by (simp add: parse_string_def)

theorem quoted_words_are_parsed_witness:
  "parse_string ([CHR 0x22] @ ''a b'' @ [CHR 0x22, CHR '' '', CHR 0x22, CHR 0x5C, CHR 0x22, CHR 0x22]) app_options =
   parse_vector [''a b'', [CHR 0x22]] app_options"
  using quoted_words_are_parsed[of "[''a b'', [CHR 0x22]]" app_options] by (simp add: quote_def)

end
