(* ===== verification/AppStart.thy ===== *)
theory AppStart
  imports AppConfig Cmdline
begin

text \<open>
  The start of a program of \<^verbatim>\<open>src/include/app.h\<close> with its command line: \<open>AppConfig\<close>, whose
  argument \<open>parse_check\<close> is here the parser of \<open>Cmdline\<close> with the options the constructor of
  \<^verbatim>\<open>AppInfos\<close> adds.
\<close>

text \<open>What \<^verbatim>\<open>init\<close> asks the parser: whether the version is wanted, and the file to load.\<close>

definition app_parse_check :: "string list \<Rightarrow> int + bool \<times> string" where
  "app_parse_check argv =
     (case parse_check argv app_options of
        Inl code \<Rightarrow> Inl code
      | Inr q \<Rightarrow> Inr (opt_exist ''version'' q = Inr True, (case opt_get ''string'' ''conf'' q of Inr f \<Rightarrow> f | Inl _ \<Rightarrow> [])))"

lemma with_help_built: "parser_built (with_help app_options)"
proof -
  obtain q where q: "add_opt (option_without_value ''help'' (CHR ''?'') ''print this message'') app_options = Inr q"
    by (auto simp: add_opt_def app_options_fields option_without_value_def)
  then have "with_help app_options = q" by (simp add: with_help_def app_options_fields)
  then show ?thesis using parser_built.intros(2)[OF app_options_built q] by simp
qed

definition app_lookup :: "char \<rightharpoonup> string" where
  "app_lookup = [CHR ''c'' \<mapsto> ''conf'', CHR ''?'' \<mapsto> ''help'', CHR ''v'' \<mapsto> ''version'']"

lemma with_help_fields:
  "short_names (opts (with_help app_options)) Map.empty = Inr app_lookup"
  "find_opt n (with_help app_options) =
     (if n = ''help'' then Some (option_without_value ''help'' (CHR ''?'') ''print this message'') else find_opt n app_options)"
  by (auto simp: with_help_def app_options_def add_opt_def find_opt_def new_parser_def option_with_value_def
      option_without_value_def less_char_def app_lookup_def)

text \<open>The arguments that name a file, and the other ones that are no options.\<close>

fun conf_of :: "cmd_arg \<Rightarrow> string option" where
  "conf_of (LongEq n v) = (if n = ''conf'' then Some v else None)"
| "conf_of (LongVal n v) = (if n = ''conf'' then Some v else None)"
| "conf_of (ShortVal c v) = (if c = CHR ''c'' then Some v else None)"
| "conf_of _ = None"

fun names_file :: "cmd_arg \<Rightarrow> bool" where
  "names_file (Rest a) = (take 1 a \<noteq> ''-'')"
| "names_file x = (conf_of x \<noteq> None)"

lemma names_file_ok:
  assumes "names_file x"
  shows "well_written app_lookup x \<and> list_all (setting_ok (readers (with_help app_options))) (settings app_lookup x) \<and>
    settings app_lookup x = (case conf_of x of None \<Rightarrow> [] | Some v \<Rightarrow> [(''conf'', Some v)])"
  using assms
  by (cases x) (auto simp: app_lookup_def readers_def with_help_fields app_options_fields option_with_value_def
      lexical_cast_string_def split: if_splits)

lemma settings_of_files:
  assumes "list_all names_file xs"
  shows "list_all (well_written app_lookup) xs"
    "list_all (setting_ok (readers (with_help app_options))) (concat (map (settings app_lookup) xs))"
    "concat (map (settings app_lookup) xs) = map (\<lambda>v. (''conf'', Some v)) (List.map_filter conf_of xs)"
proof -
  show "list_all (well_written app_lookup) xs"
    and "list_all (setting_ok (readers (with_help app_options))) (concat (map (settings app_lookup) xs))"
    using assms names_file_ok unfolding list_all_iff by fastforce+
  show "concat (map (settings app_lookup) xs) = map (\<lambda>v. (''conf'', Some v)) (List.map_filter conf_of xs)"
    using assms
  proof (induction xs)
    case (Cons x xs)
    then show ?case using names_file_ok[of x] by (cases "conf_of x") (simp_all add: map_filter_simps)
  qed (simp add: map_filter_simps)
qed

lemma app_parse_check_files:
  assumes "list_all names_file xs"
  shows "app_parse_check (a0 # concat (map render xs)) = Inr (False, last (''./config.json'' # List.map_filter conf_of xs))"
proof -
  let ?sts = "concat (map (settings app_lookup) xs)" and ?fs = "List.map_filter conf_of xs"
  note s = settings_of_files[OF assms]
  have for_conf: "settings_for ''conf'' ?sts = map Some ?fs" and no: "n \<noteq> ''conf'' \<Longrightarrow> settings_for n ?sts = []" for n
    unfolding s(3) settings_for_def by (simp_all add: filter_map comp_def)
  have need: "\<forall>n opt. find_opt n (with_help app_options) = Some opt \<longrightarrow> opt_valid opt \<or> settings_for n ?sts \<noteq> []"
    by (auto simp: with_help_fields app_options_fields option_with_value_def option_without_value_def opt_valid_def split: if_splits)
  obtain q where q: "parse_argv (a0 # concat (map render xs)) (with_help app_options) = (True, q)"
    "\<And>m. find_opt m q = map_option (final_opt (settings_for m ?sts)) (find_opt m (with_help app_options))"
    using parse_reads_all[OF with_help_built with_help_fields(1) s(1,2) need, of a0] by blast
  have "opt_exist ''help'' q = Inr False" "opt_exist ''version'' q = Inr False"
    by (simp_all add: opt_exist_def q(2) no with_help_fields app_options_fields final_opt_def option_without_value_def)
  moreover have "opt_get ''string'' ''conf'' q = Inr (last (''./config.json'' # ?fs))"
    by (cases "?fs" rule: rev_cases)
      (simp_all add: opt_get_def q(2) for_conf with_help_fields app_options_fields final_opt_def option_with_value_def
        lexical_cast_string_def)
  ultimately show ?thesis
    using q(1) by (simp add: app_parse_check_def parse_check_def check_def)
qed

text \<open>
  C27. A program whose command line names files in any of the three ways, among other arguments,
  starts with the configuration of the last one named, and with \<^verbatim>\<open>./config.json\<close> when none is.
\<close>

theorem start_loads_named_file:
  assumes "list_all names_file xs" "app_cfg a = Some c0"
    and "Load open_json (last (''./config.json'' # List.map_filter conf_of xs)) parser c0 = Inr (True, c)"
    and "CreateDir D (log_dir (options c)) (log_files s) = Some (0, fs)"
    and "setup_log_system D opens (log_dir (options c)) ''base'' (log_level (options c)) ''base'' False (s\<lparr>log_files := fs\<rparr>) = Some s1"
  shows "app_init app_parse_check open_json D opens (a0 # concat (map render xs)) parser False a s =
    Some (Inr (1, a\<lparr>app_cfg := Some c\<rparr>, s1))"
  using assms by (simp add: app_init_def app_parse_check_files)

theorem start_loads_named_file_witness:
  "\<exists>a s. app_init app_parse_check (\<lambda>f. if f = ''b.json'' then sample_json else sample_json\<lparr>ParseError := 1\<rparr>)
     \<lparr>accessible = \<lambda>p fs. p \<in> fs, make_dir = \<lambda>p fs. (True, insert p fs)\<rparr> (\<lambda>_. True)
     [''l1'', ''-c'', ''a.json'', ''x'', ''--conf=b.json''] None False
     (AppInfos ''l1'' ''1.0'' \<lparr>log_level = 0, log_dir = [], log_code = []\<rparr> empty_linker)
     \<lparr>inited = False, loggers = Map.empty, log_files = {}\<rparr> = Some (Inr (1, a, s))"
proof -
  let ?D = "\<lparr>accessible = \<lambda>p fs. p \<in> fs, make_dir = \<lambda>p fs. (True, insert p fs)\<rparr> :: string set dirs"
  let ?J = "\<lambda>f :: string. if f = ''b.json'' then sample_json else sample_json\<lparr>ParseError := 1\<rparr>"
  let ?a = "AppInfos ''l1'' ''1.0'' \<lparr>log_level = 0, log_dir = [], log_code = []\<rparr> empty_linker"
  let ?xs = "[ShortVal (CHR ''c'') ''a.json'', Rest ''x'', LongEq ''conf'' ''b.json'']"
  obtain c0 where c0: "app_cfg ?a = Some c0" by (simp add: AppInfos_def)
  have "\<exists>c. Load ?J ''b.json'' None c0 = Inr (True, c) \<and> log_dir (options c) = ''./top''"
    using c0 by (auto simp: AppInfos_def Load_def parseOptions_def set_logs_def sample_json_def empty_linker_def new_config_def
        exit_of_def service_of_def find_endpoints_def set_handlers_def set_shm_def set_types_def Let_def)
  then obtain c where c: "Load ?J ''b.json'' None c0 = Inr (True, c)" "log_dir (options c) = ''./top''" by blast
  have dir: "CreateDir ?D ''./top'' {} = Some (0, {''.'', ''./top''})"
    "CreateDir ?D ''./top'' {''.'', ''./top''} = Some (0, {''.'', ''./top''})"
    by (simp_all add: CreateDir_def ensure_dir_def upt_rec insert_commute)
  obtain s1 where s1: "setup_log_system ?D (\<lambda>_. True) ''./top'' ''base'' (log_level (options c)) ''base'' False
      \<lparr>inited = False, loggers = Map.empty, log_files = {''.'', ''./top''}\<rparr> = Some s1"
    using dir(2) by (simp add: setup_log_system_def Let_def)
  have "list_all names_file ?xs" by simp
  from start_loads_named_file[OF this c0, of ?J None c ?D "\<lparr>inited = False, loggers = Map.empty, log_files = {}\<rparr>" "{''.'', ''./top''}" "\<lambda>_. True" s1 "''l1''"]
  show ?thesis using c dir(1) s1 by (auto simp: map_filter_simps)
qed

end
