(* ===== verification/LoginServer.thy ===== *)
theory LoginServer
  imports Linker EventLoop
begin

text \<open>
  The program of the login server, \<^verbatim>\<open>src/linker/l2/main.cpp\<close>: its command line, and the loop of
  \<open>EventLoop\<close> with the virtual functions of \<open>Linker\<close> and the accept callback of \<open>Tcp\<close>. Setting up
  the log, ignoring SIGPIPE and starting the timers change nothing that the server uses.

  \<open>clock k\<close> is the time the \<open>k\<close>-th reading of a connection sees. The object is \<open>None\<close> after
  undefined behaviour of one of its functions.
\<close>

section \<open>The command line\<close>

text \<open>
  \<^verbatim>\<open>getopt\<close> with the options \<open>v\<close> and \<open>c:\<close>. An argument of \<open>c\<close> is what follows it in the same word,
  or the next word, whatever it is; words that are no options are passed over, and \<open>--\<close> ends the options.
\<close>

datatype getopt_result = Opt_v | Opt_c string | Opt_unknown

fun getopt_word :: "string \<Rightarrow> string list \<Rightarrow> getopt_result list \<times> string list" where
  "getopt_word [] ws = ([], ws)"
| "getopt_word (x # xs) ws =
     (if x = CHR ''v'' then (case getopt_word xs ws of (rs, ws') \<Rightarrow> (Opt_v # rs, ws'))
      else if x = CHR ''c''
      then (if xs \<noteq> [] then ([Opt_c xs], ws)
            else case ws of [] \<Rightarrow> ([Opt_unknown], []) | w # ws' \<Rightarrow> ([Opt_c w], ws'))
      else (case getopt_word xs ws of (rs, ws') \<Rightarrow> (Opt_unknown # rs, ws')))"

lemma getopt_word_less: "length (snd (getopt_word xs ws)) \<le> length ws"
  by (induction xs) (auto split: list.splits prod.splits)

function getopt_all :: "string list \<Rightarrow> getopt_result list" where
  "getopt_all [] = []"
| "getopt_all (w # ws) =
     (if w = ''--'' then []
      else if take 1 w = ''-'' \<and> 1 < length w
      then (case getopt_word (tl w) ws of (rs, ws') \<Rightarrow> rs @ getopt_all ws')
      else getopt_all ws)"
  by pat_completeness auto
termination
proof (relation "measure length")
  fix w :: string and ws rs ws'
  assume "(rs, ws') = getopt_word (tl w) ws"
  then have "length ws' \<le> length ws" using getopt_word_less[of "tl w" ws] by (metis snd_conv)
  then show "(ws', w # ws) \<in> measure length" by simp
qed simp_all

text \<open>The configuration file, or the exit code when the version is asked for.\<close>

fun l2_options :: "getopt_result list \<Rightarrow> string \<Rightarrow> int + string" where
  "l2_options [] config_file = Inr config_file"
| "l2_options (Opt_c f # rs) config_file = l2_options rs f"
| "l2_options (Opt_v # rs) config_file = Inl 0"
| "l2_options (Opt_unknown # rs) config_file = l2_options rs config_file"

section \<open>The object and its virtual functions\<close>

record login_state =
  tcp_server :: server
  sessions :: "server_end option"
  readings :: nat

type_synonym login = "login_state wrapper"

definition set_sessions :: "server_end option \<Rightarrow> login \<Rightarrow> login" where
  "set_sessions x w = w\<lparr>user_part := (user_part w)\<lparr>sessions := x\<rparr>\<rparr>"

definition login_OnAccept :: "net \<Rightarrow> nat \<Rightarrow> login \<Rightarrow> login" where
  "login_OnAccept n b w =
     (if listener (tcp_server (user_part w))
      then (case ListenerCallback n (tcp_server (user_part w)) of
              None \<Rightarrow> set_sessions None w
            | Some False \<Rightarrow> w
            | Some True \<Rightarrow> set_sessions (map_option (server_OnAccept b) (sessions (user_part w))) w)
      else w)"

definition login_OnRead ::
  "(options \<Rightarrow> options) \<Rightarrow> (nat \<Rightarrow> u64) \<Rightarrow> (byte list \<Rightarrow> bool) \<Rightarrow> nat \<Rightarrow> login \<Rightarrow> login" where
  "login_OnRead iter clock parses b w =
     (case sessions (user_part w) of
        None \<Rightarrow> w
      | Some s \<Rightarrow>
          (case server_OnRead iter (clock (readings (user_part w))) (signal_onMessage parses) b (inputs w b) s of
             None \<Rightarrow> set_sessions None w
           | Some (r, s') \<Rightarrow>
               w\<lparr>inputs := (inputs w)(b := r),
                 user_part := (user_part w)\<lparr>sessions := Some s', readings := readings (user_part w) + 1\<rparr>\<rparr>))"

definition login_OnEvent :: "nat \<Rightarrow> bev_event set \<Rightarrow> login \<Rightarrow> login" where
  "login_OnEvent b events w = set_sessions (map_option (server_OnEvent b events) (sessions (user_part w))) w"

definition login_OnLoop :: "(options \<Rightarrow> options) \<Rightarrow> (nat set \<Rightarrow> nat) \<Rightarrow> login \<Rightarrow> login" where
  "login_OnLoop iter begin_of w = set_sessions (Option.bind (sessions (user_part w)) (server_OnLoop iter begin_of)) w"

definition login_handlers ::
  "net \<Rightarrow> (options \<Rightarrow> options) \<Rightarrow> (nat set \<Rightarrow> nat) \<Rightarrow> (nat \<Rightarrow> u64) \<Rightarrow> (byte list \<Rightarrow> bool) \<Rightarrow> login_state handlers" where
  "login_handlers n iter begin_of clock parses =
     \<lparr>h_accept = login_OnAccept n, h_read = login_OnRead iter clock parses, h_write = \<lambda>b w. w,
      h_event = login_OnEvent, h_loop = login_OnLoop iter begin_of\<rparr>"

section \<open>The program\<close>

datatype main_end = Exits int | Returns "loop_event list list" login | Undefined

definition l2_params :: connection_params where
  "l2_params = no_params\<lparr>address := ''172.17.0.4'', port := ''8888''\<rparr>"

definition l2_main ::
  "net \<Rightarrow> (options \<Rightarrow> options) \<Rightarrow> (nat set \<Rightarrow> nat) \<Rightarrow> (nat \<Rightarrow> u64) \<Rightarrow> (byte list \<Rightarrow> bool) \<Rightarrow> bool \<Rightarrow> bool \<Rightarrow>
   string list \<Rightarrow> loop_event list list \<Rightarrow> main_end" where
  "l2_main n iter begin_of clock parses base_ok event_ok args rounds =
     (case l2_options (getopt_all args) ''config.json'' of
        Inl code \<Rightarrow> Exits code
      | Inr config_file \<Rightarrow>
          (case EventWrapper False base_ok \<lparr>tcp_server = new_server, sessions = Some new_server_end, readings = 0\<rparr> of
             None \<Rightarrow> Undefined
           | Some w \<Rightarrow>
               (case server_Start n l2_params (tcp_server (user_part w)) of
                  (Exited, _, _) \<Rightarrow> Exits (-1)
                | (Returned r, sv, _) \<Rightarrow>
                    (case Run (login_handlers n iter begin_of clock parses) event_ok rounds
                            (setParams (sparams sv) (w\<lparr>user_part := (user_part w)\<lparr>tcp_server := sv\<rparr>\<rparr>)) of
                       None \<Rightarrow> Undefined
                     | Some (rest, w') \<Rightarrow> Returns rest w'))))"

text \<open>The configuration file that is named has no effect.\<close>

lemma l2_config_file_unused:
  assumes "l2_options (getopt_all args) ''config.json'' = Inr f" "l2_options (getopt_all args') ''config.json'' = Inr f'"
  shows "l2_main n iter begin_of clock parses bok eok args rounds = l2_main n iter begin_of clock parses bok eok args' rounds"
  by (simp add: l2_main_def assms)

section \<open>The loop is a run of the server\<close>

fun received :: "loop_event \<Rightarrow> nat" where
  "received (Readable b bs) = length bs"
| "received _ = 0"

fun connection_of :: "loop_event \<Rightarrow> nat" where
  "connection_of (Readable b bs) = b"
| "connection_of _ = 0"

definition still_in :: "nat set \<Rightarrow> login \<Rightarrow> nat" where
  "still_in B w = (\<Sum>b \<in> B. length (inputs w b))"

text \<open>\<open>k\<close> bytes were consumed; with those that wait in the buffers they are the \<open>total\<close> received.\<close>

definition login_inv ::
  "(options \<Rightarrow> options) \<Rightarrow> (nat set \<Rightarrow> nat) \<Rightarrow> (byte list \<Rightarrow> bool) \<Rightarrow> nat set \<Rightarrow> nat \<Rightarrow> login \<Rightarrow> bool" where
  "login_inv iter begin_of parses B r w \<longleftrightarrow>
     (\<forall>s. sessions (user_part w) = Some s \<longrightarrow>
        (\<exists>k. k + still_in B w = r \<and> server_run iter begin_of parses k s) \<and>
        (\<not> listener (tcp_server (user_part w)) \<longrightarrow> bev_set s = {}))"

lemma still_in_update:
  assumes "finite B" "b \<in> B" "inputs w' = (inputs w)(b := x)"
  shows "still_in B w' + length (inputs w b) = still_in B w + length x"
proof -
  have "still_in B v = length (inputs v b) + (\<Sum>c \<in> B - {b}. length (inputs v c))" for v
    unfolding still_in_def using assms(1,2) by (rule sum.remove)
  then show ?thesis using assms(3) by simp
qed

lemma server_run_step0: "server_run iter begin_of parses k s \<Longrightarrow> server_step iter begin_of parses 0 s s' \<Longrightarrow>
    server_run iter begin_of parses k s'"
  using server_run.step[of iter begin_of parses k s 0 s'] by simp

lemma login_inv_cong:
  assumes "login_inv iter begin_of parses B r w" "inputs w' = inputs w" "user_part w' = user_part w"
  shows "login_inv iter begin_of parses B r w'"
  using assms by (simp add: login_inv_def still_in_def)

lemma login_inv_set:
  assumes "login_inv iter begin_of parses B r w"
    and "\<And>s s'. sessions (user_part w) = Some s \<Longrightarrow> x = Some s' \<Longrightarrow>
      server_step iter begin_of parses 0 s s' \<and> (\<not> listener (tcp_server (user_part w)) \<longrightarrow> bev_set s' \<subseteq> bev_set s)"
    and "sessions (user_part w) = None \<Longrightarrow> x = None"
  shows "login_inv iter begin_of parses B r (set_sessions x w)"
  unfolding login_inv_def
proof (intro allI impI)
  fix s' assume "sessions (user_part (set_sessions x w)) = Some s'"
  then have x: "x = Some s'" by (simp add: set_sessions_def)
  then obtain s where s: "sessions (user_part w) = Some s" using assms(3) by (cases "sessions (user_part w)") auto
  note st = assms(2)[OF s x]
  obtain k where "k + still_in B w = r" "server_run iter begin_of parses k s"
    using assms(1) s by (auto simp: login_inv_def)
  then have "k + still_in B (set_sessions x w) = r" "server_run iter begin_of parses k s'"
    using st server_run_step0 by (auto simp: set_sessions_def still_in_def)
  moreover have "\<not> listener (tcp_server (user_part w)) \<Longrightarrow> bev_set s' = {}"
    using assms(1) s st by (auto simp: login_inv_def)
  ultimately show "(\<exists>k. k + still_in B (set_sessions x w) = r \<and> server_run iter begin_of parses k s') \<and>
      (\<not> listener (tcp_server (user_part (set_sessions x w))) \<longrightarrow> bev_set s' = {})"
    by (auto simp: set_sessions_def)
qed

lemma server_OnLoop_bevs: "server_OnLoop iter begin_of s = Some s' \<Longrightarrow> bev_set s' = bev_set s"
  by (auto simp: server_OnLoop_def HandleMsgToClient_def split: list.splits if_splits dest!: send_to_fields)

lemma signal_OnRead_bevs:
  "server_OnRead iter now (signal_onMessage parses) b input s = Some (r, s') \<Longrightarrow> bev_set s' = bev_set s"
proof (induction iter now "signal_onMessage parses" b input s rule: server_OnRead.induct)
  case (1 iter now b input s)
  from 1(2) show ?case
  proof (cases rule: server_OnRead_cases)
    case (step m rest s1)
    from 1(1)[OF step(1) refl refl step(2) step(3)] show ?thesis using handle_message_sessions[OF step(2)] by simp
  qed simp
qed

lemma login_inv_OnRead:
  assumes "login_inv iter begin_of parses B r w" "finite B" "b \<in> B"
  shows "login_inv iter begin_of parses B r (login_OnRead iter clock parses b w)"
proof (cases "sessions (user_part w)")
  case None
  then show ?thesis using assms(1) by (simp add: login_OnRead_def)
next
  case (Some s)
  let ?in = "inputs w b"
  show ?thesis
  proof (cases "server_OnRead iter (clock (readings (user_part w))) (signal_onMessage parses) b ?in s")
    case None
    then show ?thesis using Some by (simp add: login_OnRead_def login_inv_def set_sessions_def)
  next
    case (Some p)
    then obtain x s' where p: "p = (x, s')" by (cases p)
    note read = Some[unfolded p]
    let ?w = "w\<lparr>inputs := (inputs w)(b := x),
      user_part := (user_part w)\<lparr>sessions := Some s', readings := readings (user_part w) + 1\<rparr>\<rparr>"
    have w: "login_OnRead iter clock parses b w = ?w"
      using read \<open>sessions (user_part w) = Some s\<close> by (simp add: login_OnRead_def)
    obtain k where k: "k + still_in B w = r" "server_run iter begin_of parses k s"
      using assms(1) \<open>sessions (user_part w) = Some s\<close> by (auto simp: login_inv_def)
    have "server_run iter begin_of parses (k + (length ?in - length x)) s'"
      using server_run.step[OF k(2) server_step.read[OF read]] .
    moreover have "k + (length ?in - length x) + still_in B ?w = r"
      using still_in_update[OF assms(2,3), of ?w w x] server_OnRead_rest[OF read] k(1) by simp
    moreover have "\<not> listener (tcp_server (user_part w)) \<Longrightarrow> bev_set s' = {}"
      using assms(1) \<open>sessions (user_part w) = Some s\<close> signal_OnRead_bevs[OF read] by (auto simp: login_inv_def)
    ultimately show ?thesis unfolding w login_inv_def by auto
  qed
qed

lemma login_inv_OnAccept:
  "login_inv iter begin_of parses B r w \<Longrightarrow> login_inv iter begin_of parses B r (login_OnAccept n b w)"
  by (auto simp: login_OnAccept_def split: option.splits bool.splits
      intro!: login_inv_set server_step.accept)

lemma server_OnEvent_bevs: "bev_set (server_OnEvent b es s) \<subseteq> bev_set s"
  by (auto simp: server_OnEvent_def)

lemma login_inv_OnEvent:
  "login_inv iter begin_of parses B r w \<Longrightarrow> login_inv iter begin_of parses B r (login_OnEvent b es w)"
  unfolding login_OnEvent_def
  by (rule login_inv_set) (auto intro: server_step.event dest: subsetD[OF server_OnEvent_bevs])

lemma login_inv_OnLoop:
  "login_inv iter begin_of parses B r w \<Longrightarrow> login_inv iter begin_of parses B r (login_OnLoop iter begin_of w)"
  unfolding login_OnLoop_def
  by (rule login_inv_set) (auto intro: server_step.loop dest: server_OnLoop_bevs)

lemma login_inv_deliver:
  assumes "login_inv iter begin_of parses B r w" "finite B" "connection_of e \<in> B"
  shows "login_inv iter begin_of parses B (r + received e) (deliver (login_handlers n iter begin_of clock parses) e w)"
proof (cases e)
  case Timeout
  have "login_inv iter begin_of parses B r (OnExit (login_OnLoop iter begin_of w))"
    by (rule login_inv_cong[OF login_inv_OnLoop[OF assms(1)]]) (simp_all add: OnExit_def)
  then show ?thesis using assms(1) Timeout by (simp add: TimeoutCallback_def login_handlers_def)
next
  case (Accepted b)
  then show ?thesis using login_inv_OnAccept[OF assms(1)] by (simp add: login_handlers_def)
next
  case (Readable b bs)
  let ?w = "w\<lparr>inputs := (inputs w)(b := inputs w b @ bs)\<rparr>"
  have "still_in B ?w = still_in B w + length bs"
    using still_in_update[of B b ?w w "inputs w b @ bs"] assms(2,3) Readable by simp
  then have "login_inv iter begin_of parses B (r + length bs) ?w"
    using assms(1) by (auto simp: login_inv_def)
  then show ?thesis
    using login_inv_OnRead[of iter begin_of parses B "r + length bs" ?w b clock] assms(2,3) Readable
    by (simp add: ReadCallback_def login_handlers_def)
next
  case (Writable b)
  then show ?thesis using assms(1) by (simp add: WriteCallback_def login_handlers_def)
next
  case (Happened b es)
  have "login_inv iter begin_of parses B r (w\<lparr>ssl_errors := x\<rparr>)" for x
    by (rule login_inv_cong[OF assms(1)]) simp_all
  then show ?thesis
    using assms(1) Happened by (auto simp: EventCallback_def login_handlers_def Let_def intro: login_inv_OnEvent)
qed

lemma login_inv_events:
  assumes "login_inv iter begin_of parses B r w" "finite B" "connection_of ` set es \<subseteq> B"
  shows "login_inv iter begin_of parses B (r + sum_list (map received es))
    (fold (deliver (login_handlers n iter begin_of clock parses)) es w)"
  using assms(1,3)
proof (induction es arbitrary: r w)
  case (Cons e es)
  then show ?case using login_inv_deliver[OF Cons.prems(1) assms(2), of e] by (force simp: add.assoc)
qed simp

lemma dispatch_prefix:
  "dispatch H rs w = (rest, w') \<Longrightarrow> \<exists>ds. rs = ds @ rest \<and> w' = fold (deliver H) (concat ds) w"
proof (induction H rs w rule: dispatch.induct)
  case (2 H r rs w)
  show ?case
  proof (cases "loop_exit w")
    case True
    then show ?thesis using 2 by simp
  next
    case False
    then obtain ds where "rs = ds @ rest" "w' = fold (deliver H) (concat ds) (fold (deliver H) r w)"
      using 2 by auto
    then show ?thesis by (intro exI[of _ "r # ds"]) simp
  qed
qed simp



end
