(* ===== verification/Programs.thy ===== *)
theory Programs
  imports GateServer EventLoop DbMan
begin

text \<open>
  Small programs: the gateway, \<^verbatim>\<open>src/linker/l1/ev_server.cpp\<close>, which runs the loop of \<open>EventLoop\<close>
  with the virtual functions of \<open>GateServer\<close>; the program \<^verbatim>\<open>src/database/main.cpp\<close> on top of
  \<open>DbMan\<close>; and the stop watch of \<^verbatim>\<open>src/include/stopwatch.h\<close>.
\<close>

section \<open>The gateway\<close>

text \<open>The gateway is \<open>None\<close> after undefined behaviour. \<open>clock k\<close> is the time the \<open>k\<close>-th reading sees.\<close>

record gate_state =
  gate_server :: server
  gate_part :: "gate option"
  gate_readings :: nat

type_synonym gateway = "gate_state wrapper"

definition set_gate :: "gate option \<Rightarrow> gateway \<Rightarrow> gateway" where
  "set_gate x w = w\<lparr>user_part := (user_part w)\<lparr>gate_part := x\<rparr>\<rparr>"

definition l1_OnAccept :: "net \<Rightarrow> nat \<Rightarrow> gateway \<Rightarrow> gateway" where
  "l1_OnAccept n b w =
     (if listener (gate_server (user_part w))
      then (case ListenerCallback n (gate_server (user_part w)) of
              None \<Rightarrow> set_gate None w
            | Some False \<Rightarrow> w
            | Some True \<Rightarrow> set_gate (map_option (gate_OnAccept b) (gate_part (user_part w))) w)
      else w)"

definition l1_OnRead :: "(nat \<Rightarrow> u64) \<Rightarrow> nat \<Rightarrow> gateway \<Rightarrow> gateway" where
  "l1_OnRead clock b w =
     (case gate_part (user_part w) of
        None \<Rightarrow> w
      | Some g \<Rightarrow>
          (case gate_OnRead (clock (gate_readings (user_part w))) b (inputs w b) g of
             None \<Rightarrow> set_gate None w
           | Some (r, g') \<Rightarrow>
               w\<lparr>inputs := (inputs w)(b := (case r of None \<Rightarrow> [] | Some bs \<Rightarrow> bs)),
                 user_part := (user_part w)\<lparr>gate_part := Some g', gate_readings := gate_readings (user_part w) + 1\<rparr>\<rparr>))"

definition l1_OnEvent :: "nat \<Rightarrow> bev_event set \<Rightarrow> gateway \<Rightarrow> gateway" where
  "l1_OnEvent b events w = set_gate (map_option (gate_OnEvent b events) (gate_part (user_part w))) w"

definition l1_handlers :: "net \<Rightarrow> (nat \<Rightarrow> u64) \<Rightarrow> gate_state handlers" where
  "l1_handlers n clock =
     \<lparr>h_accept = l1_OnAccept n, h_read = l1_OnRead clock, h_write = \<lambda>b w. w, h_event = l1_OnEvent, h_loop = \<lambda>w. w\<rparr>"

definition l1_params :: connection_params where
  "l1_params = no_params\<lparr>address := ''172.17.0.4'', port := ''8888''\<rparr>"

text \<open>The result of \<open>Start\<close> is not looked at. \<open>Inl\<close> is the end of the process in \<open>Start\<close>.\<close>

definition l1_main ::
  "net \<Rightarrow> (nat \<Rightarrow> u64) \<Rightarrow> bool \<Rightarrow> bool \<Rightarrow> loop_event list list \<Rightarrow> int + (loop_event list list \<times> gateway) option" where
  "l1_main n clock base_ok event_ok rounds =
     (case server_Start n l1_params new_server of
        (Exited, _, _) \<Rightarrow> Inl (-1)
      | (Returned r, sv, _) \<Rightarrow>
          Inr (Option.bind (EventWrapper False base_ok \<lparr>gate_server = sv, gate_part = Some new_gate, gate_readings = 0\<rparr>)
                 (\<lambda>w. Run (l1_handlers n clock) event_ok rounds (setParams (sparams sv) w))))"

text \<open>
  The number of connections that is reported goes up with an accepted connection and down with a
  broken one; a reading does not change it, also when it closes the connection.
\<close>

lemma gate_OnRead_count: "gate_OnRead now b input g = Some (r, g') \<Longrightarrow> connect_count g' = connect_count g"
proof (induction now b input g rule: gate_OnRead.induct)
  case (1 now b input g)
  show ?case
  proof (cases "length input < MSG_HEAD_SIZE \<or>
      length input < MSG_HEAD_SIZE + unat (optslen (head_of input)) + unat (datalen (head_of input)) \<or> version (head_of input) = 1 \<or>
      optslen (head_of input) \<noteq> 0 \<and> unat (optslen (head_of input)) < sizeof_OptionRequestId")
    case True
    then show ?thesis using 1(2) by (subst (asm) gate_OnRead.simps) (auto simp: Let_def gate_Close_def split: if_splits)
  next
    case False
    obtain rest g1 where m: "gate_message now b (head_of input)
        (drop (unat (optslen (head_of input))) (drop MSG_HEAD_SIZE input)) g = (rest, g1)"
      by (cases "gate_message now b (head_of input)
        (drop (unat (optslen (head_of input))) (drop MSG_HEAD_SIZE input)) g")
    then have rd: "gate_OnRead now b rest g1 = Some (r, g')"
      using 1(2) False by (subst (asm) gate_OnRead.simps) (auto simp: Let_def simp del: drop_drop)
    have "connect_count g' = connect_count g1"
      using 1(1)[OF refl refl refl _ _ _ _ m[symmetric] rd] False by blast
    moreover have "connect_count g1 = connect_count g"
      using m by (auto simp: gate_message_def gate_write_def split: if_splits)
    ultimately show ?thesis by simp
  qed
qed

lemma version_1_stays_counted:
  assumes "MSG_HEAD_SIZE + unat (optslen (head_of input)) + unat (datalen (head_of input)) \<le> length input"
    and "version (head_of input) = 1"
  shows "gate_OnRead now b input g = Some (None, gate_Close b g) \<and> connect_count (gate_Close b g) = connect_count g"
  using assms by (subst gate_OnRead.simps) (simp add: Let_def gate_Close_def)

section \<open>The database program\<close>

text \<open>
  The size of the pool is not set: \<open>garbage\<close>. \<open>tables\<close> is what the server answers to the prepared
  statement on a connection, \<open>None\<close> when it cannot be prepared or executed.
\<close>

definition db_main_config :: "int \<Rightarrow> db_config" where
  "db_main_config garbage = \<lparr>driverName = ''mysql'', cfg_addr = ''172.24.16.178:3306'', cfg_user = ''chronos'',
     cfg_passwd = ''chronos'', cfg_db = ''yctest'', pool_size = garbage\<rparr>"

definition db_main_sql :: "db_config \<Rightarrow> string" where
  "db_main_sql c = ''SELECT TABLE_NAME FROM information_schema.tables WHERE table_schema = '' @ [CHR 0x27] @ cfg_db c @ [CHR 0x27]"

definition db_main :: "int \<Rightarrow> (nat \<Rightarrow> bool) \<Rightarrow> (nat \<Rightarrow> string \<Rightarrow> string list option) \<Rightarrow> string list \<times> dbman" where
  "db_main garbage opens tables =
     (let c = db_main_config garbage;
          s = snd (dbman_Init opens [c] new_dbman)
      in case GetDB s of
           (None, s1) \<Rightarrow> ([], s1)
         | (Some db, s1) \<Rightarrow> ((case tables db (db_main_sql c) of None \<Rightarrow> [] | Some ts \<Rightarrow> ts), s1))"

text \<open>With a size of 0, which the memory may hold, the pool has only the connection of the monitor: nothing is printed.\<close>

lemma db_main_size_0: "fst (db_main 0 (\<lambda>_. True) tables) = []"
  by (simp add: db_main_def db_main_config_def dbman_Init_def init_pool_def MAX_POOL_SIZE_def new_dbman_def GetDB_def Let_def)

lemma db_main_size_1: "fst (db_main 1 (\<lambda>_. True) (\<lambda>_ _. Some ts)) = ts"
  by (simp add: db_main_def db_main_config_def dbman_Init_def init_pool_def MAX_POOL_SIZE_def new_dbman_def GetDB_def
      Let_def numeral_2_eq_2)

section \<open>The stop watch\<close>

text \<open>Times are nanoseconds; \<^verbatim>\<open>duration_cast\<close> rounds towards zero.\<close>

record stop_watch =
  begin_ns :: int

definition StopWatch :: "int \<Rightarrow> stop_watch" where "StopWatch now = \<lparr>begin_ns = now\<rparr>"

definition restart :: "int \<Rightarrow> stop_watch \<Rightarrow> stop_watch" where "restart now s = s\<lparr>begin_ns := now\<rparr>"

definition elapsed_nano :: "int \<Rightarrow> stop_watch \<Rightarrow> int" where "elapsed_nano now s = now - begin_ns s"

definition elapsed_micro :: "int \<Rightarrow> stop_watch \<Rightarrow> int" where "elapsed_micro now s = (now - begin_ns s) sdiv 1000"

definition elapsed :: "int \<Rightarrow> stop_watch \<Rightarrow> int" where "elapsed now s = (now - begin_ns s) sdiv 1000000"

definition elapsed_seconds :: "int \<Rightarrow> stop_watch \<Rightarrow> int" where "elapsed_seconds now s = (now - begin_ns s) sdiv 1000000000"

definition elapsed_minutes :: "int \<Rightarrow> stop_watch \<Rightarrow> int" where "elapsed_minutes now s = (now - begin_ns s) sdiv 60000000000"

definition elapsed_hours :: "int \<Rightarrow> stop_watch \<Rightarrow> int" where "elapsed_hours now s = (now - begin_ns s) sdiv 3600000000000"

text \<open>The units agree: each is the next finer one, rounded towards zero, also when the clock was set back.\<close>

lemma sdiv_sdiv: "0 < a \<Longrightarrow> 0 < b \<Longrightarrow> (x sdiv a) sdiv b = x sdiv (a * b)" for x a b :: int
proof -
  assume ab: "0 < a" "0 < b"
  show ?thesis
  proof (cases "0 \<le> x")
    case True
    then show ?thesis using ab by (simp add: signed_divide_int_def sgn_if zdiv_zmult2_eq pos_imp_zdiv_nonneg_iff)
  next
    case False
    have "0 \<le> (- x) div a" using False ab by (simp add: pos_imp_zdiv_nonneg_iff)
    moreover have "(- x) div a div b = (- x) div (a * b)" using ab by (simp add: zdiv_zmult2_eq)
    ultimately show ?thesis using False ab
      by (auto simp: signed_divide_int_def sgn_if)
  qed
qed

lemma units_agree:
  "elapsed_micro now s = elapsed_nano now s sdiv 1000" "elapsed now s = elapsed_micro now s sdiv 1000"
  "elapsed_seconds now s = elapsed now s sdiv 1000" "elapsed_minutes now s = elapsed_seconds now s sdiv 60"
  "elapsed_hours now s = elapsed_minutes now s sdiv 60"
  by (simp_all add: elapsed_micro_def elapsed_nano_def elapsed_def elapsed_seconds_def elapsed_minutes_def elapsed_hours_def sdiv_sdiv)

end
