(* ===== verification/TestProgram.thy ===== *)
theory TestProgram
  imports LinkClient EventLoop
begin

text \<open>
  The whole program of \<^verbatim>\<open>src/linker/c1/main.cpp\<close>: \<^verbatim>\<open>main\<close> reads the address of the server,
  starts the client of \<open>LinkClient\<close> on top of the connection of \<open>Tcp\<close>, and reads commands from
  the standard input while the thread of the client handles the events of the connection. Each
  turn of the input loop and each event is a step; they meet in the queue of messages.

  As in \<open>LinkClient\<close>, \<open>files\<close> and \<open>parses\<close> are the files and \<^verbatim>\<open>json::parse\<close>, \<open>case_xml\<close> is the file
  of the prepared case, and \<open>None\<close> is the end of the program by an exception or undefined
  behaviour. The network may answer differently at each step.
\<close>

section \<open>State and steps\<close>

record c1 =
  c1_conn :: client
  c1_test :: test_client
  c1_received :: "byte list"
  stdin_rest :: string
  stdin_failed :: bool
  c1_printed :: string

definition c1_value :: "string option \<Rightarrow> string \<Rightarrow> string" where
  "c1_value config_ini key = (case readConfigFile config_ini key of Some v \<Rightarrow> v | None \<Rightarrow> [])"

definition c1_params :: "string option \<Rightarrow> connection_params" where
  "c1_params config_ini = no_params\<lparr>address := c1_value config_ini ''ip'', port := c1_value config_ini ''port''\<rparr>"

definition c1_start :: "net \<Rightarrow> string option \<Rightarrow> string \<Rightarrow> c1 option" where
  "c1_start n config_ini stdin =
     map_option (\<lambda>(_, c). \<lparr>c1_conn = c, c1_test = new_test_client, c1_received = [], stdin_rest = stdin,
                           stdin_failed = False, c1_printed = []\<rparr>)
       (client_Start n (c1_params config_ini) new_client)"

text \<open>
  One turn of the loop over the standard input. A line of 120 characters or more, and the end
  of the input, make the stream fail: from then on \<^verbatim>\<open>getline\<close> stores the empty line, and the
  loop goes on. A last line without its end is still handled; the next call fails.
\<close>

definition c1_stdin ::
  "(options \<Rightarrow> options) \<Rightarrow> (string \<Rightarrow> byte list) \<Rightarrow> (byte list \<Rightarrow> bool) \<Rightarrow> string option \<Rightarrow> c1 \<Rightarrow> c1 option" where
  "c1_stdin iter files parses case_xml s =
     (if stdin_failed s then map_option (\<lambda>_. s) (input_line iter files parses case_xml [] (c1_test s))
      else
        (let (str, rest, eof, fail) = istream_getline 120 (stdin_rest s)
         in map_option (\<lambda>(out, t). s\<lparr>c1_test := t, c1_printed := c1_printed s @ out, stdin_rest := rest,
                                     stdin_failed := (eof \<or> fail)\<rparr>)
              (input_line iter files parses case_xml (c_str str) (c1_test s))))"

datatype c1_event =
    Bytes "byte list"
  | Turn int
  | Change net "bev_event set"
  | Timer net
  | Stdin

text \<open>A new connection has a new, empty buffer. \<^verbatim>\<open>OnConnected\<close> of the client only logs.\<close>

definition with_conn :: "client \<Rightarrow> c1 \<Rightarrow> c1" where
  "with_conn c s = s\<lparr>c1_conn := c, c1_received := (if bev c = bev (c1_conn s) then c1_received s else [])\<rparr>"

fun c1_step ::
  "(options \<Rightarrow> options) \<Rightarrow> (string \<Rightarrow> byte list) \<Rightarrow> (byte list \<Rightarrow> bool) \<Rightarrow> string option \<Rightarrow> c1_event \<Rightarrow> c1 \<Rightarrow> c1 option" where
  "c1_step iter files parses case_xml (Bytes bs) s =
     (if bev (c1_conn s) = None then Some s
      else map_option (\<lambda>(r, t). s\<lparr>c1_received := r, c1_test := t\<rparr>) (client_OnRead (c1_received s @ bs) (c1_test s)))"
| "c1_step iter files parses case_xml (Turn now) s =
     map_option (\<lambda>t. s\<lparr>c1_test := t\<rparr>) (client_OnLoop iter files parses (bev (c1_conn s) \<noteq> None) now (c1_test s))"
| "c1_step iter files parses case_xml (Change n es) s = Some (with_conn (OnEvent n es (c1_conn s)) s)"
| "c1_step iter files parses case_xml (Timer n) s =
     (if timers_armed (c1_conn s) = 0 then Some s
      else map_option (\<lambda>c. with_conn c s) (OnTimeout n (c1_conn s)))"
| "c1_step iter files parses case_xml Stdin s = c1_stdin iter files parses case_xml s"

fun c1_run ::
  "(options \<Rightarrow> options) \<Rightarrow> (string \<Rightarrow> byte list) \<Rightarrow> (byte list \<Rightarrow> bool) \<Rightarrow> string option \<Rightarrow> c1_event list \<Rightarrow> c1 \<Rightarrow> c1 option" where
  "c1_run iter files parses case_xml [] s = Some s"
| "c1_run iter files parses case_xml (e # es) s =
     Option.bind (c1_step iter files parses case_xml e s) (c1_run iter files parses case_xml es)"

definition c1_main ::
  "(options \<Rightarrow> options) \<Rightarrow> (string \<Rightarrow> byte list) \<Rightarrow> (byte list \<Rightarrow> bool) \<Rightarrow> string option \<Rightarrow> net \<Rightarrow> string option \<Rightarrow> string \<Rightarrow>
   c1_event list \<Rightarrow> c1 option" where
  "c1_main iter files parses case_xml n config_ini stdin es =
     Option.bind (c1_start n config_ini stdin) (c1_run iter files parses case_xml es)"

text \<open>
  The destructor of a client: the connection is closed, the loop told to stop and waited for. The
  data of the client is only freed when there was a thread, which is the last part of the result.
\<close>

definition client_destroy :: "bool \<Rightarrow> client \<Rightarrow> 'u wrapper \<Rightarrow> client \<times> 'u wrapper \<times> bool" where
  "client_destroy joinable c w = (Stop c, wrapper_Stop w, joinable)"

section \<open>The input\<close>

text \<open>Once the input has failed, no turn of its loop does anything.\<close>

lemma failed_input: "stdin_failed s \<Longrightarrow> c1_step iter files parses case_xml Stdin s = Some s"
  by (simp add: c1_stdin_def input_line_def)

lemma stdin_failed_stays:
  assumes "c1_step iter files parses case_xml e s = Some s'" "stdin_failed s" shows "stdin_failed s'"
proof (cases e)
  case Stdin
  then show ?thesis using assms by (simp only: failed_input) simp
qed (use assms in \<open>auto simp: with_conn_def split: if_splits\<close>)

definition is_stdin :: "c1_event \<Rightarrow> bool" where "is_stdin e = (e = Stdin)"

lemma failed_input_run:
  "stdin_failed s \<Longrightarrow> c1_run iter files parses case_xml es s = c1_run iter files parses case_xml (filter (\<lambda>e. \<not> is_stdin e) es) s"
proof (induction es arbitrary: s)
  case (Cons e es)
  show ?case
  proof (cases "is_stdin e")
    case True
    then show ?thesis using Cons by (simp add: is_stdin_def failed_input del: c1_step.simps)
  next
    case False
    then show ?thesis using Cons stdin_failed_stays[of iter files parses case_xml e s]
      by (cases "c1_step iter files parses case_xml e s") (simp_all del: c1_step.simps)
  qed
qed simp

text \<open>
  A line of fewer than 120 characters is handed to \<open>input_line\<close> as it is; after one that is longer
  the program goes on as if there were no input: every later command is lost.
\<close>

lemma short_line:
  assumes "\<not> stdin_failed s" "stdin_rest s = l @ newline # rest" "length l < 120" "newline \<notin> set l" "CHR 0x00 \<notin> set l"
  shows "c1_step iter files parses case_xml Stdin s =
    map_option (\<lambda>(out, t). s\<lparr>c1_test := t, c1_printed := c1_printed s @ out, stdin_rest := rest\<rparr>)
      (input_line iter files parses case_xml l (c1_test s))"
proof -
  have "takeWhile (\<lambda>c. c \<noteq> newline) (l @ newline # rest) = l" using assms(4) by (auto simp: takeWhile_append)
  then have g: "istream_getline 120 (stdin_rest s) = (l, rest, False, False)"
    using assms(2,3) by (simp add: istream_getline_def Let_def)
  have "c_str l = l" using assms(5) by (auto simp: c_str_def takeWhile_eq_all_conv)
  then show ?thesis using assms(1) by (auto simp: c1_stdin_def g intro!: option.map_cong)
qed

theorem long_line_ends_input:
  assumes "\<not> stdin_failed s" "120 \<le> length l" "newline \<notin> set l" "stdin_rest s = l @ rest"
    and "c1_step iter files parses case_xml Stdin s = Some s'"
  shows "c1_run iter files parses case_xml es s' = c1_run iter files parses case_xml (filter (\<lambda>e. \<not> is_stdin e) es) s'"
proof -
  have "length l \<le> length (takeWhile (\<lambda>c. c \<noteq> newline) (l @ rest))"
    using assms(3) by (subst takeWhile_append2) auto
  then have "istream_getline 120 (stdin_rest s) = (take 119 (l @ rest), drop 119 (l @ rest), False, True)"
    using assms(2,4) by (auto simp: istream_getline_def Let_def)
  then have "stdin_failed s'" using assms(1,5) by (auto simp: c1_stdin_def)
  then show ?thesis by (rule failed_input_run)
qed

section \<open>The connection\<close>

lemma c1_params_plain: "plain (new_client\<lparr>is_started := True, cparams := c1_params cf\<rparr>)"
  by (simp add: plain_def new_client_def c1_params_def no_params_def)

text \<open>
  With a configuration file of lines \<open>key=value\<close> that has an address and a port, the program
  starts, and has a connection exactly when that address can be reached.
\<close>

theorem c1_connects_as_configured:
  assumes "list_all config_ok kvs" "map_of kvs ''ip'' = Some ip" "map_of kvs ''port'' = Some prt" "resolver_ok n"
  shows "\<exists>s. c1_start n (Some (concat (map config_line kvs))) stdin = Some s \<and>
    cparams (c1_conn s) = no_params\<lparr>address := ip, port := prt\<rparr> \<and> (bev (c1_conn s) \<noteq> None) = reachable n (ip, prt)"
proof -
  let ?f = "Some (concat (map config_line kvs))"
  have p: "c1_params ?f = no_params\<lparr>address := ip, port := prt\<rparr>"
    using readConfigFile_table[OF assms(1)] assms(2,3) by (simp add: c1_params_def c1_value_def)
  define c where "c = new_client\<lparr>is_started := True, cparams := c1_params ?f\<rparr>"
  have cp: "plain c" "cparams c = no_params\<lparr>address := ip, port := prt\<rparr>" "bev c = None" "\<not> ssl c"
    unfolding c_def using c1_params_plain[of ?f] p by (simp_all add: new_client_def)
  have t: "offered n c = []" "default_target c = (ip, prt)"
    by (simp_all add: cp offered_def default_target_def no_params_def)
  obtain r c' where c': "Connect n c = Some (r, c')" "(r = 0) = (bev c' \<noteq> None)" "(r = 0) = reachable n (ip, prt)"
    using connect_takes_first_reachable_aux[OF cp(1) assms(4)] t by (auto simp: candidate_def)
  have cp': "cparams c' = cparams c"
    using c'(1) cp by (auto simp: Connect_def no_params_def Let_def connect_default_def connect_to_def Close_def
        bufferevent_free_def split: if_splits prod.splits)
  have "\<not> is_started new_client" by (simp add: new_client_def)
  then have "c1_start n ?f stdin = Some \<lparr>c1_conn = c', c1_test = new_test_client, c1_received = [], stdin_rest = stdin,
      stdin_failed = False, c1_printed = []\<rparr>"
    using c'(1) by (simp add: c1_start_def client_Start_def c_def)
  then show ?thesis using c'(2,3) cp(2) cp' by simp
qed

theorem c1_connects_as_configured_witness:
  "\<exists>s. c1_start demo_net (Some (concat (map config_line [(''ip'', ''a''), (''port'', ''8888'')]))) [] = Some s \<and>
     bev (c1_conn s) \<noteq> None"
  using c1_connects_as_configured[of "[(''ip'', ''a''), (''port'', ''8888'')]" "''a''" "''8888''" demo_net "[]"]
  by (auto simp: config_ok_def newline_def resolver_ok_def reachable_def demo_net_def)

end
